(* ===== verification/Relay_Prelude.thy ===== *)
theory Relay_Prelude
  imports Main "HOL-Library.Word" "HOL-Library.AList" "HOL-Library.Char_ord"
    "HOL-Library.List_Lexorder"
begin

text \<open>
  What the components share: Go's fixed-width integers, the string functions of Go's standard
  library that the relay calls, hexadecimal decoding, association lists for Go's maps, and the
  list lemmas the component proofs use.

  A Go \<open>string\<close> is a sequence of bytes; it is modelled as \<^typ>\<open>string\<close> (a list of
  \<^typ>\<open>char\<close>, one per byte), ordered bytewise as Go's \<open>\<le>\<close> orders strings.
  Case mapping is modelled on ASCII bytes (the protocol words, hexadecimal ids and host names
  the relay folds are ASCII); trimming handles every Unicode white space that
  \<open>strings.TrimSpace\<close> removes.

  A Go map is an association list with distinct keys: the list order is one possible iteration
  order, which Go leaves open.
\<close>

named_theorems go_defs "definitions unfolded to compute"
named_theorems model_simps "rewrite rules the component proofs share"

type_synonym 'a result = "string + 'a"
type_synonym ('k, 'v) go_map = "('k \<times> 'v) list"

section \<open>Signed 64-bit integers\<close>

definition wrap64 :: "int \<Rightarrow> int" where
  "wrap64 x = (x + 2 ^ 63) mod 2 ^ 64 - 2 ^ 63"

definition int64_range :: "int \<Rightarrow> bool" where
  "int64_range x \<longleftrightarrow> - (2 ^ 63) \<le> x \<and> x < 2 ^ 63"

definition sub64 :: "int \<Rightarrow> int \<Rightarrow> int" where
  "sub64 a b = wrap64 (a - b)"

definition neg64 :: "int \<Rightarrow> int" where
  "neg64 a = wrap64 (- a)"

lemma wrap64_range: "int64_range (wrap64 x)"
  by (simp add: wrap64_def int64_range_def)

lemma wrap64_id [model_simps]: "int64_range x \<Longrightarrow> wrap64 x = x"
  by (simp add: wrap64_def int64_range_def)

lemma wrap64_under:
  assumes "- (2 ^ 63) - 2 ^ 64 \<le> x" "x < - (2 ^ 63)"
  shows "wrap64 x = x + 2 ^ 64"
proof -
  have "(x + 2 ^ 63) mod 2 ^ 64 = (x + 2 ^ 63 + 2 ^ 64) mod 2 ^ 64" by (rule mod_add_self2 [symmetric])
  also have "\<dots> = x + 2 ^ 63 + 2 ^ 64" using assms by (intro mod_pos_pos_trivial) auto
  finally show ?thesis by (simp add: wrap64_def)
qed

lemma wrap64_over:
  assumes "2 ^ 63 \<le> x" "x < 2 ^ 63 + 2 ^ 64"
  shows "wrap64 x = x - 2 ^ 64"
proof -
  have "(x + 2 ^ 63) mod 2 ^ 64 = (x + 2 ^ 63 - 2 ^ 64) mod 2 ^ 64" by (rule minus_mod_self2 [symmetric])
  also have "\<dots> = x + 2 ^ 63 - 2 ^ 64" using assms by (intro mod_pos_pos_trivial) auto
  finally show ?thesis by (simp add: wrap64_def)
qed

lemma wrap64_word: "wrap64 x = sint (word_of_int x :: 64 word)"
  by (simp add: wrap64_def int_word_sint)

section \<open>Strings\<close>

definition byte :: "char \<Rightarrow> nat" where
  "byte c = of_char c"

definition is_space1 :: "char \<Rightarrow> bool" where
  "is_space1 c \<longleftrightarrow> byte c \<in> {9, 10, 11, 12, 13, 32}"

definition is_space2 :: "char \<Rightarrow> char \<Rightarrow> bool" where
  "is_space2 a b \<longleftrightarrow> byte a = 194 \<and> byte b \<in> {133, 160}"

definition is_space3 :: "char \<Rightarrow> char \<Rightarrow> char \<Rightarrow> bool" where
  "is_space3 a b c \<longleftrightarrow>
     byte a = 225 \<and> byte b = 154 \<and> byte c = 128 \<or>
     byte a = 226 \<and> byte b = 128 \<and> (128 \<le> byte c \<and> byte c \<le> 138 \<or> byte c \<in> {168, 169, 175}) \<or>
     byte a = 226 \<and> byte b = 129 \<and> byte c = 159 \<or>
     byte a = 227 \<and> byte b = 128 \<and> byte c = 128"

fun trim_start_by :: "(char \<Rightarrow> char \<Rightarrow> bool) \<Rightarrow> (char \<Rightarrow> char \<Rightarrow> char \<Rightarrow> bool) \<Rightarrow> string \<Rightarrow> string" where
  "trim_start_by p2 p3 [] = []"
| "trim_start_by p2 p3 [a] = (if is_space1 a then [] else [a])"
| "trim_start_by p2 p3 [a, b] =
     (if is_space1 a then trim_start_by p2 p3 [b]
      else if p2 a b then [] else [a, b])"
| "trim_start_by p2 p3 (a # b # c # s) =
     (if is_space1 a then trim_start_by p2 p3 (b # c # s)
      else if p2 a b then trim_start_by p2 p3 (c # s)
      else if p3 a b c then trim_start_by p2 p3 s
      else a # b # c # s)"

definition trim_space :: "string \<Rightarrow> string" where
  "trim_space s =
     rev (trim_start_by (\<lambda>a b. is_space2 b a) (\<lambda>a b c. is_space3 c b a)
       (rev (trim_start_by is_space2 is_space3 s)))"

definition lower_char :: "char \<Rightarrow> char" where
  "lower_char c = (if 65 \<le> byte c \<and> byte c \<le> 90 then char_of (byte c + 32) else c)"

definition to_lower :: "string \<Rightarrow> string" where
  "to_lower s = map lower_char s"

definition equal_fold :: "string \<Rightarrow> string \<Rightarrow> bool" where
  "equal_fold a b \<longleftrightarrow> to_lower a = to_lower b"

definition has_prefix :: "string \<Rightarrow> string \<Rightarrow> bool" where
  "has_prefix s p \<longleftrightarrow> take (length p) s = p"

definition trim_prefix :: "string \<Rightarrow> string \<Rightarrow> string" where
  "trim_prefix s p = (if has_prefix s p then drop (length p) s else s)"

fun show_nat :: "nat \<Rightarrow> string" where
  "show_nat n = (if n < 10 then [char_of (48 + n)] else show_nat (n div 10) @ [char_of (48 + n mod 10)])"

definition show_int :: "int \<Rightarrow> string" where
  "show_int i = (if i < 0 then ''-'' @ show_nat (nat (- i)) else show_nat (nat i))"

declare show_nat.simps [simp del]

lemma has_prefix_append [simp]: "has_prefix (p @ s) p"
  by (simp add: has_prefix_def)

lemma trim_prefix_append [simp]: "trim_prefix (p @ s) p = s"
  by (simp add: trim_prefix_def)

lemma length_to_lower [simp]: "length (to_lower s) = length s"
  by (simp add: to_lower_def)

lemma to_lower_Nil [simp]: "to_lower [] = []"
  by (simp add: to_lower_def)

lemma to_lower_eq_Nil [simp]: "to_lower s = [] \<longleftrightarrow> s = []"
  by (simp add: to_lower_def)

lemma byte_char_of [simp]: "n < 256 \<Longrightarrow> byte (char_of n) = n"
  by (simp add: byte_def)

lemma byte_less [simp]: "byte c < 256"
  using nat_of_char_less_256 by (simp add: byte_def)

lemma lower_char_idem [simp]: "lower_char (lower_char c) = lower_char c"
  by (auto simp: lower_char_def)

lemma to_lower_idem [simp]: "to_lower (to_lower s) = to_lower s"
  by (simp add: to_lower_def)

lemma equal_fold_refl [simp]: "equal_fold a a"
  by (simp add: equal_fold_def)

lemma trim_space_Nil [simp]: "trim_space [] = []"
  by (simp add: trim_space_def)

text \<open>Trimming is idempotent: what is left starts and ends with no white space.\<close>

definition space_front :: "(char \<Rightarrow> char \<Rightarrow> bool) \<Rightarrow> (char \<Rightarrow> char \<Rightarrow> char \<Rightarrow> bool) \<Rightarrow> string \<Rightarrow> bool" where
  "space_front p2 p3 s \<longleftrightarrow>
     (\<exists>a t. s = a # t \<and> is_space1 a) \<or> (\<exists>a b t. s = a # b # t \<and> p2 a b) \<or>
     (\<exists>a b c t. s = a # b # c # t \<and> p3 a b c)"

lemma trim_start_not_front: "\<not> space_front p2 p3 (trim_start_by p2 p3 s)"
  by (induction p2 p3 s rule: trim_start_by.induct) (auto simp: space_front_def)

lemma trim_start_id: "\<not> space_front p2 p3 s \<Longrightarrow> trim_start_by p2 p3 s = s"
  by (induction p2 p3 s rule: trim_start_by.induct) (auto simp: space_front_def)

lemma trim_start_suffix: "\<exists>pre. s = pre @ trim_start_by p2 p3 s"
proof (induction p2 p3 s rule: trim_start_by.induct)
  case (4 p2 p3 a b c s)
  then show ?case
    by (simp, metis append_Cons append_Nil)
qed auto

lemma space_front_append: "space_front p2 p3 s \<Longrightarrow> space_front p2 p3 (s @ t)"
  unfolding space_front_def by auto

lemma trim_space_idem [simp]: "trim_space (trim_space s) = trim_space s"
proof -
  let ?q2 = "\<lambda>a b. is_space2 b a" and ?q3 = "\<lambda>a b c. is_space3 c b a"
  define t where "t = trim_start_by is_space2 is_space3 s"
  define u where "u = trim_start_by ?q2 ?q3 (rev t)"
  obtain pre where "rev t = pre @ u"
    using trim_start_suffix unfolding u_def by blast
  then have "t = rev u @ rev pre"
    by (metis rev_append rev_rev_ident)
  moreover have "\<not> space_front is_space2 is_space3 t"
    unfolding t_def by (rule trim_start_not_front)
  ultimately have "\<not> space_front is_space2 is_space3 (rev u)"
    using space_front_append by metis
  moreover have "\<not> space_front ?q2 ?q3 u"
    unfolding u_def by (rule trim_start_not_front)
  ultimately show ?thesis
    by (simp add: trim_space_def trim_start_id flip: t_def u_def)
qed

section \<open>Hexadecimal\<close>

definition hex_val :: "char \<Rightarrow> nat option" where
  "hex_val c =
     (let n = byte c in
      if 48 \<le> n \<and> n \<le> 57 then Some (n - 48)
      else if 97 \<le> n \<and> n \<le> 102 then Some (n - 87)
      else if 65 \<le> n \<and> n \<le> 70 then Some (n - 55)
      else None)"

fun hex_decode :: "string \<Rightarrow> nat list option" where
  "hex_decode [] = Some []"
| "hex_decode [a] = None"
| "hex_decode (a # b # s) =
     (case (hex_val a, hex_val b, hex_decode s) of
        (Some x, Some y, Some bs) \<Rightarrow> Some ((16 * x + y) # bs)
      | _ \<Rightarrow> None)"

lemma hex_decode_length: "hex_decode s = Some bs \<Longrightarrow> length s = 2 * length bs"
  by (induction s arbitrary: bs rule: hex_decode.induct) (auto split: option.splits)

lemma hex_decode_iff:
  "hex_decode s \<noteq> None \<longleftrightarrow> even (length s) \<and> (\<forall>c \<in> set s. hex_val c \<noteq> None)"
  by (induction s rule: hex_decode.induct) (auto split: option.splits)

text \<open>Lower-casing keeps white space and the value of a hexadecimal digit.\<close>

lemma byte_lower_char:
  "byte (lower_char c) = (if 65 \<le> byte c \<and> byte c \<le> 90 then byte c + 32 else byte c)"
  by (simp add: lower_char_def)

lemma is_space_lower [simp]:
  "is_space1 (lower_char a) = is_space1 a"
  "is_space2 (lower_char a) (lower_char b) = is_space2 a b"
  "is_space3 (lower_char a) (lower_char b) (lower_char c) = is_space3 a b c"
  by (auto simp: is_space1_def is_space2_def is_space3_def byte_lower_char)

lemma trim_start_by_lower:
  assumes "\<And>a b. p2 (lower_char a) (lower_char b) = p2 a b"
    and "\<And>a b c. p3 (lower_char a) (lower_char b) (lower_char c) = p3 a b c"
  shows "trim_start_by p2 p3 (map lower_char s) = map lower_char (trim_start_by p2 p3 s)"
  using assms by (induction p2 p3 s rule: trim_start_by.induct) auto

lemma trim_space_to_lower: "trim_space (to_lower s) = to_lower (trim_space s)"
  by (simp add: trim_space_def to_lower_def trim_start_by_lower rev_map)

lemma hex_val_lower [simp]: "hex_val (lower_char c) = hex_val c"
  by (auto simp: hex_val_def byte_lower_char Let_def)

lemma hex_decode_to_lower: "hex_decode (to_lower s) = hex_decode s"
  unfolding to_lower_def by (induction s rule: hex_decode.induct) auto

section \<open>Maps\<close>

text \<open>
  \<open>m[k] = v\<close> is \<^const>\<open>AList.update\<close>, \<open>delete(m, k)\<close> is \<^const>\<open>AList.delete\<close>,
  a lookup is \<^const>\<open>map_of\<close>; the keys stay distinct.
\<close>

lemmas go_map_simps [model_simps] =
  update_conv' delete_conv' AList.distinct_update AList.distinct_delete dom_update

lemma map_of_update [simp]: "map_of (AList.update k v m) = (map_of m)(k \<mapsto> v)"
  by (simp add: update_conv')

lemma map_of_delete_eq [simp]: "map_of (AList.delete k m) = (map_of m)(k := None)"
  by (simp add: delete_conv')

lemma length_update:
  "length (AList.update k v m) = (if map_of m k = None then Suc (length m) else length m)"
  by (induction m) auto

lemma length_card_dom: "distinct (map fst m) \<Longrightarrow> length m = card (dom (map_of m))"
  by (metis distinct_card dom_map_of_conv_image_fst image_set length_map)

lemma length_delete:
  assumes "distinct (map fst m)"
  shows "length (AList.delete k m) = (if map_of m k = None then length m else length m - 1)"
proof -
  have "length (AList.delete k m) = card (dom (map_of m) - {k})"
    using assms by (simp add: length_card_dom AList.distinct_delete)
  then show ?thesis
    using assms by (auto simp: length_card_dom card_Diff_singleton_if finite_dom_map_of)
qed

section \<open>Lists\<close>

text \<open>A Go loop that returns at the first element satisfying a test.\<close>

lemma find_Some_set: "find P xs = Some x \<Longrightarrow> x \<in> set xs \<and> P x"
  by (auto simp: find_Some_iff)

lemma dropWhile_filter_sorted:
  assumes "sorted_wrt (\<le>) (map f xs)"
  shows "dropWhile (\<lambda>x. f x < (c::'b::linorder)) xs = filter (\<lambda>x. c \<le> f x) xs"
  using assms
proof (induction xs)
  case (Cons x xs)
  show ?case
  proof (cases "f x < c")
    case True
    with Cons show ?thesis by auto
  next
    case False
    with Cons.prems have "\<forall>y \<in> set xs. c \<le> f y" by fastforce
    with False show ?thesis by (simp add: not_less)
  qed
qed simp

end
