(* ===== verification/Nostr_Event.thy ===== *)
theory Nostr_Event
  imports Relay_Prelude
begin

text \<open>
  Events, kinds and the NIP-29 tag helpers: \<open>internal/nostr/event.go\<close>,
  \<open>internal/nostr/kinds.go\<close> and \<open>internal/nostr/nip29.go\<close>.

  The hash is SHA-256 in hexadecimal and the signature scheme is btcec's Schnorr; both stand
  for code outside the repository and are the fields of \<open>crypto\<close>, an argument of the
  checks. The JSON text of an event's serialization is the argument's \<open>cx_encode\<close>, applied
  to the six fields the code puts in its array, in its order.
\<close>

section \<open>Event\<close>

record event =
  ev_id :: string
  ev_pubkey :: string
  ev_created_at :: int
  ev_kind :: int
  ev_tags :: "string list list"
  ev_content :: string
  ev_sig :: string

section \<open>Kind classes\<close>

datatype kind_class = KindRegular | KindReplaceable | KindEphemeral | KindAddressable

definition classify_kind :: "int \<Rightarrow> kind_class" where
  "classify_kind kind =
     (if 20000 \<le> kind \<and> kind < 30000 then KindEphemeral
      else if 30000 \<le> kind \<and> kind < 40000 then KindAddressable
      else if kind = 0 \<or> kind = 3 \<or> (10000 \<le> kind \<and> kind < 20000) then KindReplaceable
      else if kind = 1 \<or> kind = 2 \<or> (4 \<le> kind \<and> kind < 45) \<or> (1000 \<le> kind \<and> kind < 10000)
        then KindRegular
      else KindRegular)"

definition is_regular :: "int \<Rightarrow> bool" where
  "is_regular kind \<longleftrightarrow> classify_kind kind = KindRegular"

definition is_replaceable :: "int \<Rightarrow> bool" where
  "is_replaceable kind \<longleftrightarrow> classify_kind kind = KindReplaceable"

definition is_ephemeral :: "int \<Rightarrow> bool" where
  "is_ephemeral kind \<longleftrightarrow> classify_kind kind = KindEphemeral"

definition is_addressable :: "int \<Rightarrow> bool" where
  "is_addressable kind \<longleftrightarrow> classify_kind kind = KindAddressable"

lemmas kind_class_defs [go_defs] =
  classify_kind_def is_regular_def is_replaceable_def is_ephemeral_def is_addressable_def

section \<open>Identity and signature\<close>

datatype id_field = IF_int int | IF_str string | IF_tags "string list list"

record crypto =
  cx_encode :: "id_field list \<Rightarrow> string"
  cx_sha256_hex :: "string \<Rightarrow> string"
  cx_parse_sig_ok :: "nat list \<Rightarrow> string option"
  cx_parse_pubkey_ok :: "nat list \<Rightarrow> string option"
  cx_schnorr_verify :: "nat list \<Rightarrow> nat list \<Rightarrow> nat list \<Rightarrow> bool"

definition serialize_for_id :: "crypto \<Rightarrow> event \<Rightarrow> string" where
  "serialize_for_id cx e =
     cx_encode cx [IF_int 0, IF_str (ev_pubkey e), IF_int (ev_created_at e), IF_int (ev_kind e),
       IF_tags (ev_tags e), IF_str (ev_content e)]"

definition compute_id :: "crypto \<Rightarrow> event \<Rightarrow> string \<times> event" where
  "compute_id cx e = (let i = cx_sha256_hex cx (serialize_for_id cx e) in (i, e\<lparr>ev_id := i\<rparr>))"

definition verify_id :: "crypto \<Rightarrow> event \<Rightarrow> string option" where
  "verify_id cx e =
     (let want = cx_sha256_hex cx (serialize_for_id cx e) in
      if ev_id e \<noteq> want
      then Some (''nostr: id mismatch (want '' @ want @ '', got '' @ ev_id e @ '')'')
      else None)"

definition verify_sig :: "crypto \<Rightarrow> event \<Rightarrow> string option" where
  "verify_sig cx e =
     (case verify_id cx e of
        Some err \<Rightarrow> Some err
      | None \<Rightarrow>
     (case hex_decode (ev_id e) of
        None \<Rightarrow> Some ''nostr: decode id: invalid hex''
      | Some id_bytes \<Rightarrow>
     (if length id_bytes \<noteq> 32 then Some ''nostr: id must be 32 bytes hex'' else
     (case hex_decode (ev_sig e) of
        None \<Rightarrow> Some ''nostr: decode sig: invalid hex''
      | Some sig_bytes \<Rightarrow>
     (case cx_parse_sig_ok cx sig_bytes of
        Some err \<Rightarrow> Some (''nostr: parse sig: '' @ err)
      | None \<Rightarrow>
     (case hex_decode (ev_pubkey e) of
        None \<Rightarrow> Some ''nostr: decode pubkey: invalid hex''
      | Some pk_bytes \<Rightarrow>
     (if length pk_bytes \<noteq> 32 then Some ''nostr: pubkey must be 32 bytes (x-only) hex'' else
     (case cx_parse_pubkey_ok cx pk_bytes of
        Some err \<Rightarrow> Some (''nostr: parse pubkey: '' @ err)
      | None \<Rightarrow>
     (if \<not> cx_schnorr_verify cx sig_bytes id_bytes pk_bytes
      then Some ''nostr: invalid signature'' else None)))))))))"

lemma verify_sig_NoneD:
  assumes "verify_sig cx e = None"
  shows "ev_id e = cx_sha256_hex cx (serialize_for_id cx e)"
    and "\<exists>i s p. hex_decode (ev_id e) = Some i \<and> length i = 32 \<and> hex_decode (ev_sig e) = Some s \<and>
      hex_decode (ev_pubkey e) = Some p \<and> length p = 32 \<and> cx_parse_sig_ok cx s = None \<and>
      cx_parse_pubkey_ok cx p = None \<and> cx_schnorr_verify cx s i p"
  using assms by (auto simp: verify_sig_def verify_id_def Let_def split: option.splits if_splits)

lemma compute_id_verify: "verify_id cx (snd (compute_id cx e)) = None"
  by (simp add: compute_id_def verify_id_def serialize_for_id_def Let_def)

section \<open>NIP-29 tags\<close>

definition NIP29KindGroupMetadata :: int where "NIP29KindGroupMetadata = 39000"
definition NIP29KindGroupAdmins :: int where "NIP29KindGroupAdmins = 39001"
definition NIP29KindPutUser :: int where "NIP29KindPutUser = 9000"
definition NIP29KindRemoveUser :: int where "NIP29KindRemoveUser = 9001"
definition NIP29KindCreateGroup :: int where "NIP29KindCreateGroup = 9007"
definition NIP29KindDeleteGroup :: int where "NIP29KindDeleteGroup = 9008"
definition NIP29KindJoinRequest :: int where "NIP29KindJoinRequest = 9021"
definition NIP29KindLeaveReq :: int where "NIP29KindLeaveReq = 9022"

lemmas nip29_kind_defs [go_defs] =
  NIP29KindGroupMetadata_def NIP29KindGroupAdmins_def NIP29KindPutUser_def NIP29KindRemoveUser_def
  NIP29KindCreateGroup_def NIP29KindDeleteGroup_def NIP29KindJoinRequest_def NIP29KindLeaveReq_def

text \<open>The loops skip a tag that is no nonempty \<open>h\<close> tag; \<open>found\<close> is the loop's flag.\<close>

definition is_h_tag :: "string list \<Rightarrow> bool" where
  "is_h_tag t \<longleftrightarrow> length t \<ge> 2 \<and> t ! 0 = ''h'' \<and> t ! 1 \<noteq> []"

fun h_tags_valid_loop :: "bool \<Rightarrow> string list list \<Rightarrow> bool" where
  "h_tags_valid_loop found [] = True"
| "h_tags_valid_loop found (t # ts) =
     (if \<not> is_h_tag t then h_tags_valid_loop found ts
      else if found then False
      else h_tags_valid_loop True ts)"

definition nip29_group_h_tags_valid :: "event \<Rightarrow> bool" where
  "nip29_group_h_tags_valid ev = h_tags_valid_loop False (ev_tags ev)"

fun group_h_tag_loop :: "string list list \<Rightarrow> string" where
  "group_h_tag_loop [] = []"
| "group_h_tag_loop (t # ts) = (if is_h_tag t then t ! 1 else group_h_tag_loop ts)"

definition nip29_group_h_tag :: "event \<Rightarrow> string" where
  "nip29_group_h_tag ev = group_h_tag_loop (ev_tags ev)"

definition nip29_previous_tag_values :: "event \<Rightarrow> string list" where
  "nip29_previous_tag_values ev =
     map (\<lambda>t. t ! 1) (filter (\<lambda>t. length t \<ge> 2 \<and> t ! 0 = ''previous'' \<and> t ! 1 \<noteq> []) (ev_tags ev))"

definition nip29_is_valid_previous_prefix :: "string \<Rightarrow> bool" where
  "nip29_is_valid_previous_prefix s =
     (let s = trim_space (to_lower s) in
      if length s \<noteq> 8 then False else hex_decode s \<noteq> None)"

definition nip29_is_moderation_kind :: "int \<Rightarrow> bool" where
  "nip29_is_moderation_kind kind \<longleftrightarrow> 9000 \<le> kind \<and> kind \<le> 9020"

definition nip29_metadata_has_bare_tag :: "event \<Rightarrow> string \<Rightarrow> bool" where
  "nip29_metadata_has_bare_tag ev name =
     (if name = [] then False
      else list_ex (\<lambda>t. length t \<noteq> 0 \<and> t ! 0 = name) (ev_tags ev))"

text \<open>A nil event is \<^const>\<open>None\<close>.\<close>

definition nip29_metadata_is_private :: "event option \<Rightarrow> bool" where
  "nip29_metadata_is_private md =
     (case md of None \<Rightarrow> False
      | Some e \<Rightarrow> ev_kind e = NIP29KindGroupMetadata \<and> nip29_metadata_has_bare_tag e ''private'')"

definition nip29_metadata_is_restricted :: "event option \<Rightarrow> bool" where
  "nip29_metadata_is_restricted md =
     (case md of None \<Rightarrow> False
      | Some e \<Rightarrow> ev_kind e = NIP29KindGroupMetadata \<and> nip29_metadata_has_bare_tag e ''restricted'')"

definition nip29_metadata_is_closed :: "event option \<Rightarrow> bool" where
  "nip29_metadata_is_closed md =
     (case md of None \<Rightarrow> False
      | Some e \<Rightarrow> ev_kind e = NIP29KindGroupMetadata \<and> nip29_metadata_has_bare_tag e ''closed'')"

definition nip29_admins39001_contains_pubkey :: "event option \<Rightarrow> string \<Rightarrow> bool" where
  "nip29_admins39001_contains_pubkey admins pubkey =
     (case admins of
        None \<Rightarrow> False
      | Some a \<Rightarrow>
          if ev_kind a \<noteq> NIP29KindGroupAdmins \<or> pubkey = [] then False
          else let want = trim_space pubkey in
            if want = [] then False
            else list_ex (\<lambda>t. length t \<ge> 2 \<and> t ! 0 = ''p'' \<and> equal_fold (trim_space (t ! 1)) want)
                   (ev_tags a))"

lemma h_tags_valid_loop_iff:
  "h_tags_valid_loop found ts \<longleftrightarrow>
     length (filter is_h_tag ts) \<le> (if found then 0 else 1)"
  by (induction ts arbitrary: found) auto

lemma group_h_tag_loop_eq:
  "group_h_tag_loop ts = (case filter is_h_tag ts of [] \<Rightarrow> [] | t # _ \<Rightarrow> t ! 1)"
  by (induction ts) auto

text \<open>With valid \<open>h\<close> tags, a nonempty \<open>h\<close> value on the event is the group the policy looks at.\<close>

lemma group_h_tag_unique:
  assumes "nip29_group_h_tags_valid ev" "t \<in> set (ev_tags ev)" "is_h_tag t"
  shows "nip29_group_h_tag ev = t ! 1"
proof -
  have "t \<in> set (filter is_h_tag (ev_tags ev))"
    using assms by simp
  then show ?thesis
    using assms(1)
    by (cases "filter is_h_tag (ev_tags ev)")
      (auto simp: nip29_group_h_tags_valid_def nip29_group_h_tag_def h_tags_valid_loop_iff
        group_h_tag_loop_eq simp del: set_filter)
qed

lemma group_h_tag_empty_iff:
  "nip29_group_h_tag ev = [] \<longleftrightarrow> (\<forall>t \<in> set (ev_tags ev). \<not> is_h_tag t)"
proof -
  have "group_h_tag_loop ts = [] \<longleftrightarrow> (\<forall>t \<in> set ts. \<not> is_h_tag t)" for ts
    by (induction ts) (auto simp: is_h_tag_def)
  then show ?thesis by (simp add: nip29_group_h_tag_def)
qed

section \<open>Properties\<close>

text \<open>The four kind classes partition the kinds exactly along NIP-01's ranges: ephemeral is
  20000-29999, addressable 30000-39999, replaceable 0, 3 and 10000-19999, and every other kind
  is regular.\<close>

theorem classify_kind_ranges:
  "is_ephemeral k = (20000 \<le> k \<and> k \<le> 29999) \<and>
   is_addressable k = (30000 \<le> k \<and> k \<le> 39999) \<and>
   is_replaceable k = (k = 0 \<or> k = 3 \<or> (10000 \<le> k \<and> k \<le> 19999)) \<and>
   is_regular k = (\<not> is_ephemeral k \<and> \<not> is_addressable k \<and> \<not> is_replaceable k)"
  by (auto simp: go_defs)

text \<open>An event names one group exactly when its \<open>h\<close> tags are valid: if the check passes,
  every nonempty \<open>h\<close> value a filter could match on is the value whose group policy the relay
  consults, so an event cannot be indexed under a group whose policy was not checked.\<close>

theorem group_policy_covers_every_h_tag:
  assumes "nip29_group_h_tags_valid ev" and "[''h'', g] @ rest \<in> set (ev_tags ev)" and "g \<noteq> []"
  shows "nip29_group_h_tag ev = g"
  using group_h_tag_unique [OF assms(1,2)] assms(3) by (simp add: is_h_tag_def)

theorem group_policy_covers_every_h_tag_witness:
  "nip29_group_h_tag \<lparr>ev_id = [], ev_pubkey = [], ev_created_at = 0, ev_kind = 9,
     ev_tags = [[''p'', ''x''], [''h'', ''g1'']], ev_content = [], ev_sig = []\<rparr> = ''g1''"
  by (rule group_policy_covers_every_h_tag [where rest = "[]"])
    (simp_all add: nip29_group_h_tags_valid_def is_h_tag_def)

end
