(* ===== verification/Nostr_Filter.thy ===== *)
theory Nostr_Filter
  imports Nostr_Event
begin

text \<open>
  Subscription filters: \<open>internal/nostr/filter.go\<close> without its JSON codec, which is in
  \<open>Nostr_Message\<close>. A Go \<open>nil\<close> pointer field is \<^const>\<open>None\<close>; a nil and an
  empty slice are both the empty list, as the code only asks for their length.
\<close>

section \<open>Filter\<close>

record query_cursor =
  qc_created_at :: int
  qc_id :: string

record filter =
  f_cursor :: "query_cursor option"
  f_ids :: "string list"
  f_authors :: "string list"
  f_kinds :: "int list"
  f_since :: "int option"
  f_until :: "int option"
  f_limit :: "int option"
  f_search :: "string option"
  f_tag :: "(string, string list) go_map"

definition empty_filter :: filter where
  "empty_filter = \<lparr>f_cursor = None, f_ids = [], f_authors = [], f_kinds = [], f_since = None,
     f_until = None, f_limit = None, f_search = None, f_tag = []\<rparr>"

definition ptr_str :: "string option \<Rightarrow> string" where
  "ptr_str p = (case p of None \<Rightarrow> [] | Some s \<Rightarrow> s)"

definition has_search :: "filter \<Rightarrow> bool" where
  "has_search f \<longleftrightarrow> trim_space (ptr_str (f_search f)) \<noteq> []"

definition search_text :: "filter \<Rightarrow> string" where
  "search_text f = trim_space (ptr_str (f_search f))"

definition without_search :: "filter \<Rightarrow> filter" where
  "without_search f = f\<lparr>f_search := None\<rparr>"

text \<open>\<open>want\<close> is the set the code builds from the wanted values.\<close>

fun event_tag_matches :: "string list list \<Rightarrow> string \<Rightarrow> string list \<Rightarrow> bool" where
  "event_tag_matches [] name want = False"
| "event_tag_matches (t # ts) name want =
     (if length t = 0 then event_tag_matches ts name want
      else if t ! 0 \<noteq> name then event_tag_matches ts name want
      else if length t < 2 then event_tag_matches ts name want
      else if t ! 1 \<in> set want then True
      else event_tag_matches ts name want)"

fun tag_map_matches :: "(string, string list) go_map \<Rightarrow> event \<Rightarrow> bool" where
  "tag_map_matches [] e = True"
| "tag_map_matches ((key, want) # rest) e =
     (if length want = 0 then False
      else if \<not> event_tag_matches (ev_tags e) (trim_prefix key ''#'') want then False
      else tag_map_matches rest e)"

definition cursor_excludes :: "query_cursor option \<Rightarrow> event \<Rightarrow> bool" where
  "cursor_excludes c e =
     (case c of None \<Rightarrow> False
      | Some q \<Rightarrow> ev_created_at e > qc_created_at q \<or>
                 (ev_created_at e = qc_created_at q \<and> ev_id e \<le> qc_id q))"

definition filter_matches :: "filter \<Rightarrow> event \<Rightarrow> bool" where
  "filter_matches f e =
     (if has_search f then False
      else if f_ids f \<noteq> [] \<and> \<not> list_ex (\<lambda>i. i = ev_id e) (f_ids f) then False
      else if f_authors f \<noteq> [] \<and> \<not> list_ex (\<lambda>a. a = ev_pubkey e) (f_authors f) then False
      else if f_kinds f \<noteq> [] \<and> \<not> list_ex (\<lambda>k. k = ev_kind e) (f_kinds f) then False
      else if (case f_since f of None \<Rightarrow> False | Some t \<Rightarrow> ev_created_at e < t) then False
      else if (case f_until f of None \<Rightarrow> False | Some t \<Rightarrow> ev_created_at e > t) then False
      else if cursor_excludes (f_cursor f) e then False
      else tag_map_matches (f_tag f) e)"

section \<open>What a filter means\<close>

text \<open>
  The abstract contract of NIP-01: every constraint that is present holds. A tag constraint
  holds when some tag of that name has one of the wanted first values.
\<close>

definition tag_value :: "string \<Rightarrow> string list list \<Rightarrow> string set" where
  "tag_value name ts = {v. \<exists>t \<in> set ts. length t \<ge> 2 \<and> t ! 0 = name \<and> t ! 1 = v}"

definition before_cursor :: "query_cursor \<Rightarrow> event \<Rightarrow> bool" where
  "before_cursor q e \<longleftrightarrow> ev_created_at e < qc_created_at q \<or>
     (ev_created_at e = qc_created_at q \<and> qc_id q < ev_id e)"

definition filter_spec :: "filter \<Rightarrow> event \<Rightarrow> bool" where
  "filter_spec f e \<longleftrightarrow>
     \<not> has_search f \<and>
     (f_ids f = [] \<or> ev_id e \<in> set (f_ids f)) \<and>
     (f_authors f = [] \<or> ev_pubkey e \<in> set (f_authors f)) \<and>
     (f_kinds f = [] \<or> ev_kind e \<in> set (f_kinds f)) \<and>
     (\<forall>t. f_since f = Some t \<longrightarrow> t \<le> ev_created_at e) \<and>
     (\<forall>t. f_until f = Some t \<longrightarrow> ev_created_at e \<le> t) \<and>
     (\<forall>q. f_cursor f = Some q \<longrightarrow> before_cursor q e) \<and>
     (\<forall>(key, want) \<in> set (f_tag f). set want \<inter> tag_value (trim_prefix key ''#'') (ev_tags e) \<noteq> {})"

lemma event_tag_matches_iff:
  "event_tag_matches ts name want \<longleftrightarrow> set want \<inter> tag_value name ts \<noteq> {}"
proof (induction ts)
  case (Cons t ts)
  then show ?case by (auto simp: tag_value_def Int_def)
qed (simp add: tag_value_def)

lemma tag_map_matches_iff:
  "tag_map_matches m e \<longleftrightarrow>
     (\<forall>(key, want) \<in> set m. set want \<inter> tag_value (trim_prefix key ''#'') (ev_tags e) \<noteq> {})"
  by (induction m e rule: tag_map_matches.induct) (auto simp: event_tag_matches_iff)

lemma cursor_excludes_iff:
  "cursor_excludes c e \<longleftrightarrow> (\<exists>q. c = Some q \<and> \<not> before_cursor q e)"
  by (auto simp: cursor_excludes_def before_cursor_def not_less not_le split: option.splits)

lemma filter_matches_spec [model_simps]: "filter_matches f e \<longleftrightarrow> filter_spec f e"
  unfolding filter_matches_def filter_spec_def
  by (auto simp: list_ex_iff tag_map_matches_iff cursor_excludes_iff not_less
      split: option.splits)

lemma filter_matches_cursorD:
  "filter_matches f e \<Longrightarrow> filter_matches (f\<lparr>f_cursor := None\<rparr>) e"
  by (simp add: filter_matches_spec filter_spec_def has_search_def)

lemma filter_matches_cursor:
  "filter_matches (f\<lparr>f_cursor := Some q\<rparr>) e \<longleftrightarrow>
     filter_matches (f\<lparr>f_cursor := None\<rparr>) e \<and> before_cursor q e"
  by (auto simp: filter_matches_spec filter_spec_def has_search_def)

lemma filter_matches_limit [simp]: "filter_matches (f\<lparr>f_limit := l\<rparr>) e = filter_matches f e"
  by (simp add: filter_matches_spec filter_spec_def has_search_def)

lemma has_search_limit [simp]: "has_search (f\<lparr>f_limit := l\<rparr>) = has_search f"
  by (simp add: has_search_def)

lemma has_search_cursor [simp]: "has_search (f\<lparr>f_cursor := c\<rparr>) = has_search f"
  by (simp add: has_search_def)

text \<open>The order in which a map of tag filters is visited does not matter.\<close>

lemma tag_map_matches_perm:
  "set m = set m' \<Longrightarrow> tag_map_matches m e = tag_map_matches m' e"
  by (simp add: tag_map_matches_iff)

section \<open>Properties\<close>

text \<open>Matching an event against a filter computes NIP-01's meaning of the filter: every
  present constraint holds (ids, authors, kinds, time range, cursor, and for each tag filter some
  tag of that name with a wanted value), and a filter with an active search text matches nothing.\<close>

theorem filter_matches_correct: "filter_matches f e = filter_spec f e"
  by (rule filter_matches_spec)

end
