(* ===== verification/Nostr_Message.thy ===== *)
theory Nostr_Message
  imports Nostr_Filter
begin

text \<open>
  The wire codec: \<open>internal/nostr/message.go\<close> and the JSON methods of
  \<open>internal/nostr/filter.go\<close>, on JSON values. What \<open>encoding/json\<close> does between a
  value's text and its tree is not modelled; what it does between a tree and a Go value is:
  \<open>null\<close> leaves a scalar as it was and empties a slice, struct keys are matched without
  regard to case and a later member overrides an earlier one, a number with a fraction or an
  exponent (\<open>JReal\<close>) does not decode into an integer, and an integer must fit in 64 bits.
  Object members keep their document order; \<open>map[string]json.RawMessage\<close> keeps the last
  member of a key.
\<close>

section \<open>JSON values and how they decode\<close>

datatype json =
    JNull
  | JBool bool
  | JInt int
  | JReal string
  | JStr string
  | JArr "json list"
  | JObj "(string \<times> json) list"

fun decode_string :: "string \<Rightarrow> json \<Rightarrow> string result" where
  "decode_string old JNull = Inr old"
| "decode_string old (JStr s) = Inr s"
| "decode_string old _ = Inl ''json: cannot unmarshal into string''"

fun decode_int :: "int \<Rightarrow> json \<Rightarrow> int result" where
  "decode_int old JNull = Inr old"
| "decode_int old (JInt i) =
     (if int64_range i then Inr i else Inl ''json: cannot unmarshal number into int64'')"
| "decode_int old _ = Inl ''json: cannot unmarshal into int64''"

fun decode_int_ptr :: "json \<Rightarrow> int option result" where
  "decode_int_ptr JNull = Inr None"
| "decode_int_ptr v = (case decode_int 0 v of Inl e \<Rightarrow> Inl e | Inr i \<Rightarrow> Inr (Some i))"

fun decode_all :: "(json \<Rightarrow> 'a result) \<Rightarrow> json list \<Rightarrow> 'a list result" where
  "decode_all d [] = Inr []"
| "decode_all d (v # vs) =
     (case d v of
        Inl e \<Rightarrow> Inl e
      | Inr x \<Rightarrow> (case decode_all d vs of Inl e \<Rightarrow> Inl e | Inr xs \<Rightarrow> Inr (x # xs)))"

fun decode_list :: "(json \<Rightarrow> 'a result) \<Rightarrow> json \<Rightarrow> 'a list result" where
  "decode_list d JNull = Inr []"
| "decode_list d (JArr vs) = decode_all d vs"
| "decode_list d _ = Inl ''json: cannot unmarshal into slice''"

abbreviation decode_strings :: "json \<Rightarrow> string list result" where
  "decode_strings \<equiv> decode_list (decode_string [])"

abbreviation decode_ints :: "json \<Rightarrow> int list result" where
  "decode_ints \<equiv> decode_list (decode_int 0)"

abbreviation decode_tags :: "json \<Rightarrow> string list list result" where
  "decode_tags \<equiv> decode_list decode_strings"

definition zero_event :: event where
  "zero_event = \<lparr>ev_id = [], ev_pubkey = [], ev_created_at = 0, ev_kind = 0, ev_tags = [],
     ev_content = [], ev_sig = []\<rparr>"

definition decode_event_field :: "string \<Rightarrow> json \<Rightarrow> event \<Rightarrow> event result" where
  "decode_event_field k v e =
     (if equal_fold k ''id'' then map_sum id (\<lambda>s. e\<lparr>ev_id := s\<rparr>) (decode_string (ev_id e) v)
      else if equal_fold k ''pubkey'' then map_sum id (\<lambda>s. e\<lparr>ev_pubkey := s\<rparr>) (decode_string (ev_pubkey e) v)
      else if equal_fold k ''created_at'' then map_sum id (\<lambda>i. e\<lparr>ev_created_at := i\<rparr>) (decode_int (ev_created_at e) v)
      else if equal_fold k ''kind'' then map_sum id (\<lambda>i. e\<lparr>ev_kind := i\<rparr>) (decode_int (ev_kind e) v)
      else if equal_fold k ''tags'' then map_sum id (\<lambda>t. e\<lparr>ev_tags := t\<rparr>) (decode_tags v)
      else if equal_fold k ''content'' then map_sum id (\<lambda>s. e\<lparr>ev_content := s\<rparr>) (decode_string (ev_content e) v)
      else if equal_fold k ''sig'' then map_sum id (\<lambda>s. e\<lparr>ev_sig := s\<rparr>) (decode_string (ev_sig e) v)
      else Inr e)"

fun decode_event_fields :: "(string \<times> json) list \<Rightarrow> event \<Rightarrow> event result" where
  "decode_event_fields [] e = Inr e"
| "decode_event_fields ((k, v) # ms) e =
     (case decode_event_field k v e of Inl err \<Rightarrow> Inl err | Inr e' \<Rightarrow> decode_event_fields ms e')"

fun decode_event :: "json \<Rightarrow> event result" where
  "decode_event JNull = Inr zero_event"
| "decode_event (JObj ms) = decode_event_fields ms zero_event"
| "decode_event _ = Inl ''json: cannot unmarshal into nostr.Event''"

definition event_json :: "event \<Rightarrow> json" where
  "event_json e = JObj
     [(''id'', JStr (ev_id e)), (''pubkey'', JStr (ev_pubkey e)), (''created_at'', JInt (ev_created_at e)),
      (''kind'', JInt (ev_kind e)), (''tags'', JArr (map (\<lambda>t. JArr (map JStr t)) (ev_tags e))),
      (''content'', JStr (ev_content e)), (''sig'', JStr (ev_sig e))]"

section \<open>Filters\<close>

text \<open>\<open>unicode.IsLetter\<close> of a byte taken as a code point.\<close>

definition is_letter :: "char \<Rightarrow> bool" where
  "is_letter c \<longleftrightarrow>
     (let n = byte c in
      (65 \<le> n \<and> n \<le> 90) \<or> (97 \<le> n \<and> n \<le> 122) \<or> n \<in> {170, 181, 186} \<or>
      (192 \<le> n \<and> n \<le> 214) \<or> (216 \<le> n \<and> n \<le> 246) \<or> (248 \<le> n \<and> n \<le> 255))"

definition is_tag_key :: "string \<Rightarrow> bool" where
  "is_tag_key k \<longleftrightarrow> length k = 2 \<and> k ! 0 = CHR ''#'' \<and> is_letter (k ! 1)"

definition wrap_err :: "string \<Rightarrow> 'a result \<Rightarrow> 'a result" where
  "wrap_err ctx r = (case r of Inl e \<Rightarrow> Inl (ctx @ e) | Inr x \<Rightarrow> Inr x)"

definition unmarshal_filter_field :: "string \<Rightarrow> json \<Rightarrow> filter \<Rightarrow> filter result" where
  "unmarshal_filter_field k v f =
     (if k = ''ids'' then wrap_err ''nostr: filter ids: '' (map_sum id (\<lambda>x. f\<lparr>f_ids := x\<rparr>) (decode_strings v))
      else if k = ''authors'' then wrap_err ''nostr: filter authors: '' (map_sum id (\<lambda>x. f\<lparr>f_authors := x\<rparr>) (decode_strings v))
      else if k = ''kinds'' then wrap_err ''nostr: filter kinds: '' (map_sum id (\<lambda>x. f\<lparr>f_kinds := x\<rparr>) (decode_ints v))
      else if k = ''since'' then wrap_err ''nostr: filter since: '' (map_sum id (\<lambda>x. f\<lparr>f_since := x\<rparr>) (decode_int_ptr v))
      else if k = ''until'' then wrap_err ''nostr: filter until: '' (map_sum id (\<lambda>x. f\<lparr>f_until := x\<rparr>) (decode_int_ptr v))
      else if k = ''limit'' then wrap_err ''nostr: filter limit: '' (map_sum id (\<lambda>x. f\<lparr>f_limit := x\<rparr>) (decode_int_ptr v))
      else if k = ''search'' then wrap_err ''nostr: filter search: '' (map_sum id (\<lambda>x. f\<lparr>f_search := Some x\<rparr>) (decode_string [] v))
      else if is_tag_key k then wrap_err (''nostr: filter '' @ k @ '': '')
        (map_sum id (\<lambda>x. f\<lparr>f_tag := AList.update k x (f_tag f)\<rparr>) (decode_strings v))
      else Inr f)"

fun unmarshal_filter_fields :: "(string \<times> json) list \<Rightarrow> filter \<Rightarrow> filter result" where
  "unmarshal_filter_fields [] f = Inr f"
| "unmarshal_filter_fields ((k, v) # ms) f =
     (case unmarshal_filter_field k v f of
        Inl e \<Rightarrow> Inl e
      | Inr f' \<Rightarrow> unmarshal_filter_fields ms f')"

definition raw_object :: "(string \<times> json) list \<Rightarrow> (string, json) go_map" where
  "raw_object ms = fold (\<lambda>(k, v) m. AList.update k v m) ms []"

fun unmarshal_filter :: "json \<Rightarrow> filter result" where
  "unmarshal_filter JNull = Inr empty_filter"
| "unmarshal_filter (JObj ms) = unmarshal_filter_fields (raw_object ms) empty_filter"
| "unmarshal_filter _ = Inl ''json: cannot unmarshal into map''"

definition marshal_filter :: "filter \<Rightarrow> json" where
  "marshal_filter f =
     (let m = (if f_ids f \<noteq> [] then AList.update ''ids'' (JArr (map JStr (f_ids f))) [] else []);
          m = (if f_authors f \<noteq> [] then AList.update ''authors'' (JArr (map JStr (f_authors f))) m else m);
          m = (if f_kinds f \<noteq> [] then AList.update ''kinds'' (JArr (map JInt (f_kinds f))) m else m);
          m = (case f_since f of None \<Rightarrow> m | Some t \<Rightarrow> AList.update ''since'' (JInt t) m);
          m = (case f_until f of None \<Rightarrow> m | Some t \<Rightarrow> AList.update ''until'' (JInt t) m);
          m = (case f_limit f of None \<Rightarrow> m | Some l \<Rightarrow> AList.update ''limit'' (JInt l) m);
          m = (case f_search f of None \<Rightarrow> m | Some s \<Rightarrow> AList.update ''search'' (JStr s) m)
      in JObj (fold (\<lambda>(k, vs) m. AList.update k (JArr (map JStr vs)) m) (f_tag f) m))"

section \<open>Client messages\<close>

datatype client_msg =
    EventMessage event
  | ReqMessage string "filter list"
  | CloseMessage string
  | AuthMessage event
  | NegOpenMessage string filter string
  | NegMsgMessage string string
  | NegCloseMessage string

definition validate_neg_hex :: "string \<Rightarrow> string option" where
  "validate_neg_hex s =
     (let s = trim_space s in
      if s = [] then Some ''empty hex''
      else if length s mod 2 \<noteq> 0 then Some ''hex length must be even''
      else case hex_decode s of None \<Rightarrow> Some ''encoding/hex: invalid byte'' | Some _ \<Rightarrow> None)"

fun raw_array :: "json \<Rightarrow> json list result" where
  "raw_array JNull = Inr []"
| "raw_array (JArr vs) = Inr vs"
| "raw_array _ = Inl ''nostr: client message: cannot unmarshal into array''"

definition parse_neg_open :: "json list \<Rightarrow> client_msg result" where
  "parse_neg_open raw =
     (if length raw < 4 then Inl ''nostr: NEG-OPEN missing sub id, filter, or initial message'' else
      case wrap_err ''nostr: NEG-OPEN sub id: '' (decode_string [] (raw ! 1)) of Inl e \<Rightarrow> Inl e
      | Inr sub_id \<Rightarrow>
      (case wrap_err ''nostr: NEG-OPEN filter: '' (unmarshal_filter (raw ! 2)) of Inl e \<Rightarrow> Inl e
      | Inr f \<Rightarrow>
      (case wrap_err ''nostr: NEG-OPEN initial message: '' (decode_string [] (raw ! 3)) of Inl e \<Rightarrow> Inl e
      | Inr initial \<Rightarrow>
      (case validate_neg_hex initial of
         Some e \<Rightarrow> Inl (''nostr: NEG-OPEN initial message: '' @ e)
       | None \<Rightarrow> Inr (NegOpenMessage sub_id f (to_lower initial))))))"

definition parse_neg_msg :: "json list \<Rightarrow> client_msg result" where
  "parse_neg_msg raw =
     (if length raw < 3 then Inl ''nostr: NEG-MSG missing sub id or message'' else
      case wrap_err ''nostr: NEG-MSG sub id: '' (decode_string [] (raw ! 1)) of Inl e \<Rightarrow> Inl e
      | Inr sub_id \<Rightarrow>
      (case wrap_err ''nostr: NEG-MSG message: '' (decode_string [] (raw ! 2)) of Inl e \<Rightarrow> Inl e
      | Inr msg_hex \<Rightarrow>
      (case validate_neg_hex msg_hex of
         Some e \<Rightarrow> Inl (''nostr: NEG-MSG message: '' @ e)
       | None \<Rightarrow> Inr (NegMsgMessage sub_id (to_lower msg_hex)))))"

definition parse_sub_id :: "string \<Rightarrow> json list \<Rightarrow> string result" where
  "parse_sub_id cmd raw =
     (if length raw < 2 then Inl (''nostr: '' @ cmd @ '' missing subscription id'')
      else wrap_err (''nostr: '' @ cmd @ '' sub id: '') (decode_string [] (raw ! 1)))"

definition parse_message :: "json \<Rightarrow> client_msg result" where
  "parse_message data =
     (case raw_array data of Inl e \<Rightarrow> Inl e | Inr raw \<Rightarrow>
     (if raw = [] then Inl ''nostr: empty client message'' else
     (case wrap_err ''nostr: message type: '' (decode_string [] (raw ! 0)) of Inl e \<Rightarrow> Inl e | Inr typ \<Rightarrow>
     (if typ = ''EVENT'' then
        (if length raw < 2 then Inl ''nostr: EVENT missing payload''
         else map_sum id EventMessage (wrap_err ''nostr: EVENT body: '' (decode_event (raw ! 1))))
      else if typ = ''REQ'' then
        (if length raw < 3 then Inl ''nostr: REQ missing subscription id or filters''
         else case wrap_err ''nostr: REQ sub id: '' (decode_string [] (raw ! 1)) of Inl e \<Rightarrow> Inl e
         | Inr sub_id \<Rightarrow>
             map_sum id (ReqMessage sub_id)
               (wrap_err ''nostr: REQ filter: '' (decode_all unmarshal_filter (drop 2 raw))))
      else if typ = ''CLOSE'' then map_sum id CloseMessage (parse_sub_id ''CLOSE'' raw)
      else if typ = ''AUTH'' then
        (if length raw < 2 then Inl ''nostr: AUTH missing signed event''
         else case raw ! 1 of
           JObj ms \<Rightarrow> map_sum id AuthMessage (wrap_err ''nostr: AUTH event: '' (decode_event (JObj ms)))
         | _ \<Rightarrow> Inl ''nostr: client AUTH must carry a signed event JSON object'')
      else if typ = ''NEG-OPEN'' then parse_neg_open raw
      else if typ = ''NEG-MSG'' then parse_neg_msg raw
      else if typ = ''NEG-CLOSE'' then map_sum id NegCloseMessage (parse_sub_id ''NEG-CLOSE'' raw)
      else Inl (''nostr: unknown message type '' @ typ)))))"

definition peek_client_command :: "json \<Rightarrow> string result" where
  "peek_client_command data =
     (case raw_array data of Inl e \<Rightarrow> Inl e | Inr raw \<Rightarrow>
     (if raw = [] then Inl ''nostr: empty client message''
      else wrap_err ''nostr: message type: '' (decode_string [] (raw ! 0))))"

section \<open>Relay messages\<close>

datatype frame =
    FEvent string event
  | FOk string bool string
  | FEose string
  | FClosed string string
  | FNotice string
  | FAuth string
  | FNegMsg string string
  | FNegErr string string

fun frame_json :: "frame \<Rightarrow> json" where
  "frame_json (FEvent sub e) = JArr [JStr ''EVENT'', JStr sub, event_json e]"
| "frame_json (FOk i ok msg) = JArr [JStr ''OK'', JStr i, JBool ok, JStr msg]"
| "frame_json (FEose sub) = JArr [JStr ''EOSE'', JStr sub]"
| "frame_json (FClosed sub msg) = JArr [JStr ''CLOSED'', JStr sub, JStr msg]"
| "frame_json (FNotice msg) = JArr [JStr ''NOTICE'', JStr msg]"
| "frame_json (FAuth ch) = JArr [JStr ''AUTH'', JStr ch]"
| "frame_json (FNegMsg sub h) = JArr [JStr ''NEG-MSG'', JStr sub, JStr h]"
| "frame_json (FNegErr sub reason) = JArr [JStr ''NEG-ERR'', JStr sub, JStr reason]"

definition marshal_relay_event :: "string \<Rightarrow> event option \<Rightarrow> frame result" where
  "marshal_relay_event sub_id ev =
     (case ev of None \<Rightarrow> Inl ''nostr: nil event'' | Some e \<Rightarrow> Inr (FEvent sub_id e))"

definition marshal_relay_auth :: "string \<Rightarrow> frame result" where
  "marshal_relay_auth challenge =
     (if challenge = [] then Inl ''nostr: empty AUTH challenge'' else Inr (FAuth challenge))"

definition marshal_relay_neg_msg :: "string \<Rightarrow> string \<Rightarrow> frame result" where
  "marshal_relay_neg_msg sub_id msg_hex =
     (case validate_neg_hex msg_hex of
        Some e \<Rightarrow> Inl (''nostr: NEG-MSG: '' @ e)
      | None \<Rightarrow> Inr (FNegMsg sub_id (to_lower msg_hex)))"

section \<open>Lemmas\<close>

lemma wrap_err_Inr [simp]: "wrap_err c (Inr x) = Inr x"
  by (simp add: wrap_err_def)

lemma wrap_err_Inr_iff [simp]: "wrap_err c r = Inr x \<longleftrightarrow> r = Inr x"
  by (simp add: wrap_err_def split: sum.splits)

lemma map_sum_Inr_iff: "map_sum id g r = Inr y \<longleftrightarrow> (\<exists>x. r = Inr x \<and> y = g x)"
  by (cases r) auto

lemma decode_all_map:
  "(\<And>x. x \<in> set xs \<Longrightarrow> d (g x) = Inr x) \<Longrightarrow> decode_all d (map g xs) = Inr xs"
  by (induction xs) auto

lemma decode_strings_map [simp]: "decode_all (decode_string []) (map JStr xs) = Inr xs"
  by (rule decode_all_map) simp

lemma decode_ints_map: "\<forall>i \<in> set xs. int64_range i \<Longrightarrow> decode_all (decode_int 0) (map JInt xs) = Inr xs"
  by (rule decode_all_map) simp

lemma decode_tags_map [simp]:
  "decode_all decode_strings (map (\<lambda>t. JArr (map JStr t)) xs) = Inr xs"
  by (rule decode_all_map) simp

lemma event_json_roundtrip:
  assumes "int64_range (ev_created_at e)" "int64_range (ev_kind e)"
  shows "decode_event (event_json e) = Inr e"
  using assms
  by (simp add: event_json_def decode_event_field_def equal_fold_def to_lower_def lower_char_def
      byte_def zero_event_def)

lemma validate_neg_hex_to_lower: "validate_neg_hex (to_lower s) = validate_neg_hex s"
  by (simp add: validate_neg_hex_def trim_space_to_lower hex_decode_to_lower Let_def)

lemma validate_neg_hex_NoneD:
  "validate_neg_hex s = None \<Longrightarrow> hex_decode (trim_space s) \<noteq> None \<and> trim_space s \<noteq> []"
  by (auto simp: validate_neg_hex_def Let_def split: if_splits option.splits)

text \<open>Appending a fresh key to a map puts it last, so distinct members survive a pass through a map.\<close>

lemma update_fresh: "k \<notin> fst ` set m \<Longrightarrow> AList.update k v m = m @ [(k, v)]"
  by (induction m) auto

lemma fold_update_fresh:
  "distinct (map fst ms) \<Longrightarrow> fst ` set m \<inter> fst ` set ms = {} \<Longrightarrow>
   fold (\<lambda>(k, v) m. AList.update k (g v) m) ms m = m @ map (\<lambda>(k, v). (k, g v)) ms"
proof (induction ms arbitrary: m)
  case (Cons p ms)
  obtain k v where p: "p = (k, v)" by (cases p)
  with Cons.prems have "k \<notin> fst ` set m" by auto
  then have "fold (\<lambda>(k, v) m. AList.update k (g v) m) (p # ms) m =
      fold (\<lambda>(k, v) m. AList.update k (g v) m) ms (m @ [(k, g v)])"
    by (simp add: p update_fresh)
  also have "\<dots> = (m @ [(k, g v)]) @ map (\<lambda>(k, v). (k, g v)) ms"
    by (rule Cons.IH) (use Cons.prems p in auto)
  finally show ?case by (simp add: p)
qed simp

lemma raw_object_distinct: "distinct (map fst ms) \<Longrightarrow> raw_object ms = ms"
  using fold_update_fresh [of ms "[]" "\<lambda>v. v"] by (simp add: raw_object_def)

lemma unmarshal_filter_fields_append:
  "unmarshal_filter_fields (ms @ ms') f =
     (case unmarshal_filter_fields ms f of Inl e \<Rightarrow> Inl e | Inr f' \<Rightarrow> unmarshal_filter_fields ms' f')"
  by (induction ms arbitrary: f) (auto split: sum.splits)

definition wire_filter :: "filter \<Rightarrow> bool" where
  "wire_filter f \<longleftrightarrow>
     f_cursor f = None \<and> distinct (map fst (f_tag f)) \<and> (\<forall>k \<in> fst ` set (f_tag f). is_tag_key k) \<and>
     (\<forall>k \<in> set (f_kinds f). int64_range k) \<and>
     (\<forall>i. f_since f = Some i \<or> f_until f = Some i \<or> f_limit f = Some i \<longrightarrow> int64_range i)"

lemma tag_key_not_field:
  "is_tag_key k \<Longrightarrow>
   k \<notin> {''ids'', ''authors'', ''kinds'', ''since'', ''until'', ''limit'', ''search''}"
  by (auto simp: is_tag_key_def)

lemma unmarshal_tags:
  "\<forall>k \<in> fst ` set m. is_tag_key k \<Longrightarrow> distinct (map fst (f_tag f @ m)) \<Longrightarrow>
   unmarshal_filter_fields (map (\<lambda>(k, vs). (k, JArr (map JStr vs))) m) f = Inr (f\<lparr>f_tag := f_tag f @ m\<rparr>)"
proof (induction m arbitrary: f)
  case (Cons p m)
  obtain k vs where p: "p = (k, vs)" by (cases p)
  have k: "is_tag_key k" "k \<notin> fst ` set (f_tag f)"
    using Cons.prems p by auto
  have "unmarshal_filter_field k (JArr (map JStr vs)) f = Inr (f\<lparr>f_tag := f_tag f @ [(k, vs)]\<rparr>)"
    using tag_key_not_field [OF k(1)] k by (simp add: unmarshal_filter_field_def update_fresh)
  then show ?case
    using Cons.IH [of "f\<lparr>f_tag := f_tag f @ [(k, vs)]\<rparr>"] Cons.prems by (simp add: p)
qed simp

text \<open>The members a filter is encoded to before its tags, in the order the code writes them.\<close>

definition filter_members :: "filter \<Rightarrow> (string \<times> json) list" where
  "filter_members f =
     (if f_ids f = [] then [] else [(''ids'', JArr (map JStr (f_ids f)))]) @
     (if f_authors f = [] then [] else [(''authors'', JArr (map JStr (f_authors f)))]) @
     (if f_kinds f = [] then [] else [(''kinds'', JArr (map JInt (f_kinds f)))]) @
     (case f_since f of None \<Rightarrow> [] | Some t \<Rightarrow> [(''since'', JInt t)]) @
     (case f_until f of None \<Rightarrow> [] | Some t \<Rightarrow> [(''until'', JInt t)]) @
     (case f_limit f of None \<Rightarrow> [] | Some t \<Rightarrow> [(''limit'', JInt t)]) @
     (case f_search f of None \<Rightarrow> [] | Some t \<Rightarrow> [(''search'', JStr t)])"

lemma filter_members_keys:
  "distinct (map fst (filter_members f)) \<and>
   fst ` set (filter_members f) \<subseteq>
     {''ids'', ''authors'', ''kinds'', ''since'', ''until'', ''limit'', ''search''}"
  by (auto simp: filter_members_def split: option.splits)

lemma marshal_filter_members:
  assumes "wire_filter f"
  shows "marshal_filter f =
    JObj (filter_members f @ map (\<lambda>(k, vs). (k, JArr (map JStr vs))) (f_tag f))"
proof -
  have "fst ` set (filter_members f) \<inter> fst ` set (f_tag f) = {}"
    using filter_members_keys [of f] tag_key_not_field assms unfolding wire_filter_def by blast
  then have "fold (\<lambda>(k, vs) m. AList.update k (JArr (map JStr vs)) m) (f_tag f) (filter_members f) =
      filter_members f @ map (\<lambda>(k, vs). (k, JArr (map JStr vs))) (f_tag f)"
    using assms by (intro fold_update_fresh) (auto simp: wire_filter_def)
  then show ?thesis
    by (auto simp: marshal_filter_def filter_members_def Let_def split: option.splits)
qed

lemma decode_int_ptr_JInt: "int64_range i \<Longrightarrow> decode_int_ptr (JInt i) = Inr (Some i)"
  by simp

lemma unmarshal_members:
  assumes "wire_filter f"
  shows "unmarshal_filter_fields (filter_members f) empty_filter = Inr (f\<lparr>f_tag := []\<rparr>)"
proof -
  have ints: "f_kinds f \<noteq> [] \<Longrightarrow> decode_all (decode_int 0) (map JInt (f_kinds f)) = Inr (f_kinds f)"
    using assms by (auto simp: wire_filter_def intro: decode_ints_map)
  show ?thesis
    using assms
    by (cases f) (auto simp: filter_members_def unmarshal_filter_field_def wire_filter_def empty_filter_def
        ints decode_ints_map split: option.splits)
qed

section \<open>Properties\<close>

text \<open>A filter survives the wire: decoding the JSON object the encoder writes gives the same
  filter back, for every filter whose integers fit in 64 bits and whose tag keys are the
  single-letter keys the decoder accepts.\<close>

theorem filter_json_roundtrip:
  assumes "wire_filter f"
  shows "unmarshal_filter (marshal_filter f) = Inr f"
proof -
  let ?tags = "map (\<lambda>(k, vs). (k, JArr (map JStr vs))) (f_tag f)"
  have keys: "map fst ?tags = map fst (f_tag f)" by auto
  have "fst ` set (filter_members f) \<inter> fst ` set (f_tag f) = {}"
    using filter_members_keys [of f] tag_key_not_field assms unfolding wire_filter_def by blast
  then have "distinct (map fst (filter_members f @ ?tags))"
    using filter_members_keys [of f] assms unfolding wire_filter_def map_append keys by simp
  then have "unmarshal_filter (marshal_filter f) =
      unmarshal_filter_fields (filter_members f @ ?tags) empty_filter"
    using assms by (simp add: marshal_filter_members raw_object_distinct)
  also have "\<dots> = unmarshal_filter_fields ?tags (f\<lparr>f_tag := []\<rparr>)"
    using assms by (simp add: unmarshal_filter_fields_append unmarshal_members)
  also have "\<dots> = Inr f"
    using assms unmarshal_tags [of "f_tag f" "f\<lparr>f_tag := []\<rparr>"] by (simp add: wire_filter_def)
  finally show ?thesis .
qed

theorem filter_json_roundtrip_witness:
  "unmarshal_filter (marshal_filter (empty_filter\<lparr>f_kinds := [1, 1059], f_since := Some 5,
       f_tag := [(''#p'', [''ab''])]\<rparr>)) =
   Inr (empty_filter\<lparr>f_kinds := [1, 1059], f_since := Some 5, f_tag := [(''#p'', [''ab''])]\<rparr>)"
  by (rule filter_json_roundtrip)
    (simp add: wire_filter_def empty_filter_def is_tag_key_def is_letter_def byte_def int64_range_def)

text \<open>A negentropy frame the relay emits is one the protocol's parser accepts: what
  \<open>MarshalRelayNegMsg\<close> encodes parses back to the same subscription and the lower-cased
  message, and the encoder refuses the empty message.\<close>

theorem neg_msg_frame_roundtrip:
  assumes "marshal_relay_neg_msg sub msg_hex = Inr fr"
  shows "parse_message (frame_json fr) = Inr (NegMsgMessage sub (to_lower msg_hex)) \<and> msg_hex \<noteq> []"
proof -
  have ok: "validate_neg_hex msg_hex = None" and fr: "fr = FNegMsg sub (to_lower msg_hex)"
    using assms by (auto simp: marshal_relay_neg_msg_def split: option.splits)
  have ok': "validate_neg_hex (to_lower msg_hex) = None"
    using ok validate_neg_hex_to_lower by simp
  have "msg_hex \<noteq> []"
    using ok by (auto simp: validate_neg_hex_def)
  then show ?thesis
    using ok' by (simp add: fr parse_message_def parse_neg_msg_def)
qed

theorem neg_msg_frame_roundtrip_witness:
  "parse_message (frame_json (FNegMsg ''s'' ''6a'')) = Inr (NegMsgMessage ''s'' (to_lower ''6A'')) \<and> ''6A'' \<noteq> []"
proof -
  have "marshal_relay_neg_msg ''s'' ''6A'' = Inr (FNegMsg ''s'' ''6a'')"
    by code_simp
  from neg_msg_frame_roundtrip [OF this] show ?thesis .
qed

text \<open>The hexadecimal check of a NEG-MSG looks at the trimmed text but the parser hands on the
  untrimmed one: there is a message that is accepted although its payload is not hexadecimal.\<close>

theorem neg_msg_accepts_untrimmed_hex:
  "parse_message (JArr [JStr ''NEG-MSG'', JStr ''s'', JStr '' 61'']) = Inr (NegMsgMessage ''s'' '' 61'') \<and>
   hex_decode '' 61'' = None"
  by (simp add: parse_message_def parse_neg_msg_def validate_neg_hex_def Let_def trim_space_def is_space1_def
        is_space2_def is_space3_def byte_def hex_val_def to_lower_def lower_char_def)



end
