(* ===== verification/Store_Interface.thy ===== *)
theory Store_Interface
  imports Nostr_Message "HOL-Library.Product_Lexorder"
begin

text \<open>
  What the relay asks of its event store (\<open>storage.EventStore\<close> in
  \<open>internal/storage/store.go\<close>): the operations as a record of functions on an abstract
  state, as the Go interface is a set of methods, and the laws the relay's own code relies on
  as locales. Every operation can fail with an error.
\<close>

definition event_order :: "event \<Rightarrow> int \<times> string" where
  "event_order e = (- ev_created_at e, ev_id e)"

abbreviation newer :: "event \<Rightarrow> event \<Rightarrow> bool" where
  "newer a b \<equiv> event_order a < event_order b"

record sync_item =
  si_id :: string
  si_created_at :: int

record 'st store_ops =
  so_save :: "event \<Rightarrow> 'st \<Rightarrow> string option \<times> 'st"
  so_query :: "filter list \<Rightarrow> 'st \<Rightarrow> event list result"
  so_sync_items :: "filter \<Rightarrow> 'st \<Rightarrow> sync_item list result"
  so_count :: "filter list \<Rightarrow> 'st \<Rightarrow> int result"
  so_has_id :: "string \<Rightarrow> 'st \<Rightarrow> bool result"
  so_search :: "string \<Rightarrow> filter \<Rightarrow> 'st \<Rightarrow> event list result"
  so_prefix_exists :: "string \<Rightarrow> string \<Rightarrow> bool \<Rightarrow> 'st \<Rightarrow> bool result"
  so_metadata :: "string \<Rightarrow> string \<Rightarrow> 'st \<Rightarrow> event option result"
  so_admins :: "string \<Rightarrow> string \<Rightarrow> 'st \<Rightarrow> event option result"
  so_member :: "string \<Rightarrow> string \<Rightarrow> string \<Rightarrow> 'st \<Rightarrow> bool result"

lemma event_order_less:
  "newer a b \<longleftrightarrow>
     ev_created_at b < ev_created_at a \<or> (ev_created_at b = ev_created_at a \<and> ev_id a < ev_id b)"
  by (auto simp: event_order_def)

lemma event_order_inj_on: "inj_on ev_id S \<Longrightarrow> inj_on event_order S"
  by (auto simp: inj_on_def event_order_def)

lemma before_cursor_order:
  "before_cursor \<lparr>qc_created_at = ev_created_at a, qc_id = ev_id a\<rparr> e \<longleftrightarrow> newer a e"
  by (auto simp: before_cursor_def event_order_less)

text \<open>
  The law pagination rests on: for a filter without search text, the store has one strictly
  ordered list of matches, and a query with a positive limit and a cursor returns the first of
  them behind the cursor.
\<close>

definition behind :: "query_cursor option \<Rightarrow> event \<Rightarrow> bool" where
  "behind c e = (case c of None \<Rightarrow> True | Some q \<Rightarrow> before_cursor q e)"

locale paged_store =
  fixes query :: "filter list \<Rightarrow> 'st \<Rightarrow> event list result"
    and matching :: "filter \<Rightarrow> 'st \<Rightarrow> event list"
    and valid :: "'st \<Rightarrow> bool"
  assumes matching_sorted: "valid st \<Longrightarrow> sorted_wrt newer (matching f st)"
    and matching_limit: "valid st \<Longrightarrow> matching (f\<lparr>f_limit := lim\<rparr>) st = matching f st"
    and ids_distinct: "valid st \<Longrightarrow> a \<in> set (matching f st) \<Longrightarrow> b \<in> set (matching g st) \<Longrightarrow>
      ev_id a = ev_id b \<Longrightarrow> a = b"
    and query_page: "valid st \<Longrightarrow> \<not> has_search f \<Longrightarrow> 0 < l \<Longrightarrow>
      query [f\<lparr>f_limit := Some l, f_cursor := c\<rparr>] st =
        Inr (take (nat l) (List.filter (behind c) (matching f st)))"
    and query_full: "valid st \<Longrightarrow> \<not> has_search f \<Longrightarrow> f_cursor f = None \<Longrightarrow>
      query [f] st = Inr (case f_limit f of
          None \<Rightarrow> matching f st
        | Some l \<Rightarrow> if 0 < l then take (nat l) (matching f st) else matching f st)"
begin

lemma matching_distinct: "valid st \<Longrightarrow> distinct (matching f st)"
  using matching_sorted [of st f]
  by (auto simp: distinct_conv_nth sorted_wrt_iff_nth_less) (metis less_irrefl nat_neq_iff)

text \<open>The matches behind the last event of a page are the ones after the page.\<close>

lemma behind_last:
  assumes "valid st" "matching f st = xs @ a # ys"
  shows "List.filter (behind (Some \<lparr>qc_created_at = ev_created_at a, qc_id = ev_id a\<rparr>)) (matching f st) = ys"
proof -
  have s: "sorted_wrt newer (xs @ a # ys)"
    using matching_sorted [OF assms(1)] assms(2) by metis
  have "\<not> newer a x" if "x \<in> set (xs @ [a])" for x
    using s that by (auto simp: sorted_wrt_append dest: less_asym)
  moreover have "newer a y" if "y \<in> set ys" for y
    using s that by (auto simp: sorted_wrt_append)
  ultimately show ?thesis
    by (auto simp: assms(2) behind_def before_cursor_order filter_empty_conv filter_id_conv)
qed

end

text \<open>
  The law lookups by id rest on: asked for a nonempty list of ids and nothing else, the store
  returns its events with those ids, and ids are unique.
\<close>

definition index_by_id :: "event list \<Rightarrow> (string, event) go_map" where
  "index_by_id evs = fold (\<lambda>ev. AList.update (ev_id ev) ev) evs []"

lemma index_by_id_Some:
  "map_of (index_by_id evs) i = Some e \<Longrightarrow> e \<in> set evs \<and> ev_id e = i"
proof -
  have "map_of (fold (\<lambda>ev. AList.update (ev_id ev) ev) evs m) i = Some e \<Longrightarrow>
      (e \<in> set evs \<and> ev_id e = i) \<or> map_of m i = Some e" for m
    by (induction evs arbitrary: m) (fastforce simp: update_conv' split: if_splits)+
  from this [of "[]"] show "map_of (index_by_id evs) i = Some e \<Longrightarrow> ?thesis" by (simp add: index_by_id_def)
qed

lemma index_by_id_inj:
  assumes "inj_on ev_id (set evs)" and "e \<in> set evs"
  shows "map_of (index_by_id evs) (ev_id e) = Some e"
proof -
  have "e \<in> set evs \<Longrightarrow> inj_on ev_id (set evs) \<Longrightarrow>
      map_of (fold (\<lambda>ev. AList.update (ev_id ev) ev) evs m) (ev_id e) = Some e" for m
  proof (induction evs rule: rev_induct)
    case (snoc x evs)
    show ?case
    proof (cases "ev_id x = ev_id e")
      case True
      then have "x = e" using snoc.prems by (auto dest: inj_onD)
      then show ?thesis by (simp add: update_conv')
    next
      case False
      then show ?thesis using snoc by (auto simp: update_conv' inj_on_def)
    qed
  qed simp
  from this [OF assms(2,1)] show ?thesis by (simp add: index_by_id_def)
qed

locale id_lookup =
  fixes query :: "filter list \<Rightarrow> 'st \<Rightarrow> event list result"
    and stored :: "'st \<Rightarrow> event set"
    and valid :: "'st \<Rightarrow> bool"
  assumes stored_inj: "valid st \<Longrightarrow> inj_on ev_id (stored st)"
    and query_ids: "valid st \<Longrightarrow> ids \<noteq> [] \<Longrightarrow>
      \<exists>evs. query [empty_filter\<lparr>f_ids := ids\<rparr>] st = Inr evs \<and> set evs = {e \<in> stored st. ev_id e \<in> set ids}"
begin

definition stored_event :: "'st \<Rightarrow> string \<Rightarrow> event option" where
  "stored_event st i = (if \<exists>e \<in> stored st. ev_id e = i then Some (THE e. e \<in> stored st \<and> ev_id e = i) else None)"

lemma stored_event_iff:
  "valid st \<Longrightarrow> stored_event st i = Some e \<longleftrightarrow> e \<in> stored st \<and> ev_id e = i"
proof -
  assume v: "valid st"
  have u: "(THE x. x \<in> stored st \<and> ev_id x = ev_id a) = a" if "a \<in> stored st" for a
    using that stored_inj [OF v] by (intro the_equality) (auto dest: inj_onD)
  show ?thesis using u stored_inj [OF v] by (auto simp: stored_event_def dest: inj_onD)
qed

lemma lookup_batch:
  assumes v: "valid st" and "ids \<noteq> []"
  obtains evs where "query [empty_filter\<lparr>f_ids := ids\<rparr>] st = Inr evs"
    "\<And>i. map_of (index_by_id evs) i = (if i \<in> set ids then stored_event st i else None)"
proof -
  obtain evs where evs: "query [empty_filter\<lparr>f_ids := ids\<rparr>] st = Inr evs" "set evs = {e \<in> stored st. ev_id e \<in> set ids}"
    using query_ids [OF assms] by blast
  have inj: "inj_on ev_id (set evs)" using stored_inj [OF v] by (rule inj_on_subset) (auto simp: evs(2))
  have "map_of (index_by_id evs) i = (if i \<in> set ids then stored_event st i else None)" for i
  proof (cases "map_of (index_by_id evs) i")
    case (Some e)
    then show ?thesis using index_by_id_Some [OF Some] stored_event_iff [OF v, of i e] by (auto simp: evs(2))
  next
    case None
    have "stored_event st i = None" if "i \<in> set ids"
    proof (rule ccontr)
      assume "stored_event st i \<noteq> None"
      then obtain e where "e \<in> stored st" "ev_id e = i" using stored_event_iff [OF v] by auto
      then have "e \<in> set evs" "ev_id e = i" using that by (simp_all add: evs(2))
      then show False using index_by_id_inj [OF inj, of e] None by simp
    qed
    then show ?thesis using None by simp
  qed
  with evs(1) show thesis by (rule that)
qed

end

text \<open>Saving adds at most the saved event, so what holds of every stored event and of the new one
  holds of all of them afterwards.\<close>

locale save_store =
  fixes save :: "event \<Rightarrow> 'st \<Rightarrow> string option \<times> 'st"
    and stored :: "'st \<Rightarrow> event set"
    and valid :: "'st \<Rightarrow> bool"
  assumes save_valid: "valid st \<Longrightarrow> valid (snd (save ev st))"
    and save_adds: "valid st \<Longrightarrow> stored (snd (save ev st)) \<subseteq> insert ev (stored st)"
begin

definition all_stored :: "(event \<Rightarrow> bool) \<Rightarrow> 'st \<Rightarrow> bool" where
  "all_stored P st \<longleftrightarrow> valid st \<and> (\<forall>e \<in> stored st. P e)"

lemma save_all: "all_stored P st \<Longrightarrow> P ev \<Longrightarrow> all_stored P (snd (save ev st))"
  using save_valid save_adds by (fastforce simp: all_stored_def)

end

end
