(* ===== verification/Relay_Config.thy ===== *)
theory Relay_Config
  imports Nostr_Message
begin

text \<open>
  The configuration the relay reads: \<open>internal/config/config.go\<close>, \<open>config_types.go\<close>,
  \<open>nip42.go\<close>, \<open>nip77.go\<close>, \<open>plugins.go\<close> and \<open>internal/nipmeta\<close>. The sections are records
  with the fields the modelled code reads; a JSON number stays a number, a \<open>*int\<close> an option.

  \<open>net/url\<close>'s and \<open>net/netip\<close>'s parsers are fields of \<open>netlib\<close>, an argument of the
  operations that parse addresses.
\<close>

section \<open>Address parsing\<close>

record url =
  u_scheme :: string
  u_host :: string
  u_path :: string
  u_opaque :: string

record netlib =
  nl_url_parse :: "string \<Rightarrow> url option"
  nl_prefix_bits :: "string \<Rightarrow> nat option"
  nl_prefix_contains :: "string \<Rightarrow> string \<Rightarrow> bool"
  nl_parse_addr :: "string \<Rightarrow> string option"
  nl_parse_ip :: "string \<Rightarrow> string option"
  nl_split_host_port :: "string \<Rightarrow> (string \<times> string) option"

section \<open>Sections\<close>

record rate_limits_section =
  events_per_minute_per_connection :: int
  bytes_per_second_per_connection :: int
  reqs_per_minute_per_connection :: int
  messages_per_minute_per_ip :: int

record connection_limits_section =
  max_open :: int
  trusted_proxy_cidrs :: "string list"
  trusted_proxy_client_ip_header :: string
  max_open_per_ip :: int
  max_subscriptions_per_connection :: int
  max_filters_per_req :: int
  connections_per_minute_per_ip :: int
  idle_no_event_no_sub_seconds :: int
  read_deadline_seconds :: int
  write_deadline_seconds :: int
  default_query_limit :: "int option"
  query_page_size :: "int option"

record nip11_section =
  nip11_name :: string
  nip11_banner :: string
  nip11_icon :: string
  nip11_icon_source :: string
  nip11_banner_source :: string
  nip11_admin_pubkey :: string
  nip11_contact :: string

record nip42_section =
  relay_url :: string
  require_auth :: string
  created_at_skew_seconds :: int
  require_auth_subscribe_kinds :: "int list"
  require_auth_publish_kinds :: "int list"
  allowlisted_pubkeys :: "string list"

record nip29_section =
  late_publication_max_past_seconds :: int
  strict_previous_same_h :: bool

record nip77_upstream =
  up_name :: string
  up_url :: string
  up_filters :: "json list"
  up_interval_seconds :: int
  up_enabled :: bool

record nip77_section =
  max_records_per_query :: int
  session_idle_timeout_seconds :: int
  frame_size_limit_bytes :: int
  max_concurrent_sessions :: int
  max_concurrent_loads :: int
  neg_open_per_minute_per_connection :: int
  neg_msg_per_minute_per_connection :: int
  backpressure_req_queue_depth :: int
  upstream_enabled :: bool
  upstream_pause_when_busy :: bool
  upstream_message_timeout_seconds :: int
  upstream_auth_wait_seconds :: int
  upstreams :: "nip77_upstream list"

record plugin_item =
  pi_id :: string
  pi_enabled :: bool
  pi_source_url :: string
  pi_sha256 :: string
  pi_version :: string
  pi_settings :: string

record plugins_section =
  intercept_timeout_ms :: int
  intercept_log_size :: "int option"
  plugin_items :: "plugin_item list"

record config =
  relay_port :: int
  relay_instance_id :: string
  admin_port :: int
  database_type :: string
  database_dsn :: string
  database_meta_dsn :: string
  logging_level :: string
  logging_format :: string
  audit_retention_days :: int
  relay_bucket_retention_days :: int
  rate_limits :: rate_limits_section
  connection_limits :: connection_limits_section
  compression_enabled :: bool
  max_message_bytes :: int
  max_subscription_id_length :: int
  nip11 :: nip11_section
  nip42 :: nip42_section
  nip29 :: nip29_section
  nip17_reject_gift_wrap_when_disabled :: "bool option"
  nip77 :: nip77_section
  nips_enabled :: "int list"
  plugins :: plugins_section

section \<open>Effective values\<close>

definition effective_req_default_query_limit :: "int option \<Rightarrow> int" where
  "effective_req_default_query_limit p =
     (case p of None \<Rightarrow> 500 | Some v \<Rightarrow> if v \<le> 0 then 0 else v)"

definition effective_query_page_size :: "int option \<Rightarrow> int" where
  "effective_query_page_size p = (case p of None \<Rightarrow> 100 | Some v \<Rightarrow> v)"

definition nip11_auth_required :: "config \<Rightarrow> bool" where
  "nip11_auth_required cfg =
     (if require_auth (nip42 cfg) \<noteq> ''connect'' then False
      else list_ex (\<lambda>n. n = 42) (nips_enabled cfg))"

definition nip17_reject_when_disabled :: "config \<Rightarrow> bool" where
  "nip17_reject_when_disabled cfg =
     (if list_ex (\<lambda>n. n = 17) (nips_enabled cfg) then False
      else case nip17_reject_gift_wrap_when_disabled cfg of None \<Rightarrow> True | Some b \<Rightarrow> b)"

definition nip77_enabled :: "config \<Rightarrow> bool" where
  "nip77_enabled cfg = list_ex (\<lambda>n. n = 77) (nips_enabled cfg)"

definition effective_nip77_int :: "int \<Rightarrow> int \<Rightarrow> int" where
  "effective_nip77_int v def = (if v \<le> 0 then def else v)"

definition effective_max_records :: "config \<Rightarrow> int" where
  "effective_max_records cfg = max_records_per_query (nip77 cfg)"

definition effective_session_idle_timeout :: "config \<Rightarrow> int" where
  "effective_session_idle_timeout cfg = effective_nip77_int (session_idle_timeout_seconds (nip77 cfg)) 7"

definition effective_frame_size_limit :: "config \<Rightarrow> int" where
  "effective_frame_size_limit cfg = effective_nip77_int (frame_size_limit_bytes (nip77 cfg)) (2 ^ 20)"

definition effective_max_concurrent_sessions :: "config \<Rightarrow> int" where
  "effective_max_concurrent_sessions cfg = effective_nip77_int (max_concurrent_sessions (nip77 cfg)) 8"

definition effective_max_concurrent_loads :: "config \<Rightarrow> int" where
  "effective_max_concurrent_loads cfg = effective_nip77_int (max_concurrent_loads (nip77 cfg)) 2"

definition effective_neg_open_per_minute :: "config \<Rightarrow> int" where
  "effective_neg_open_per_minute cfg = effective_nip77_int (neg_open_per_minute_per_connection (nip77 cfg)) 6"

definition effective_neg_msg_per_minute :: "config \<Rightarrow> int" where
  "effective_neg_msg_per_minute cfg = effective_nip77_int (neg_msg_per_minute_per_connection (nip77 cfg)) 120"

definition effective_backpressure_depth :: "config \<Rightarrow> int" where
  "effective_backpressure_depth cfg = backpressure_req_queue_depth (nip77 cfg)"

definition effective_upstream_message_timeout :: "config \<Rightarrow> int" where
  "effective_upstream_message_timeout cfg = effective_nip77_int (upstream_message_timeout_seconds (nip77 cfg)) 60"

definition effective_upstream_auth_wait :: "config \<Rightarrow> int" where
  "effective_upstream_auth_wait cfg =
     (if upstream_auth_wait_seconds (nip77 cfg) < 0 then 0 else upstream_auth_wait_seconds (nip77 cfg))"

definition max_plugin_intercept_log_size :: int where
  "max_plugin_intercept_log_size = 10000"

definition effective_plugin_intercept_log_size :: "config \<Rightarrow> int" where
  "effective_plugin_intercept_log_size c =
     (case intercept_log_size (plugins c) of
        Some n \<Rightarrow> if n < 0 then 0
          else if n > max_plugin_intercept_log_size then max_plugin_intercept_log_size else n
      | None \<Rightarrow> 100)"

lemmas effective_defs [go_defs] =
  effective_req_default_query_limit_def effective_query_page_size_def effective_nip77_int_def
  effective_max_records_def effective_session_idle_timeout_def effective_frame_size_limit_def
  effective_max_concurrent_sessions_def effective_max_concurrent_loads_def
  effective_neg_open_per_minute_def effective_neg_msg_per_minute_def effective_backpressure_depth_def

section \<open>Normalization\<close>

fun strip_slashes :: "string \<Rightarrow> string" where
  "strip_slashes rp =
     (case rp of [] \<Rightarrow> [] | c # r \<Rightarrow> if r \<noteq> [] \<and> c = CHR ''/'' then strip_slashes r else rp)"

declare strip_slashes.simps [simp del]

text \<open>The loop that trims trailing slashes runs on the reversed path.\<close>

definition normalize_nip42_relay_url :: "netlib \<Rightarrow> string \<Rightarrow> string result" where
  "normalize_nip42_relay_url nl raw =
     (case nl_url_parse nl (trim_space raw) of
        None \<Rightarrow> Inl ''parse error''
      | Some u \<Rightarrow>
          if u_host u = [] then Inl ''missing host''
          else let scheme = to_lower (u_scheme u) in
            if scheme \<noteq> ''ws'' \<and> scheme \<noteq> ''wss'' then Inl ''scheme must be ws or wss''
            else let host = to_lower (u_host u);
                     path = (if u_path u = [] then ''/'' else u_path u)
                 in Inr (scheme @ ''://'' @ host @ rev (strip_slashes (rev path))))"

definition validate_absolute_http_url :: "netlib \<Rightarrow> string \<Rightarrow> string \<Rightarrow> string result" where
  "validate_absolute_http_url nl field raw =
     (let raw = trim_space raw in
      case nl_url_parse nl raw of
        None \<Rightarrow> Inl (''config: '' @ field @ '' must be an absolute http or https URL'')
      | Some u \<Rightarrow>
          if u_host u = [] \<or> u_opaque u \<noteq> [] \<or> (u_scheme u \<noteq> ''http'' \<and> u_scheme u \<noteq> ''https'')
          then Inl (''config: '' @ field @ '' must be an absolute http or https URL'')
          else Inr raw)"

definition normalize_nip11_image :: "netlib \<Rightarrow> string \<Rightarrow> string \<Rightarrow> string \<Rightarrow> (string \<times> string) result" where
  "normalize_nip11_image nl source raw field =
     (let source = trim_space source;
          raw = trim_space raw;
          source = (if source = [] then (if raw \<noteq> [] then ''url'' else ''default'') else source)
      in if source = ''default'' \<or> source = ''upload'' then Inr (source, [])
         else if source = ''url'' then
           (case validate_absolute_http_url nl field raw of
              Inl e \<Rightarrow> Inl e | Inr normalized \<Rightarrow> Inr (source, normalized))
         else Inl (''config: '' @ field @ ''_source must be default, upload, or url''))"

definition normalize_nip11_identity :: "netlib \<Rightarrow> nip11_section \<Rightarrow> nip11_section result" where
  "normalize_nip11_identity nl n =
     (let n = n\<lparr>nip11_contact := trim_space (nip11_contact n),
               nip11_admin_pubkey := to_lower (trim_space (nip11_admin_pubkey n))\<rparr>;
          p = nip11_admin_pubkey n
      in if p \<noteq> [] \<and> (case hex_decode p of None \<Rightarrow> True | Some bs \<Rightarrow> length bs \<noteq> 32)
         then Inl ''config: nip11.admin_pubkey must be a 32-byte hex administrator contact key''
         else case normalize_nip11_image nl (nip11_icon_source n) (nip11_icon n) ''nip11.icon'' of
           Inl e \<Rightarrow> Inl e
         | Inr (isrc, icon) \<Rightarrow>
           (case normalize_nip11_image nl (nip11_banner_source n) (nip11_banner n) ''nip11.banner'' of
              Inl e \<Rightarrow> Inl e
            | Inr (bsrc, banner) \<Rightarrow>
                Inr (n\<lparr>nip11_icon_source := isrc, nip11_icon := icon,
                       nip11_banner_source := bsrc, nip11_banner := banner\<rparr>)))"

definition normalize_nip42_require_auth :: "nip42_section \<Rightarrow> nip42_section result" where
  "normalize_nip42_require_auth n =
     (let a = trim_space (require_auth n);
          a = (if a = [] then ''protected_kinds'' else a)
      in if a = ''protected_kinds'' \<or> a = ''connect'' then Inr (n\<lparr>require_auth := a\<rparr>)
         else Inl ''config: nip42.require_auth must be protected_kinds or connect'')"

section \<open>Validation\<close>

text \<open>
  A run of \<open>if bad \<open>{ return err }\<close>\<close> statements is the list of its tests in the code's order;
  the first that holds gives the error.
\<close>

fun first_error :: "(bool \<times> string) list \<Rightarrow> string option" where
  "first_error [] = None"
| "first_error ((bad, msg) # rest) = (if bad then Some msg else first_error rest)"

definition err_text :: "string option \<Rightarrow> string" where
  "err_text e = (case e of None \<Rightarrow> [] | Some m \<Rightarrow> m)"

definition known_nips :: "(int \<times> bool) list" where
  "known_nips = [(1, True), (2, False), (42, False), (11, True), (50, False), (29, False),
     (17, False), (77, False)]"

definition nip_is_known :: "int \<Rightarrow> bool" where
  "nip_is_known n = (map_of known_nips n \<noteq> None)"

definition validate_port :: "string \<Rightarrow> int \<Rightarrow> string option" where
  "validate_port field p =
     (if p < 1 \<or> p > 65535 then Some (''config: '' @ field @ '' must be between 1 and 65535'') else None)"

definition validate_meta_dsn :: "string \<Rightarrow> string option" where
  "validate_meta_dsn meta_dsn =
     (let m = trim_space meta_dsn in
      if m = [] then None
      else let lower = to_lower m in
        if has_prefix lower ''postgres://'' \<or> has_prefix lower ''postgresql://''
        then Some ''config: database.meta_dsn must be a SQLite file path, not a PostgreSQL URL''
        else let path = (if has_prefix m ''file:''
                         then takeWhile (\<lambda>c. c \<noteq> CHR ''?'') (trim_prefix m ''file:'') else m)
          in if trim_space path = []
             then Some ''config: database.meta_dsn must be a non-empty SQLite file path'' else None)"

definition validate_relay_instance_id_field :: "string \<Rightarrow> string option" where
  "validate_relay_instance_id_field s =
     (let s = trim_space s in
      if s = [] then None
      else if length s > 256 then Some ''config: relay.instance_id must be at most 256 characters''
      else if list_ex (\<lambda>c. byte c \<in> {13, 10, 0}) s
        then Some ''config: relay.instance_id must not contain newline or null characters''
      else None)"

fun validate_upstreams :: "netlib \<Rightarrow> string list \<Rightarrow> nip77_upstream list \<Rightarrow> string option" where
  "validate_upstreams nl names [] = None"
| "validate_upstreams nl names (u # us) =
     (let name = trim_space (up_name u); raw_url = trim_space (up_url u) in
      if name = [] then Some ''config: nip77.upstreams.name is required''
      else if name \<in> set names then Some ''config: nip77.upstreams: duplicate name''
      else if raw_url = [] then Some ''config: nip77.upstreams.url is required''
      else case nl_url_parse nl raw_url of
        None \<Rightarrow> Some ''config: nip77.upstreams.url: parse error''
      | Some pu \<Rightarrow>
          if u_scheme pu \<noteq> ''ws'' \<and> u_scheme pu \<noteq> ''wss''
            then Some ''config: nip77.upstreams.url must use ws or wss''
          else if length (up_filters u) = 0 then Some ''config: nip77.upstreams.filters must be non-empty''
          else if up_interval_seconds u > 0 \<and> up_interval_seconds u < 60
            then Some ''config: nip77.upstreams.interval_seconds must be >= 60 when set''
          else validate_upstreams nl (name # names) us)"

definition validate_nip77 :: "netlib \<Rightarrow> config \<Rightarrow> string option" where
  "validate_nip77 nl cfg =
     (if \<not> nip77_enabled cfg then None
      else let n = nip77 cfg in
        case first_error
          [(max_records_per_query n < 0, ''config: nip77.max_records_per_query must be >= 0''),
           (session_idle_timeout_seconds n < 0, ''config: nip77.session_idle_timeout_seconds must be >= 0''),
           (frame_size_limit_bytes n < 0, ''config: nip77.frame_size_limit_bytes must be >= 0''),
           (max_concurrent_sessions n < 0, ''config: nip77.max_concurrent_sessions must be >= 0''),
           (max_concurrent_loads n < 0, ''config: nip77.max_concurrent_loads must be >= 0''),
           (neg_open_per_minute_per_connection n < 0, ''config: nip77.neg_open_per_minute_per_connection must be >= 0''),
           (neg_msg_per_minute_per_connection n < 0, ''config: nip77.neg_msg_per_minute_per_connection must be >= 0''),
           (backpressure_req_queue_depth n < 0, ''config: nip77.backpressure_req_queue_depth must be >= 0''),
           (upstream_message_timeout_seconds n < 0, ''config: nip77.upstream_message_timeout_seconds must be >= 0''),
           (upstream_auth_wait_seconds n < 0, ''config: nip77.upstream_auth_wait_seconds must be >= 0'')]
        of Some e \<Rightarrow> Some e | None \<Rightarrow> validate_upstreams nl [] (upstreams n))"

fun validate_plugin_items :: "string list \<Rightarrow> plugin_item list \<Rightarrow> string option" where
  "validate_plugin_items seen [] = None"
| "validate_plugin_items seen (it # its) =
     (let i = trim_space (pi_id it) in
      if i = [] then Some ''config: plugins.items.id is required''
      else if i \<in> set seen then Some ''config: duplicate plugins.items id''
      else if pi_sha256 it \<noteq> [] \<and>
        (case hex_decode (trim_space (pi_sha256 it)) of None \<Rightarrow> True | Some b \<Rightarrow> length b \<noteq> 32)
        then Some ''config: plugins.items.sha256 must be 64 hex chars''
      else validate_plugin_items (i # seen) its)"

definition validate_plugins :: "config \<Rightarrow> string option" where
  "validate_plugins c =
     (let p = plugins c in
      if intercept_timeout_ms p < 0 then Some ''config: plugins.intercept_timeout_ms must be >= 0''
      else if (case intercept_log_size p of None \<Rightarrow> False
               | Some n \<Rightarrow> n < 0 \<or> n > max_plugin_intercept_log_size)
        then Some ''config: plugins.intercept_log_size must be between 0 and 10000''
      else validate_plugin_items [] (plugin_items p))"

text \<open>The tests before the code starts to rewrite the configuration, and those on limits.\<close>

definition validate_basics :: "config \<Rightarrow> string option" where
  "validate_basics c =
     (case validate_port ''relay.port'' (relay_port c) of Some e \<Rightarrow> Some e | None \<Rightarrow>
     (case validate_relay_instance_id_field (relay_instance_id c) of Some e \<Rightarrow> Some e | None \<Rightarrow>
     (case validate_port ''admin.port'' (admin_port c) of Some e \<Rightarrow> Some e | None \<Rightarrow>
      first_error
        [(database_type c \<notin> set [[], ''sqlite'', ''postgres'', ''turso''],
            ''config: unsupported database.type''),
         (database_dsn c = [], ''config: database.dsn is required''),
         (validate_meta_dsn (database_meta_dsn c) \<noteq> None, err_text (validate_meta_dsn (database_meta_dsn c))),
         (logging_level c \<notin> set [''debug'', ''info'', ''warn'', ''error''],
            ''config: unsupported logging.level''),
         (logging_format c \<notin> set [''json'', ''console''], ''config: unsupported logging.format''),
         (audit_retention_days c \<le> 0, ''config: audit.retention_days must be > 0'')])))"

definition trusted_cidr_bad :: "netlib \<Rightarrow> string \<Rightarrow> bool" where
  "trusted_cidr_bad nl cidr = (case nl_prefix_bits nl cidr of None \<Rightarrow> True | Some b \<Rightarrow> b = 0)"

definition validate_limits :: "netlib \<Rightarrow> config \<Rightarrow> string option" where
  "validate_limits nl c =
     (let r = rate_limits c; l = connection_limits c in first_error
        [(relay_bucket_retention_days c > 3650, ''config: metrics.relay_bucket_retention_days must be <= 3650''),
         (events_per_minute_per_connection r \<le> 0, ''config: rate_limits.events_per_minute_per_connection must be > 0''),
         (bytes_per_second_per_connection r \<le> 0, ''config: rate_limits.bytes_per_second_per_connection must be > 0''),
         (reqs_per_minute_per_connection r \<le> 0, ''config: rate_limits.reqs_per_minute_per_connection must be > 0''),
         (messages_per_minute_per_ip r \<le> 0, ''config: rate_limits.messages_per_minute_per_ip must be > 0''),
         (list_ex (trusted_cidr_bad nl) (trusted_proxy_cidrs l),
            ''config: trusted_proxy_cidrs must contain specific valid CIDRs''),
         (to_lower (trusted_proxy_client_ip_header l) \<notin>
            set [[], ''x-forwarded-for'', ''fly-client-ip'', ''cf-connecting-ip'', ''x-real-ip''],
            ''config: unsupported trusted_proxy_client_ip_header''),
         (max_open l \<le> 0, ''config: connection_limits.max_open must be > 0''),
         (max_open_per_ip l < 0, ''config: connection_limits.max_open_per_ip must be >= 0''),
         (idle_no_event_no_sub_seconds l < 0, ''config: connection_limits.idle_no_event_no_sub_seconds must be >= 0''),
         (max_subscriptions_per_connection l \<le> 0, ''config: connection_limits.max_subscriptions_per_connection must be > 0''),
         (max_filters_per_req l \<le> 0, ''config: connection_limits.max_filters_per_req must be > 0''),
         (connections_per_minute_per_ip l \<le> 0, ''config: connection_limits.connections_per_minute_per_ip must be > 0''),
         (read_deadline_seconds l \<le> 0, ''config: connection_limits.read_deadline_seconds must be > 0''),
         (write_deadline_seconds l \<le> 0, ''config: connection_limits.write_deadline_seconds must be > 0''),
         (max_message_bytes c \<le> 0, ''config: websocket.max_message_bytes must be > 0''),
         (max_subscription_id_length c \<le> 0, ''config: max_subscription_id_length must be > 0''),
         (nip11_name (nip11 c) = [], ''config: nip11.name is required'')])"

text \<open>The registry is a Go map: the mandatory NIPs are tested in one of its iteration orders.\<close>

definition validate_nips :: "netlib \<Rightarrow> config \<Rightarrow> string option" where
  "validate_nips nl c =
     (let en = nips_enabled c in first_error
        [(en = [], ''config: nips.enabled must be non-empty''),
         (list_ex (\<lambda>n. \<not> nip_is_known n) en, ''config: unknown nip in nips.enabled (not in registry)''),
         (list_ex (\<lambda>(n, mandatory). mandatory \<and> n \<notin> set en) known_nips,
            ''config: nips.enabled must include mandatory nip''),
         (42 \<in> set en \<and> trim_space (relay_url (nip42 c)) = [],
            ''config: nip42.relay_url is required when NIP 42 is enabled''),
         (42 \<in> set en \<and> isl (normalize_nip42_relay_url nl (relay_url (nip42 c))),
            ''config: nip42.relay_url''),
         (created_at_skew_seconds (nip42 c) < 0, ''config: nip42.created_at_skew_seconds must be >= 0''),
         (29 \<in> set en \<and> late_publication_max_past_seconds (nip29 c) < 0,
            ''config: nip29.late_publication_max_past_seconds must be >= 0 (0 uses relay default)''),
         (17 \<in> set en \<and> 42 \<notin> set en, ''config: NIP 17 requires NIP 42 to be enabled in nips.enabled'')])"

definition validate_config :: "netlib \<Rightarrow> config \<Rightarrow> config result" where
  "validate_config nl c =
     (case validate_basics c of Some e \<Rightarrow> Inl e | None \<Rightarrow>
     (let c = (if relay_bucket_retention_days c \<le> 0 then c\<lparr>relay_bucket_retention_days := 30\<rparr> else c) in
      case validate_limits nl c of Some e \<Rightarrow> Inl e | None \<Rightarrow>
     (case normalize_nip11_identity nl (nip11 c) of Inl e \<Rightarrow> Inl e | Inr n11 \<Rightarrow>
     (case normalize_nip42_require_auth (nip42 c) of Inl e \<Rightarrow> Inl e | Inr n42 \<Rightarrow>
     (let c = c\<lparr>nip11 := n11, nip42 := n42\<rparr> in
      case validate_nips nl c of Some e \<Rightarrow> Inl e | None \<Rightarrow>
     (case validate_nip77 nl c of Some e \<Rightarrow> Inl e | None \<Rightarrow>
     (case validate_plugins c of Some e \<Rightarrow> Inl e | None \<Rightarrow> Inr c)))))))"

definition default_config :: config where
  "default_config = \<lparr>
     relay_port = 3334, relay_instance_id = [], admin_port = 3335,
     database_type = ''turso'', database_dsn = ''./congee.db'', database_meta_dsn = [],
     logging_level = ''info'', logging_format = ''json'', audit_retention_days = 30,
     relay_bucket_retention_days = 30,
     rate_limits = \<lparr>events_per_minute_per_connection = 120, bytes_per_second_per_connection = 1048576,
       reqs_per_minute_per_connection = 60, messages_per_minute_per_ip = 6000\<rparr>,
     connection_limits = \<lparr>max_open = 10000, trusted_proxy_cidrs = [],
       trusted_proxy_client_ip_header = [], max_open_per_ip = 20,
       max_subscriptions_per_connection = 20, max_filters_per_req = 10,
       connections_per_minute_per_ip = 60, idle_no_event_no_sub_seconds = 90,
       read_deadline_seconds = 120, write_deadline_seconds = 30,
       default_query_limit = Some 500, query_page_size = Some 100\<rparr>,
     compression_enabled = True, max_message_bytes = 1048576, max_subscription_id_length = 128,
     nip11 = \<lparr>nip11_name = ''Congee'', nip11_banner = [], nip11_icon = [],
       nip11_icon_source = ''default'', nip11_banner_source = ''default'', nip11_admin_pubkey = [],
       nip11_contact = []\<rparr>,
     nip42 = \<lparr>relay_url = [], require_auth = ''protected_kinds'', created_at_skew_seconds = 0,
       require_auth_subscribe_kinds = [], require_auth_publish_kinds = [], allowlisted_pubkeys = []\<rparr>,
     nip29 = \<lparr>late_publication_max_past_seconds = 0, strict_previous_same_h = False\<rparr>,
     nip17_reject_gift_wrap_when_disabled = Some True,
     nip77 = \<lparr>max_records_per_query = 100000, session_idle_timeout_seconds = 7,
       frame_size_limit_bytes = 2 ^ 20, max_concurrent_sessions = 8, max_concurrent_loads = 2,
       neg_open_per_minute_per_connection = 6, neg_msg_per_minute_per_connection = 120,
       backpressure_req_queue_depth = 64, upstream_enabled = True, upstream_pause_when_busy = True,
       upstream_message_timeout_seconds = 60, upstream_auth_wait_seconds = 0, upstreams = []\<rparr>,
     nips_enabled = [1, 11],
     plugins = \<lparr>intercept_timeout_ms = 250, intercept_log_size = None, plugin_items = []\<rparr>\<rparr>"

section \<open>What a validated configuration guarantees\<close>

definition limits_ok :: "config \<Rightarrow> bool" where
  "limits_ok c \<longleftrightarrow>
     0 < events_per_minute_per_connection (rate_limits c) \<and> 0 < bytes_per_second_per_connection (rate_limits c) \<and>
     0 < reqs_per_minute_per_connection (rate_limits c) \<and> 0 < messages_per_minute_per_ip (rate_limits c) \<and>
     0 < max_open (connection_limits c) \<and> 0 \<le> max_open_per_ip (connection_limits c) \<and>
     0 < max_subscriptions_per_connection (connection_limits c) \<and>
     0 < max_filters_per_req (connection_limits c) \<and>
     0 < connections_per_minute_per_ip (connection_limits c) \<and>
     0 < max_message_bytes c \<and> 0 < max_subscription_id_length c"

lemma first_error_None_iff: "first_error cs = None \<longleftrightarrow> (\<forall>(bad, msg) \<in> set cs. \<not> bad)"
  by (induction cs rule: first_error.induct) (auto split: if_splits)

lemma validate_config_InrD:
  assumes "validate_config nl c = Inr c'"
  shows "validate_basics c = None"
    and "\<exists>c1 n11 n42. c1 = (if relay_bucket_retention_days c \<le> 0
            then c\<lparr>relay_bucket_retention_days := 30\<rparr> else c) \<and>
      validate_limits nl c1 = None \<and> normalize_nip11_identity nl (nip11 c1) = Inr n11 \<and>
      normalize_nip42_require_auth (nip42 c1) = Inr n42 \<and> c' = c1\<lparr>nip11 := n11, nip42 := n42\<rparr>"
    and "validate_nips nl c' = None" "validate_nip77 nl c' = None" "validate_plugins c' = None"
  using assms by (auto simp: validate_config_def Let_def split: option.splits sum.splits)

lemma trim_words: "trim_space ''url'' = ''url''" "trim_space ''default'' = ''default''"
  "trim_space ''connect'' = ''connect''" "trim_space ''protected_kinds'' = ''protected_kinds''"
  by code_simp+

lemma image_normal:
  assumes "normalize_nip11_image nl source raw field = Inr (s', r')"
  shows "normalize_nip11_image nl s' r' field = Inr (s', r')"
proof -
  define src where "src = (if trim_space source = [] then (if trim_space raw \<noteq> [] then ''url'' else ''default'')
    else trim_space source)"
  have src: "trim_space src = src"
    by (simp add: src_def trim_words)
  consider (fixed) "src = ''default'' \<or> src = ''upload''" "s' = src" "r' = []"
    | (url) "src = ''url''" "s' = src" "validate_absolute_http_url nl field (trim_space raw) = Inr r'"
  proof -
    have "normalize_nip11_image nl source raw field =
      (if src = ''default'' \<or> src = ''upload'' then Inr (src, [])
       else if src = ''url'' then
         (case validate_absolute_http_url nl field (trim_space raw) of
            Inl e \<Rightarrow> Inl e | Inr normalized \<Rightarrow> Inr (src, normalized))
       else Inl (''config: '' @ field @ ''_source must be default, upload, or url''))"
      unfolding normalize_nip11_image_def Let_def src_def [symmetric] by (rule refl)
    with assms show ?thesis
      by (auto split: if_splits sum.splits intro: that)
  qed
  then show ?thesis
  proof cases
    case fixed
    then show ?thesis using src by (auto simp: normalize_nip11_image_def Let_def)
  next
    case url
    then have "r' = trim_space raw"
      by (simp add: validate_absolute_http_url_def Let_def split: option.splits if_splits)
    with url src show ?thesis by (simp add: normalize_nip11_image_def Let_def)
  qed
qed

lemma identity_normal:
  assumes "normalize_nip11_identity nl n = Inr n'"
  shows "normalize_nip11_identity nl n' = Inr n'" and "nip11_name n' = nip11_name n"
proof -
  obtain isrc icon bsrc banner where
    i: "normalize_nip11_image nl (nip11_icon_source n) (nip11_icon n) ''nip11.icon'' = Inr (isrc, icon)" and
    b: "normalize_nip11_image nl (nip11_banner_source n) (nip11_banner n) ''nip11.banner'' = Inr (bsrc, banner)" and
    n': "n' = n\<lparr>nip11_contact := trim_space (nip11_contact n),
      nip11_admin_pubkey := to_lower (trim_space (nip11_admin_pubkey n)),
      nip11_icon_source := isrc, nip11_icon := icon, nip11_banner_source := bsrc, nip11_banner := banner\<rparr>"
    using assms by (auto simp: normalize_nip11_identity_def Let_def split: if_splits sum.splits prod.splits)
  show "normalize_nip11_identity nl n' = Inr n'" "nip11_name n' = nip11_name n"
    using assms image_normal [OF i] image_normal [OF b]
    by (auto simp: normalize_nip11_identity_def n' Let_def trim_space_to_lower split: if_splits)
qed

lemma require_auth_normal:
  assumes "normalize_nip42_require_auth n = Inr n'"
  shows "normalize_nip42_require_auth n' = Inr n'"
    and "require_auth n' \<in> {''protected_kinds'', ''connect''}"
  using assms by (auto simp: normalize_nip42_require_auth_def Let_def trim_words split: if_splits)

lemma validate_limits_frame [simp]:
  "nip11_name n11 = nip11_name (nip11 c) \<Longrightarrow>
   validate_limits nl (c\<lparr>nip11 := n11, nip42 := n42\<rparr>) = validate_limits nl c"
  by (simp add: validate_limits_def)

lemma validate_basics_frame [simp]:
  "validate_basics (c\<lparr>nip11 := n11, nip42 := n42\<rparr>) = validate_basics c"
  "validate_basics (c\<lparr>relay_bucket_retention_days := d\<rparr>) = validate_basics c"
  by (simp_all add: validate_basics_def cong: option.case_cong)

section \<open>Properties\<close>

text \<open>Validation normalizes once and for all: a configuration it accepts is accepted again
  unchanged, its limits are positive, its AUTH mode is one of the two the relay knows, and NIP-17
  is enabled only together with NIP-42, whatever the address parsers do.\<close>

theorem validated_config_stable:
  assumes "validate_config nl c = Inr c'"
  shows "validate_config nl c' = Inr c' \<and> limits_ok c' \<and>
    require_auth (nip42 c') \<in> {''protected_kinds'', ''connect''} \<and>
    (nip11_auth_required c' \<longleftrightarrow> require_auth (nip42 c') = ''connect'' \<and> 42 \<in> set (nips_enabled c')) \<and>
    (17 \<in> set (nips_enabled c') \<longrightarrow> 42 \<in> set (nips_enabled c'))"
proof -
  note D = validate_config_InrD [OF assms]
  obtain c1 n11 n42 where c1: "c1 = (if relay_bucket_retention_days c \<le> 0
            then c\<lparr>relay_bucket_retention_days := 30\<rparr> else c)"
    and lim: "validate_limits nl c1 = None" and n11: "normalize_nip11_identity nl (nip11 c1) = Inr n11"
    and n42: "normalize_nip42_require_auth (nip42 c1) = Inr n42"
    and c': "c' = c1\<lparr>nip11 := n11, nip42 := n42\<rparr>"
    using D(2) by blast
  have days: "\<not> relay_bucket_retention_days c' \<le> 0"
    by (simp add: c' c1)
  have basics: "validate_basics c' = None"
    using D(1) by (simp add: c' c1)
  have limits: "validate_limits nl c' = None"
    using lim identity_normal(2) [OF n11] by (simp add: c')
  have eq: "c'\<lparr>nip11 := n11, nip42 := n42\<rparr> = c'"
    by (simp add: c')
  have norm: "normalize_nip11_identity nl (nip11 c') = Inr n11"
    "normalize_nip42_require_auth (nip42 c') = Inr n42"
    using identity_normal(1) [OF n11] require_auth_normal(1) [OF n42] by (simp_all add: c')
  have "validate_config nl c' = Inr c'"
    using days basics limits norm eq D(3-5) by (simp add: validate_config_def)
  moreover have "limits_ok c'"
    using limits unfolding limits_ok_def validate_limits_def first_error_None_iff Let_def by auto
  moreover have "17 \<in> set (nips_enabled c') \<longrightarrow> 42 \<in> set (nips_enabled c')"
    using D(3) unfolding validate_nips_def first_error_None_iff Let_def by auto
  ultimately show ?thesis
    using require_auth_normal(2) [OF n42] by (auto simp: nip11_auth_required_def list_ex_iff c')
qed

lemma default_config_valid: "validate_config nl default_config = Inr default_config"
  by (simp add: validate_config_def default_config_def validate_basics_def validate_port_def
      validate_relay_instance_id_field_def validate_meta_dsn_def validate_limits_def
      normalize_nip11_identity_def normalize_nip11_image_def normalize_nip42_require_auth_def
      validate_nips_def known_nips_def nip_is_known_def validate_nip77_def nip77_enabled_def
      validate_plugins_def trim_space_def is_space1_def is_space2_def is_space3_def byte_def Let_def)

definition no_netlib :: netlib where
  "no_netlib = \<lparr>nl_url_parse = (\<lambda>_. None), nl_prefix_bits = (\<lambda>_. None),
     nl_prefix_contains = (\<lambda>_ _. False), nl_parse_addr = (\<lambda>_. None), nl_parse_ip = (\<lambda>_. None),
     nl_split_host_port = (\<lambda>_. None)\<rparr>"

theorem validated_config_stable_witness:
  "validate_config no_netlib default_config = Inr default_config \<and> limits_ok default_config"
  using validated_config_stable [OF default_config_valid [of no_netlib]] default_config_valid by blast

end
