(* ===== verification/Limiter.thy ===== *)
theory Limiter
  imports Relay_Config
begin

text \<open>
  Rate limits: \<open>internal/relay/limiter.go\<close> (sliding event windows, the byte window, the
  per-IP window sets with their bounded eviction, the per-connection limiter and the hub) and
  \<open>internal/relay/ip_conn_tracker.go\<close> (open connections per IP).

  Every reading of the clock is an argument, in nanoseconds. Where the code reads it several
  times in one call the model has one argument for each reading. The two windows satisfy one
  contract, the locale \<open>window_limiter\<close>, in which the bound on accepted traffic is proved.
\<close>

section \<open>Sliding windows\<close>

definition minute :: int where "minute = 60 * 10 ^ 9"
definition second :: int where "second = 10 ^ 9"

lemma minute_pos: "0 < minute"
  by (simp add: minute_def)

record sliding =
  sl_window :: int
  sl_max :: int
  sl_stamps :: "int list"

definition new_sliding :: "int \<Rightarrow> int \<Rightarrow> sliding" where
  "new_sliding window mx = \<lparr>sl_window = window, sl_max = mx, sl_stamps = []\<rparr>"

definition sliding_allow :: "int \<Rightarrow> sliding \<Rightarrow> bool \<times> sliding" where
  "sliding_allow now s =
     (let cutoff = now - sl_window s;
          stamps = dropWhile (\<lambda>t. t < cutoff) (sl_stamps s)
      in if int (length stamps) \<ge> sl_max s then (False, s\<lparr>sl_stamps := stamps\<rparr>)
         else (True, s\<lparr>sl_stamps := stamps @ [now]\<rparr>))"

record byte_window =
  bw_window :: int
  bw_max_bytes :: int
  bw_entries :: "(int \<times> int) list"

definition new_byte_window :: "int \<Rightarrow> int \<Rightarrow> byte_window" where
  "new_byte_window window mx = \<lparr>bw_window = window, bw_max_bytes = mx, bw_entries = []\<rparr>"

definition byte_allow :: "int \<Rightarrow> int \<Rightarrow> byte_window \<Rightarrow> bool \<times> byte_window" where
  "byte_allow now n b =
     (if n \<le> 0 then (True, b)
      else let cutoff = now - bw_window b;
               entries = dropWhile (\<lambda>(t, _). t < cutoff) (bw_entries b);
               total = sum_list (map snd entries)
           in if total + n > bw_max_bytes b then (False, b\<lparr>bw_entries := entries\<rparr>)
              else (True, b\<lparr>bw_entries := entries @ [(now, n)]\<rparr>))"

section \<open>The contract of a window\<close>

text \<open>
  A window with capacity \<open>cap\<close> over the last \<open>w\<close> keeps the entries it accepted that are
  still live; it accepts a cost exactly when the live total leaves room for it.
\<close>

definition live :: "int \<Rightarrow> (int \<times> int) list \<Rightarrow> (int \<times> int) list" where
  "live c es = filter (\<lambda>e. c \<le> fst e) es"

definition cost :: "(int \<times> int) list \<Rightarrow> int" where
  "cost es = sum_list (map snd es)"

definition cost_within :: "int \<Rightarrow> int \<Rightarrow> (int \<times> int) list \<Rightarrow> int" where
  "cost_within lo hi es = cost (filter (\<lambda>e. lo \<le> fst e \<and> fst e \<le> hi) es)"

fun window_run :: "(int \<Rightarrow> int \<Rightarrow> 's \<Rightarrow> bool \<times> 's) \<Rightarrow> 's \<Rightarrow> (int \<times> int) list \<Rightarrow> (int \<times> int) list \<times> 's" where
  "window_run allow s [] = ([], s)"
| "window_run allow s ((now, n) # calls) =
     (let (ok, s') = allow now n s; (acc, s'') = window_run allow s' calls
      in ((if ok then [(now, n)] else []) @ acc, s''))"

lemma live_live [simp]: "c \<le> c' \<Longrightarrow> live c' (live c es) = live c' es"
  by (auto simp: live_def intro!: filter_cong)

lemma live_append [simp]: "live c (es @ es') = live c es @ live c es'"
  by (simp add: live_def)

lemma cost_append [simp]: "cost (es @ es') = cost es + cost es'"
  by (simp add: cost_def)

lemma cost_filter_mono:
  assumes "\<And>e. e \<in> set es \<Longrightarrow> P e \<Longrightarrow> Q e" and "\<forall>e \<in> set es. 0 \<le> snd e"
  shows "cost (filter P es) \<le> cost (filter Q es)"
  using assms by (induction es) (force simp: cost_def)+

lemma dropWhile_live:
  "sorted (map fst es) \<Longrightarrow> dropWhile (\<lambda>(t, _). t < c) es = live c es"
  using dropWhile_filter_sorted [of fst es c]
  by (simp add: live_def case_prod_unfold)

locale window_limiter =
  fixes w :: int and cap :: int
    and inv :: "'s \<Rightarrow> bool"
    and entries :: "'s \<Rightarrow> (int \<times> int) list"
    and valid_cost :: "int \<Rightarrow> bool"
    and allow :: "int \<Rightarrow> int \<Rightarrow> 's \<Rightarrow> bool \<times> 's"
  assumes window_nonneg: "inv s \<Longrightarrow> 0 \<le> w"
    and cost_pos: "valid_cost n \<Longrightarrow> 0 < n"
    and inv_allow: "inv s \<Longrightarrow> valid_cost n \<Longrightarrow> inv (snd (allow now n s))"
    and allow_iff: "inv s \<Longrightarrow> valid_cost n \<Longrightarrow> sorted (map fst (entries s)) \<Longrightarrow>
      fst (allow now n s) \<longleftrightarrow> cost (live (now - w) (entries s)) + n \<le> cap"
    and entries_allow: "inv s \<Longrightarrow> valid_cost n \<Longrightarrow> sorted (map fst (entries s)) \<Longrightarrow>
      entries (snd (allow now n s)) =
        live (now - w) (entries s) @ (if fst (allow now n s) then [(now, n)] else [])"
begin

text \<open>
  The history invariant: the state holds the live part of everything accepted so far, and no
  window of length \<open>w\<close> of the history exceeds the capacity.
\<close>

definition history :: "(int \<times> int) list \<Rightarrow> int \<Rightarrow> 's \<Rightarrow> bool" where
  "history acc tl0 s \<longleftrightarrow>
     inv s \<and> sorted (map fst acc) \<and> (\<forall>e \<in> set acc. fst e \<le> tl0 \<and> 0 \<le> snd e) \<and>
     (\<exists>c \<le> tl0 - w. entries s = live c acc) \<and>
     (\<forall>t. cost_within (t - w) t acc \<le> max 0 cap)"

lemma history_sorted: "history acc tl0 s \<Longrightarrow> sorted (map fst (entries s))"
  by (auto simp: history_def live_def sorted_map intro: sorted_wrt_filter)

lemma history_step:
  assumes h: "history acc tl0 s" and "tl0 \<le> now" "valid_cost n"
  shows "history (acc @ (if fst (allow now n s) then [(now, n)] else [])) now (snd (allow now n s))"
proof -
  let ?ok = "fst (allow now n s)" and ?s' = "snd (allow now n s)"
  let ?acc' = "acc @ (if ?ok then [(now, n)] else [])"
  obtain c where c: "c \<le> tl0 - w" "entries s = live c acc" and I: "inv s"
    using h by (auto simp: history_def)
  have es: "live (now - w) (entries s) = live (now - w) acc"
    using c assms(2) by simp
  have before: "fst e \<le> now \<and> 0 \<le> snd e" if "e \<in> set acc" for e
    using h that assms(2) by (fastforce simp: history_def)
  have bound: "cost_within (t - w) t ?acc' \<le> max 0 cap" for t
  proof (cases "?ok \<and> now \<le> t")
    case True
    have pos: "\<forall>e \<in> set ?acc'. 0 \<le> snd e"
      using before cost_pos [OF assms(3)] by auto
    have "cost_within (t - w) t ?acc' \<le> cost (live (now - w) ?acc')"
      unfolding cost_within_def live_def
      by (rule cost_filter_mono [OF _ pos]) (use True in auto)
    also have "\<dots> \<le> cost (live (now - w) acc) + n"
      using True cost_pos [OF assms(3)] by (simp add: live_def cost_def)
    also have "\<dots> \<le> cap"
      using True allow_iff [OF I assms(3) history_sorted [OF h]] es by simp
    finally show ?thesis by simp
  next
    case False
    then have "cost_within (t - w) t ?acc' = cost_within (t - w) t acc"
      by (auto simp: cost_within_def)
    then show ?thesis using h by (simp add: history_def)
  qed
  have "entries ?s' = live (now - w) ?acc'"
    using entries_allow [OF I assms(3) history_sorted [OF h]] es window_nonneg [OF I] by (simp add: live_def)
  moreover have "sorted (map fst ?acc')"
    using h before by (auto simp: history_def sorted_append)
  ultimately show ?thesis
    using inv_allow [OF I assms(3)] before bound cost_pos [OF assms(3)]
    unfolding history_def by force
qed

lemma history_run:
  "history acc tl0 s \<Longrightarrow> sorted (tl0 # map fst calls) \<Longrightarrow> \<forall>c \<in> set calls. valid_cost (snd c) \<Longrightarrow>
   \<exists>tl0'. history (acc @ fst (window_run allow s calls)) tl0' (snd (window_run allow s calls))"
proof (induction calls arbitrary: acc tl0 s)
  case (Cons call calls)
  obtain now n where call: "call = (now, n)" by (cases call)
  let ?ok = "fst (allow now n s)" and ?s' = "snd (allow now n s)"
  have "history (acc @ (if ?ok then [(now, n)] else [])) now ?s'"
    by (rule history_step [OF Cons.prems(1)]) (use Cons.prems call in auto)
  from Cons.IH [OF this] Cons.prems call show ?case
    by (simp add: case_prod_beta Let_def append.assoc)
qed auto

text \<open>The accepted traffic of any run never exceeds the capacity in any window.\<close>

lemma run_bound:
  assumes "inv s" "entries s = []" "sorted (map fst calls)" "\<forall>c \<in> set calls. valid_cost (snd c)"
  shows "cost_within (t - w) t (fst (window_run allow s calls)) \<le> max 0 cap"
proof (cases calls)
  case (Cons c cs)
  have "history [] (fst c) s"
    using assms by (auto simp: history_def live_def cost_within_def cost_def)
  from history_run [OF this, of calls] assms Cons show ?thesis
    by (auto simp: history_def)
qed (simp add: cost_within_def cost_def)

end

section \<open>Both windows meet it\<close>

definition sliding_entries :: "sliding \<Rightarrow> (int \<times> int) list" where
  "sliding_entries s = map (\<lambda>t. (t, 1)) (sl_stamps s)"

definition sliding_call :: "int \<Rightarrow> int \<Rightarrow> sliding \<Rightarrow> bool \<times> sliding" where
  "sliding_call now n s = sliding_allow now s"

lemma live_stamps: "live c (map (\<lambda>t. (t, 1)) ts) = map (\<lambda>t. (t, 1)) (filter (\<lambda>t. c \<le> t) ts)"
  by (simp add: live_def filter_map o_def)

lemma cost_stamps: "cost (map (\<lambda>t. (t, 1)) ts) = int (length ts)"
  by (induction ts) (simp_all add: cost_def)

lemma sliding_allow_live:
  assumes "sorted (sl_stamps s)"
  shows "sliding_allow now s =
    (let ts = filter (\<lambda>t. now - sl_window s \<le> t) (sl_stamps s) in
     if int (length ts) \<ge> sl_max s then (False, s\<lparr>sl_stamps := ts\<rparr>)
     else (True, s\<lparr>sl_stamps := ts @ [now]\<rparr>))"
  using assms dropWhile_filter_sorted [of "\<lambda>t. t" "sl_stamps s" "now - sl_window s"]
  by (simp add: sliding_allow_def Let_def)

lemma sliding_allow_frame [simp]:
  "sl_window (snd (sliding_allow now s)) = sl_window s"
  "sl_max (snd (sliding_allow now s)) = sl_max s"
  by (simp_all add: sliding_allow_def Let_def)

interpretation sliding_lim: window_limiter w cap
  "\<lambda>s. sl_window s = w \<and> sl_max s = cap \<and> 0 \<le> w" sliding_entries "\<lambda>n. n = 1" sliding_call
  for w cap :: int
  by unfold_locales
    (auto simp: sliding_call_def sliding_entries_def sliding_allow_live live_stamps cost_stamps o_def
      Let_def split: if_splits)

interpretation byte_lim: window_limiter w cap
  "\<lambda>b. bw_window b = w \<and> bw_max_bytes b = cap \<and> 0 \<le> w" bw_entries "\<lambda>n. 0 < n" byte_allow
  for w cap :: int
  by unfold_locales (auto simp: byte_allow_def Let_def dropWhile_live cost_def)

section \<open>Per-IP windows\<close>

text \<open>
  A window set is a map from IPs to elements of a list ordered by last use. The elements are the
  list's own, so the map is the lookup by IP in that list.
\<close>

record ip_window =
  iw_ip :: string
  iw_last_seen :: int
  iw_limiter :: sliding

type_synonym ip_window_set = "ip_window list"

definition iw_lookup :: "string \<Rightarrow> ip_window_set \<Rightarrow> ip_window option" where
  "iw_lookup ip order = find (\<lambda>x. iw_ip x = ip) order"

fun evict_expired :: "nat \<Rightarrow> int \<Rightarrow> ip_window_set \<Rightarrow> ip_window_set" where
  "evict_expired 0 cutoff order = order"
| "evict_expired (Suc n) cutoff [] = []"
| "evict_expired (Suc n) cutoff (x # order) =
     (if \<not> iw_last_seen x < cutoff then x # order else evict_expired n cutoff order)"

definition ip_allow :: "int \<Rightarrow> int \<Rightarrow> int \<Rightarrow> string \<Rightarrow> int \<Rightarrow> ip_window_set \<Rightarrow> bool \<times> ip_window_set" where
  "ip_allow now t_allow t_seen ip max_per_minute order =
     (let cutoff = now - minute;
          order = evict_expired 64 cutoff order
      in case iw_lookup ip order of
           Some x \<Rightarrow>
             (let (allowed, l) = sliding_allow t_allow (iw_limiter x);
                  x = x\<lparr>iw_limiter := l, iw_last_seen := t_seen\<rparr>
              in (allowed, filter (\<lambda>y. iw_ip y \<noteq> ip) order @ [x]))
         | None \<Rightarrow>
             (let (allowed, l) = sliding_allow t_allow (new_sliding minute max_per_minute)
              in (allowed, order @ [\<lparr>iw_ip = ip, iw_last_seen = t_seen, iw_limiter = l\<rparr>])))"

section \<open>Connection limiter and hub\<close>

record conn_limiter =
  cl_events :: sliding
  cl_reqs :: sliding
  cl_neg_open :: sliding
  cl_neg_msg :: sliding
  cl_bytes :: byte_window

definition new_conn_limiter :: "config \<Rightarrow> conn_limiter" where
  "new_conn_limiter cfg =
     (let neg_open_max = effective_neg_open_per_minute cfg;
          neg_msg_max = effective_neg_msg_per_minute cfg;
          neg_open_max = (if neg_open_max \<le> 0 then 2 ^ 30 else neg_open_max);
          neg_msg_max = (if neg_msg_max \<le> 0 then 2 ^ 30 else neg_msg_max)
      in \<lparr>cl_events = new_sliding minute (events_per_minute_per_connection (rate_limits cfg)),
          cl_reqs = new_sliding minute (reqs_per_minute_per_connection (rate_limits cfg)),
          cl_neg_open = new_sliding minute neg_open_max,
          cl_neg_msg = new_sliding minute neg_msg_max,
          cl_bytes = new_byte_window second (bytes_per_second_per_connection (rate_limits cfg))\<rparr>)"

record hub =
  hub_messages :: ip_window_set
  hub_connections :: ip_window_set

definition new_hub :: hub where
  "new_hub = \<lparr>hub_messages = [], hub_connections = []\<rparr>"

definition allow_new_connection :: "config \<Rightarrow> int \<Rightarrow> int \<Rightarrow> int \<Rightarrow> string \<Rightarrow> hub \<Rightarrow> bool \<times> hub" where
  "allow_new_connection cfg t1 t2 t3 ip h =
     (let (ok, s) = ip_allow t1 t2 t3 ip (connections_per_minute_per_ip (connection_limits cfg)) (hub_connections h)
      in (ok, h\<lparr>hub_connections := s\<rparr>))"

definition allow_message :: "config \<Rightarrow> int \<Rightarrow> int \<Rightarrow> int \<Rightarrow> string \<Rightarrow> hub \<Rightarrow> bool \<times> hub" where
  "allow_message cfg t1 t2 t3 ip h =
     (let (ok, s) = ip_allow t1 t2 t3 ip (messages_per_minute_per_ip (rate_limits cfg)) (hub_messages h)
      in (ok, h\<lparr>hub_messages := s\<rparr>))"

definition allow_inbound_bytes :: "int \<Rightarrow> int \<Rightarrow> conn_limiter \<Rightarrow> bool \<times> conn_limiter" where
  "allow_inbound_bytes now n cl = (let (ok, w) = byte_allow now n (cl_bytes cl) in (ok, cl\<lparr>cl_bytes := w\<rparr>))"

definition allow_event :: "int \<Rightarrow> conn_limiter \<Rightarrow> bool \<times> conn_limiter" where
  "allow_event now cl = (let (ok, w) = sliding_allow now (cl_events cl) in (ok, cl\<lparr>cl_events := w\<rparr>))"

definition allow_req :: "int \<Rightarrow> conn_limiter \<Rightarrow> bool \<times> conn_limiter" where
  "allow_req now cl = (let (ok, w) = sliding_allow now (cl_reqs cl) in (ok, cl\<lparr>cl_reqs := w\<rparr>))"

definition allow_neg_open :: "int \<Rightarrow> conn_limiter \<Rightarrow> bool \<times> conn_limiter" where
  "allow_neg_open now cl = (let (ok, w) = sliding_allow now (cl_neg_open cl) in (ok, cl\<lparr>cl_neg_open := w\<rparr>))"

definition allow_neg_msg :: "int \<Rightarrow> conn_limiter \<Rightarrow> bool \<times> conn_limiter" where
  "allow_neg_msg now cl = (let (ok, w) = sliding_allow now (cl_neg_msg cl) in (ok, cl\<lparr>cl_neg_msg := w\<rparr>))"

section \<open>Open connections per IP\<close>

type_synonym ip_counts = "(string, int) go_map"

definition open_count :: "string \<Rightarrow> ip_counts \<Rightarrow> int" where
  "open_count ip t = (case map_of t ip of None \<Rightarrow> 0 | Some n \<Rightarrow> n)"

definition try_acquire :: "string \<Rightarrow> int \<Rightarrow> ip_counts \<Rightarrow> (int \<times> bool) \<times> ip_counts" where
  "try_acquire ip mx t =
     (let n = open_count ip t in
      if mx > 0 \<and> n \<ge> mx then ((n, False), t)
      else ((n + 1, True), AList.update ip (n + 1) t))"

definition release_ip :: "string \<Rightarrow> ip_counts \<Rightarrow> ip_counts" where
  "release_ip ip t =
     (let n = open_count ip t in
      if n \<le> 1 then AList.delete ip t else AList.update ip (n - 1) t)"

lemma open_count_release:
  "0 \<le> open_count ip t \<Longrightarrow>
   open_count ip' (release_ip ip t) = (if ip' = ip then max 0 (open_count ip t - 1) else open_count ip' t)"
  by (auto simp: release_ip_def open_count_def Let_def)

lemma open_count_acquire:
  "snd (fst (try_acquire ip mx t)) \<Longrightarrow>
   open_count ip' (snd (try_acquire ip mx t)) = open_count ip' t + (if ip' = ip then 1 else 0)"
  by (auto simp: try_acquire_def open_count_def Let_def split: if_splits)

section \<open>Eviction is invisible\<close>

text \<open>
  The abstract specification of a window set: every IP has its own window forever. The code's
  bounded list simulates it, because an element is dropped only when every stamp in it has left
  the window.
\<close>

fun spec_run :: "(string \<Rightarrow> sliding) \<Rightarrow> (int \<times> string) list \<Rightarrow> bool list" where
  "spec_run a [] = []"
| "spec_run a ((t, ip) # calls) =
     (let (ok, l) = sliding_allow t (a ip) in ok # spec_run (a(ip := l)) calls)"

fun ip_run :: "int \<Rightarrow> ip_window_set \<Rightarrow> (int \<times> int \<times> int \<times> string) list \<Rightarrow> bool list" where
  "ip_run mx order [] = []"
| "ip_run mx order ((t1, t2, t3, ip) # calls) =
     (let (ok, order') = ip_allow t1 t2 t3 ip mx order in ok # ip_run mx order' calls)"

definition ip_sim :: "int \<Rightarrow> int \<Rightarrow> ip_window_set \<Rightarrow> (string \<Rightarrow> sliding) \<Rightarrow> bool" where
  "ip_sim mx now order a \<longleftrightarrow>
     distinct (map iw_ip order) \<and>
     (\<forall>x \<in> set order. iw_limiter x = a (iw_ip x) \<and> iw_last_seen x \<le> now \<and>
        (\<forall>t \<in> set (sl_stamps (iw_limiter x)). t \<le> iw_last_seen x)) \<and>
     (\<forall>ip. sl_window (a ip) = minute \<and> sl_max (a ip) = mx) \<and>
     (\<forall>ip. ip \<notin> iw_ip ` set order \<longrightarrow> (\<forall>t \<in> set (sl_stamps (a ip)). t < now - minute))"

lemma sliding_allow_expired:
  assumes "\<forall>t \<in> set (sl_stamps s). t < now - sl_window s"
  shows "sliding_allow now s = sliding_allow now (s\<lparr>sl_stamps := []\<rparr>)"
proof -
  have e: "dropWhile (\<lambda>t. t < now - sl_window s) (sl_stamps s) = []"
    using assms by simp
  show ?thesis by (simp add: sliding_allow_def Let_def e)
qed

lemma sliding_allow_stamps: "set (sl_stamps (snd (sliding_allow now s))) \<subseteq> insert now (set (sl_stamps s))"
  by (auto simp: sliding_allow_def Let_def dest: set_dropWhileD)

lemma evict_expired_split:
  "\<exists>gone. order = gone @ evict_expired n c order \<and> (\<forall>x \<in> set gone. iw_last_seen x < c)"
proof (induction n c order rule: evict_expired.induct)
  case (3 n c x order)
  show ?case
  proof (cases "iw_last_seen x < c")
    case True
    with 3 obtain gone where "order = gone @ evict_expired n c order" "\<forall>x \<in> set gone. iw_last_seen x < c"
      by auto
    with True show ?thesis by (intro exI [of _ "x # gone"]) simp
  qed simp
qed auto

lemma ip_sim_evict:
  assumes sim: "ip_sim mx now order a" and "now \<le> t"
  shows "ip_sim mx t (evict_expired n (t - minute) order) a"
proof -
  let ?keep = "evict_expired n (t - minute) order"
  obtain gone where order: "order = gone @ ?keep" and gone: "\<forall>x \<in> set gone. iw_last_seen x < t - minute"
    using evict_expired_split by blast
  have elems: "iw_limiter x = a (iw_ip x)" "iw_last_seen x \<le> t"
    "\<forall>s \<in> set (sl_stamps (iw_limiter x)). s \<le> iw_last_seen x" if "x \<in> set gone \<union> set ?keep" for x
    using sim that assms(2) order unfolding ip_sim_def by (metis Un_iff set_append order_trans)+
  have "s < t - minute" if "ip \<notin> iw_ip ` set ?keep" "s \<in> set (sl_stamps (a ip))" for ip s
  proof (cases "ip \<in> iw_ip ` set gone")
    case True
    then obtain x where "x \<in> set gone" "ip = iw_ip x" by auto
    then show ?thesis using elems [of x] gone that(2) by fastforce
  next
    case False
    with that(1) order have "ip \<notin> iw_ip ` set order"
      by (metis Un_iff image_Un set_append)
    then show ?thesis using sim that(2) assms(2) by (fastforce simp: ip_sim_def)
  qed
  moreover have "distinct (map iw_ip ?keep)"
    using sim order unfolding ip_sim_def by (metis distinct_append map_append)
  ultimately show ?thesis
    using elems sim by (auto simp: ip_sim_def)
qed

lemma ip_lookup_Some:
  "iw_lookup ip order = Some x \<Longrightarrow> x \<in> set order \<and> iw_ip x = ip"
  unfolding iw_lookup_def by (rule find_Some_set)

lemma ip_sim_touch:
  assumes sim: "ip_sim mx t1 order a" and t: "t1 \<le> t2" "t2 \<le> t3"
    and l: "l = snd (sliding_allow t2 (a ip))"
    and st: "\<forall>t \<in> set (sl_stamps l). t \<le> t3"
  shows "ip_sim mx t3 (filter (\<lambda>y. iw_ip y \<noteq> ip) order @
      [\<lparr>iw_ip = ip, iw_last_seen = t3, iw_limiter = l\<rparr>]) (a(ip := l))"
proof -
  let ?rest = "filter (\<lambda>y. iw_ip y \<noteq> ip) order"
  have "distinct (map iw_ip ?rest)"
    using sim by (simp add: ip_sim_def distinct_map_filter)
  moreover have "ip \<notin> iw_ip ` set ?rest"
    by auto
  moreover have "sl_window l = minute \<and> sl_max l = mx"
    using sim l by (simp add: ip_sim_def)
  moreover have "iw_last_seen x \<le> t3" "iw_limiter x = a (iw_ip x)"
    "\<forall>s \<in> set (sl_stamps (iw_limiter x)). s \<le> iw_last_seen x" if "x \<in> set ?rest" for x
    using sim that t by (auto simp: ip_sim_def)
  moreover have "\<forall>s \<in> set (sl_stamps (a ip')). s < t3 - minute" if "ip' \<noteq> ip" "ip' \<notin> iw_ip ` set ?rest" for ip'
  proof -
    have "ip' \<notin> iw_ip ` set order"
      using that by auto
    then show ?thesis using sim t by (fastforce simp: ip_sim_def)
  qed
  ultimately show ?thesis
    using sim st unfolding ip_sim_def by (simp add: ball_Un) blast
qed

lemma ip_sim_step:
  assumes sim: "ip_sim mx now order a" and t: "now \<le> t1" "t1 \<le> t2" "t2 \<le> t3"
  shows "fst (ip_allow t1 t2 t3 ip mx order) = fst (sliding_allow t2 (a ip))"
    and "ip_sim mx t3 (snd (ip_allow t1 t2 t3 ip mx order)) (a(ip := snd (sliding_allow t2 (a ip))))"
proof -
  define keep where "keep = evict_expired 64 (t1 - minute) order"
  define l where "l = snd (sliding_allow t2 (a ip))"
  have sim': "ip_sim mx t1 keep a"
    unfolding keep_def using ip_sim_evict [OF sim t(1)] .
  have st: "\<forall>s \<in> set (sl_stamps l). s \<le> t3"
  proof -
    have "s \<le> t1" if "s \<in> set (sl_stamps (a ip))" for s
      using sim' that minute_pos by (cases "ip \<in> iw_ip ` set keep") (fastforce simp: ip_sim_def)+
    then show ?thesis
      using sliding_allow_stamps [of t2 "a ip"] t unfolding l_def by fastforce
  qed
  note touch = ip_sim_touch [OF sim' t(2,3) l_def st]
  show "fst (ip_allow t1 t2 t3 ip mx order) = fst (sliding_allow t2 (a ip))"
    and "ip_sim mx t3 (snd (ip_allow t1 t2 t3 ip mx order)) (a(ip := snd (sliding_allow t2 (a ip))))"
    unfolding l_def [symmetric] atomize_conj
  proof (cases "iw_lookup ip keep")
    case (Some x)
    then have "iw_limiter x = a ip" "iw_ip x = ip"
      using ip_lookup_Some [OF Some] sim' by (auto simp: ip_sim_def)
    then have "ip_allow t1 t2 t3 ip mx order = (fst (sliding_allow t2 (a ip)),
        filter (\<lambda>y. iw_ip y \<noteq> ip) keep @ [\<lparr>iw_ip = ip, iw_last_seen = t3, iw_limiter = l\<rparr>])"
      using Some by (simp add: ip_allow_def l_def case_prod_beta Let_def flip: keep_def)
    then show "fst (ip_allow t1 t2 t3 ip mx order) = fst (sliding_allow t2 (a ip)) \<and>
        ip_sim mx t3 (snd (ip_allow t1 t2 t3 ip mx order)) (a(ip := l))"
      using touch by simp
  next
    case None
    then have new: "ip \<notin> iw_ip ` set keep"
      by (auto simp: iw_lookup_def find_None_iff)
    have keep: "filter (\<lambda>y. iw_ip y \<noteq> ip) keep = keep"
      using new by (auto intro!: filter_True)
    have "sliding_allow t2 (a ip) = sliding_allow t2 (a ip\<lparr>sl_stamps := []\<rparr>)"
      by (rule sliding_allow_expired) (use sim' new t in \<open>fastforce simp: ip_sim_def\<close>)
    also have "a ip\<lparr>sl_stamps := []\<rparr> = new_sliding minute mx"
      using sim' by (cases "a ip") (auto simp: ip_sim_def new_sliding_def dest!: spec [of _ ip])
    finally have "ip_allow t1 t2 t3 ip mx order = (fst (sliding_allow t2 (a ip)),
        filter (\<lambda>y. iw_ip y \<noteq> ip) keep @ [\<lparr>iw_ip = ip, iw_last_seen = t3, iw_limiter = l\<rparr>])"
      using None keep by (simp add: ip_allow_def l_def case_prod_beta Let_def flip: keep_def)
    then show "fst (ip_allow t1 t2 t3 ip mx order) = fst (sliding_allow t2 (a ip)) \<and>
        ip_sim mx t3 (snd (ip_allow t1 t2 t3 ip mx order)) (a(ip := l))"
      using touch by simp
  qed
qed

definition clock_ok :: "(int \<times> int \<times> int \<times> string) list \<Rightarrow> bool" where
  "clock_ok calls = sorted (concat (map (\<lambda>(t1, t2, t3, ip). [t1, t2, t3]) calls))"

lemma ip_run_sim:
  "ip_sim mx now order a \<Longrightarrow> clock_ok calls \<Longrightarrow> (\<forall>(t1, t2, t3, ip) \<in> set calls. now \<le> t1) \<Longrightarrow>
   ip_run mx order calls = spec_run a (map (\<lambda>(t1, t2, t3, ip). (t2, ip)) calls)"
proof (induction calls arbitrary: now order a)
  case (Cons call calls)
  obtain t1 t2 t3 ip where c: "call = (t1, t2, t3, ip)" by (cases call)
  have t: "now \<le> t1" "t1 \<le> t2" "t2 \<le> t3" "clock_ok calls"
    using Cons.prems c by (auto simp: clock_ok_def)
  have later: "\<forall>(t1, t2, t3', ip) \<in> set calls. t3 \<le> t1"
    using Cons.prems(2) c by (auto simp: clock_ok_def)
  note step = ip_sim_step [OF Cons.prems(1) t(1-3), of ip]
  from Cons.IH [OF step(2) t(4) later] step(1) show ?case
    by (simp add: c case_prod_beta Let_def del: fun_upd_apply)
qed simp

section \<open>Properties\<close>

fun accepted_times :: "sliding \<Rightarrow> int list \<Rightarrow> int list" where
  "accepted_times s [] = []"
| "accepted_times s (t # ts) =
     (let (ok, s') = sliding_allow t s in (if ok then [t] else []) @ accepted_times s' ts)"

lemma accepted_times_run:
  "map (\<lambda>t. (t, 1)) (accepted_times s ts) = fst (window_run sliding_call s (map (\<lambda>t. (t, 1)) ts))"
  by (induction ts arbitrary: s) (auto simp: sliding_call_def case_prod_beta Let_def)

text \<open>C40: However the calls fall, a sliding window never admits more than its maximum within any
  window of its length: among the admitted times of a run with a monotone clock, at most
  \<open>max\<close> lie between \<open>hi - w\<close> and \<open>hi\<close>, for every \<open>hi\<close>.\<close>

theorem sliding_window_bound:
  assumes "0 \<le> w" and "sorted ts"
  shows "int (length (filter (\<lambda>t. hi - w \<le> t \<and> t \<le> hi) (accepted_times (new_sliding w mx) ts))) \<le> max 0 mx"
proof -
  have "cost_within (hi - w) hi (fst (window_run sliding_call (new_sliding w mx) (map (\<lambda>t. (t, 1)) ts))) \<le> max 0 mx"
    by (rule sliding_lim.run_bound) (use assms in \<open>auto simp: new_sliding_def sliding_entries_def o_def\<close>)
  then show ?thesis
    unfolding accepted_times_run [symmetric] cost_within_def by (simp add: filter_map o_def cost_stamps)
qed

theorem sliding_window_bound_witness:
  "int (length (filter (\<lambda>t. 9 - 10 \<le> t \<and> t \<le> 9) (accepted_times (new_sliding 10 2) [1, 2, 3, 14]))) \<le> max 0 2"
  by (rule sliding_window_bound) simp_all

fun accepted_bytes :: "byte_window \<Rightarrow> (int \<times> int) list \<Rightarrow> (int \<times> int) list" where
  "accepted_bytes b [] = []"
| "accepted_bytes b ((t, n) # calls) =
     (let (ok, b') = byte_allow t n b in (if ok then [(t, n)] else []) @ accepted_bytes b' calls)"

lemma accepted_bytes_run: "accepted_bytes b calls = fst (window_run byte_allow b calls)"
  by (induction calls arbitrary: b) (auto simp: case_prod_beta Let_def)

text \<open>The byte window caps bandwidth: the sizes of the payloads admitted within any window of
  its length add up to at most its maximum.\<close>

theorem byte_window_bound:
  assumes "0 \<le> w" and "sorted (map fst calls)" and "\<forall>(t, n) \<in> set calls. 0 < n"
  shows "sum_list (map snd (filter (\<lambda>(t, n). hi - w \<le> t \<and> t \<le> hi)
      (accepted_bytes (new_byte_window w mx) calls))) \<le> max 0 mx"
proof -
  have "cost_within (hi - w) hi (fst (window_run byte_allow (new_byte_window w mx) calls)) \<le> max 0 mx"
    by (rule byte_lim.run_bound) (use assms in \<open>auto simp: new_byte_window_def\<close>)
  then show ?thesis
    by (simp add: accepted_bytes_run cost_within_def cost_def case_prod_unfold)
qed

theorem byte_window_bound_witness:
  "sum_list (map snd (filter (\<lambda>(t, n). 5 - 10 \<le> t \<and> t \<le> 5)
      (accepted_bytes (new_byte_window 10 100) [(1, 60), (2, 60), (5, 40)]))) \<le> max 0 100"
  by (rule byte_window_bound) simp_all

text \<open>C36: The bounded, evicting per-IP limiter decides exactly as if every IP had a sliding window
  of its own that is never dropped: eviction neither forgives traffic still inside the minute nor
  blocks anyone, for every sequence of calls with a monotone clock.\<close>

theorem ip_limiter_refines_unbounded:
  assumes "clock_ok calls"
  shows "ip_run mx [] calls =
    spec_run (\<lambda>ip. new_sliding minute mx) (map (\<lambda>(t1, t2, t3, ip). (t2, ip)) calls)"
proof (cases calls)
  case (Cons c cs)
  obtain t1 t2 t3 ip where c: "c = (t1, t2, t3, ip)" by (cases c)
  have "ip_sim mx t1 [] (\<lambda>ip. new_sliding minute mx)"
    by (simp add: ip_sim_def new_sliding_def)
  then show ?thesis
    by (rule ip_run_sim) (use assms Cons c in \<open>fastforce simp: clock_ok_def\<close>)+
qed simp

theorem ip_limiter_refines_unbounded_witness:
  "ip_run 1 [] [(0, 1, 2, ''a''), (3, 3, 3, ''a''), (minute + 4, minute + 4, minute + 4, ''b'')] =
   spec_run (\<lambda>ip. new_sliding minute 1) [(1, ''a''), (3, ''a''), (minute + 4, ''b'')]"
  using ip_limiter_refines_unbounded
    [of "[(0, 1, 2, ''a''), (3, 3, 3, ''a''), (minute + 4, minute + 4, minute + 4, ''b'')]" 1]
  by (simp add: clock_ok_def minute_def)

text \<open>Open connections per IP stay below the configured maximum and balance: a reservation
  succeeds exactly when the IP is below a positive maximum (or the maximum is off), adds one to
  that IP alone, and releasing it restores every count.\<close>

theorem ip_tracker_balanced:
  assumes "\<forall>ip. 0 \<le> open_count ip t" and "try_acquire ip mx t = ((n, ok), t')"
  shows "(ok \<longleftrightarrow> \<not> (0 < mx \<and> mx \<le> open_count ip t)) \<and>
    (ok \<longrightarrow> n = open_count ip t + 1 \<and> (0 < mx \<longrightarrow> n \<le> mx) \<and>
      (\<forall>ip'. open_count ip' t' = open_count ip' t + (if ip' = ip then 1 else 0)) \<and>
      (\<forall>ip'. open_count ip' (release_ip ip t') = open_count ip' t)) \<and>
    (\<not> ok \<longrightarrow> t' = t)"
proof -
  have ok: "ok = (\<not> (0 < mx \<and> mx \<le> open_count ip t))" and n: "ok \<Longrightarrow> n = open_count ip t + 1"
    and same: "\<not> ok \<Longrightarrow> t' = t"
    using assms(2) by (auto simp: try_acquire_def Let_def split: if_splits)
  have cnt: "open_count ip' t' = open_count ip' t + (if ip' = ip then 1 else 0)" if ok for ip'
    using open_count_acquire [of ip mx t ip'] that assms(2) by simp
  have "open_count ip' (release_ip ip t') = open_count ip' t" if ok for ip'
    using open_count_release [of ip t' ip'] cnt that assms(1) by simp
  then show ?thesis using ok n same cnt by auto
qed

theorem ip_tracker_balanced_witness:
  "open_count ''10.0.0.1'' (release_ip ''10.0.0.1'' [(''10.0.0.1'', 2)]) = open_count ''10.0.0.1'' [(''10.0.0.1'', 1)]"
  using ip_tracker_balanced [of "[(''10.0.0.1'', 1)]" "''10.0.0.1''" 2 2 True "[(''10.0.0.1'', 2)]"]
  by (simp add: open_count_def try_acquire_def)

end
