(* ===== verification/Relay_Conn.thy ===== *)
theory Relay_Conn
  imports Store_Interface Limiter
begin

text \<open>
  One WebSocket client: \<open>Conn\<close> in \<open>internal/relay/handler.go\<close> with its outbound queue, the idle
  clock of \<open>conn_idle.go\<close>, the counters of \<open>conn_telemetry.go\<close>, the AUTH state of
  \<open>nip42.go\<close> and \<open>initiateShutdown\<close> of \<open>conn_shutdown.go\<close>.

  \<open>cn_send\<close> is the buffered channel between the handlers and the write loop: the frames queued
  and not yet written; \<open>cn_written\<close> are the frames the write loop has written to the socket.
  \<open>initiateShutdown\<close> is one step, as its effects only become visible through the flags it sets;
  a send that finds room is preferred to the cancelled context, which Go's \<open>select\<close> may also pick.
  \<open>negentropy.Negentropy\<close> belongs to a library: a session keeps what determines it, the items it
  was built from, its frame limit and the messages it has been given.
\<close>

section \<open>Connection\<close>

record neg_session =
  ns_key :: nat
  ns_filter_kinds :: "int list"
  ns_record_count :: int
  ns_opened_unix :: int
  ns_rounds :: int
  ns_last_act_unix :: int
  ns_neg :: "(sync_item list \<times> int \<times> string list) option"

record conn =
  cn_id :: string
  cn_peer_ip :: string
  cn_send :: "frame list"
  cn_written :: "frame list"
  cn_ctx_done :: bool
  cn_outbound_closed :: bool
  cn_limiter :: conn_limiter
  cn_started_unix :: int
  cn_idle_since_unix :: int
  cn_req_total :: int
  cn_auth_total :: int
  cn_client_event_total :: int
  cn_neg_open_total :: int
  cn_neg_msg_total :: int
  cn_neg_sessions :: "(string, neg_session) go_map"
  cn_neg_closed :: bool
  cn_challenge :: string
  cn_auth_sent :: bool
  cn_pubkeys :: "string list"
  cn_current_pubkey :: string

definition send_queue_cap :: nat where "send_queue_cap = 16384"

definition err_slow_consumer :: string where "err_slow_consumer = ''relay: send buffer full''"
definition err_canceled :: string where "err_canceled = ''context canceled''"

definition new_conn :: "config \<Rightarrow> string \<Rightarrow> string \<Rightarrow> int \<Rightarrow> conn" where
  "new_conn cfg cid peer now = \<lparr>cn_id = cid, cn_peer_ip = peer, cn_send = [], cn_written = [],
     cn_ctx_done = False, cn_outbound_closed = False, cn_limiter = new_conn_limiter cfg,
     cn_started_unix = now, cn_idle_since_unix = now, cn_req_total = 0, cn_auth_total = 0,
     cn_client_event_total = 0, cn_neg_open_total = 0, cn_neg_msg_total = 0, cn_neg_sessions = [],
     cn_neg_closed = False, cn_challenge = [], cn_auth_sent = False, cn_pubkeys = [],
     cn_current_pubkey = []\<rparr>"

section \<open>Outbound queue\<close>

definition enqueue :: "frame \<Rightarrow> conn \<Rightarrow> string option \<times> conn" where
  "enqueue b c =
     (if cn_outbound_closed c then (Some err_slow_consumer, c)
      else if length (cn_send c) < send_queue_cap then (None, c\<lparr>cn_send := cn_send c @ [b]\<rparr>)
      else if cn_ctx_done c then (Some err_canceled, c)
      else (Some err_slow_consumer, c))"

definition send_notice :: "string \<Rightarrow> conn \<Rightarrow> string option \<times> conn" where
  "send_notice msg c = enqueue (FNotice msg) c"

definition send_ok :: "string \<Rightarrow> bool \<Rightarrow> string \<Rightarrow> conn \<Rightarrow> string option \<times> conn" where
  "send_ok event_id ok msg c = enqueue (FOk event_id ok msg) c"

definition send_eose :: "string \<Rightarrow> conn \<Rightarrow> string option \<times> conn" where
  "send_eose sub_id c = enqueue (FEose sub_id) c"

definition send_event :: "string \<Rightarrow> event \<Rightarrow> conn \<Rightarrow> string option \<times> conn" where
  "send_event sub_id ev c =
     (case marshal_relay_event sub_id (Some ev) of
        Inl err \<Rightarrow> (Some err, c)
      | Inr b \<Rightarrow> enqueue b c)"

definition send_closed :: "string \<Rightarrow> string \<Rightarrow> conn \<Rightarrow> string option \<times> conn" where
  "send_closed sub_id msg c = enqueue (FClosed sub_id msg) c"

definition initiate_shutdown :: "conn \<Rightarrow> conn" where
  "initiate_shutdown c = c\<lparr>cn_ctx_done := True, cn_outbound_closed := True\<rparr>"

definition enqueue_subscription_frame :: "frame \<Rightarrow> conn \<Rightarrow> bool \<times> conn" where
  "enqueue_subscription_frame b c =
     (case enqueue b c of
        (Some err, c') \<Rightarrow> (False, initiate_shutdown c')
      | (None, c') \<Rightarrow> (True, c'))"

text \<open>One turn of the write loop; \<open>write_err\<close> is a failed write, after which the loop shuts down.\<close>

definition write_loop_step :: "bool \<Rightarrow> conn \<Rightarrow> conn" where
  "write_loop_step write_err c =
     (case cn_send c of
        [] \<Rightarrow> c
      | b # rest \<Rightarrow>
          if write_err then initiate_shutdown (c\<lparr>cn_send := rest\<rparr>)
          else c\<lparr>cn_send := rest, cn_written := cn_written c @ [b]\<rparr>)"

definition outbound :: "conn \<Rightarrow> frame list" where
  "outbound c = cn_written c @ cn_send c"

lemma outbound_write_loop [simp]: "\<not> e \<Longrightarrow> outbound (write_loop_step e c) = outbound c"
  by (cases "cn_send c") (simp_all add: outbound_def write_loop_step_def)

lemma enqueue_cases:
  obtains (sent) "\<not> cn_outbound_closed c" "enqueue b c = (None, c\<lparr>cn_send := cn_send c @ [b]\<rparr>)"
  | (failed) err where "enqueue b c = (Some err, c)"
  by (cases "cn_outbound_closed c"; cases "length (cn_send c) < send_queue_cap"; cases "cn_ctx_done c")
    (auto simp: enqueue_def)

lemma enqueue_None_iff:
  "fst (enqueue b c) = None \<longleftrightarrow> \<not> cn_outbound_closed c \<and> length (cn_send c) < send_queue_cap"
  by (simp add: enqueue_def)

lemma outbound_enqueue:
  "outbound (snd (enqueue b c)) = outbound c @ (if fst (enqueue b c) = None then [b] else [])"
  by (simp add: enqueue_def outbound_def)

lemma enqueue_bound:
  "length (cn_send c) \<le> send_queue_cap \<Longrightarrow> length (cn_send (snd (enqueue b c))) \<le> send_queue_cap"
  by (simp add: enqueue_def)

lemma enqueue_frame [simp]:
  "cn_id (snd (enqueue b c)) = cn_id c" "cn_peer_ip (snd (enqueue b c)) = cn_peer_ip c" "cn_pubkeys (snd (enqueue b c)) = cn_pubkeys c"
  "cn_current_pubkey (snd (enqueue b c)) = cn_current_pubkey c"
  "cn_challenge (snd (enqueue b c)) = cn_challenge c" "cn_auth_sent (snd (enqueue b c)) = cn_auth_sent c"
  "cn_neg_sessions (snd (enqueue b c)) = cn_neg_sessions c" "cn_neg_closed (snd (enqueue b c)) = cn_neg_closed c"
  "cn_outbound_closed (snd (enqueue b c)) = cn_outbound_closed c"
  "cn_ctx_done (snd (enqueue b c)) = cn_ctx_done c"
  "cn_idle_since_unix (snd (enqueue b c)) = cn_idle_since_unix c"
  "cn_client_event_total (snd (enqueue b c)) = cn_client_event_total c"
  "cn_limiter (snd (enqueue b c)) = cn_limiter c"
  by (simp_all add: enqueue_def)

section \<open>Idle clock and counters\<close>

definition idle_exempt_event :: int where "idle_exempt_event = 0"
definition idle_active_subs :: int where "idle_active_subs = - 1"

definition init_idle_clock :: "conn \<Rightarrow> conn" where
  "init_idle_clock c = c\<lparr>cn_idle_since_unix := cn_started_unix c\<rparr>"

definition note_client_event :: "conn \<Rightarrow> conn" where
  "note_client_event c = c\<lparr>cn_idle_since_unix := idle_exempt_event\<rparr>"

definition note_subscription_count :: "int \<Rightarrow> int \<Rightarrow> conn \<Rightarrow> conn" where
  "note_subscription_count now n c =
     (if n > 0 then c\<lparr>cn_idle_since_unix := idle_active_subs\<rparr>
      else if cn_client_event_total c > 0 then c\<lparr>cn_idle_since_unix := idle_exempt_event\<rparr>
      else c\<lparr>cn_idle_since_unix := now\<rparr>)"

definition idle_eligible :: "int \<Rightarrow> conn \<Rightarrow> bool" where
  "idle_eligible sub_count c =
     (let since = cn_idle_since_unix c in
      if since \<le> idle_exempt_event then False
      else if cn_client_event_total c > 0 then False
      else sub_count = 0)"

definition idle_seconds :: "int \<Rightarrow> conn \<Rightarrow> int" where
  "idle_seconds now_unix c =
     (let since = cn_idle_since_unix c in
      if since \<le> idle_exempt_event then 0 else sub64 now_unix since)"

fun note_inbound_after_parse :: "client_msg \<Rightarrow> conn \<Rightarrow> conn" where
  "note_inbound_after_parse (EventMessage _) c =
     note_client_event (c\<lparr>cn_client_event_total := cn_client_event_total c + 1\<rparr>)"
| "note_inbound_after_parse (ReqMessage _ _) c = c\<lparr>cn_req_total := cn_req_total c + 1\<rparr>"
| "note_inbound_after_parse (AuthMessage _) c = c\<lparr>cn_auth_total := cn_auth_total c + 1\<rparr>"
| "note_inbound_after_parse (NegOpenMessage _ _ _) c = c\<lparr>cn_neg_open_total := cn_neg_open_total c + 1\<rparr>"
| "note_inbound_after_parse (NegMsgMessage _ _) c = c\<lparr>cn_neg_msg_total := cn_neg_msg_total c + 1\<rparr>"
| "note_inbound_after_parse _ c = c"

section \<open>AUTH state\<close>

definition nip42_current_challenge :: "conn \<Rightarrow> string" where
  "nip42_current_challenge c = cn_challenge c"

definition nip42_current_auth_pubkey :: "conn \<Rightarrow> string" where
  "nip42_current_auth_pubkey c = cn_current_pubkey c"

definition nip42_add_pubkey :: "string \<Rightarrow> conn \<Rightarrow> conn" where
  "nip42_add_pubkey pk c = c\<lparr>cn_pubkeys := List.insert pk (cn_pubkeys c), cn_current_pubkey := pk\<rparr>"

definition nip42_has_pubkey :: "string \<Rightarrow> conn \<Rightarrow> bool" where
  "nip42_has_pubkey pk c \<longleftrightarrow> pk \<in> set (cn_pubkeys c)"

definition nip42_has_any_auth :: "conn \<Rightarrow> bool" where
  "nip42_has_any_auth c \<longleftrightarrow> length (cn_pubkeys c) > 0"

definition nip42_authed_pubkeys :: "conn \<Rightarrow> string list" where
  "nip42_authed_pubkeys c = cn_pubkeys c"

text \<open>\<open>fresh\<close> is the challenge the random source would give.\<close>

definition nip42_ensure_challenge :: "string \<Rightarrow> conn \<Rightarrow> conn" where
  "nip42_ensure_challenge fresh c =
     (if cn_challenge c = [] then c\<lparr>cn_challenge := fresh\<rparr> else c)"

definition relay_nip42_enabled :: "config \<Rightarrow> bool" where
  "relay_nip42_enabled cfg = list_ex (\<lambda>n. n = 42) (nips_enabled cfg)"

definition nip42_enqueue_auth_challenge :: "config \<Rightarrow> string \<Rightarrow> conn \<Rightarrow> string option \<times> conn" where
  "nip42_enqueue_auth_challenge cfg fresh c =
     (if \<not> relay_nip42_enabled cfg then (None, c)
      else if cn_auth_sent c then (None, c)
      else let c = nip42_ensure_challenge fresh c;
               ch = cn_challenge c;
               c = c\<lparr>cn_auth_sent := True\<rparr>
           in case marshal_relay_auth ch of
                Inl err \<Rightarrow> (Some err, c)
              | Inr b \<Rightarrow> enqueue b c)"

lemma nip42_challenge_sent:
  "relay_nip42_enabled cfg \<Longrightarrow> cn_auth_sent (snd (nip42_enqueue_auth_challenge cfg fresh c))"
  by (simp add: nip42_enqueue_auth_challenge_def Let_def split: sum.split)

lemma nip42_challenge_once:
  assumes "nip42_enqueue_auth_challenge cfg fresh c = (e, c')"
  shows "nip42_enqueue_auth_challenge cfg fresh' c' = (None, c')"
  using nip42_challenge_sent [of cfg fresh c] assms
  by (cases "relay_nip42_enabled cfg") (simp_all add: nip42_enqueue_auth_challenge_def [of cfg fresh'])

lemma nip42_challenge_frames:
  assumes "fresh \<noteq> []"
  shows "outbound (snd (nip42_enqueue_auth_challenge cfg fresh c)) = outbound c \<or>
    outbound (snd (nip42_enqueue_auth_challenge cfg fresh c)) =
      outbound c @ [FAuth (cn_challenge (snd (nip42_enqueue_auth_challenge cfg fresh c)))]"
  using assms
  by (simp add: nip42_enqueue_auth_challenge_def nip42_ensure_challenge_def marshal_relay_auth_def
      enqueue_def outbound_def Let_def)

lemma nip42_challenge_kept:
  "cn_challenge c \<noteq> [] \<Longrightarrow> cn_challenge (snd (nip42_enqueue_auth_challenge cfg fresh c)) = cn_challenge c"
  by (simp add: nip42_enqueue_auth_challenge_def nip42_ensure_challenge_def marshal_relay_auth_def Let_def)

section \<open>Properties\<close>

text \<open>A connection sees one challenge: however often the relay asks for authentication, at most
  one AUTH frame is queued, a challenge that was issued is never changed, and the challenge in the
  frame is the one authentication is checked against.\<close>

theorem auth_challenge_once:
  assumes "fresh \<noteq> []" and "nip42_enqueue_auth_challenge cfg fresh c = (e, c')"
  shows "nip42_enqueue_auth_challenge cfg fresh' c' = (None, c') \<and>
    (cn_challenge c \<noteq> [] \<longrightarrow> cn_challenge c' = cn_challenge c) \<and>
    (\<exists>frames. outbound c' = outbound c @ frames \<and> length frames \<le> 1 \<and>
      (\<forall>f \<in> set frames. f = FAuth (nip42_current_challenge c')))"
proof -
  have c': "c' = snd (nip42_enqueue_auth_challenge cfg fresh c)" using assms(2) by simp
  obtain frames where "outbound c' = outbound c @ frames" "frames = [] \<or> frames = [FAuth (cn_challenge c')]"
    using nip42_challenge_frames [OF assms(1), of cfg c] unfolding c' by (metis append_Nil2)
  then have "\<exists>frames. outbound c' = outbound c @ frames \<and> length frames \<le> 1 \<and>
      (\<forall>f \<in> set frames. f = FAuth (nip42_current_challenge c'))"
    unfolding nip42_current_challenge_def by fastforce
  then show ?thesis
    using nip42_challenge_once [OF assms(2)] nip42_challenge_kept [of c cfg fresh] c' by blast
qed

definition auth_config :: config where
  "auth_config = default_config\<lparr>nips_enabled := [1, 42]\<rparr>"

definition sample_conn :: conn where
  "sample_conn = new_conn auth_config ''c1'' ''10.0.0.1'' 100"

theorem auth_challenge_once_witness:
  "cn_send (snd (nip42_enqueue_auth_challenge auth_config ''x''
     (snd (nip42_enqueue_auth_challenge auth_config ''ab'' sample_conn)))) = [FAuth ''ab'']"
proof -
  let ?r = "nip42_enqueue_auth_challenge auth_config ''ab'' sample_conn"
  have "?r = (None, sample_conn\<lparr>cn_send := [FAuth ''ab''], cn_challenge := ''ab'', cn_auth_sent := True\<rparr>)"
    by (simp add: nip42_enqueue_auth_challenge_def relay_nip42_enabled_def auth_config_def sample_conn_def
        new_conn_def nip42_ensure_challenge_def marshal_relay_auth_def enqueue_def send_queue_cap_def Let_def)
  from auth_challenge_once [OF _ this, of "''x''"] this show ?thesis by simp
qed

text \<open>A full queue closes a slow client instead of skipping a live frame: the frame is either queued
  behind all earlier frames or the connection is shut down, after which nothing is ever queued.\<close>

theorem slow_consumer_is_closed:
  assumes "enqueue_subscription_frame b c = (ok, c')"
  shows "(ok \<longrightarrow> outbound c' = outbound c @ [b]) \<and>
    (\<not> ok \<longrightarrow> outbound c' = outbound c \<and> cn_outbound_closed c' \<and>
      (\<forall>b'. fst (enqueue b' c') \<noteq> None \<and> snd (enqueue b' c') = c'))"
  using assms
  by (cases rule: enqueue_cases [of c b])
    (auto simp: enqueue_subscription_frame_def initiate_shutdown_def enqueue_def outbound_def split: if_splits)

theorem slow_consumer_is_closed_witness:
  "cn_send (snd (enqueue_subscription_frame (FEose ''s'') (initiate_shutdown sample_conn))) = []"
proof -
  have "enqueue_subscription_frame (FEose ''s'') (initiate_shutdown sample_conn) =
      (False, initiate_shutdown sample_conn)"
    by (simp add: enqueue_subscription_frame_def enqueue_def initiate_shutdown_def)
  from slow_consumer_is_closed [OF this] show ?thesis
    by (simp add: enqueue_subscription_frame_def enqueue_def initiate_shutdown_def sample_conn_def new_conn_def)
qed

lemma idle_clock_spares_active:
  "\<not> idle_eligible n (note_inbound_after_parse (EventMessage e) c)"
  "0 < k \<Longrightarrow> \<not> idle_eligible n (note_subscription_count now k c)"
  by (simp_all add: idle_eligible_def note_subscription_count_def note_client_event_def
      idle_exempt_event_def idle_active_subs_def Let_def)

end
