(* ===== verification/Subscriptions.thy ===== *)
theory Subscriptions
  imports Relay_Conn
begin

text \<open>
  Subscriptions: \<open>internal/relay/subscription.go\<close>. The manager's maps and the connections its
  senders write to are the record \<open>wire\<close>, which the server's state extends; every operation
  takes and returns it. A sender is \<open>enqueueSubscriptionFrame\<close> of the connection with that id.

  A \<open>*subEntry\<close> is identified by its generation, which the manager never reuses; the \<open>closed\<close>
  flag of an entry that left the map is no longer read, as deliveries compare the entry in the map
  first. The counters of an entry are kept; logging is not. A broadcast is its match phase, which
  holds the read lock, and one \<open>deliver_live\<close> for each match, which holds the write lock: other
  operations can run between them.
\<close>

section \<open>State\<close>

record sub_entry =
  se_filters :: "filter list"
  se_closed :: bool
  se_generation :: nat
  se_opened_unix :: int
  se_initial_sent :: nat
  se_initial_dropped :: nat
  se_broadcast_ok :: nat
  se_broadcast_drop :: nat
  se_eose_sent :: nat
  se_snapshot_done :: bool
  se_pending_live :: "frame list"

record sub_manager =
  sm_next_generation :: nat
  sm_subs :: "(string, (string, sub_entry) go_map) go_map"
  sm_senders :: "string list"
  sm_max_subs_per_conn :: int
  sm_max_sub_id_len :: int
  sm_max_filters :: int

record wire =
  w_subs :: sub_manager
  w_conns :: "(string, conn) go_map"

datatype sub_error = ErrSubscriptionIDTooLong | ErrTooManySubscriptions | ErrTooManyFilters

definition pending_live_cap :: nat where "pending_live_cap = 256"

definition new_subscription_manager :: "config \<Rightarrow> sub_manager" where
  "new_subscription_manager cfg = \<lparr>sm_next_generation = 0, sm_subs = [], sm_senders = [],
     sm_max_subs_per_conn = max_subscriptions_per_connection (connection_limits cfg),
     sm_max_sub_id_len = max_subscription_id_length cfg,
     sm_max_filters = max_filters_per_req (connection_limits cfg)\<rparr>"

definition conn_subs :: "string \<Rightarrow> 'a wire_scheme \<Rightarrow> (string, sub_entry) go_map" where
  "conn_subs cid w = (case map_of (sm_subs (w_subs w)) cid of None \<Rightarrow> [] | Some cm \<Rightarrow> cm)"

definition sub_lookup :: "string \<Rightarrow> string \<Rightarrow> 'a wire_scheme \<Rightarrow> sub_entry option" where
  "sub_lookup cid sid w = map_of (conn_subs cid w) sid"

definition set_subs :: "(string, (string, sub_entry) go_map) go_map \<Rightarrow> 'a wire_scheme \<Rightarrow> 'a wire_scheme" where
  "set_subs m w = w\<lparr>w_subs := (w_subs w)\<lparr>sm_subs := m\<rparr>\<rparr>"

definition put_entry :: "string \<Rightarrow> string \<Rightarrow> sub_entry \<Rightarrow> 'a wire_scheme \<Rightarrow> 'a wire_scheme" where
  "put_entry cid sid e w =
     set_subs (AList.update cid (AList.update sid e (conn_subs cid w)) (sm_subs (w_subs w))) w"

definition has_sender :: "string \<Rightarrow> 'a wire_scheme \<Rightarrow> bool" where
  "has_sender cid w \<longleftrightarrow> cid \<in> set (sm_senders (w_subs w))"

definition put_conn :: "conn \<Rightarrow> 'a wire_scheme \<Rightarrow> 'a wire_scheme" where
  "put_conn c w = w\<lparr>w_conns := AList.update (cn_id c) c (w_conns w)\<rparr>"

definition send_to :: "string \<Rightarrow> frame \<Rightarrow> 'a wire_scheme \<Rightarrow> bool \<times> 'a wire_scheme" where
  "send_to cid b w =
     (case map_of (w_conns w) cid of
        None \<Rightarrow> (False, w)
      | Some c \<Rightarrow> (let (ok, c') = enqueue_subscription_frame b c
                  in (ok, w\<lparr>w_conns := AList.update cid c' (w_conns w)\<rparr>)))"

section \<open>Operations\<close>

definition register_sender :: "string \<Rightarrow> 'a wire_scheme \<Rightarrow> 'a wire_scheme" where
  "register_sender cid w =
     w\<lparr>w_subs := (w_subs w)\<lparr>sm_senders := List.insert cid (sm_senders (w_subs w))\<rparr>\<rparr>"

definition unregister_sender :: "string \<Rightarrow> 'a wire_scheme \<Rightarrow> string list \<times> 'a wire_scheme" where
  "unregister_sender cid w =
     (let out = map fst (conn_subs cid w);
          w = w\<lparr>w_subs := (w_subs w)\<lparr>sm_senders := removeAll cid (sm_senders (w_subs w))\<rparr>\<rparr>
      in (out, set_subs (AList.delete cid (sm_subs (w_subs w))) w))"

definition new_sub_entry :: "nat \<Rightarrow> filter list \<Rightarrow> int \<Rightarrow> sub_entry" where
  "new_sub_entry g filters now = \<lparr>se_filters = filters, se_closed = False, se_generation = g,
     se_opened_unix = now, se_initial_sent = 0, se_initial_dropped = 0, se_broadcast_ok = 0,
     se_broadcast_drop = 0, se_eose_sent = 0, se_snapshot_done = False, se_pending_live = []\<rparr>"

definition sub_add :: "int \<Rightarrow> string \<Rightarrow> string \<Rightarrow> filter list \<Rightarrow> 'a wire_scheme \<Rightarrow> sub_error option \<times> 'a wire_scheme" where
  "sub_add now cid sid filters w =
     (let m = w_subs w in
      if int (length sid) > sm_max_sub_id_len m then (Some ErrSubscriptionIDTooLong, w)
      else if int (length filters) > sm_max_filters m then (Some ErrTooManyFilters, w)
      else
        let cmap = conn_subs cid w;
            w = (if map_of (sm_subs m) cid = None then set_subs (AList.update cid [] (sm_subs m)) w else w)
        in if map_of cmap sid = None \<and> int (length cmap) \<ge> sm_max_subs_per_conn m
           then (Some ErrTooManySubscriptions, w)
           else
             let g = sm_next_generation m + 1;
                 w = w\<lparr>w_subs := (w_subs w)\<lparr>sm_next_generation := g\<rparr>\<rparr>
             in (None, put_entry cid sid (new_sub_entry g filters now) w))"

definition remove_locked :: "string \<Rightarrow> string \<Rightarrow> 'a wire_scheme \<Rightarrow> 'a wire_scheme" where
  "remove_locked cid sid w =
     (case map_of (sm_subs (w_subs w)) cid of
        None \<Rightarrow> w
      | Some cmap \<Rightarrow>
          let cmap = AList.delete sid cmap
          in if length cmap = 0 then set_subs (AList.delete cid (sm_subs (w_subs w))) w
             else set_subs (AList.update cid cmap (sm_subs (w_subs w))) w)"

definition sub_remove :: "string \<Rightarrow> string \<Rightarrow> 'a wire_scheme \<Rightarrow> 'a wire_scheme" where
  "sub_remove cid sid w = remove_locked cid sid w"

definition total_subscriptions :: "'a wire_scheme \<Rightarrow> int" where
  "total_subscriptions w = sum_list (map (\<lambda>(_, cmap). int (length cmap)) (sm_subs (w_subs w)))"

fun filters_match :: "filter list \<Rightarrow> event \<Rightarrow> bool" where
  "filters_match [] ev = False"
| "filters_match (f # fs) ev = (if filter_matches f ev then True else filters_match fs ev)"

definition broadcast_matches :: "event \<Rightarrow> 'a wire_scheme \<Rightarrow> (string \<times> (string \<times> nat) list) list" where
  "broadcast_matches ev w =
     List.filter (\<lambda>(_, subs). subs \<noteq> [])
       (map (\<lambda>(cid, cmap). (cid, map (\<lambda>(sid, e). (sid, se_generation e))
            (List.filter (\<lambda>(sid, e). \<not> se_closed e \<and> filters_match (se_filters e) ev) cmap)))
         (List.filter (\<lambda>(cid, _). has_sender cid w) (sm_subs (w_subs w))))"

definition overflow_reason :: string where
  "overflow_reason = ''error: live event buffer overflow; retry subscription''"

definition deliver_live :: "event \<Rightarrow> string \<Rightarrow> string \<Rightarrow> nat \<Rightarrow> 'a wire_scheme \<Rightarrow> 'a wire_scheme" where
  "deliver_live ev cid sid gen w =
     (case marshal_relay_event sid (Some ev) of
        Inl _ \<Rightarrow> w
      | Inr b \<Rightarrow>
     (case sub_lookup cid sid w of
        None \<Rightarrow> w
      | Some e \<Rightarrow>
          if se_generation e \<noteq> gen \<or> se_closed e \<or> \<not> has_sender cid w then w
          else if \<not> se_snapshot_done e then
            (if length (se_pending_live e) \<ge> pending_live_cap
             then snd (send_to cid (FClosed sid overflow_reason) (remove_locked cid sid w))
             else put_entry cid sid (e\<lparr>se_pending_live := se_pending_live e @ [b]\<rparr>) w)
          else
            (let (ok, w) = send_to cid b w
             in put_entry cid sid
                  (if ok then e\<lparr>se_broadcast_ok := se_broadcast_ok e + 1\<rparr>
                   else e\<lparr>se_broadcast_drop := se_broadcast_drop e + 1\<rparr>) w)))"

fun deliver_subs :: "event \<Rightarrow> string \<Rightarrow> (string \<times> nat) list \<Rightarrow> 'a wire_scheme \<Rightarrow> 'a wire_scheme" where
  "deliver_subs ev cid [] w = w"
| "deliver_subs ev cid ((sid, gen) # rest) w = deliver_subs ev cid rest (deliver_live ev cid sid gen w)"

fun deliver_matches :: "(string \<Rightarrow> event \<Rightarrow> 'a wire_scheme \<Rightarrow> bool) option \<Rightarrow> event \<Rightarrow>
    (string \<times> (string \<times> nat) list) list \<Rightarrow> 'a wire_scheme \<Rightarrow> 'a wire_scheme" where
  "deliver_matches visible ev [] w = w"
| "deliver_matches visible ev ((cid, subs) # rest) w =
     (case visible of
        Some v \<Rightarrow> if \<not> v cid ev w then deliver_matches visible ev rest w
                  else deliver_matches visible ev rest (deliver_subs ev cid subs w)
      | None \<Rightarrow> deliver_matches visible ev rest (deliver_subs ev cid subs w))"

definition broadcast :: "event \<Rightarrow> (string \<Rightarrow> event \<Rightarrow> 'a wire_scheme \<Rightarrow> bool) option \<Rightarrow> 'a wire_scheme \<Rightarrow> 'a wire_scheme" where
  "broadcast ev visible w = deliver_matches visible ev (broadcast_matches ev w) w"

definition sub_generation :: "string \<Rightarrow> string \<Rightarrow> 'a wire_scheme \<Rightarrow> nat \<times> bool" where
  "sub_generation cid sid w =
     (case sub_lookup cid sid w of
        None \<Rightarrow> (0, False)
      | Some e \<Rightarrow> if se_closed e then (0, False) else (se_generation e, True))"

definition sub_opened_unix :: "string \<Rightarrow> string \<Rightarrow> 'a wire_scheme \<Rightarrow> int \<times> bool" where
  "sub_opened_unix cid sid w =
     (case sub_lookup cid sid w of
        None \<Rightarrow> (0, False)
      | Some e \<Rightarrow> if se_closed e then (0, False) else (se_opened_unix e, True))"

definition is_same_snapshot :: "string \<Rightarrow> string \<Rightarrow> nat \<Rightarrow> 'a wire_scheme \<Rightarrow> bool" where
  "is_same_snapshot cid sid gen w =
     (if \<not> has_sender cid w then False
      else case sub_lookup cid sid w of
             None \<Rightarrow> False
           | Some e \<Rightarrow> if se_closed e then False else se_generation e = gen)"

definition with_snapshot :: "string \<Rightarrow> string \<Rightarrow> nat \<Rightarrow> (sub_entry \<Rightarrow> 'a wire_scheme \<Rightarrow> 'r \<times> 'a wire_scheme) \<Rightarrow>
    'a wire_scheme \<Rightarrow> 'r option \<times> 'a wire_scheme" where
  "with_snapshot cid sid gen fn w =
     (case sub_lookup cid sid w of
        None \<Rightarrow> (None, w)
      | Some e \<Rightarrow>
          if se_closed e \<or> se_generation e \<noteq> gen \<or> \<not> has_sender cid w then (None, w)
          else (let (r, w) = fn e w in (Some r, w)))"

definition is_open :: "string \<Rightarrow> string \<Rightarrow> 'a wire_scheme \<Rightarrow> bool" where
  "is_open cid sid w =
     (if \<not> has_sender cid w then False
      else case sub_lookup cid sid w of None \<Rightarrow> False | Some e \<Rightarrow> \<not> se_closed e)"

definition sub_count :: "string \<Rightarrow> 'a wire_scheme \<Rightarrow> int" where
  "sub_count cid w = int (length (conn_subs cid w))"

definition note_sub_initial_delivery :: "string \<Rightarrow> string \<Rightarrow> bool \<Rightarrow> 'a wire_scheme \<Rightarrow> 'a wire_scheme" where
  "note_sub_initial_delivery cid sid ok w =
     (case sub_lookup cid sid w of
        None \<Rightarrow> w
      | Some e \<Rightarrow> put_entry cid sid
          (if ok then e\<lparr>se_initial_sent := se_initial_sent e + 1\<rparr>
           else e\<lparr>se_initial_dropped := se_initial_dropped e + 1\<rparr>) w)"

fun flush_pending :: "string \<Rightarrow> frame list \<Rightarrow> sub_entry \<Rightarrow> 'a wire_scheme \<Rightarrow> sub_entry \<times> 'a wire_scheme" where
  "flush_pending cid [] e w = (e, w)"
| "flush_pending cid (b # pending) e w =
     (let (ok, w) = send_to cid b w
      in flush_pending cid pending
           (if ok then e\<lparr>se_broadcast_ok := se_broadcast_ok e + 1\<rparr>
            else e\<lparr>se_broadcast_drop := se_broadcast_drop e + 1\<rparr>) w)"

definition finish_snapshot_locked :: "string \<Rightarrow> string \<Rightarrow> sub_entry \<Rightarrow> 'a wire_scheme \<Rightarrow> 'a wire_scheme" where
  "finish_snapshot_locked cid sid e w =
     (let pending = se_pending_live e;
          e = e\<lparr>se_snapshot_done := True, se_pending_live := []\<rparr>
      in if \<not> has_sender cid w then put_entry cid sid e w
         else (let (e, w) = flush_pending cid pending e w in put_entry cid sid e w))"

definition finish_snapshot :: "string \<Rightarrow> string \<Rightarrow> 'a wire_scheme \<Rightarrow> 'a wire_scheme" where
  "finish_snapshot cid sid w =
     (case sub_lookup cid sid w of
        None \<Rightarrow> w
      | Some e \<Rightarrow> if se_closed e then w else finish_snapshot_locked cid sid e w)"

definition note_sub_eose :: "string \<Rightarrow> string \<Rightarrow> 'a wire_scheme \<Rightarrow> 'a wire_scheme" where
  "note_sub_eose cid sid w =
     (case sub_lookup cid sid w of
        None \<Rightarrow> w
      | Some e \<Rightarrow> put_entry cid sid (e\<lparr>se_eose_sent := se_eose_sent e + 1\<rparr>) w)"

section \<open>Audit view\<close>

fun kind_hints_loop :: "int list \<Rightarrow> int list \<Rightarrow> int list \<times> bool" where
  "kind_hints_loop [] out = (out, False)"
| "kind_hints_loop (k # ks) out =
     (if k \<in> set out then kind_hints_loop ks out
      else if length (out @ [k]) \<ge> 16 then (out @ [k], True)
      else kind_hints_loop ks (out @ [k]))"

definition kind_hints_from_filters :: "filter list \<Rightarrow> int list" where
  "kind_hints_from_filters filters = sort (fst (kind_hints_loop (concat (map f_kinds filters)) []))"

record sub_conn_audit =
  sa_sub_id :: string
  sa_opened_unix :: int
  sa_filter_count :: nat
  sa_kinds :: "int list"
  sa_initial_sent :: nat
  sa_initial_dropped :: nat
  sa_broadcast_enqueued :: nat
  sa_broadcast_dropped :: nat
  sa_eose_sent :: nat

definition to_audit :: "string \<Rightarrow> sub_entry \<Rightarrow> sub_conn_audit" where
  "to_audit sid e = \<lparr>sa_sub_id = sid, sa_opened_unix = se_opened_unix e,
     sa_filter_count = length (se_filters e), sa_kinds = kind_hints_from_filters (se_filters e),
     sa_initial_sent = se_initial_sent e, sa_initial_dropped = se_initial_dropped e,
     sa_broadcast_enqueued = se_broadcast_ok e, sa_broadcast_dropped = se_broadcast_drop e,
     sa_eose_sent = se_eose_sent e\<rparr>"

definition audit_subscriptions_for_conn :: "string \<Rightarrow> 'a wire_scheme \<Rightarrow> sub_conn_audit list" where
  "audit_subscriptions_for_conn cid w =
     sort_key sa_sub_id (map (\<lambda>(sid, e). to_audit sid e) (conn_subs cid w))"

section \<open>How the operations change the maps\<close>

lemma filters_match_iff: "filters_match fs ev \<longleftrightarrow> (\<exists>f \<in> set fs. filter_matches f ev)"
  by (induction fs) auto

lemma set_subs_simps [simp]:
  "w_conns (set_subs m w) = w_conns w" "sm_subs (w_subs (set_subs m w)) = m"
  "sm_senders (w_subs (set_subs m w)) = sm_senders (w_subs w)"
  "sm_next_generation (w_subs (set_subs m w)) = sm_next_generation (w_subs w)"
  "sm_max_subs_per_conn (w_subs (set_subs m w)) = sm_max_subs_per_conn (w_subs w)"
  by (simp_all add: set_subs_def)

lemma put_entry_simps [simp]:
  "w_conns (put_entry cid sid e w) = w_conns w"
  "sm_senders (w_subs (put_entry cid sid e w)) = sm_senders (w_subs w)"
  "sm_next_generation (w_subs (put_entry cid sid e w)) = sm_next_generation (w_subs w)"
  "sm_max_subs_per_conn (w_subs (put_entry cid sid e w)) = sm_max_subs_per_conn (w_subs w)"
  by (simp_all add: put_entry_def)

lemma conn_subs_put [simp]:
  "conn_subs cid' (put_entry cid sid e w) =
     (if cid' = cid then AList.update sid e (conn_subs cid w) else conn_subs cid' w)"
  by (simp add: conn_subs_def put_entry_def)

lemma sub_lookup_put [simp]:
  "sub_lookup cid' sid' (put_entry cid sid e w) =
     (if cid' = cid \<and> sid' = sid then Some e else sub_lookup cid' sid' w)"
  by (simp add: sub_lookup_def)

lemma has_sender_simps [simp]:
  "has_sender cid (set_subs m w) = has_sender cid w"
  "has_sender cid (put_entry cid' sid e w) = has_sender cid w"
  by (simp_all add: has_sender_def)

lemma send_to_subs [simp]:
  "w_subs (snd (send_to cid b w)) = w_subs w"
  by (simp add: send_to_def split: option.split prod.split)

lemma lookup_cong: "w_subs w = w_subs w' \<Longrightarrow> sub_lookup cid sid w = sub_lookup cid sid w'"
  by (simp add: sub_lookup_def conn_subs_def)

lemma has_sender_cong: "w_subs w = w_subs w' \<Longrightarrow> has_sender cid w = has_sender cid w'"
  by (simp add: has_sender_def)

lemma send_to_lookup [simp]:
  "sub_lookup cid' sid (snd (send_to cid b w)) = sub_lookup cid' sid w"
  "has_sender cid' (snd (send_to cid b w)) = has_sender cid' w"
  by (rule lookup_cong [OF send_to_subs], rule has_sender_cong [OF send_to_subs])

lemma conn_subs_remove:
  "conn_subs cid' (remove_locked cid sid w) =
     (if cid' = cid then AList.delete sid (conn_subs cid w) else conn_subs cid' w)"
  by (auto simp: remove_locked_def conn_subs_def Let_def split: option.splits)

lemma remove_locked_simps [simp]:
  "w_conns (remove_locked cid sid w) = w_conns w"
  "sm_senders (w_subs (remove_locked cid sid w)) = sm_senders (w_subs w)"
  "sm_next_generation (w_subs (remove_locked cid sid w)) = sm_next_generation (w_subs w)"
  "sm_max_subs_per_conn (w_subs (remove_locked cid sid w)) = sm_max_subs_per_conn (w_subs w)"
  "has_sender cid' (remove_locked cid sid w) = has_sender cid' w"
  by (simp_all add: remove_locked_def has_sender_def Let_def split: option.split)

lemma delete_Nil_lookup: "AList.delete k m = [] \<Longrightarrow> k' \<noteq> k \<Longrightarrow> map_of m k' = None"
  by (metis fun_upd_other map_of.simps(1) map_of_delete_eq)

lemma sub_lookup_remove [simp]:
  "sub_lookup cid' sid' (remove_locked cid sid w) =
     (if cid' = cid \<and> sid' = sid then None else sub_lookup cid' sid' w)"
proof (cases "map_of (sm_subs (w_subs w)) cid")
  case None
  then show ?thesis by (simp add: remove_locked_def sub_lookup_def conn_subs_def)
next
  case (Some cmap)
  then show ?thesis
    by (simp add: remove_locked_def sub_lookup_def conn_subs_def Let_def delete_Nil_lookup)
qed

end
