(* ===== verification/Event_Store.thy ===== *)
theory Event_Store
  imports Store_Interface "HOL-Library.Multiset"
begin

text \<open>
  The SQLite-compatible event store: \<open>internal/storage/sqlevent/store.go\<close>,
  \<open>storage/models.go\<close>, \<open>storage/tag_json.go\<close>, \<open>storage/tag_batch.go\<close>,
  \<open>storage/filter_sql_limit.go\<close> and \<open>storage/count_filter.go\<close>.

  The state is the two tables, with the schema's primary key on \<open>events.id\<close> and the foreign
  key of \<open>event_tags.event_id\<close> that deletes the tags with the event. A statement is what it
  does to the rows: a \<open>WHERE\<close> clause is a predicate on rows, \<open>ORDER BY\<close> a sort on
  its key (SQLite's binary collation orders text bytewise), \<open>LIMIT\<close> a prefix; a failed
  transaction leaves the tables as they were. The autoincremented \<open>event_tags.id\<close> is read by
  no statement and is left out. \<open>full_json\<close> holds the JSON value of the column's text.

  The parts of SQLite and \<open>encoding/json\<close> that are no row logic are fields of \<open>sql_env\<close>: the
  parser of JSON text, used for the doubly encoded tags of old PostgreSQL rows, and FTS5, which
  gives each indexed document that matches a phrase a rank.

  The abstract state is a list of events (\<open>represents\<close>); each operation is proved to compute
  its specification on it.
\<close>

section \<open>Tables\<close>

record event_row =
  er_id :: string
  er_pubkey :: string
  er_created_at :: int
  er_kind :: int
  er_content :: string
  er_sig :: string
  er_d_tag :: string

record tag_row =
  tr_event_id :: string
  tr_pos :: nat
  tr_name :: string
  tr_value :: string
  tr_full_json :: json

record event_db =
  db_events :: "event_row list"
  db_tags :: "tag_row list"
  db_notified :: "string list"

record sql_env =
  sx_json_parse :: "string \<Rightarrow> json result"
  sx_fts_rank :: "(string \<times> string) list \<Rightarrow> string \<Rightarrow> string \<Rightarrow> int option"

definition empty_db :: event_db where
  "empty_db = \<lparr>db_events = [], db_tags = [], db_notified = []\<rparr>"

definition err_stale_replaceable :: string where
  "err_stale_replaceable = ''invalid: newer replaceable event already stored''"

section \<open>Writing\<close>

fun extract_d_tag :: "string list list \<Rightarrow> string" where
  "extract_d_tag [] = []"
| "extract_d_tag (t # ts) =
     (if length t > 0 \<and> t ! 0 = ''d'' then (if length t > 1 then t ! 1 else [])
      else extract_d_tag ts)"

definition event_to_row :: "event \<Rightarrow> event_row" where
  "event_to_row ev = \<lparr>er_id = ev_id ev, er_pubkey = ev_pubkey ev, er_created_at = ev_created_at ev,
     er_kind = ev_kind ev, er_content = ev_content ev, er_sig = ev_sig ev,
     er_d_tag = extract_d_tag (ev_tags ev)\<rparr>"

definition tag_to_row :: "string \<Rightarrow> nat \<Rightarrow> string list \<Rightarrow> tag_row" where
  "tag_to_row eid i t = \<lparr>tr_event_id = eid, tr_pos = i,
     tr_name = (if length t > 0 then t ! 0 else []),
     tr_value = (if length t > 1 then t ! 1 else []),
     tr_full_json = JArr (map JStr t)\<rparr>"

definition tag_rows :: "event \<Rightarrow> tag_row list" where
  "tag_rows ev = map (\<lambda>(i, t). tag_to_row (ev_id ev) i t) (enumerate 0 (ev_tags ev))"

definition delete_events :: "(event_row \<Rightarrow> bool) \<Rightarrow> event_db \<Rightarrow> event_db" where
  "delete_events p db =
     (let gone = map er_id (filter p (db_events db)) in
      db\<lparr>db_events := filter (\<lambda>r. \<not> p r) (db_events db),
         db_tags := filter (\<lambda>t. tr_event_id t \<notin> set gone) (db_tags db)\<rparr>)"

definition superseded_row :: "event \<Rightarrow> event_row \<Rightarrow> bool" where
  "superseded_row ev r \<longleftrightarrow>
     er_created_at r < ev_created_at ev \<or>
     (er_created_at r = ev_created_at ev \<and> er_id r > ev_id ev)"

definition save_tx :: "event \<Rightarrow> event_db \<Rightarrow> event_db result" where
  "save_tx ev db =
     (let cls = classify_kind (ev_kind ev);
          conditional_insert = (cls = KindReplaceable \<or> cls = KindAddressable);
          dt = extract_d_tag (ev_tags ev);
          db = (if cls = KindReplaceable
                then delete_events (\<lambda>r. er_pubkey r = ev_pubkey ev \<and> er_kind r = ev_kind ev \<and>
                       superseded_row ev r) db
                else if cls = KindAddressable
                then delete_events (\<lambda>r. er_pubkey r = ev_pubkey ev \<and> er_kind r = ev_kind ev \<and>
                       er_d_tag r = dt \<and> superseded_row ev r) db
                else db);
          row = event_to_row ev;
          blocked = list_ex (\<lambda>r. er_pubkey r = er_pubkey row \<and> er_kind r = er_kind row \<and>
                      (cls = KindAddressable \<longrightarrow> er_d_tag r = er_d_tag row)) (db_events db)
      in if conditional_insert \<and> blocked then Inl err_stale_replaceable
         else if list_ex (\<lambda>r. er_id r = er_id row) (db_events db)
         then Inl ''UNIQUE constraint failed: events.id''
         else Inr (db\<lparr>db_events := db_events db @ [row], db_tags := db_tags db @ tag_rows ev\<rparr>))"

definition save_event :: "event \<Rightarrow> event_db \<Rightarrow> string option \<times> event_db" where
  "save_event ev db =
     (if is_ephemeral (ev_kind ev) then (Some ''turso: ephemeral events are not stored'', db)
      else case save_tx ev db of
             Inl err \<Rightarrow> (Some err, db)
           | Inr db' \<Rightarrow> (None, db'\<lparr>db_notified := db_notified db' @ [ev_id ev]\<rparr>))"

definition delete_event :: "string \<Rightarrow> event_db \<Rightarrow> event_db" where
  "delete_event i db =
     (let db = db\<lparr>db_tags := filter (\<lambda>t. tr_event_id t \<noteq> i) (db_tags db)\<rparr>
      in delete_events (\<lambda>r. er_id r = i) db)"

section \<open>Reading\<close>

definition decode_tag_full_json :: "sql_env \<Rightarrow> json \<Rightarrow> string list result" where
  "decode_tag_full_json env full_json =
     (case decode_strings full_json of
        Inr parts \<Rightarrow> Inr parts
      | Inl _ \<Rightarrow>
     (case decode_string [] full_json of
        Inl err \<Rightarrow> Inl err
      | Inr wrapped \<Rightarrow>
     (case sx_json_parse env wrapped of
        Inl err \<Rightarrow> Inl err
      | Inr v \<Rightarrow> decode_strings v)))"

fun group_tag_rows :: "sql_env \<Rightarrow> tag_row list \<Rightarrow> (string, string list list) go_map \<Rightarrow>
    (string, string list list) go_map result" where
  "group_tag_rows env [] m = Inr m"
| "group_tag_rows env (tr # rows) m =
     (case decode_tag_full_json env (tr_full_json tr) of
        Inl err \<Rightarrow> Inl err
      | Inr parts \<Rightarrow>
          let old = (case map_of m (tr_event_id tr) of None \<Rightarrow> [] | Some ts \<Rightarrow> ts)
          in group_tag_rows env rows (AList.update (tr_event_id tr) (old @ [parts]) m))"

definition tags_by_event_id :: "sql_env \<Rightarrow> string list \<Rightarrow> event_db \<Rightarrow>
    (string, string list list) go_map result" where
  "tags_by_event_id env ids db =
     (if length ids = 0 then Inr []
      else group_tag_rows env
        (sort_key (\<lambda>t. (tr_event_id t, tr_pos t))
          (filter (\<lambda>t. tr_event_id t \<in> set ids) (db_tags db))) [])"

definition row_to_event_with_tags :: "event_row \<Rightarrow> string list list option \<Rightarrow> event" where
  "row_to_event_with_tags row tags = \<lparr>ev_id = er_id row, ev_pubkey = er_pubkey row,
     ev_created_at = er_created_at row, ev_kind = er_kind row,
     ev_tags = (case tags of None \<Rightarrow> [] | Some ts \<Rightarrow> ts),
     ev_content = er_content row, ev_sig = er_sig row\<rparr>"

definition row_to_event :: "sql_env \<Rightarrow> event_row \<Rightarrow> event_db \<Rightarrow> event result" where
  "row_to_event env row db =
     (case group_tag_rows env (sort_key tr_pos (filter (\<lambda>t. tr_event_id t = er_id row) (db_tags db))) [] of
        Inl err \<Rightarrow> Inl err
      | Inr tags \<Rightarrow> Inr (row_to_event_with_tags row (map_of tags (er_id row))))"

fun tag_clauses :: "tag_row list \<Rightarrow> (string, string list) go_map \<Rightarrow> event_row \<Rightarrow> bool" where
  "tag_clauses tags [] r = True"
| "tag_clauses tags ((key, vals) # rest) r =
     (if length vals = 0 then False
      else let name = drop 1 key in
        list_ex (\<lambda>t. tr_event_id t = er_id r \<and> tr_name t = name \<and> tr_value t \<in> set vals) tags \<and>
        tag_clauses tags rest r)"

definition struct_clauses :: "filter \<Rightarrow> event_row \<Rightarrow> bool" where
  "struct_clauses f r \<longleftrightarrow>
     (length (f_ids f) > 0 \<longrightarrow> er_id r \<in> set (f_ids f)) \<and>
     (length (f_authors f) > 0 \<longrightarrow> er_pubkey r \<in> set (f_authors f)) \<and>
     (length (f_kinds f) > 0 \<longrightarrow> er_kind r \<in> set (f_kinds f)) \<and>
     (case f_since f of None \<Rightarrow> True | Some t \<Rightarrow> er_created_at r \<ge> t) \<and>
     (case f_until f of None \<Rightarrow> True | Some t \<Rightarrow> er_created_at r \<le> t)"

definition apply_filter_query :: "filter \<Rightarrow> tag_row list \<Rightarrow> event_row \<Rightarrow> bool" where
  "apply_filter_query f tags r \<longleftrightarrow>
     struct_clauses f r \<and>
     (case f_cursor f of None \<Rightarrow> True
      | Some c \<Rightarrow> er_created_at r < qc_created_at c \<or>
                  (er_created_at r = qc_created_at c \<and> er_id r > qc_id c)) \<and>
     tag_clauses tags (f_tag f) r"

definition filter_sql_limit :: "filter \<Rightarrow> bool \<Rightarrow> int option" where
  "filter_sql_limit f apply_limits =
     (if \<not> apply_limits then None
      else case f_limit f of Some v \<Rightarrow> if v > 0 then Some v else None | None \<Rightarrow> None)"

definition sql_limit :: "int option \<Rightarrow> 'a list \<Rightarrow> 'a list" where
  "sql_limit lim xs = (case lim of None \<Rightarrow> xs | Some l \<Rightarrow> take (nat l) xs)"

definition row_order :: "event_row \<Rightarrow> int \<times> string" where
  "row_order r = (- er_created_at r, er_id r)"

definition select_rows :: "filter \<Rightarrow> bool \<Rightarrow> event_db \<Rightarrow> event_row list" where
  "select_rows f apply_limits db =
     (if has_search f then []
      else sql_limit (filter_sql_limit f apply_limits)
        (sort_key row_order (filter (apply_filter_query f (db_tags db)) (db_events db))))"

definition query_events :: "sql_env \<Rightarrow> filter list \<Rightarrow> event_db \<Rightarrow> event list result" where
  "query_events env filters db =
     (if length filters = 0 then Inr []
      else
        let by_id = fold (\<lambda>f m. fold (\<lambda>r m. AList.update (er_id r) r m) (select_rows f True db) m) filters [];
            rows = sort_key row_order (map snd by_id);
            ids = map er_id rows
        in case tags_by_event_id env ids db of
             Inl err \<Rightarrow> Inl err
           | Inr tags \<Rightarrow> Inr (map (\<lambda>r. row_to_event_with_tags r (map_of tags (er_id r))) rows))"

definition query_event_sync_items :: "filter \<Rightarrow> event_db \<Rightarrow> sync_item list" where
  "query_event_sync_items f db =
     (if has_search f then []
      else map (\<lambda>r. \<lparr>si_id = er_id r, si_created_at = er_created_at r\<rparr>)
        (sort_key (\<lambda>r. (er_created_at r, er_id r))
          (filter (apply_filter_query f (db_tags db)) (db_events db))))"

definition count_filter_sub_query :: "filter \<Rightarrow> event_db \<Rightarrow> string list option" where
  "count_filter_sub_query f db =
     (if has_search f then None
      else Some (map er_id (filter (\<lambda>r. struct_clauses f r \<and> tag_clauses (db_tags db) (f_tag f) r) (db_events db))))"

definition count_events :: "filter list \<Rightarrow> event_db \<Rightarrow> nat" where
  "count_events filters db =
     (if length filters = 0 then length (db_events db)
      else case List.map_filter (\<lambda>f. count_filter_sub_query f db) filters of
             [] \<Rightarrow> 0
           | [ids] \<Rightarrow> length ids
           | idss \<Rightarrow> length (remdups (concat idss)))"

definition has_event_id :: "string \<Rightarrow> event_db \<Rightarrow> bool" where
  "has_event_id i db = list_ex (\<lambda>r. er_id r = i) (db_events db)"

fun double_quotes :: "string \<Rightarrow> string" where
  "double_quotes [] = []"
| "double_quotes (c # s) = (if c = CHR 0x22 then [c, c] else [c]) @ double_quotes s"

definition fts5_phrase :: "string \<Rightarrow> string" where
  "fts5_phrase s =
     (let s = trim_space s in
      if s = [] then [] else [CHR 0x22] @ double_quotes s @ [CHR 0x22])"

definition search_events :: "sql_env \<Rightarrow> string \<Rightarrow> filter \<Rightarrow> event_db \<Rightarrow> event list result" where
  "search_events env search_query constraints db =
     (let q = trim_space search_query in
      if q = [] then Inr []
      else
        let cons = without_search constraints;
            match_expr = fts5_phrase q
        in if match_expr = [] then Inr []
        else
          let docs = map (\<lambda>r. (er_id r, er_content r)) (db_events db);
              hits = filter (\<lambda>r. sx_fts_rank env docs match_expr (er_id r) \<noteq> None \<and>
                       struct_clauses cons r \<and> tag_clauses (db_tags db) (f_tag cons) r) (db_events db);
              rows = sql_limit (filter_sql_limit cons True)
                (sort_key (\<lambda>r. (the (sx_fts_rank env docs match_expr (er_id r)), er_id r)) hits)
          in case tags_by_event_id env (map er_id rows) db of
               Inl err \<Rightarrow> Inl err
             | Inr tags \<Rightarrow> Inr (map (\<lambda>r. row_to_event_with_tags r (map_of tags (er_id r))) rows))"

section \<open>Group lookups\<close>

definition normalize_id_prefix8 :: "string \<Rightarrow> string" where
  "normalize_id_prefix8 prefix =
     (let p = trim_space (to_lower prefix) in if length p > 8 then take 8 p else p)"

text \<open>SQLite's \<open>LIKE\<close>: case is folded on ASCII, \<open>%\<close> matches any text, \<open>_\<close> one character.\<close>

fun sql_like :: "string \<Rightarrow> string \<Rightarrow> bool" where
  "sql_like [] s = (s = [])"
| "sql_like (c # p) [] = (c = CHR ''%'' \<and> sql_like p [])"
| "sql_like (c # p) (d # s) =
     (if c = CHR ''%'' then sql_like p (d # s) \<or> sql_like (c # p) s
      else (c = CHR ''_'' \<or> lower_char c = lower_char d) \<and> sql_like p s)"

definition event_id_prefix_exists :: "string \<Rightarrow> string \<Rightarrow> bool \<Rightarrow> event_db \<Rightarrow> bool" where
  "event_id_prefix_exists prefix group_id require_same_h db =
     (let p = normalize_id_prefix8 prefix in
      if p = [] then False
      else list_ex (\<lambda>r. sql_like (p @ ''%'') (er_id r) \<and>
             (require_same_h \<and> group_id \<noteq> [] \<longrightarrow>
               list_ex (\<lambda>t. tr_event_id t = er_id r \<and> tr_name t = ''h'' \<and> tr_value t = group_id) (db_tags db)))
             (db_events db))"

definition get_latest_of_kind :: "int \<Rightarrow> sql_env \<Rightarrow> string \<Rightarrow> string \<Rightarrow> event_db \<Rightarrow> event option result" where
  "get_latest_of_kind kind env relay_pubkey group_id db =
     (case sort_key row_order (filter (\<lambda>r. er_pubkey r = relay_pubkey \<and> er_kind r = kind \<and> er_d_tag r = group_id)
             (db_events db)) of
        [] \<Rightarrow> Inr None
      | row # _ \<Rightarrow> map_sum id Some (row_to_event env row db))"

definition get_latest_group_metadata39000 :: "sql_env \<Rightarrow> string \<Rightarrow> string \<Rightarrow> event_db \<Rightarrow> event option result" where
  "get_latest_group_metadata39000 = get_latest_of_kind 39000"

definition get_latest_group_admins39001 :: "sql_env \<Rightarrow> string \<Rightarrow> string \<Rightarrow> event_db \<Rightarrow> event option result" where
  "get_latest_group_admins39001 = get_latest_of_kind NIP29KindGroupAdmins"

definition has_tag_row :: "event_db \<Rightarrow> string \<Rightarrow> string \<Rightarrow> string \<Rightarrow> bool" where
  "has_tag_row db eid name v = list_ex (\<lambda>t. tr_event_id t = eid \<and> tr_name t = name \<and> tr_value t = v) (db_tags db)"

definition is_group_member :: "string \<Rightarrow> string \<Rightarrow> string \<Rightarrow> event_db \<Rightarrow> bool" where
  "is_group_member relay_pubkey group_id member_pubkey db =
     (case sort_key row_order (filter (\<lambda>r. er_pubkey r = relay_pubkey \<and> er_kind r \<in> {9000, 9001} \<and>
              has_tag_row db (er_id r) ''h'' group_id \<and> has_tag_row db (er_id r) ''p'' member_pubkey)
              (db_events db)) of
        [] \<Rightarrow> False
      | row # _ \<Rightarrow> (if er_kind row = 9000 then True else False))"


section \<open>The tables represent a list of events\<close>

definition represents :: "event_db \<Rightarrow> event list \<Rightarrow> bool" where
  "represents db es \<longleftrightarrow>
     db_events db = map event_to_row es \<and> db_tags db = concat (map tag_rows es) \<and>
     distinct (map ev_id es)"

lemma event_to_row_simps [simp]:
  "er_id (event_to_row e) = ev_id e" "er_pubkey (event_to_row e) = ev_pubkey e"
  "er_created_at (event_to_row e) = ev_created_at e" "er_kind (event_to_row e) = ev_kind e"
  "er_d_tag (event_to_row e) = extract_d_tag (ev_tags e)"
  by (simp_all add: event_to_row_def)

lemma tag_rows_event_id: "t \<in> set (tag_rows e) \<Longrightarrow> tr_event_id t = ev_id e"
  by (auto simp: tag_rows_def tag_to_row_def)

lemma filter_tag_rows:
  "filter (\<lambda>t. P (tr_event_id t)) (tag_rows e) = (if P (ev_id e) then tag_rows e else [])"
  by (simp add: filter_empty_conv tag_rows_event_id filter_id_conv)

lemma filter_tags_concat:
  "filter (\<lambda>t. P (tr_event_id t)) (concat (map tag_rows es)) =
   concat (map tag_rows (filter (\<lambda>e. P (ev_id e)) es))"
  by (induction es) (simp_all add: filter_tag_rows)

lemma filter_by_id:
  "distinct (map ev_id es) \<Longrightarrow> e \<in> set es \<Longrightarrow> filter (\<lambda>x. ev_id x = ev_id e) es = [e]"
proof (induction es)
  case (Cons x es)
  show ?case
  proof (cases "e = x")
    case True
    then have "ev_id y \<noteq> ev_id e" if "y \<in> set es" for y
      using Cons.prems(1) that by (metis distinct.simps(2) image_eqI image_set list.simps(9))
    then show ?thesis using True by (simp add: filter_empty_conv)
  next
    case False
    then have "ev_id x \<noteq> ev_id e"
      using Cons.prems by (metis distinct.simps(2) image_eqI image_set list.simps(9) set_ConsD)
    then show ?thesis using Cons False by simp
  qed
qed simp

lemma tags_of_event:
  "represents db es \<Longrightarrow> e \<in> set es \<Longrightarrow> filter (\<lambda>t. tr_event_id t = ev_id e) (db_tags db) = tag_rows e"
  by (simp add: represents_def filter_tags_concat [where P = "\<lambda>i. i = ev_id e"] filter_by_id)

lemma represents_empty [simp]: "represents empty_db []"
  by (simp add: represents_def empty_db_def)

lemma represents_notified [simp]: "represents (db\<lparr>db_notified := n\<rparr>) es = represents db es"
  by (simp add: represents_def)

lemma event_by_id:
  "distinct (map ev_id es) \<Longrightarrow> e \<in> set es \<Longrightarrow> e' \<in> set es \<Longrightarrow> ev_id e = ev_id e' \<Longrightarrow> e = e'"
  by (metis distinct_map inj_onD)

lemma represents_delete:
  assumes "represents db es"
  shows "represents (delete_events p db) (filter (\<lambda>e. \<not> p (event_to_row e)) es)"
proof -
  have "ev_id e \<in> ev_id ` {x \<in> set es. p (event_to_row x)} \<longleftrightarrow> p (event_to_row e)" if "e \<in> set es" for e
    using that assms unfolding represents_def by (auto dest: event_by_id)
  then have "filter (\<lambda>e. ev_id e \<notin> ev_id ` {x \<in> set es. p (event_to_row x)}) es =
      filter (\<lambda>e. \<not> p (event_to_row e)) es"
    by (intro filter_cong) auto
  moreover have "set (map er_id (filter p (map event_to_row es))) = ev_id ` {x \<in> set es. p (event_to_row x)}"
    by (simp add: filter_map o_def)
  ultimately show ?thesis
    using assms by (simp add: represents_def delete_events_def Let_def filter_map o_def
      distinct_map_filter filter_tags_concat [where P = "\<lambda>i. i \<notin> S" for S])
qed

lemma represents_append:
  "represents db es \<Longrightarrow> ev_id ev \<notin> ev_id ` set es \<Longrightarrow>
   represents (db\<lparr>db_events := db_events db @ [event_to_row ev], db_tags := db_tags db @ tag_rows ev\<rparr>) (es @ [ev])"
  by (simp add: represents_def)

section \<open>Saving\<close>

text \<open>Two events compete when NIP-01 keeps only one of them.\<close>

definition revisions :: "event \<Rightarrow> event \<Rightarrow> bool" where
  "revisions a b \<longleftrightarrow>
     (is_replaceable (ev_kind a) \<or> is_addressable (ev_kind a)) \<and>
     ev_pubkey a = ev_pubkey b \<and> ev_kind a = ev_kind b \<and>
     (is_addressable (ev_kind a) \<longrightarrow> extract_d_tag (ev_tags a) = extract_d_tag (ev_tags b))"

definition kept :: "event \<Rightarrow> event list \<Rightarrow> event list" where
  "kept ev es = filter (\<lambda>e. \<not> (revisions ev e \<and> event_order ev < event_order e)) es"

definition save_spec :: "event \<Rightarrow> event list \<Rightarrow> event list result" where
  "save_spec ev es =
     (let keep = kept ev es in
      if list_ex (revisions ev) keep then Inl err_stale_replaceable
      else if ev_id ev \<in> ev_id ` set keep then Inl ''UNIQUE constraint failed: events.id''
      else Inr (keep @ [ev]))"

lemma superseded_row_order: "superseded_row ev (event_to_row e) \<longleftrightarrow> event_order ev < event_order e"
  by (auto simp: superseded_row_def event_order_less)

lemma list_ex_map_row: "list_ex P (map event_to_row es) = list_ex (\<lambda>e. P (event_to_row e)) es"
  by (simp add: list_ex_iff)

lemma save_tx_refines:
  assumes R: "represents db es"
  shows "case save_spec ev es of
      Inl err \<Rightarrow> save_tx ev db = Inl err
    | Inr es' \<Rightarrow> \<exists>db'. save_tx ev db = Inr db' \<and> represents db' es'"
proof -
  define keep where "keep = kept ev es"
  define db1 where "db1 =
    (if classify_kind (ev_kind ev) = KindReplaceable
     then delete_events (\<lambda>r. er_pubkey r = ev_pubkey ev \<and> er_kind r = ev_kind ev \<and> superseded_row ev r) db
     else if classify_kind (ev_kind ev) = KindAddressable
     then delete_events (\<lambda>r. er_pubkey r = ev_pubkey ev \<and> er_kind r = ev_kind ev \<and>
       er_d_tag r = extract_d_tag (ev_tags ev) \<and> superseded_row ev r) db
     else db)"
  let ?cls = "classify_kind (ev_kind ev)"
  have "represents db1 keep"
  proof -
    consider "?cls = KindReplaceable" | "?cls = KindAddressable" | "?cls \<noteq> KindReplaceable" "?cls \<noteq> KindAddressable"
      by blast
    then show ?thesis
    proof cases
      case 1
      have "keep = filter (\<lambda>e. \<not> (er_pubkey (event_to_row e) = ev_pubkey ev \<and>
          er_kind (event_to_row e) = ev_kind ev \<and> superseded_row ev (event_to_row e))) es"
        unfolding keep_def kept_def by (rule filter_cong)
          (use 1 in \<open>auto simp: revisions_def superseded_row_order is_replaceable_def is_addressable_def\<close>)
      with represents_delete [OF R, of "\<lambda>r. er_pubkey r = ev_pubkey ev \<and> er_kind r = ev_kind ev \<and>
          superseded_row ev r"] show ?thesis
        by (simp only: db1_def 1 if_True refl)
    next
      case 2
      have "keep = filter (\<lambda>e. \<not> (er_pubkey (event_to_row e) = ev_pubkey ev \<and>
          er_kind (event_to_row e) = ev_kind ev \<and> er_d_tag (event_to_row e) = extract_d_tag (ev_tags ev) \<and>
          superseded_row ev (event_to_row e))) es"
        unfolding keep_def kept_def by (rule filter_cong)
          (use 2 in \<open>auto simp: revisions_def superseded_row_order is_replaceable_def is_addressable_def\<close>)
      with represents_delete [OF R, of "\<lambda>r. er_pubkey r = ev_pubkey ev \<and> er_kind r = ev_kind ev \<and>
          er_d_tag r = extract_d_tag (ev_tags ev) \<and> superseded_row ev r"] show ?thesis
        by (simp only: db1_def 2 if_True if_False refl kind_class.distinct)
    next
      case 3
      then have "keep = es"
        by (simp add: keep_def kept_def revisions_def is_replaceable_def is_addressable_def)
      then show ?thesis using R 3 by (simp add: db1_def)
    qed
  qed
  note R1 = this
  have blocked: "((?cls = KindReplaceable \<or> ?cls = KindAddressable) \<and>
      list_ex (\<lambda>r. er_pubkey r = ev_pubkey ev \<and> er_kind r = ev_kind ev \<and>
        (?cls = KindAddressable \<longrightarrow> er_d_tag r = extract_d_tag (ev_tags ev))) (db_events db1)) =
      list_ex (revisions ev) keep"
  proof -
    have "revisions ev e \<longleftrightarrow> (?cls = KindReplaceable \<or> ?cls = KindAddressable) \<and>
        er_pubkey (event_to_row e) = ev_pubkey ev \<and> er_kind (event_to_row e) = ev_kind ev \<and>
        (?cls = KindAddressable \<longrightarrow> er_d_tag (event_to_row e) = extract_d_tag (ev_tags ev))" for e
      by (auto simp: revisions_def is_replaceable_def is_addressable_def)
    moreover have "db_events db1 = map event_to_row keep"
      using R1 by (simp add: represents_def)
    ultimately show ?thesis by (simp only: list_ex_map_row) (auto simp: list_ex_iff)
  qed
  have dup: "list_ex (\<lambda>r. er_id r = ev_id ev) (db_events db1) \<longleftrightarrow> ev_id ev \<in> ev_id ` set keep"
    using R1 by (simp add: represents_def list_ex_iff image_iff) metis
  have tx: "save_tx ev db =
      (if list_ex (revisions ev) keep then Inl err_stale_replaceable
       else if ev_id ev \<in> ev_id ` set keep then Inl ''UNIQUE constraint failed: events.id''
       else Inr (db1\<lparr>db_events := db_events db1 @ [event_to_row ev], db_tags := db_tags db1 @ tag_rows ev\<rparr>))"
    unfolding save_tx_def Let_def db1_def [symmetric] event_to_row_simps blocked dup ..
  have "represents (db1\<lparr>db_events := db_events db1 @ [event_to_row ev], db_tags := db_tags db1 @ tag_rows ev\<rparr>)
      (keep @ [ev])" if "ev_id ev \<notin> ev_id ` set keep"
    using represents_append [OF R1 that] .
  then show ?thesis
    by (simp add: save_spec_def Let_def tx flip: keep_def)
qed


lemma save_event_refines:
  assumes "represents db es" and "\<not> is_ephemeral (ev_kind ev)"
  shows "case save_spec ev es of
      Inl err \<Rightarrow> save_event ev db = (Some err, db)
    | Inr es' \<Rightarrow> \<exists>db'. save_event ev db = (None, db') \<and> represents db' es' \<and>
        db_notified db' = db_notified db @ [ev_id ev]"
proof -
  have "db_notified db' = db_notified db" if "save_tx ev db = Inr db'" for db'
    using that by (auto simp: save_tx_def delete_events_def Let_def split: if_splits)
  then show ?thesis
    using save_tx_refines [OF assms(1), of ev] assms(2)
    by (auto simp: save_event_def split: sum.splits)
qed

lemma save_event_ephemeral [simp]:
  "is_ephemeral (ev_kind ev) \<Longrightarrow> save_event ev db = (Some ''turso: ephemeral events are not stored'', db)"
  by (simp add: save_event_def)

subsection \<open>The surviving revisions\<close>

definition winner :: "event set \<Rightarrow> event \<Rightarrow> bool" where
  "winner S e \<longleftrightarrow> e \<in> S \<and> \<not> is_ephemeral (ev_kind e) \<and>
     (\<forall>e' \<in> S. revisions e e' \<longrightarrow> \<not> event_order e' < event_order e)"

fun save_all :: "event list \<Rightarrow> event_db \<Rightarrow> event_db" where
  "save_all [] db = db"
| "save_all (ev # evs) db = save_all evs (snd (save_event ev db))"

lemma revisions_sym: "revisions a b \<Longrightarrow> revisions b a"
  by (auto simp: revisions_def)

lemma revisions_trans: "revisions a b \<Longrightarrow> revisions b c \<Longrightarrow> revisions a c"
  by (auto simp: revisions_def)

lemma revisions_not_ephemeral: "revisions a b \<Longrightarrow> \<not> is_ephemeral (ev_kind b)"
  by (auto simp: revisions_def go_defs split: if_splits)

lemma event_order_inj: "inj_on ev_id S \<Longrightarrow> a \<in> S \<Longrightarrow> b \<in> S \<Longrightarrow> event_order a = event_order b \<Longrightarrow> a = b"
  by (auto simp: event_order_def dest: inj_onD)

lemma best_revision:
  assumes "finite S" "e \<in> S" "revisions ev e"
  shows "\<exists>w. winner S w \<and> revisions ev w \<and> event_order w \<le> event_order e"
proof -
  let ?T = "{x \<in> S. revisions ev x}"
  obtain w where w: "w \<in> ?T" "\<forall>x \<in> ?T. \<not> event_order x < event_order w"
    using ex_min_if_finite [of "event_order ` ?T"] assms by fastforce
  have "winner S w"
    using w revisions_trans [of ev w] revisions_not_ephemeral [of ev w] by (auto simp: winner_def)
  then show ?thesis using w assms by (metis (no_types, lifting) mem_Collect_eq not_le_imp_less)
qed

lemma winner_unique:
  assumes "inj_on ev_id S" "winner S a" "winner S b" "revisions a b"
  shows "a = b"
proof -
  have "\<not> event_order b < event_order a" "\<not> event_order a < event_order b"
    using assms revisions_sym by (auto simp: winner_def)
  then have "event_order a = event_order b" by (meson not_less_iff_gr_or_eq)
  then show ?thesis using assms by (auto simp: winner_def intro: event_order_inj)
qed

lemma save_spec_winners:
  assumes inj: "inj_on ev_id (insert ev S)" and "finite S" and es: "set es = {e. winner S e}"
    and ne: "\<not> is_ephemeral (ev_kind ev)"
  shows "set (case save_spec ev es of Inl _ \<Rightarrow> es | Inr es' \<Rightarrow> es') = {e. winner (insert ev S) e}"
proof -
  define keep where "keep = kept ev es"
  have keep: "e \<in> set keep \<longleftrightarrow> winner S e \<and> \<not> (revisions ev e \<and> event_order ev < event_order e)" for e
    by (simp add: keep_def kept_def es)
  consider (stale) e where "e \<in> set keep" "revisions ev e" | (dup) "ev \<in> S"
    | (new) "ev \<notin> S" "\<forall>e \<in> set keep. \<not> revisions ev e" by blast
  then show ?thesis
  proof cases
    case stale
    have e: "winner S e" "\<not> event_order ev < event_order e" using stale keep by auto
    have "winner (insert ev S) x = winner S x" for x
    proof (cases "ev \<in> S")
      case False
      then have "event_order e \<noteq> event_order ev"
        using event_order_inj [OF inj, of e ev] e by (auto simp: winner_def)
      then have lt: "event_order e < event_order ev"
        using e by (meson not_less_iff_gr_or_eq)
      have "\<not> winner (insert ev S) ev" "\<not> winner S ev"
        using lt e stale False by (auto simp: winner_def)
      moreover have "\<not> event_order ev < event_order x" if "winner S x" "revisions x ev"
        using winner_unique [OF inj_on_subset [OF inj], of S x e] that e lt stale revisions_trans [of x ev e]
        by (auto simp: less_asym)
      ultimately show ?thesis by (auto simp: winner_def)
    qed (simp add: insert_absorb)
    moreover have "list_ex (revisions ev) keep" using stale by (auto simp: list_ex_iff)
    ultimately show ?thesis using es by (simp add: save_spec_def flip: keep_def)
  next
    case dup
    have "winner S ev \<or> (\<exists>e \<in> set keep. revisions ev e)"
    proof (cases "\<exists>e \<in> S. revisions ev e \<and> event_order e < event_order ev")
      case True
      then obtain e where "e \<in> S" "revisions ev e" "event_order e < event_order ev" by blast
      with best_revision [OF assms(2)] obtain w where "winner S w" "revisions ev w" "event_order w < event_order ev"
        by (meson order_le_less_trans)
      then have "w \<in> set keep" by (simp add: keep less_imp_not_less)
      with \<open>revisions ev w\<close> show ?thesis by blast
    next
      case False
      then show ?thesis using dup ne by (auto simp: winner_def)
    qed
    moreover have "ev \<in> set keep" if "winner S ev" using keep that by simp
    ultimately have "list_ex (revisions ev) keep \<or> ev_id ev \<in> ev_id ` set keep"
      by (auto simp: list_ex_iff)
    then show ?thesis using es dup by (auto simp: save_spec_def insert_absorb simp flip: keep_def)
  next
    case new
    have "ev_id ev \<notin> ev_id ` set keep"
      using inj new keep by (auto simp: winner_def inj_on_def)
    then have "save_spec ev es = Inr (keep @ [ev])"
      using new by (auto simp: save_spec_def list_ex_iff simp flip: keep_def)
    moreover have "winner (insert ev S) ev"
    proof -
      have False if e: "e \<in> S" "revisions ev e" and lt: "event_order e < event_order ev" for e
      proof -
        obtain w where "winner S w" "revisions ev w" "event_order w < event_order ev"
          using best_revision [OF assms(2) e] lt by (meson order_le_less_trans)
        then have "w \<in> set keep" by (simp add: keep less_imp_not_less)
        with \<open>revisions ev w\<close> new show False by blast
      qed
      then show ?thesis using ne by (auto simp: winner_def)
    qed
    moreover have "winner (insert ev S) x \<longleftrightarrow> x \<in> set keep" if "x \<noteq> ev" for x
    proof
      assume "winner (insert ev S) x"
      then show "x \<in> set keep" using that revisions_sym by (auto simp: keep winner_def)
    next
      assume x: "x \<in> set keep"
      then have "\<not> revisions x ev" using new revisions_sym by blast
      then show "winner (insert ev S) x" using x by (auto simp: keep winner_def)
    qed
    ultimately have "winner (insert ev S) x \<longleftrightarrow> x \<in> set (keep @ [ev])" for x
      by (cases "x = ev") simp_all
    then show ?thesis using \<open>save_spec ev es = Inr (keep @ [ev])\<close> by auto
  qed
qed

lemma save_event_winners:
  assumes "represents db es" "set es = {e. winner S e}" "inj_on ev_id (insert ev S)" "finite S"
  shows "\<exists>es'. represents (snd (save_event ev db)) es' \<and> set es' = {e. winner (insert ev S) e}"
proof (cases "is_ephemeral (ev_kind ev)")
  case True
  then have "winner (insert ev S) e = winner S e" for e
    using revisions_not_ephemeral [of e ev] by (auto simp: winner_def)
  then show ?thesis using True assms by auto
next
  case False
  then show ?thesis
    using save_event_refines [OF assms(1) False] save_spec_winners [OF assms(3,4,2) False] assms(1)
    by (cases "save_spec ev es") auto
qed

lemma save_all_winners:
  "represents db es \<Longrightarrow> set es = {e. winner S e} \<Longrightarrow> finite S \<Longrightarrow> inj_on ev_id (S \<union> set evs) \<Longrightarrow>
   \<exists>es'. represents (save_all evs db) es' \<and> set es' = {e. winner (S \<union> set evs) e}"
proof (induction evs arbitrary: db es S)
  case (Cons ev evs)
  have "inj_on ev_id (insert ev S)"
    using Cons.prems(4) by (rule inj_on_subset) auto
  then obtain es' where "represents (snd (save_event ev db)) es'" "set es' = {e. winner (insert ev S) e}"
    using save_event_winners Cons.prems by blast
  from Cons.IH [OF this] Cons.prems show ?case by simp
qed auto


section \<open>Querying\<close>

definition tag_name :: "string list \<Rightarrow> string" where
  "tag_name t = (if length t > 0 then t ! 0 else [])"

definition tag_val :: "string list \<Rightarrow> string" where
  "tag_val t = (if length t > 1 then t ! 1 else [])"

definition sql_matches :: "filter \<Rightarrow> event \<Rightarrow> bool" where
  "sql_matches f e \<longleftrightarrow>
     struct_clauses f (event_to_row e) \<and>
     (\<forall>q. f_cursor f = Some q \<longrightarrow> before_cursor q e) \<and>
     (\<forall>(key, vals) \<in> set (f_tag f). \<exists>t \<in> set (ev_tags e). tag_name t = drop 1 key \<and> tag_val t \<in> set vals)"

definition select_spec :: "filter \<Rightarrow> event list \<Rightarrow> event list" where
  "select_spec f es =
     (if has_search f then []
      else sql_limit (filter_sql_limit f True) (sort_key event_order (filter (sql_matches f) es)))"

definition query_spec :: "filter list \<Rightarrow> event list \<Rightarrow> event list" where
  "query_spec fs es = sort_key event_order (filter (\<lambda>e. \<exists>f \<in> set fs. e \<in> set (select_spec f es)) es)"

lemma tag_rows_of_event:
  "represents db es \<Longrightarrow> e \<in> set es \<Longrightarrow>
   list_ex (\<lambda>t. tr_event_id t = ev_id e \<and> P t) (db_tags db) = list_ex P (tag_rows e)"
proof -
  assume a: "represents db es" "e \<in> set es"
  have "list_ex (\<lambda>t. tr_event_id t = ev_id e \<and> P t) (db_tags db) =
      list_ex P (filter (\<lambda>t. tr_event_id t = ev_id e) (db_tags db))"
    by (auto simp: list_ex_iff)
  then show ?thesis by (simp add: tags_of_event [OF a])
qed

lemma map_tag_rows:
  assumes "\<And>i t. g (tag_to_row (ev_id e) i t) = h t"
  shows "map g (tag_rows e) = map h (ev_tags e)"
proof -
  have "map g (tag_rows e) = map h (map snd (enumerate 0 (ev_tags e)))"
    using assms by (simp add: tag_rows_def case_prod_unfold o_def del: map_snd_enumerate)
  then show ?thesis by simp
qed

lemma list_ex_map: "list_ex (\<lambda>b. b) (map P xs) = list_ex P xs"
  by (induction xs) auto

lemma list_ex_tag_rows:
  "(\<And>i t. P (tag_to_row (ev_id e) i t) = Q t) \<Longrightarrow> list_ex P (tag_rows e) = list_ex Q (ev_tags e)"
  using map_tag_rows [of P e Q] list_ex_map by metis

lemma tag_clauses_event:
  assumes "represents db es" "e \<in> set es"
  shows "tag_clauses (db_tags db) m (event_to_row e) \<longleftrightarrow>
    (\<forall>(key, vals) \<in> set m. \<exists>t \<in> set (ev_tags e). tag_name t = drop 1 key \<and> tag_val t \<in> set vals)"
proof (induction m)
  case (Cons kv m)
  obtain key vals where kv: "kv = (key, vals)" by (cases kv)
  have "list_ex (\<lambda>t. tr_event_id t = ev_id e \<and> tr_name t = drop 1 key \<and> tr_value t \<in> set vals) (db_tags db) =
      list_ex (\<lambda>t. tag_name t = drop 1 key \<and> tag_val t \<in> set vals) (ev_tags e)"
    unfolding tag_rows_of_event [OF assms]
    by (rule list_ex_tag_rows) (simp add: tag_to_row_def tag_name_def tag_val_def)
  with Cons show ?case by (auto simp: kv Let_def list_ex_iff)
qed simp

lemma apply_filter_query_event:
  "represents db es \<Longrightarrow> e \<in> set es \<Longrightarrow>
   apply_filter_query f (db_tags db) (event_to_row e) = sql_matches f e"
  by (auto simp: apply_filter_query_def sql_matches_def tag_clauses_event before_cursor_def split: option.splits)

text \<open>Rows are events in disguise, so sorting and selecting commute with the abstraction.\<close>

lemma sort_key_map: "sort_key g (map h xs) = map h (sort_key (g \<circ> h) xs)"
proof -
  have "insort_key g (h x) (map h ys) = map h (insort_key (g \<circ> h) x ys)" for x ys
    by (induction ys) auto
  then show ?thesis by (induction xs) auto
qed

lemma row_order_event [simp]: "row_order (event_to_row e) = event_order e"
  by (simp add: row_order_def event_order_def)

lemma row_order_comp [simp]: "row_order \<circ> event_to_row = event_order"
  by (auto simp: fun_eq_iff)

lemma sort_rows: "sort_key row_order (map event_to_row xs) = map event_to_row (sort_key event_order xs)"
  by (simp only: sort_key_map row_order_comp)

lemma sql_limit_map: "sql_limit l (map h xs) = map h (sql_limit l xs)"
  by (simp add: sql_limit_def take_map split: option.splits)

lemma select_rows_refines:
  assumes "represents db es"
  shows "select_rows f True db = map event_to_row (select_spec f es)"
proof -
  have "filter (\<lambda>e. apply_filter_query f (db_tags db) (event_to_row e)) es = filter (sql_matches f) es"
    using apply_filter_query_event [OF assms] by (intro filter_cong) auto
  then show ?thesis
    using assms by (simp add: select_rows_def select_spec_def represents_def filter_map o_def
      sort_rows sql_limit_map)
qed

lemma set_sql_limit: "set (sql_limit l xs) \<subseteq> set xs"
  by (auto simp: sql_limit_def dest: in_set_takeD split: option.splits)

lemma select_spec_subset: "e \<in> set (select_spec f es) \<Longrightarrow> e \<in> set es"
  using set_sql_limit [of _ "sort_key event_order (filter (sql_matches f) es)"]
  by (auto simp: select_spec_def split: if_splits)

lemma sort_key_same_set:
  "distinct xs \<Longrightarrow> distinct ys \<Longrightarrow> set xs = set ys \<Longrightarrow> inj_on g (set xs) \<Longrightarrow> sort_key g xs = sort_key g ys"
  by (metis mset_sort set_eq_iff_mset_eq_distinct sort_key_inj_key_eq sorted_sort_key)

definition by_id :: "event list \<Rightarrow> (string, event_row) go_map" where
  "by_id xs = map (\<lambda>e. (ev_id e, event_to_row e)) xs"

lemma by_id_insert:
  assumes "distinct xs" "inj_on ev_id (insert e (set xs))"
  shows "AList.update (ev_id e) (event_to_row e) (by_id xs) = by_id (if e \<in> set xs then xs else xs @ [e])"
proof (cases "e \<in> set xs")
  case True
  have "distinct (map fst (by_id xs))"
    using assms by (auto simp: by_id_def o_def distinct_map intro: inj_on_subset)
  then have "map_of (by_id xs) (ev_id e) = Some (event_to_row e)"
    using True by (force simp: by_id_def intro!: map_of_is_SomeI)
  then show ?thesis using True by (simp add: update_triv)
next
  case False
  then have "ev_id e \<notin> fst ` set (by_id xs)"
    using assms(2) by (fastforce simp: by_id_def)
  then show ?thesis using False by (simp add: update_fresh) (simp add: by_id_def)
qed

lemma by_id_rows:
  "distinct xs \<Longrightarrow> inj_on ev_id (set xs \<union> set rs) \<Longrightarrow>
   \<exists>ys. fold (\<lambda>r m. AList.update (er_id r) r m) (map event_to_row rs) (by_id xs) = by_id ys \<and>
     distinct ys \<and> set ys = set xs \<union> set rs"
proof (induction rs arbitrary: xs)
  case (Cons r rs)
  let ?xs = "if r \<in> set xs then xs else xs @ [r]"
  have "inj_on ev_id (insert r (set xs))"
    using Cons.prems(2) by (rule inj_on_subset) auto
  note ins = by_id_insert [OF Cons.prems(1) this]
  have "distinct ?xs" "inj_on ev_id (set ?xs \<union> set rs)" "set ?xs \<union> set rs = set xs \<union> set (r # rs)"
    using Cons.prems by (auto simp: insert_absorb)
  with Cons.IH [of ?xs] show ?case by (simp add: ins)
qed auto

lemma by_id_filters:
  assumes "represents db es"
  shows "distinct xs \<Longrightarrow> set xs \<subseteq> set es \<Longrightarrow>
   \<exists>ys. fold (\<lambda>f m. fold (\<lambda>r m. AList.update (er_id r) r m) (select_rows f True db) m) fs (by_id xs) = by_id ys \<and>
     distinct ys \<and> set ys = set xs \<union> {e \<in> set es. \<exists>f \<in> set fs. e \<in> set (select_spec f es)}"
proof (induction fs arbitrary: xs)
  case (Cons f fs)
  have sub: "set xs \<union> set (select_spec f es) \<subseteq> set es"
    using Cons.prems(2) select_spec_subset by auto
  have "inj_on ev_id (set xs \<union> set (select_spec f es))"
    using assms sub by (auto simp: represents_def distinct_map intro: inj_on_subset)
  then obtain ys where ys: "fold (\<lambda>r m. AList.update (er_id r) r m) (select_rows f True db) (by_id xs) = by_id ys"
      "distinct ys" "set ys = set xs \<union> set (select_spec f es)"
    using by_id_rows [OF Cons.prems(1)] unfolding select_rows_refines [OF assms] by blast
  with sub have "set ys \<subseteq> set es" by simp
  from Cons.IH [OF ys(2) this] obtain zs where
    "fold (\<lambda>f m. fold (\<lambda>r m. AList.update (er_id r) r m) (select_rows f True db) m) fs (by_id ys) = by_id zs"
    "distinct zs" "set zs = set ys \<union> {e \<in> set es. \<exists>f \<in> set fs. e \<in> set (select_spec f es)}"
    by blast
  then show ?case
    using ys select_spec_subset by (intro exI [of _ zs]) auto
qed auto

subsection \<open>Tags\<close>

lemma group_tag_rows_map:
  "\<forall>tr \<in> set rows. decode_strings (tr_full_json tr) \<noteq> Inl e' \<and> (\<exists>p. decode_strings (tr_full_json tr) = Inr p) \<Longrightarrow>
   \<exists>m'. group_tag_rows env rows m = Inr m' \<and>
     (\<forall>i. map_of m' i =
       (let new = map (\<lambda>tr. projr (decode_strings (tr_full_json tr))) (filter (\<lambda>tr. tr_event_id tr = i) rows)
        in if new = [] then map_of m i
           else Some ((case map_of m i of None \<Rightarrow> [] | Some ts \<Rightarrow> ts) @ new)))"
proof (induction rows arbitrary: m)
  case (Cons tr rows)
  obtain p where p: "decode_strings (tr_full_json tr) = Inr p" using Cons.prems by auto
  let ?m = "AList.update (tr_event_id tr)
    ((case map_of m (tr_event_id tr) of None \<Rightarrow> [] | Some ts \<Rightarrow> ts) @ [p]) m"
  from Cons.IH [of ?m] Cons.prems obtain m' where m': "group_tag_rows env rows ?m = Inr m'"
    "\<And>i. map_of m' i =
       (let new = map (\<lambda>tr. projr (decode_strings (tr_full_json tr))) (filter (\<lambda>tr. tr_event_id tr = i) rows)
        in if new = [] then map_of ?m i
           else Some ((case map_of ?m i of None \<Rightarrow> [] | Some ts \<Rightarrow> ts) @ new))"
    by auto
  have "group_tag_rows env (tr # rows) m = Inr m'"
    using m'(1) by (simp add: decode_tag_full_json_def p Let_def)
  then show ?case by (auto simp: m'(2) p Let_def split: option.splits)
qed simp

lemma tag_rows_decode: "tr \<in> set (tag_rows e) \<Longrightarrow> \<exists>p. decode_strings (tr_full_json tr) = Inr p"
  by (auto simp: tag_rows_def tag_to_row_def)

lemma tag_rows_decoded: "map (\<lambda>tr. projr (decode_strings (tr_full_json tr))) (tag_rows e) = ev_tags e"
  using map_tag_rows [of "\<lambda>tr. projr (decode_strings (tr_full_json tr))" e "\<lambda>t. t"]
  by (simp add: tag_to_row_def)

lemma map_tr_pos_tag_rows: "map tr_pos (tag_rows e) = [0..<length (ev_tags e)]"
proof -
  have "map tr_pos (tag_rows e) = map fst (enumerate 0 (ev_tags e))"
    by (simp add: tag_rows_def tag_to_row_def case_prod_unfold o_def del: map_fst_enumerate)
  then show ?thesis by simp
qed

lemma sort_tag_rows [simp]:
  "sort_key tr_pos (tag_rows e) = tag_rows e"
  "sort_key (\<lambda>t. (tr_event_id t, tr_pos t)) (tag_rows e) = tag_rows e"
proof -
  have *: "sorted (map tr_pos (tag_rows e))" by (simp add: map_tr_pos_tag_rows)
  then show "sort_key tr_pos (tag_rows e) = tag_rows e" by (rule sort_key_id_if_sorted)
  have "map (\<lambda>t. (tr_event_id t, tr_pos t)) (tag_rows e) = map (Pair (ev_id e)) (map tr_pos (tag_rows e))"
    by (simp add: tag_rows_event_id)
  then have "sorted (map (\<lambda>t. (tr_event_id t, tr_pos t)) (tag_rows e))"
    using * by (simp add: sorted_map [where f = "Pair (ev_id e)"] del: map_map)
  then show "sort_key (\<lambda>t. (tr_event_id t, tr_pos t)) (tag_rows e) = tag_rows e"
    by (rule sort_key_id_if_sorted)
qed

lemma row_with_tags:
  "ts = (if ev_tags e = [] then None else Some (ev_tags e)) \<Longrightarrow>
   row_to_event_with_tags (event_to_row e) ts = e"
  by (cases e) (simp add: row_to_event_with_tags_def event_to_row_def)

lemma all_tags_decode:
  "represents db es \<Longrightarrow> tr \<in> set (db_tags db) \<Longrightarrow> \<exists>p. decode_strings (tr_full_json tr) = Inr p"
  by (auto simp: represents_def dest: tag_rows_decode)

lemma tags_by_event_id_represents:
  assumes R: "represents db es" and ids: "ids \<noteq> []"
  shows "\<exists>m. tags_by_event_id env ids db = Inr m \<and>
    (\<forall>e \<in> set es. ev_id e \<in> set ids \<longrightarrow> row_to_event_with_tags (event_to_row e) (map_of m (ev_id e)) = e)"
proof -
  let ?rows = "sort_key (\<lambda>t. (tr_event_id t, tr_pos t)) (filter (\<lambda>t. tr_event_id t \<in> set ids) (db_tags db))"
  have dec: "\<forall>tr \<in> set ?rows. decode_strings (tr_full_json tr) \<noteq> Inl [] \<and>
      (\<exists>p. decode_strings (tr_full_json tr) = Inr p)"
    using all_tags_decode [OF R] by force
  have sel: "filter (\<lambda>tr. tr_event_id tr = ev_id e) ?rows = tag_rows e" if "e \<in> set es" "ev_id e \<in> set ids" for e
  proof -
    have "filter (\<lambda>tr. tr_event_id tr = ev_id e) (filter (\<lambda>t. tr_event_id t \<in> set ids) (db_tags db)) =
        filter (\<lambda>t. tr_event_id t = ev_id e) (db_tags db)"
      using that(2) by (auto intro: filter_cong)
    then show ?thesis
      by (simp only: filter_sort tags_of_event [OF R that(1)] sort_tag_rows)
  qed
  from group_tag_rows_map [OF dec, of env "[]"] obtain m where m: "group_tag_rows env ?rows [] = Inr m"
    "\<And>i. map_of m i = (let new = map (\<lambda>tr. projr (decode_strings (tr_full_json tr)))
        (filter (\<lambda>tr. tr_event_id tr = i) ?rows) in if new = [] then None else Some new)"
    by (auto simp: Let_def)
  have "row_to_event_with_tags (event_to_row e) (map_of m (ev_id e)) = e"
    if "e \<in> set es" "ev_id e \<in> set ids" for e
    by (rule row_with_tags) (simp add: m(2) sel [OF that] tag_rows_decoded Let_def)
  then show ?thesis using m(1) ids by (auto simp: tags_by_event_id_def)
qed

lemma query_events_refines:
  assumes R: "represents db es"
  shows "query_events env fs db = Inr (query_spec fs es)"
proof (cases "fs = []")
  case False
  obtain ys where ys: "fold (\<lambda>f m. fold (\<lambda>r m. AList.update (er_id r) r m) (select_rows f True db) m) fs [] = by_id ys"
      "distinct ys" "set ys = {e \<in> set es. \<exists>f \<in> set fs. e \<in> set (select_spec f es)}"
    using by_id_filters [OF R, of "[]" fs] by (auto simp: by_id_def)
  let ?out = "sort_key event_order ys"
  have "distinct (map ev_id es)" using R by (simp add: represents_def)
  then have inj: "inj_on ev_id (set es)" "distinct es" by (auto simp: distinct_map)
  have out: "?out = query_spec fs es"
    unfolding query_spec_def
    by (rule sort_key_same_set)
      (use ys inj in \<open>auto intro!: event_order_inj_on inj_on_subset [OF inj(1)]\<close>)
  have rows: "sort_key row_order (map snd (by_id ys)) = map event_to_row ?out"
    by (simp add: by_id_def o_def sort_rows)
  show ?thesis
  proof (cases "?out = []")
    case True
    then show ?thesis
      using False ys(1) rows out by (simp add: query_events_def tags_by_event_id_def Let_def)
  next
    case ne: False
    then have "map er_id (map event_to_row ?out) \<noteq> []" by simp
    from tags_by_event_id_represents [OF R this, of env] obtain m where
      m: "tags_by_event_id env (map er_id (map event_to_row ?out)) db = Inr m"
      "\<And>e. e \<in> set ?out \<Longrightarrow> row_to_event_with_tags (event_to_row e) (map_of m (ev_id e)) = e"
      using ys(3) by auto
    have "map (\<lambda>r. row_to_event_with_tags r (map_of m (er_id r))) (map event_to_row ?out) = ?out"
      using m(2) by (auto simp: o_def intro: map_idI)
    then show ?thesis
      using False m(1) unfolding query_events_def Let_def ys(1) rows by (simp add: out)
  qed
qed (simp add: query_events_def query_spec_def)


text \<open>What a query returns depends on which events are stored, not on the order of the tables.\<close>

lemma select_spec_set_cong:
  assumes "distinct es" "distinct es'" "set es = set es'" "inj_on ev_id (set es)"
  shows "select_spec f es = select_spec f es'"
proof -
  have "sort_key event_order (filter (sql_matches f) es) = sort_key event_order (filter (sql_matches f) es')"
    by (rule sort_key_same_set)
      (use assms in \<open>auto intro!: event_order_inj_on inj_on_subset [OF assms(4)]\<close>)
  then show ?thesis by (simp add: select_spec_def)
qed

lemma query_spec_set_cong:
  assumes "distinct es" "distinct es'" "set es = set es'" "inj_on ev_id (set es)"
  shows "query_spec fs es = query_spec fs es'"
  unfolding query_spec_def select_spec_set_cong [OF assms]
  by (rule sort_key_same_set)
    (use assms in \<open>auto intro!: event_order_inj_on inj_on_subset [OF assms(4)]\<close>)

text \<open>A limit keeps the events with fewer than that many better ones.\<close>

lemma strictly_sorted_key:
  assumes "distinct xs" "inj_on g (set xs)"
  shows "sorted_wrt (\<lambda>a b. g a < (g b :: 'b::linorder)) (sort_key g xs)"
proof -
  have "sorted_wrt (<) (map g (sort_key g xs))"
    using assms by (auto simp: strict_sorted_iff distinct_map)
  then show ?thesis by (simp add: sorted_wrt_map)
qed

lemma set_take_rank:
  assumes "sorted_wrt (\<lambda>a b. g a < (g b :: 'b::linorder)) xs"
  shows "x \<in> set (take n xs) \<longleftrightarrow> x \<in> set xs \<and> card {y \<in> set xs. g y < g x} < n"
proof -
  have nth: "{y \<in> set xs. g y < g (xs ! i)} = set (take i xs)" if "i < length xs" for i
  proof -
    have "g (xs ! j) < g (xs ! i) \<longleftrightarrow> j < i" if "j < length xs" for j
      using assms that \<open>i < length xs\<close> unfolding sorted_wrt_iff_nth_less
      by (metis less_asym' nat_neq_iff)
    then show ?thesis
      using that by (auto simp: in_set_conv_nth nth_image [symmetric] less_imp_le)
        (metis less_trans)
  qed
  have "distinct xs"
    using assms by (auto simp: distinct_conv_nth sorted_wrt_iff_nth_less) (metis less_irrefl nat_neq_iff)
  then have card: "card {y \<in> set xs. g y < g (xs ! i)} = i" if "i < length xs" for i
    using that by (simp add: nth distinct_card)
  show ?thesis
  proof
    assume "x \<in> set (take n xs)"
    then obtain i where "i < n" "i < length xs" "x = xs ! i" by (auto simp: in_set_conv_nth)
    then show "x \<in> set xs \<and> card {y \<in> set xs. g y < g x} < n" by (simp add: card)
  next
    assume x: "x \<in> set xs \<and> card {y \<in> set xs. g y < g x} < n"
    then obtain i where "i < length xs" "x = xs ! i" by (metis in_set_conv_nth)
    with x card have "i < length xs" "x = xs ! i" "i < n" by simp_all
    then show "x \<in> set (take n xs)" by (auto simp: in_set_conv_nth)
  qed
qed

definition within_limit :: "filter \<Rightarrow> event set \<Rightarrow> event \<Rightarrow> bool" where
  "within_limit f S e \<longleftrightarrow>
     (case f_limit f of None \<Rightarrow> True
      | Some l \<Rightarrow> l \<le> 0 \<or> int (card {e' \<in> S. sql_matches f e' \<and> event_order e' < event_order e}) < l)"

lemma select_spec_mem:
  assumes "distinct es" "inj_on ev_id (set es)"
  shows "e \<in> set (select_spec f es) \<longleftrightarrow>
    e \<in> set es \<and> \<not> has_search f \<and> sql_matches f e \<and> within_limit f (set es) e"
proof -
  let ?m = "sort_key event_order (filter (sql_matches f) es)"
  have "sorted_wrt (\<lambda>a b. event_order a < event_order b) ?m"
    using assms by (intro strictly_sorted_key event_order_inj_on inj_on_subset [OF assms(2)]) auto
  note rank = set_take_rank [OF this, simplified, of e]
  show ?thesis
    by (auto simp: select_spec_def sql_limit_def filter_sql_limit_def within_limit_def rank conj_assoc
        zless_nat_eq_int_zless split: option.splits)
qed

section \<open>Stored and live matching\<close>

text \<open>
  A subscription sees stored events through SQL and new ones through \<open>Matches\<close>. They agree on
  filters whose tag keys are \<open>#x\<close> and whose wanted tag values are not empty; for the empty
  value the column's default makes a tag without a value match in SQL.
\<close>

definition plain_tags :: "filter \<Rightarrow> bool" where
  "plain_tags f \<longleftrightarrow> (\<forall>(key, vals) \<in> set (f_tag f). is_tag_key key \<and> [] \<notin> set vals)"

lemma tag_key_prefix: "is_tag_key key \<Longrightarrow> trim_prefix key ''#'' = drop 1 key \<and> drop 1 key \<noteq> []"
  by (cases key) (auto simp: is_tag_key_def trim_prefix_def has_prefix_def)

lemma sql_tag_iff:
  assumes "is_tag_key key" "[] \<notin> set vals"
  shows "(\<exists>t \<in> set ts. tag_name t = drop 1 key \<and> tag_val t \<in> set vals) \<longleftrightarrow>
    set vals \<inter> tag_value (trim_prefix key ''#'') ts \<noteq> {}"
proof -
  have "tag_name t = drop 1 key \<and> tag_val t \<in> set vals \<longleftrightarrow>
      length t \<ge> 2 \<and> t ! 0 = drop 1 key \<and> t ! 1 \<in> set vals" for t
    using assms(2) tag_key_prefix [OF assms(1)]
    by (auto simp: tag_name_def tag_val_def Suc_le_eq split: if_splits)
  then show ?thesis
    using tag_key_prefix [OF assms(1)] by (fastforce simp: tag_value_def)
qed

lemma sql_matches_live:
  assumes "plain_tags f" "\<not> has_search f"
  shows "sql_matches f e = filter_matches f e"
proof -
  have "(\<forall>(key, vals) \<in> set (f_tag f). \<exists>t \<in> set (ev_tags e). tag_name t = drop 1 key \<and> tag_val t \<in> set vals) \<longleftrightarrow>
      (\<forall>(key, want) \<in> set (f_tag f). set want \<inter> tag_value (trim_prefix key ''#'') (ev_tags e) \<noteq> {})"
    using assms(1) sql_tag_iff unfolding plain_tags_def case_prod_unfold by (intro ball_cong refl) blast
  then show ?thesis
    using assms(2) by (auto simp: sql_matches_def filter_matches_spec filter_spec_def struct_clauses_def
        before_cursor_def split: option.splits)
qed


section \<open>The other reads\<close>

lemma has_tag_row_event:
  assumes "represents db es" "e \<in> set es"
  shows "has_tag_row db (ev_id e) name v \<longleftrightarrow> (\<exists>t \<in> set (ev_tags e). tag_name t = name \<and> tag_val t = v)"
proof -
  have "has_tag_row db (ev_id e) name v = list_ex (\<lambda>t. tag_name t = name \<and> tag_val t = v) (ev_tags e)"
    unfolding has_tag_row_def tag_rows_of_event [OF assms]
    by (rule list_ex_tag_rows) (simp add: tag_to_row_def tag_name_def tag_val_def)
  then show ?thesis by (simp add: list_ex_iff)
qed

text \<open>A query ordered newest first with \<open>LIMIT 1\<close> returns the row no other selected row beats.\<close>

lemma first_row:
  assumes "represents db es"
    and sel: "\<And>e. e \<in> set es \<Longrightarrow> p (event_to_row e) = P e"
    and rows: "sort_key row_order (List.filter p (db_events db)) = r # rest"
  shows "\<exists>e \<in> set es. P e \<and> r = event_to_row e \<and> (\<forall>e' \<in> set es. P e' \<longrightarrow> event_order e \<le> event_order e')"
proof -
  have eq: "sort_key row_order (List.filter p (db_events db)) = map event_to_row (sort_key event_order (List.filter P es))"
    using assms(1) sel by (simp add: represents_def filter_map o_def sort_rows cong: filter_cong)
  then obtain e xs where e: "sort_key event_order (List.filter P es) = e # xs" "r = event_to_row e"
    using rows by (cases "sort_key event_order (List.filter P es)") auto
  have "set (e # xs) = {x \<in> set es. P x}" and "sorted (map event_order (e # xs))"
    unfolding e(1) [symmetric] by simp_all
  then have "e \<in> {x \<in> set es. P x}" and "\<forall>x \<in> {x \<in> set es. P x}. event_order e \<le> event_order x"
    by auto
  then show ?thesis using e(2) by blast
qed

lemma no_rows:
  assumes "represents db es"
    and "\<And>e. e \<in> set es \<Longrightarrow> p (event_to_row e) = P e"
    and "sort_key row_order (List.filter p (db_events db)) = []"
  shows "\<forall>e \<in> set es. \<not> P e"
proof -
  have "set (List.filter p (db_events db)) = {}"
    using assms(3) by (metis set_empty set_sort)
  then show ?thesis using assms(1,2) by (auto simp: represents_def)
qed

definition membership_event :: "string \<Rightarrow> string \<Rightarrow> string \<Rightarrow> event \<Rightarrow> bool" where
  "membership_event relay_pubkey group_id member e \<longleftrightarrow>
     ev_pubkey e = relay_pubkey \<and> ev_kind e \<in> {9000, 9001} \<and>
     (\<exists>t \<in> set (ev_tags e). tag_name t = ''h'' \<and> tag_val t = group_id) \<and>
     (\<exists>t \<in> set (ev_tags e). tag_name t = ''p'' \<and> tag_val t = member)"

lemma is_group_member_iff:
  assumes R: "represents db es"
  shows "is_group_member rk g m db \<longleftrightarrow>
    (\<exists>e \<in> set es. membership_event rk g m e \<and> ev_kind e = 9000 \<and>
       (\<forall>e' \<in> set es. membership_event rk g m e' \<longrightarrow> event_order e \<le> event_order e'))"
proof -
  let ?p = "\<lambda>r. er_pubkey r = rk \<and> er_kind r \<in> {9000, 9001} \<and> has_tag_row db (er_id r) ''h'' g \<and>
    has_tag_row db (er_id r) ''p'' m"
  have p: "?p (event_to_row e) = membership_event rk g m e" if "e \<in> set es" for e
    using that by (simp add: membership_event_def has_tag_row_event [OF R])
  have inj: "inj_on event_order (set es)"
    using R by (auto simp: represents_def distinct_map intro: event_order_inj_on)
  show ?thesis
  proof (cases "sort_key row_order (List.filter ?p (db_events db))")
    case Nil
    then show ?thesis using no_rows [OF R p Nil] by (auto simp: is_group_member_def)
  next
    case (Cons r rest)
    then obtain e where e: "e \<in> set es" "membership_event rk g m e" "r = event_to_row e"
      "\<forall>e' \<in> set es. membership_event rk g m e' \<longrightarrow> event_order e \<le> event_order e'"
      using first_row [OF R p Cons] by blast
    have "e' = e" if "e' \<in> set es" "membership_event rk g m e'"
      "\<forall>x \<in> set es. membership_event rk g m x \<longrightarrow> event_order e' \<le> event_order x" for e'
      using that e inj by (metis inj_onD order_antisym)
    moreover have "is_group_member rk g m db \<longleftrightarrow> ev_kind e = 9000"
      using Cons e(3) unfolding is_group_member_def by simp
    ultimately show ?thesis using e by blast
  qed
qed

lemma sync_items_refines:
  assumes "represents db es"
  shows "query_event_sync_items f db =
    (if has_search f then []
     else map (\<lambda>e. \<lparr>si_id = ev_id e, si_created_at = ev_created_at e\<rparr>)
       (sort_key (\<lambda>e. (ev_created_at e, ev_id e)) (List.filter (sql_matches f) es)))"
proof -
  have "List.filter (\<lambda>e. apply_filter_query f (db_tags db) (event_to_row e)) es = List.filter (sql_matches f) es"
    using apply_filter_query_event [OF assms] by (intro filter_cong) auto
  then show ?thesis
    using assms by (simp add: query_event_sync_items_def represents_def filter_map o_def sort_key_map)
qed

lemma count_sub_query:
  assumes "represents db es"
  shows "count_filter_sub_query f db =
    (if has_search f then None else Some (map ev_id (List.filter (sql_matches (f\<lparr>f_cursor := None\<rparr>)) es)))"
proof -
  have "(struct_clauses f (event_to_row e) \<and> tag_clauses (db_tags db) (f_tag f) (event_to_row e)) =
      sql_matches (f\<lparr>f_cursor := None\<rparr>) e" if "e \<in> set es" for e
    using that by (simp add: sql_matches_def tag_clauses_event [OF assms] struct_clauses_def)
  then show ?thesis
    using assms by (simp add: count_filter_sub_query_def represents_def filter_map o_def cong: filter_cong)
qed

lemma count_events_card:
  assumes R: "represents db es" and "fs \<noteq> []"
  shows "count_events fs db =
    card {e \<in> set es. \<exists>f \<in> set fs. \<not> has_search f \<and> sql_matches (f\<lparr>f_cursor := None\<rparr>) e}"
proof -
  let ?idss = "List.map_filter (\<lambda>f. count_filter_sub_query f db) fs"
  let ?S = "{e \<in> set es. \<exists>f \<in> set fs. \<not> has_search f \<and> sql_matches (f\<lparr>f_cursor := None\<rparr>) e}"
  have idss: "?idss = map (\<lambda>f. map ev_id (List.filter (sql_matches (f\<lparr>f_cursor := None\<rparr>)) es))
      (List.filter (\<lambda>f. \<not> has_search f) fs)"
    by (induction fs) (auto simp: map_filter_def count_sub_query [OF R])
  have inj: "inj_on ev_id (set es)" "distinct (map ev_id es)"
    using R by (auto simp: represents_def distinct_map)
  have "count_events fs db = length (remdups (concat ?idss))"
  proof (cases ?idss rule: list.exhaust)
    case (Cons ids rest)
    have "distinct ids" if "rest = []"
    proof -
      have "ids \<in> set ?idss" using Cons by simp
      then show ?thesis unfolding idss using inj(2) by (auto simp: distinct_map_filter)
    qed
    then show ?thesis
      using Cons assms(2) by (cases rest) (simp_all add: count_events_def distinct_remdups_id)
  qed (simp add: count_events_def assms(2))
  also have "\<dots> = card (set (concat ?idss))"
    by (simp add: length_remdups_card_conv)
  also have "set (concat ?idss) = ev_id ` ?S"
    unfolding idss by auto
  also have "card (ev_id ` ?S) = card ?S"
    by (rule card_image) (rule inj_on_subset [OF inj(1)], auto)
  finally show ?thesis .
qed

section \<open>The store meets its interface\<close>

definition db_valid :: "event_db \<Rightarrow> bool" where
  "db_valid db \<longleftrightarrow> (\<exists>es. represents db es)"

definition sql_matching :: "sql_env \<Rightarrow> filter \<Rightarrow> event_db \<Rightarrow> event list" where
  "sql_matching env f db =
     (case query_events env [f\<lparr>f_limit := None, f_cursor := None, f_search := None\<rparr>] db of
        Inl _ \<Rightarrow> []
      | Inr es \<Rightarrow> es)"

definition sql_store :: "sql_env \<Rightarrow> event_db store_ops" where
  "sql_store env = \<lparr>so_save = save_event, so_query = query_events env,
     so_sync_items = (\<lambda>f db. Inr (query_event_sync_items f db)),
     so_count = (\<lambda>fs db. Inr (int (count_events fs db))),
     so_has_id = (\<lambda>i db. Inr (has_event_id i db)), so_search = search_events env,
     so_prefix_exists = (\<lambda>p g h db. Inr (event_id_prefix_exists p g h db)),
     so_metadata = get_latest_group_metadata39000 env, so_admins = get_latest_group_admins39001 env,
     so_member = (\<lambda>rk g m db. Inr (is_group_member rk g m db))\<rparr>"

lemma sql_matches_plain:
  "sql_matches (f\<lparr>f_cursor := c\<rparr>) e \<longleftrightarrow>
     sql_matches (f\<lparr>f_limit := None, f_cursor := None, f_search := None\<rparr>) e \<and> behind c e"
  by (auto simp: sql_matches_def struct_clauses_def behind_def split: option.splits)

lemma sql_matches_limit [simp]: "sql_matches (f\<lparr>f_limit := l\<rparr>) e = sql_matches f e"
  by (simp add: sql_matches_def struct_clauses_def)

lemma sql_matches_base:
  "f_cursor f = None \<Longrightarrow> sql_matches (f\<lparr>f_limit := None, f_cursor := None, f_search := None\<rparr>) = sql_matches f"
  by (auto simp: fun_eq_iff sql_matches_def struct_clauses_def)

lemma query_one:
  assumes "represents db es"
  shows "query_events env [f] db = Inr (select_spec f es)"
proof -
  have d: "distinct es" "inj_on ev_id (set es)"
    using assms by (auto simp: represents_def distinct_map)
  have "List.filter (\<lambda>e. e \<in> set (select_spec f es)) es = List.filter (\<lambda>e. e \<in> set (select_spec f es)) es" ..
  have sorted: "sorted (map event_order (select_spec f es))"
    by (auto simp: select_spec_def sql_limit_def sorted_wrt_take simp flip: take_map split: option.splits)
  have "distinct (select_spec f es)"
    using d(1) by (auto simp: select_spec_def sql_limit_def split: option.splits)
  then have "query_spec [f] es = sort_key event_order (select_spec f es)"
    unfolding query_spec_def
    by (intro sort_key_same_set) (use d select_spec_subset in \<open>auto intro!: event_order_inj_on inj_on_subset [OF d(2)]\<close>)
  then show ?thesis
    by (simp add: query_events_refines [OF assms] sort_key_id_if_sorted [OF sorted])
qed

lemma sql_matching_eq:
  assumes "represents db es"
  shows "sql_matching env f db =
    sort_key event_order (List.filter (sql_matches (f\<lparr>f_limit := None, f_cursor := None, f_search := None\<rparr>)) es)"
  by (simp add: sql_matching_def query_one [OF assms] select_spec_def has_search_def ptr_str_def
      filter_sql_limit_def sql_limit_def)

interpretation sql_paged: paged_store "query_events env" "sql_matching env" db_valid for env
proof
  fix st f
  assume "db_valid st"
  then obtain es where R: "represents st es" by (auto simp: db_valid_def)
  then have d: "distinct es" "inj_on ev_id (set es)"
    by (auto simp: represents_def distinct_map)
  show "sorted_wrt newer (sql_matching env f st)"
    unfolding sql_matching_eq [OF R]
    by (rule strictly_sorted_key) (use d in \<open>auto intro!: event_order_inj_on inj_on_subset [OF d(2)]\<close>)
  show "sql_matching env (f\<lparr>f_limit := lim\<rparr>) st = sql_matching env f st" for lim
    by (simp add: sql_matching_def)
  show "a = b" if "a \<in> set (sql_matching env f st)" "b \<in> set (sql_matching env g st)" "ev_id a = ev_id b" for a b g
    using that d(2) by (auto simp: sql_matching_eq [OF R] dest: inj_onD)
  show "query_events env [f\<lparr>f_limit := Some l, f_cursor := c\<rparr>] st =
      Inr (take (nat l) (List.filter (behind c) (sql_matching env f st)))"
    if "\<not> has_search f" "0 < l" for l c
    using that by (simp add: query_one [OF R] select_spec_def filter_sql_limit_def sql_limit_def
        sql_matching_eq [OF R] sql_matches_plain [where f = "f\<lparr>f_limit := Some l\<rparr>"] filter_sort conj_commute
        cong: filter_cong)
  show "query_events env [f] st = Inr (case f_limit f of
          None \<Rightarrow> sql_matching env f st
        | Some l \<Rightarrow> if 0 < l then take (nat l) (sql_matching env f st) else sql_matching env f st)"
    if "\<not> has_search f" "f_cursor f = None"
    using that by (simp add: query_one [OF R] select_spec_def filter_sql_limit_def sql_limit_def
        sql_matching_eq [OF R] sql_matches_base split: option.split)
qed

definition db_stored :: "sql_env \<Rightarrow> event_db \<Rightarrow> event set" where
  "db_stored env db = set (sql_matching env empty_filter db)"

lemma db_stored_eq:
  assumes R: "represents db es"
  shows "db_stored env db = set es"
proof -
  have "\<not> has_search empty_filter" "sql_matches (empty_filter\<lparr>f_limit := None, f_cursor := None, f_search := None\<rparr>) e" for e
    by (simp_all add: has_search_def ptr_str_def empty_filter_def sql_matches_def struct_clauses_def)
  then show ?thesis by (auto simp: db_stored_def sql_matching_eq [OF R])
qed

interpretation sql_ids: id_lookup "query_events env" "db_stored env" db_valid for env
proof
  fix st ids
  assume "db_valid st"
  then obtain es where R: "represents st es" by (auto simp: db_valid_def)
  then show "inj_on ev_id (db_stored env st)"
    by (auto simp: db_stored_eq [OF R] represents_def distinct_map)
  let ?f = "empty_filter\<lparr>f_ids := ids\<rparr>"
  have "\<not> has_search ?f" by (simp add: has_search_def ptr_str_def empty_filter_def)
  then show "\<exists>evs. query_events env [?f] st = Inr evs \<and> set evs = {e \<in> db_stored env st. ev_id e \<in> set ids}"
    if "ids \<noteq> []"
    using that
    by (auto simp: query_one [OF R] select_spec_def filter_sql_limit_def sql_limit_def db_stored_eq [OF R]
        sql_matches_def struct_clauses_def empty_filter_def event_to_row_def)
qed

interpretation sql_saves: save_store save_event "db_stored env" db_valid for env
proof
  fix st ev
  assume "db_valid st"
  then obtain es where R: "represents st es" by (auto simp: db_valid_def)
  have "represents (snd (save_event ev st)) es \<or> (\<exists>es'. save_spec ev es = Inr es' \<and> represents (snd (save_event ev st)) es')"
  proof (cases "is_ephemeral (ev_kind ev)")
    case False
    then show ?thesis using save_event_refines [OF R False] R by (auto split: sum.splits)
  qed (use R in simp)
  moreover have "set es' \<subseteq> insert ev (set es)" if "save_spec ev es = Inr es'" for es'
    using that by (auto simp: save_spec_def kept_def Let_def split: if_splits)
  ultimately show "db_valid (snd (save_event ev st))"
    and "db_stored env (snd (save_event ev st)) \<subseteq> insert ev (db_stored env st)"
    using db_stored_eq [OF R] by (auto simp: db_valid_def db_stored_eq)
qed

section \<open>Properties\<close>

text \<open>C6: Which revisions survive depends only on what was submitted: after any sequence of saves of
  events with distinct ids, the store returns exactly the non-ephemeral events that no submitted
  revision of the same replaceable or addressable address beats (newer, or as old with the
  smaller id), newest first, whatever the order and repetitions of the saves.\<close>

theorem stored_revisions_converge:
  assumes "inj_on ev_id (set evs)"
  shows "\<exists>es. query_events env [empty_filter] (save_all evs empty_db) = Inr es \<and>
    set es = {e. winner (set evs) e} \<and> sorted_wrt newer es"
proof -
  have "set [] = {e. winner {} e}" by (simp add: winner_def)
  from save_all_winners [OF represents_empty this finite.emptyI] assms obtain es' where
    R: "represents (save_all evs empty_db) es'" and es': "set es' = {e. winner (set evs) e}"
    by auto
  have f: "sql_matches empty_filter = (\<lambda>e. True)" "\<not> has_search empty_filter" "f_limit empty_filter = None"
    by (auto simp: fun_eq_iff sql_matches_def struct_clauses_def empty_filter_def has_search_def ptr_str_def)
  have d: "distinct es'" "inj_on ev_id (set es')"
    using R by (auto simp: represents_def distinct_map)
  have "query_events env [empty_filter] (save_all evs empty_db) = Inr (sort_key event_order es')"
    by (simp add: query_one [OF R] select_spec_def f filter_sql_limit_def sql_limit_def)
  moreover have "sorted_wrt newer (sort_key event_order es')"
    by (rule strictly_sorted_key [OF d(1) event_order_inj_on [OF d(2)]])
  ultimately show ?thesis using es' by auto
qed

definition sample_event :: "string \<Rightarrow> int \<Rightarrow> int \<Rightarrow> string list list \<Rightarrow> event" where
  "sample_event i at kind tags = \<lparr>ev_id = i, ev_pubkey = ''pk'', ev_created_at = at, ev_kind = kind,
     ev_tags = tags, ev_content = [], ev_sig = []\<rparr>"

definition plain_env :: sql_env where
  "plain_env = \<lparr>sx_json_parse = (\<lambda>_. Inl ''json: unexpected end of input''), sx_fts_rank = (\<lambda>_ _ _. None)\<rparr>"

theorem stored_revisions_converge_witness:
  "\<exists>es. query_events plain_env [empty_filter]
      (save_all [sample_event ''b'' 5 0 [], sample_event ''a'' 5 0 [], sample_event ''c'' 4 0 []] empty_db) = Inr es \<and>
    set es = {e. winner (set [sample_event ''b'' 5 0 [], sample_event ''a'' 5 0 [], sample_event ''c'' 4 0 []]) e} \<and>
    sorted_wrt newer es"
  by (rule stored_revisions_converge) (simp add: sample_event_def)

text \<open>C27: Saving keeps NIP-01's rules on the tables: an ephemeral event is refused; a replaceable or
  addressable event replaces exactly the older revisions of its address and is refused as stale,
  with the tables unchanged, when a revision at least as good is stored; a stored id is refused;
  otherwise the event is added, its id is announced, and the tables keep representing a list of
  events with distinct ids.\<close>

theorem save_event_correct:
  assumes "represents db es"
  shows "save_event ev db =
      (if is_ephemeral (ev_kind ev) then (Some ''turso: ephemeral events are not stored'', db)
       else case save_spec ev es of
          Inl err \<Rightarrow> (Some err, db)
        | Inr _ \<Rightarrow> (None, snd (save_event ev db))) \<and>
    (\<forall>es'. save_spec ev es = Inr es' \<and> \<not> is_ephemeral (ev_kind ev) \<longrightarrow>
       represents (snd (save_event ev db)) es' \<and>
       db_notified (snd (save_event ev db)) = db_notified db @ [ev_id ev])"
proof (cases "is_ephemeral (ev_kind ev)")
  case False
  then show ?thesis
    using save_event_refines [OF assms False] by (auto split: sum.splits)
qed simp

theorem save_event_correct_witness:
  "save_event (sample_event ''b'' 5 0 []) (snd (save_event (sample_event ''a'' 5 0 []) empty_db)) =
   (Some err_stale_replaceable, snd (save_event (sample_event ''a'' 5 0 []) empty_db))"
proof -
  have "represents (snd (save_event (sample_event ''a'' 5 0 []) empty_db)) [sample_event ''a'' 5 0 []]"
    using save_event_refines [OF represents_empty, of "sample_event ''a'' 5 0 []"]
    by (auto simp: save_spec_def kept_def sample_event_def go_defs)
  from save_event_correct [OF this, of "sample_event ''b'' 5 0 []"] show ?thesis
    by (simp add: save_spec_def kept_def sample_event_def go_defs revisions_def event_order_def)
qed

text \<open>C28: A query returns exactly the stored events that some filter without search text selects,
  each once and strictly newest first; a filter with a positive limit selects a match when fewer
  than that many of its matches are newer.\<close>

theorem query_events_exact:
  assumes "represents db es"
  shows "\<exists>out. query_events env fs db = Inr out \<and> sorted_wrt newer out \<and>
    (\<forall>e. e \<in> set out \<longleftrightarrow> e \<in> set es \<and>
      (\<exists>f \<in> set fs. \<not> has_search f \<and> sql_matches f e \<and> within_limit f (set es) e))"
proof -
  have d: "distinct es" "inj_on ev_id (set es)"
    using assms by (auto simp: represents_def distinct_map)
  have "sorted_wrt newer (query_spec fs es)"
    unfolding query_spec_def
    by (rule strictly_sorted_key) (use d in \<open>auto intro!: event_order_inj_on inj_on_subset [OF d(2)]\<close>)
  then show ?thesis
    using select_spec_mem [OF d] by (auto simp: query_events_refines [OF assms] query_spec_def)
qed

theorem query_events_exact_witness:
  "\<exists>out. query_events plain_env [empty_filter\<lparr>f_limit := Some 1\<rparr>]
      \<lparr>db_events = [event_to_row (sample_event ''a'' 5 1 [])], db_tags = [], db_notified = []\<rparr> = Inr out \<and>
    sorted_wrt newer out \<and>
    (\<forall>e. e \<in> set out \<longleftrightarrow> e \<in> set [sample_event ''a'' 5 1 []] \<and>
      (\<exists>f \<in> set [empty_filter\<lparr>f_limit := Some 1\<rparr>]. \<not> has_search f \<and> sql_matches f e \<and>
        within_limit f (set [sample_event ''a'' 5 1 []]) e))"
  by (rule query_events_exact) (simp add: represents_def tag_rows_def sample_event_def)

text \<open>C31: Stored and live events are selected alike: on a filter without search text whose tag keys
  are single letters and whose wanted tag values are nonempty, the SQL clauses accept a stored
  event exactly when subscription matching accepts it.\<close>

theorem stored_matching_agrees_with_live:
  assumes "plain_tags f" and "\<not> has_search f" and "represents db es" and "e \<in> set es"
  shows "apply_filter_query f (db_tags db) (event_to_row e) = filter_matches f e"
  using apply_filter_query_event [OF assms(3,4)] sql_matches_live [OF assms(1,2)] by simp

theorem stored_matching_agrees_with_live_witness:
  "apply_filter_query (empty_filter\<lparr>f_tag := [(''#e'', [''x''])]\<rparr>)
     (tag_rows (sample_event ''a'' 5 1 [[''e'', ''x'']])) (event_to_row (sample_event ''a'' 5 1 [[''e'', ''x'']])) =
   filter_matches (empty_filter\<lparr>f_tag := [(''#e'', [''x''])]\<rparr>) (sample_event ''a'' 5 1 [[''e'', ''x'']])"
proof -
  let ?e = "sample_event ''a'' 5 1 [[''e'', ''x'']]"
  have "represents \<lparr>db_events = [event_to_row ?e], db_tags = tag_rows ?e, db_notified = []\<rparr> [?e]"
    by (simp add: represents_def)
  from stored_matching_agrees_with_live [OF _ _ this, of "empty_filter\<lparr>f_tag := [(''#e'', [''x''])]\<rparr>" ?e]
  show ?thesis
    by (simp add: plain_tags_def is_tag_key_def is_letter_def has_search_def ptr_str_def empty_filter_def byte_def)
qed

text \<open>C37: With an empty wanted tag value the two disagree: when a filter accepts the empty string for
  a tag name, a stored event that has that tag without a value, and no such tag with a wanted
  value, is selected from the store whenever it meets the filter's other conditions, because the
  value column defaults to the empty string; live matching never accepts it, as it ignores tags
  without a value.\<close>

theorem bare_tag_matches_stored_only:
  assumes "represents db es" and "e \<in> set es" and "\<not> has_search f" and "f_tag f = pre @ (key, vals) # post"
    and "is_tag_key key" and "[] \<in> set vals" and "plain_tags (f\<lparr>f_tag := pre @ post\<rparr>)"
    and "[drop 1 key] \<in> set (ev_tags e)" and "set vals \<inter> tag_value (drop 1 key) (ev_tags e) = {}"
  shows "apply_filter_query f (db_tags db) (event_to_row e) = filter_matches (f\<lparr>f_tag := pre @ post\<rparr>) e \<and>
    \<not> filter_matches f e"
proof -
  let ?f = "f\<lparr>f_tag := pre @ post\<rparr>"
  have "tag_name [drop 1 key] = drop 1 key" "tag_val [drop 1 key] = []" by (simp_all add: tag_name_def tag_val_def)
  then have bare: "\<exists>t \<in> set (ev_tags e). tag_name t = drop 1 key \<and> tag_val t \<in> set vals" using assms(6,8) by metis
  have "struct_clauses f (event_to_row e) = struct_clauses ?f (event_to_row e)" by (simp add: struct_clauses_def)
  then have "sql_matches f e = sql_matches ?f e" using bare by (auto simp: sql_matches_def assms(4))
  moreover have "has_search ?f = has_search f" by (simp add: has_search_def)
  ultimately have "apply_filter_query f (db_tags db) (event_to_row e) = filter_matches ?f e"
    using apply_filter_query_event [OF assms(1,2)] sql_matches_live [OF assms(7)] assms(3) by simp
  moreover have "\<not> filter_matches f e"
    using assms(9) tag_key_prefix [OF assms(5)] by (auto simp: filter_matches_spec filter_spec_def assms(4))
  ultimately show ?thesis by blast
qed

theorem bare_tag_matches_stored_only_witness:
  "apply_filter_query (empty_filter\<lparr>f_kinds := [1], f_tag := [(''#e'', [[]])]\<rparr>)
     (tag_rows (sample_event ''a'' 5 1 [[''e'']])) (event_to_row (sample_event ''a'' 5 1 [[''e'']])) \<and>
   \<not> filter_matches (empty_filter\<lparr>f_kinds := [1], f_tag := [(''#e'', [[]])]\<rparr>) (sample_event ''a'' 5 1 [[''e'']])"
proof -
  let ?e = "sample_event ''a'' 5 1 [[''e'']]" and ?f = "empty_filter\<lparr>f_kinds := [1], f_tag := [(''#e'', [[]])]\<rparr>"
  let ?db = "\<lparr>db_events = [event_to_row ?e], db_tags = tag_rows ?e, db_notified = []\<rparr>"
  have "represents ?db [?e]" by (simp add: represents_def)
  moreover have "filter_matches (?f\<lparr>f_tag := [] @ []\<rparr>) ?e" by code_simp
  moreover have "\<not> has_search ?f" "f_tag ?f = [] @ (''#e'', [[]]) # []" "is_tag_key ''#e''"
    "[drop 1 ''#e''] \<in> set (ev_tags ?e)" "set [[]] \<inter> tag_value (drop 1 ''#e'') (ev_tags ?e) = {}"
    "plain_tags (?f\<lparr>f_tag := [] @ []\<rparr>)"
    by (simp_all add: empty_filter_def has_search_def ptr_str_def is_tag_key_def is_letter_def byte_def sample_event_def
        tag_value_def plain_tags_def)
  ultimately show ?thesis
    using bare_tag_matches_stored_only [of ?db "[?e]" ?e ?f "[]" "''#e''" "[[]]" "[]"] by simp
qed

text \<open>Group membership is decided by the newest relay-signed put-user or remove-user event that
  names the group and the member: the member is in the group exactly when that event is a put.\<close>

theorem group_membership_latest:
  assumes "represents db es"
  shows "is_group_member rk g m db \<longleftrightarrow>
    (\<exists>e \<in> set es. membership_event rk g m e \<and> ev_kind e = NIP29KindPutUser \<and>
       (\<forall>e' \<in> set es. membership_event rk g m e' \<longrightarrow> event_order e \<le> event_order e'))"
  unfolding is_group_member_iff [OF assms] NIP29KindPutUser_def ..

theorem group_membership_latest_witness:
  "is_group_member ''pk'' ''g'' ''m''
     \<lparr>db_events = [event_to_row (sample_event ''a'' 5 9000 [[''h'', ''g''], [''p'', ''m'']])],
      db_tags = tag_rows (sample_event ''a'' 5 9000 [[''h'', ''g''], [''p'', ''m'']]), db_notified = []\<rparr>"
proof -
  let ?e = "sample_event ''a'' 5 9000 [[''h'', ''g''], [''p'', ''m'']]"
  have "represents \<lparr>db_events = [event_to_row ?e], db_tags = tag_rows ?e, db_notified = []\<rparr> [?e]"
    by (simp add: represents_def)
  from group_membership_latest [OF this, of "''pk''" "''g''" "''m''"] show ?thesis
    by (simp add: membership_event_def sample_event_def tag_name_def tag_val_def NIP29KindPutUser_def)
qed

text \<open>Counting counts each stored event once, however many filters it matches; filters with only a
  search text and the cursor of a filter are ignored.\<close>

theorem count_events_exact:
  assumes "represents db es" and "fs \<noteq> []"
  shows "count_events fs db =
    card {e \<in> set es. \<exists>f \<in> set fs. \<not> has_search f \<and> sql_matches (f\<lparr>f_cursor := None\<rparr>) e}"
  by (rule count_events_card [OF assms])

theorem count_events_exact_witness:
  "count_events [empty_filter, empty_filter]
      \<lparr>db_events = [event_to_row (sample_event ''a'' 5 1 [])], db_tags = [], db_notified = []\<rparr> =
    card {e \<in> set [sample_event ''a'' 5 1 []].
      \<exists>f \<in> set [empty_filter, empty_filter]. \<not> has_search f \<and> sql_matches (f\<lparr>f_cursor := None\<rparr>) e}"
  by (rule count_events_exact) (simp_all add: represents_def tag_rows_def sample_event_def)

end
