(* ===== verification/Req_Query.thy ===== *)
theory Req_Query
  imports Event_Store
begin

text \<open>
  The initial snapshot of a REQ: \<open>internal/relay/req_query.go\<close> (default limits, one cursor per
  filter, pages, merging) over any store that keeps the law of \<open>paged_store\<close>.

  \<open>seen\<close> is the set of ids already delivered, kept as a list. The pages of a query are one
  \<open>fetch_req_page\<close> after the other; \<open>run_pages\<close> gives each of them the store state it
  happens to read, \<open>drain_pages\<close> is the loop that fetches until no page is left, with fuel.
\<close>

section \<open>State of a query\<close>

definition apply_default_query_limit :: "filter list \<Rightarrow> int \<Rightarrow> filter list" where
  "apply_default_query_limit filters default_limit =
     (if default_limit \<le> 0 then filters
      else if \<not> list_ex (\<lambda>f. f_limit f = None) filters then filters
      else map (\<lambda>f. if f_limit f = None then f\<lparr>f_limit := Some default_limit\<rparr> else f) filters)"

record filter_cursor =
  fc_base :: "filter"
  fc_cursor :: "query_cursor option"
  fc_remaining :: int
  fc_exhausted :: bool

record req_query_state =
  rq_non_search :: "filter_cursor list"
  rq_search :: "filter list"
  rq_seen :: "string list"
  rq_search_done :: bool

definition new_filter_cursor :: "filter \<Rightarrow> filter_cursor" where
  "new_filter_cursor f =
     (let remaining = (case f_limit f of Some l \<Rightarrow> if l > 0 then l else 0 | None \<Rightarrow> 0)
      in \<lparr>fc_base = f, fc_cursor = None, fc_remaining = remaining, fc_exhausted = False\<rparr>)"

definition new_req_query_state :: "filter list \<Rightarrow> int \<Rightarrow> bool \<Rightarrow> req_query_state" where
  "new_req_query_state filters default_query_limit search_enabled =
     (let filters = apply_default_query_limit filters default_query_limit in
      \<lparr>rq_non_search = map new_filter_cursor (List.filter (\<lambda>f. \<not> has_search f) filters),
       rq_search = (if search_enabled then List.filter has_search filters else []),
       rq_seen = [], rq_search_done = False\<rparr>)"

section \<open>Merging a page\<close>

fun merge_search_order :: "(string, event) go_map \<Rightarrow> string list \<Rightarrow> string list \<Rightarrow> event list \<times> string list" where
  "merge_search_order page [] seen = ([], seen)"
| "merge_search_order page (i # order) seen =
     (if i \<in> set seen then merge_search_order page order seen
      else case map_of page i of
             Some ev \<Rightarrow> (let (out, seen') = merge_search_order page order (i # seen) in (ev # out, seen'))
           | None \<Rightarrow> merge_search_order page order seen)"

definition merge_page_events :: "(string, event) go_map \<Rightarrow> string list \<Rightarrow> string list \<Rightarrow> event list \<times> string list" where
  "merge_page_events page search_order seen =
     (let (out, seen) = merge_search_order page search_order seen;
          ids = List.filter (\<lambda>i. i \<notin> set seen) (map fst page);
          ids = sort_key (\<lambda>i. event_order (the (map_of page i))) ids
      in (out @ map (\<lambda>i. the (map_of page i)) ids, ids @ seen))"

definition add_events :: "event list \<Rightarrow> (string, event) go_map \<Rightarrow> (string, event) go_map" where
  "add_events evs page = fold (\<lambda>ev m. AList.update (ev_id ev) ev m) evs page"

section \<open>Pages\<close>

fun run_search_filters :: "'st store_ops \<Rightarrow> 'st \<Rightarrow> filter list \<Rightarrow> (string, event) go_map \<Rightarrow> string list \<Rightarrow>
    ((string, event) go_map \<times> string list) result" where
  "run_search_filters ops st [] page order = Inr (page, order)"
| "run_search_filters ops st (f # fs) page order =
     (case so_search ops (search_text f) (without_search f) st of
        Inl err \<Rightarrow> Inl err
      | Inr evs \<Rightarrow> run_search_filters ops st fs (add_events evs page) (order @ map ev_id evs))"

definition page_filter :: "'st store_ops \<Rightarrow> 'st \<Rightarrow> int \<Rightarrow> filter_cursor \<Rightarrow> (event list \<times> filter_cursor) result" where
  "page_filter ops st page_size fc =
     (let lim = (if fc_remaining fc > 0 \<and> fc_remaining fc < page_size then fc_remaining fc else page_size);
          query_f = (fc_base fc)\<lparr>f_limit := Some lim, f_cursor := fc_cursor fc\<rparr>
      in case so_query ops [query_f] st of
           Inl err \<Rightarrow> Inl err
         | Inr evs \<Rightarrow>
             let fc = (if length evs > 0
                       then fc\<lparr>fc_cursor := Some \<lparr>qc_created_at = ev_created_at (evs ! (length evs - 1)),
                                                   qc_id = ev_id (evs ! (length evs - 1))\<rparr>\<rparr>
                       else fc);
                 fc = (if fc_remaining fc > 0
                       then (let r = fc_remaining fc - int (length evs) in
                             fc\<lparr>fc_remaining := r, fc_exhausted := (if r \<le> 0 then True else fc_exhausted fc)\<rparr>)
                       else fc);
                 fc = (if int (length evs) < lim then fc\<lparr>fc_exhausted := True\<rparr> else fc)
             in Inr (evs, fc))"

fun page_filters :: "'st store_ops \<Rightarrow> 'st \<Rightarrow> int \<Rightarrow> filter_cursor list \<Rightarrow> (string, event) go_map \<Rightarrow>
    (filter_cursor list \<times> (string, event) go_map) result" where
  "page_filters ops st page_size [] page = Inr ([], page)"
| "page_filters ops st page_size (fc # fcs) page =
     (if fc_exhausted fc
      then (case page_filters ops st page_size fcs page of
              Inl err \<Rightarrow> Inl err
            | Inr (fcs', page') \<Rightarrow> Inr (fc # fcs', page'))
      else case page_filter ops st page_size fc of
             Inl err \<Rightarrow> Inl err
           | Inr (evs, fc') \<Rightarrow>
               (case page_filters ops st page_size fcs (add_events evs page) of
                  Inl err \<Rightarrow> Inl err
                | Inr (fcs', page') \<Rightarrow> Inr (fc' # fcs', page')))"

fun full_filters :: "'st store_ops \<Rightarrow> 'st \<Rightarrow> filter_cursor list \<Rightarrow> (string, event) go_map \<Rightarrow>
    (string, event) go_map result" where
  "full_filters ops st [] page = Inr page"
| "full_filters ops st (fc # fcs) page =
     (case so_query ops [fc_base fc] st of
        Inl err \<Rightarrow> Inl err
      | Inr evs \<Rightarrow> full_filters ops st fcs (add_events evs page))"

definition fetch_req_all :: "'st store_ops \<Rightarrow> 'st \<Rightarrow> req_query_state \<Rightarrow>
    ((event list \<times> bool) \<times> req_query_state) result" where
  "fetch_req_all ops st q =
     (case run_search_filters ops st (rq_search q) [] [] of
        Inl err \<Rightarrow> Inl err
      | Inr (page, order) \<Rightarrow>
     (case full_filters ops st (rq_non_search q) page of
        Inl err \<Rightarrow> Inl err
      | Inr page \<Rightarrow>
          let (out, seen) = merge_page_events page order (rq_seen q)
          in Inr ((out, False),
               q\<lparr>rq_search_done := True, rq_seen := seen,
                 rq_non_search := map (\<lambda>fc. fc\<lparr>fc_exhausted := True\<rparr>) (rq_non_search q)\<rparr>)))"

definition fetch_req_page :: "'st store_ops \<Rightarrow> 'st \<Rightarrow> req_query_state \<Rightarrow> int \<Rightarrow>
    ((event list \<times> bool) \<times> req_query_state) result" where
  "fetch_req_page ops st q page_size =
     (if page_size \<le> 0 then fetch_req_all ops st q
      else if length (rq_non_search q) = 0 \<and> length (rq_search q) = 0 then Inr (([], False), q)
      else
        (case (if rq_search_done q then Inr ([], [])
               else run_search_filters ops st (rq_search q) [] []) of
           Inl err \<Rightarrow> Inl err
         | Inr (page, order) \<Rightarrow>
        (case page_filters ops st page_size (rq_non_search q) page of
           Inl err \<Rightarrow> Inl err
         | Inr (fcs, page) \<Rightarrow>
             let has_more = list_ex (\<lambda>fc. \<not> fc_exhausted fc) fcs;
                 (out, seen) = merge_page_events page order (rq_seen q)
             in Inr ((out, has_more), q\<lparr>rq_search_done := True, rq_non_search := fcs, rq_seen := seen\<rparr>))))"

definition query_initial_req_events :: "'st store_ops \<Rightarrow> 'st \<Rightarrow> filter list \<Rightarrow> bool \<Rightarrow> int \<Rightarrow> event list result" where
  "query_initial_req_events ops st filters search_enabled default_query_limit =
     (case fetch_req_page ops st (new_req_query_state filters default_query_limit search_enabled) 0 of
        Inl err \<Rightarrow> Inl err
      | Inr ((evs, _), _) \<Rightarrow> Inr evs)"

section \<open>Sequences of pages\<close>

fun run_pages :: "'st store_ops \<Rightarrow> int \<Rightarrow> 'st list \<Rightarrow> req_query_state \<Rightarrow> event list list result" where
  "run_pages ops page_size [] q = Inr []"
| "run_pages ops page_size (st # sts) q =
     (case fetch_req_page ops st q page_size of
        Inl err \<Rightarrow> Inl err
      | Inr ((evs, has_more), q') \<Rightarrow>
          if \<not> has_more then Inr [evs]
          else (case run_pages ops page_size sts q' of
                  Inl err \<Rightarrow> Inl err
                | Inr pages \<Rightarrow> Inr (evs # pages)))"

fun drain_pages :: "nat \<Rightarrow> 'st store_ops \<Rightarrow> 'st \<Rightarrow> int \<Rightarrow> req_query_state \<Rightarrow> event list list result option" where
  "drain_pages 0 ops st page_size q = None"
| "drain_pages (Suc n) ops st page_size q =
     (case fetch_req_page ops st q page_size of
        Inl err \<Rightarrow> Some (Inl err)
      | Inr ((evs, has_more), q') \<Rightarrow>
          if \<not> has_more then Some (Inr [evs])
          else (case drain_pages n ops st page_size q' of
                  None \<Rightarrow> None
                | Some (Inl err) \<Rightarrow> Some (Inl err)
                | Some (Inr pages) \<Rightarrow> Some (Inr (evs # pages))))"

section \<open>A page names each event once\<close>

definition page_ok :: "(string, event) go_map \<Rightarrow> bool" where
  "page_ok page \<longleftrightarrow> distinct (map fst page) \<and> (\<forall>i ev. map_of page i = Some ev \<longrightarrow> ev_id ev = i)"

lemma page_ok_Nil [simp]: "page_ok []"
  by (simp add: page_ok_def)

lemma page_ok_update: "page_ok page \<Longrightarrow> page_ok (AList.update (ev_id ev) ev page)"
  by (simp add: page_ok_def AList.distinct_update)

lemma page_ok_add: "page_ok page \<Longrightarrow> page_ok (add_events evs page)"
  unfolding add_events_def by (induction evs arbitrary: page) (simp_all add: page_ok_update)

lemma page_ok_lookup: "page_ok page \<Longrightarrow> map_of page i = Some ev \<Longrightarrow> ev_id ev = i"
  by (simp add: page_ok_def)

lemma page_ok_search:
  "run_search_filters ops st fs page order = Inr (page', order') \<Longrightarrow> page_ok page \<Longrightarrow> page_ok page'"
  by (induction fs arbitrary: page order) (auto simp: page_ok_add split: sum.splits)

lemma page_ok_filters:
  "page_filters ops st ps fcs page = Inr (fcs', page') \<Longrightarrow> page_ok page \<Longrightarrow> page_ok page'"
  by (induction fcs arbitrary: page fcs')
    (auto simp: page_ok_add split: sum.splits if_splits prod.splits)

lemma page_ok_full:
  "full_filters ops st fcs page = Inr page' \<Longrightarrow> page_ok page \<Longrightarrow> page_ok page'"
  by (induction fcs arbitrary: page) (auto simp: page_ok_add split: sum.splits)

lemma merge_search_order_ids:
  assumes "page_ok page"
  shows "merge_search_order page order seen = (out, seen') \<Longrightarrow>
    distinct (map ev_id out) \<and> set (map ev_id out) \<inter> set seen = {} \<and>
    set seen' = set seen \<union> set (map ev_id out) \<and> (\<forall>ev \<in> set out. map_of page (ev_id ev) = Some ev)"
proof (induction order arbitrary: seen out seen')
  case (Cons i order)
  show ?case
  proof (cases "i \<in> set seen \<or> map_of page i = None")
    case True
    then show ?thesis using Cons by (auto split: option.splits)
  next
    case False
    then obtain ev where ev: "map_of page i = Some ev" "ev_id ev = i"
      using page_ok_lookup [OF assms] by auto
    with Cons.prems False obtain out' where
      "merge_search_order page order (i # seen) = (out', seen')" "out = ev # out'"
      by (auto simp: Let_def split: prod.splits)
    from Cons.IH [OF this(1)] show ?thesis using ev False \<open>out = ev # out'\<close> by auto
  qed
qed auto

lemma merge_page_events_ids:
  assumes ok: "page_ok page" and m: "merge_page_events page order seen = (out, seen')"
  shows "distinct (map ev_id out)" "set (map ev_id out) \<inter> set seen = {}"
    "set seen' = set seen \<union> set (map ev_id out)"
    "set out = {ev. map_of page (ev_id ev) = Some ev \<and> ev_id ev \<notin> set seen}"
proof -
  obtain out1 seen1 where 1: "merge_search_order page order seen = (out1, seen1)" by fastforce
  note S = merge_search_order_ids [OF ok 1]
  let ?ids = "sort_key (\<lambda>i. event_order (the (map_of page i))) (List.filter (\<lambda>i. i \<notin> set seen1) (map fst page))"
  let ?rest = "map (\<lambda>i. the (map_of page i)) ?ids"
  have out: "out = out1 @ ?rest" "seen' = ?ids @ seen1"
    using m by (simp_all add: merge_page_events_def 1 Let_def)
  have "map ev_id ?rest = ?ids"
  proof -
    have "ev_id (the (map_of page i)) = i" if "i \<in> set (map fst page)" for i
    proof -
      obtain ev where "map_of page i = Some ev"
        using \<open>i \<in> set (map fst page)\<close> map_of_eq_None_iff [of page i] by auto
      then show ?thesis using page_ok_lookup [OF ok] by auto
    qed
    then show ?thesis by (auto intro!: map_idI simp: o_def)
  qed
  moreover have "distinct ?ids" using ok by (simp add: page_ok_def)
  ultimately show "distinct (map ev_id out)" "set (map ev_id out) \<inter> set seen = {}"
    "set seen' = set seen \<union> set (map ev_id out)"
    using S unfolding out by auto
  show "set out = {ev. map_of page (ev_id ev) = Some ev \<and> ev_id ev \<notin> set seen}"
  proof (intro equalityI subsetI)
    fix ev assume "ev \<in> set out"
    then consider "ev \<in> set out1" | "ev \<in> set ?rest" by (auto simp: out)
    then show "ev \<in> {ev. map_of page (ev_id ev) = Some ev \<and> ev_id ev \<notin> set seen}"
    proof cases
      case 2
      then obtain i where i: "i \<in> fst ` set page" "i \<notin> set seen1" "ev = the (map_of page i)" by auto
      then obtain ev' where "map_of page i = Some ev'"
        using map_of_eq_None_iff [of page i] by auto
      then show ?thesis using i page_ok_lookup [OF ok] S by auto
    qed (use S in auto)
  next
    fix ev assume a: "ev \<in> {ev. map_of page (ev_id ev) = Some ev \<and> ev_id ev \<notin> set seen}"
    show "ev \<in> set out"
    proof (cases "ev_id ev \<in> set seen1")
      case True
      have "set seen1 = set seen \<union> set (map ev_id out1)" using S by blast
      with True a have "ev_id ev \<in> ev_id ` set out1" by simp
      then obtain ev' where ev': "ev' \<in> set out1" "ev_id ev = ev_id ev'" by blast
      then have "map_of page (ev_id ev) = Some ev'" using S by simp
      then show ?thesis using a out ev' by simp
    next
      case False
      then have "ev_id ev \<in> set ?ids" using a by (force dest: map_of_SomeD)
      then have "the (map_of page (ev_id ev)) \<in> set ?rest" by auto
      then show ?thesis using a out by simp
    qed
  qed
qed

lemma fetch_req_page_ids:
  assumes "fetch_req_page ops st q ps = Inr ((evs, hm), q')"
  shows "distinct (map ev_id evs) \<and> set (map ev_id evs) \<inter> set (rq_seen q) = {} \<and>
    set (rq_seen q') = set (rq_seen q) \<union> set (map ev_id evs)"
proof -
  have merged: ?thesis
    if m: "merge_page_events page order (rq_seen q) = (evs, rq_seen q')" and ok: "page_ok page" for page order
    using merge_page_events_ids(1-3) [OF ok m] by blast
  show ?thesis
  proof (cases "ps \<le> 0")
    case True
    obtain page order page' where "run_search_filters ops st (rq_search q) [] [] = Inr (page, order)"
      "full_filters ops st (rq_non_search q) page = Inr page'"
      "merge_page_events page' order (rq_seen q) = (evs, rq_seen q')"
      using assms True by (auto simp: fetch_req_page_def fetch_req_all_def Let_def split: sum.splits prod.splits)
    then show ?thesis using merged page_ok_search page_ok_full page_ok_Nil by metis
  next
    case False
    show ?thesis
    proof (cases "length (rq_non_search q) = 0 \<and> length (rq_search q) = 0")
      case True
      then show ?thesis using assms False by (simp add: fetch_req_page_def)
    next
      case nonempty: False
      obtain page order fcs page' where
        s: "(if rq_search_done q then Inr ([], []) else run_search_filters ops st (rq_search q) [] []) = Inr (page, order)"
        and "page_filters ops st ps (rq_non_search q) page = Inr (fcs, page')"
        "merge_page_events page' order (rq_seen q) = (evs, rq_seen q')"
        using assms False nonempty
        by (auto simp: fetch_req_page_def Let_def split: sum.splits prod.splits simp del: if_split)
      moreover have "page_ok page"
        using s page_ok_search [of ops st "rq_search q" "[]" "[]"] by (auto split: if_splits)
      ultimately show ?thesis using merged page_ok_filters by metis
    qed
  qed
qed

lemma run_pages_ids:
  "run_pages ops ps sts q = Inr pages \<Longrightarrow>
   distinct (map ev_id (concat pages)) \<and> set (map ev_id (concat pages)) \<inter> set (rq_seen q) = {}"
proof (induction sts arbitrary: q pages)
  case (Cons st sts)
  obtain evs hm q' where page: "fetch_req_page ops st q ps = Inr ((evs, hm), q')"
    using Cons.prems by (auto split: sum.splits)
  note ids = fetch_req_page_ids [OF page]
  show ?case
  proof (cases hm)
    case False
    then have "pages = [evs]" using Cons.prems page by simp
    then show ?thesis using ids by simp
  next
    case True
    then obtain rest where rest: "run_pages ops ps sts q' = Inr rest" "pages = evs # rest"
      using Cons.prems page by (auto split: sum.splits)
    have "set (map ev_id evs) \<subseteq> set (rq_seen q')" "set (rq_seen q) \<subseteq> set (rq_seen q')"
      using ids by auto
    with Cons.IH [OF rest(1)] ids show ?thesis by (auto simp: rest(2))
  qed
qed simp

lemma merge_page_events_sorted:
  assumes "page_ok page" "merge_page_events page [] seen = (out, seen')"
  shows "sorted (map event_order out)"
proof -
  have "out = map (\<lambda>i. the (map_of page i))
      (sort_key (\<lambda>i. event_order (the (map_of page i))) (List.filter (\<lambda>i. i \<notin> set seen) (map fst page)))"
    using assms(2) by (simp add: merge_page_events_def Let_def)
  then have "map event_order out = map (\<lambda>i. event_order (the (map_of page i)))
      (sort_key (\<lambda>i. event_order (the (map_of page i))) (List.filter (\<lambda>i. i \<notin> set seen) (map fst page)))"
    by simp
  then show ?thesis by (simp only: sorted_sort_key)
qed

section \<open>Pages of an unchanged store\<close>

definition page_events :: "(string, event) go_map \<Rightarrow> event set" where
  "page_events page = {ev. map_of page (ev_id ev) = Some ev}"

lemma page_events_add:
  assumes "inj_on ev_id (page_events page \<union> set evs)"
  shows "page_events (add_events evs page) = page_events page \<union> set evs"
  using assms
proof (induction evs arbitrary: page)
  case (Cons ev evs)
  let ?page = "AList.update (ev_id ev) ev page"
  have "page_events ?page = insert ev (page_events page)"
    using Cons.prems by (auto simp: page_events_def inj_on_def)
  moreover from this Cons.prems have "inj_on ev_id (page_events ?page \<union> set evs)" by simp
  ultimately show ?case using Cons.IH [of ?page] by (simp add: add_events_def)
qed (simp add: add_events_def)

lemma take_drop_split: "k < length xs \<Longrightarrow> xs = take k xs @ xs ! k # drop (Suc k) xs"
  by (rule id_take_nth_drop)

definition filter_goal :: "(filter \<Rightarrow> event list) \<Rightarrow> filter \<Rightarrow> event list" where
  "filter_goal m f = (case f_limit f of
      None \<Rightarrow> m f
    | Some l \<Rightarrow> if 0 < l then take (nat l) (m f) else m f)"

definition cursor_of :: "event list \<Rightarrow> nat \<Rightarrow> query_cursor option" where
  "cursor_of xs k = (if k = 0 then None
     else Some \<lparr>qc_created_at = ev_created_at (xs ! (k - 1)), qc_id = ev_id (xs ! (k - 1))\<rparr>)"

text \<open>A cursor that has delivered \<open>k\<close> events of its filter's result.\<close>

definition fc_at :: "(filter \<Rightarrow> event list) \<Rightarrow> filter_cursor \<Rightarrow> nat \<Rightarrow> bool" where
  "fc_at m fc k \<longleftrightarrow>
     (let g = filter_goal m (fc_base fc);
          limited = (\<exists>l. f_limit (fc_base fc) = Some l \<and> 0 < l);
          l = the (f_limit (fc_base fc))
      in \<not> has_search (fc_base fc) \<and> k \<le> length g \<and>
         fc_cursor fc = cursor_of g k \<and>
         fc_remaining fc = (if limited then l - int k else 0) \<and>
         (\<not> fc_exhausted fc \<longrightarrow> limited \<longrightarrow> int k < l) \<and>
         (fc_exhausted fc \<longrightarrow> k = length g))"

definition fc_left :: "(filter \<Rightarrow> event list) \<Rightarrow> filter_cursor \<Rightarrow> nat \<Rightarrow> nat" where
  "fc_left m fc k = (if fc_exhausted fc then 0 else Suc (length (filter_goal m (fc_base fc)) - k))"

lemma new_filter_cursor_at: "\<not> has_search f \<Longrightarrow> fc_at m (new_filter_cursor f) 0"
  by (auto simp: fc_at_def new_filter_cursor_def Let_def cursor_of_def split: option.splits)

lemma filter_goal_prefix: "\<exists>n. filter_goal m f = take n (m f)"
  by (auto simp: filter_goal_def intro: exI [of _ "length (m f)"] split: option.splits)

context paged_store
begin

lemma behind_cursor:
  assumes "valid st" "k \<le> length (filter_goal (\<lambda>f. matching f st) f)"
  shows "List.filter (behind (cursor_of (filter_goal (\<lambda>f. matching f st) f) k)) (matching f st) = drop k (matching f st)"
proof (cases k)
  case 0
  then show ?thesis by (simp add: cursor_of_def behind_def)
next
  case (Suc j)
  obtain n where n: "filter_goal (\<lambda>f. matching f st) f = take n (matching f st)"
    using filter_goal_prefix by metis
  have j: "j < length (matching f st)" "j < n"
    using assms(2) Suc by (auto simp: n)
  show ?thesis
    using behind_last [OF assms(1) take_drop_split [OF j(1)]] Suc j
    by (simp add: cursor_of_def n)
qed

lemma page_filter_step:
  assumes V: "valid st" and ops: "so_query ops = query" and ps: "0 < ps"
    and at: "fc_at (\<lambda>f. matching f st) fc k" and live: "\<not> fc_exhausted fc"
  shows "\<exists>evs fc'. page_filter ops st ps fc = Inr (evs, fc') \<and> fc_base fc' = fc_base fc \<and>
    fc_at (\<lambda>f. matching f st) fc' (k + length evs) \<and>
    evs = take (length evs) (drop k (filter_goal (\<lambda>f. matching f st) (fc_base fc))) \<and>
    fc_left (\<lambda>f. matching f st) fc' (k + length evs) < fc_left (\<lambda>f. matching f st) fc k"
proof -
  let ?M = "matching (fc_base fc) st" and ?G = "filter_goal (\<lambda>f. matching f st) (fc_base fc)"
  define limited where "limited \<longleftrightarrow> (\<exists>l. f_limit (fc_base fc) = Some l \<and> 0 < l)"
  define l where "l = the (f_limit (fc_base fc))"
  define lim where "lim = (if fc_remaining fc > 0 \<and> fc_remaining fc < ps then fc_remaining fc else ps)"
  have at': "\<not> has_search (fc_base fc)" "k \<le> length ?G" "fc_cursor fc = cursor_of ?G k"
    "fc_remaining fc = (if limited then l - int k else 0)" "limited \<Longrightarrow> int k < l"
    using at live unfolding fc_at_def Let_def limited_def l_def by blast+
  have lim: "0 < lim" "limited \<Longrightarrow> lim \<le> l - int k"
    using ps at'(4,5) by (auto simp: lim_def)
  define evs where "evs = take (nat lim) (drop k ?M)"
  have q: "so_query ops [(fc_base fc)\<lparr>f_limit := Some lim, f_cursor := fc_cursor fc\<rparr>] st = Inr evs"
    unfolding ops query_page [OF V at'(1) lim(1)] at'(3) behind_cursor [OF V at'(2)] evs_def ..
  have G: "?G = (if limited then take (nat l) ?M else ?M)"
    by (auto simp: filter_goal_def limited_def l_def split: option.splits)
  have evs: "evs = take (nat lim) (drop k ?G)"
    using lim by (auto simp: evs_def G drop_take min_def)
  have len: "length evs = min (nat lim) (length ?G - k)"
    by (simp add: evs)
  have lastG: "evs ! (length evs - 1) = ?G ! (k + length evs - 1)" if "evs \<noteq> []"
  proof -
    have "0 < length evs" using that by simp
    moreover have "length evs \<le> nat lim" "length evs \<le> length ?G - k" unfolding len by simp_all
    ultimately have "length evs - 1 < nat lim" "length evs - 1 < length ?G - k" "length evs > 0"
      by linarith+
    then show ?thesis unfolding evs by (simp add: algebra_simps)
  qed
  define fc1 where "fc1 = (if length evs > 0
      then fc\<lparr>fc_cursor := Some \<lparr>qc_created_at = ev_created_at (evs ! (length evs - 1)),
        qc_id = ev_id (evs ! (length evs - 1))\<rparr>\<rparr> else fc)"
  define fc2 where "fc2 = (if fc_remaining fc1 > 0
      then (let r = fc_remaining fc1 - int (length evs) in
        fc1\<lparr>fc_remaining := r, fc_exhausted := (if r \<le> 0 then True else fc_exhausted fc1)\<rparr>) else fc1)"
  define fc3 where "fc3 = (if int (length evs) < lim then fc2\<lparr>fc_exhausted := True\<rparr> else fc2)"
  have run: "page_filter ops st ps fc = Inr (evs, fc3)"
    using q by (simp add: page_filter_def Let_def fc1_def fc2_def fc3_def flip: lim_def)
  have c1: "fc_cursor fc1 = cursor_of ?G (k + length evs)"
    using at'(3) lastG by (auto simp: fc1_def cursor_of_def)
  have base: "fc_base fc3 = fc_base fc" "fc_cursor fc3 = fc_cursor fc1"
    by (auto simp: fc1_def fc2_def fc3_def Let_def)
  have rem1: "fc_remaining fc1 = (if limited then l - int k else 0)" "\<not> fc_exhausted fc1"
    using at'(4) live by (simp_all add: fc1_def)
  have rem: "fc_remaining fc3 = (if limited then l - int (k + length evs) else 0)"
    using rem1 at'(5) by (auto simp: fc3_def fc2_def Let_def)
  have exh: "fc_exhausted fc3 \<longleftrightarrow> int (length evs) < lim \<or> (limited \<and> l \<le> int (k + length evs))"
    using rem1 at'(5) by (auto simp: fc3_def fc2_def Let_def)
  have full: "k + length evs = length ?G" if "int (length evs) < lim \<or> (limited \<and> l \<le> int (k + length evs))"
  proof -
    have "length ?G \<le> nat l" if limited using that by (simp add: G)
    then show ?thesis using that len at'(2) lim by (auto simp: min_def split: if_splits)
  qed
  have "k + length evs \<le> length ?G" using len at'(2) by simp
  then have "fc_at (\<lambda>f. matching f st) fc3 (k + length evs)"
    unfolding fc_at_def Let_def base limited_def [symmetric] l_def [symmetric]
    using at'(1) c1 rem exh full by auto
  moreover have "fc_left (\<lambda>f. matching f st) fc3 (k + length evs) < fc_left (\<lambda>f. matching f st) fc k"
  proof (cases "fc_exhausted fc3")
    case False
    then have "0 < length evs" using exh lim(1) by linarith
    with \<open>k + length evs \<le> length ?G\<close> have "length ?G - (k + length evs) < length ?G - k" by linarith
    then show ?thesis using False live by (simp add: fc_left_def base(1))
  qed (use live in \<open>simp add: fc_left_def\<close>)
  moreover have "evs = take (length evs) (drop k ?G)"
  proof -
    have "take (length evs) (drop k ?G) = take (nat lim) (drop k ?G)"
      unfolding len by (simp add: min_def)
    then show ?thesis using evs by simp
  qed
  ultimately show ?thesis using run base by blast
qed

abbreviation cursors_at :: "'st \<Rightarrow> filter_cursor list \<Rightarrow> nat list \<Rightarrow> bool" where
  "cursors_at st fcs ks \<equiv> list_all2 (fc_at (\<lambda>f. matching f st)) fcs ks"

definition delivered :: "'st \<Rightarrow> filter_cursor list \<Rightarrow> nat list \<Rightarrow> event set" where
  "delivered st fcs ks =
     (\<Union>(fc, k) \<in> set (zip fcs ks). set (take k (filter_goal (\<lambda>f. matching f st) (fc_base fc))))"

definition goals :: "'st \<Rightarrow> filter_cursor list \<Rightarrow> event set" where
  "goals st fcs = (\<Union>fc \<in> set fcs. set (filter_goal (\<lambda>f. matching f st) (fc_base fc)))"

definition left :: "'st \<Rightarrow> filter_cursor list \<Rightarrow> nat list \<Rightarrow> nat" where
  "left st fcs ks = sum_list (map2 (fc_left (\<lambda>f. matching f st)) fcs ks)"

lemma delivered_Cons [simp]:
  "delivered st (fc # fcs) (k # ks) =
     set (take k (filter_goal (\<lambda>f. matching f st) (fc_base fc))) \<union> delivered st fcs ks"
  by (simp add: delivered_def)

lemma left_Cons [simp]: "left st (fc # fcs) (k # ks) = fc_left (\<lambda>f. matching f st) fc k + left st fcs ks"
  by (simp add: left_def)

lemma goal_subset: "set (filter_goal (\<lambda>f. matching f st) f) \<subseteq> set (matching f st)"
  using filter_goal_prefix [of "\<lambda>f. matching f st" f] by (auto dest: in_set_takeD)

lemma goals_inj:
  assumes "valid st"
  shows "inj_on ev_id (goals st fcs)"
  using ids_distinct [OF assms] goal_subset unfolding inj_on_def goals_def by blast

lemma delivered_subset: "delivered st fcs ks \<subseteq> goals st fcs"
  by (auto simp: delivered_def goals_def dest: in_set_takeD set_zip_leftD)

lemma goals_base: "map fc_base fcs = map fc_base fcs' \<Longrightarrow> goals st fcs = goals st fcs'"
proof -
  assume a: "map fc_base fcs = map fc_base fcs'"
  have "goals st fcs = (\<Union>f \<in> set (map fc_base fcs). set (filter_goal (\<lambda>f. matching f st) f))" for fcs
    by (simp add: goals_def)
  then show ?thesis using a by metis
qed

lemma page_filters_step:
  assumes V: "valid st" and ops: "so_query ops = query" and ps: "0 < ps"
  shows "cursors_at st fcs ks \<Longrightarrow> inj_on ev_id (page_events page \<union> goals st fcs) \<Longrightarrow>
    \<exists>fcs' page' ks'. page_filters ops st ps fcs page = Inr (fcs', page') \<and> cursors_at st fcs' ks' \<and>
      map fc_base fcs' = map fc_base fcs \<and>
      page_events page' \<union> delivered st fcs ks = page_events page \<union> delivered st fcs' ks' \<and>
      page_events page \<subseteq> page_events page' \<and> page_events page' \<subseteq> page_events page \<union> delivered st fcs' ks' \<and>
      left st fcs' ks' \<le> left st fcs ks \<and>
      (list_ex (\<lambda>fc. \<not> fc_exhausted fc) fcs' \<longrightarrow> left st fcs' ks' < left st fcs ks)"
proof (induction fcs arbitrary: ks page)
  case Nil
  then show ?case by auto
next
  case (Cons fc fcs)
  let ?G = "filter_goal (\<lambda>f. matching f st) (fc_base fc)"
  obtain k ks0 where ks: "ks = k # ks0" "fc_at (\<lambda>f. matching f st) fc k" "cursors_at st fcs ks0"
    using Cons.prems(1) by (auto simp: list_all2_Cons1)
  show ?case
  proof (cases "fc_exhausted fc")
    case True
    have "inj_on ev_id (page_events page \<union> goals st fcs)"
      using Cons.prems(2) by (rule inj_on_subset) (auto simp: goals_def)
    from Cons.IH [OF ks(3) this] obtain fcs' page' ks' where
      IH: "page_filters ops st ps fcs page = Inr (fcs', page')" "cursors_at st fcs' ks'"
        "map fc_base fcs' = map fc_base fcs"
        "page_events page' \<union> delivered st fcs ks0 = page_events page \<union> delivered st fcs' ks'"
        "page_events page \<subseteq> page_events page'" "page_events page' \<subseteq> page_events page \<union> delivered st fcs' ks'"
        "left st fcs' ks' \<le> left st fcs ks0"
        "list_ex (\<lambda>fc. \<not> fc_exhausted fc) fcs' \<longrightarrow> left st fcs' ks' < left st fcs ks0"
      by blast
    show ?thesis
      by (rule exI [of _ "fc # fcs'"], rule exI [of _ page'], rule exI [of _ "k # ks'"])
        (use IH True ks in auto)
  next
    case False
    from page_filter_step [OF V ops ps ks(2) False] obtain evs fc' where
      P: "page_filter ops st ps fc = Inr (evs, fc')" "fc_base fc' = fc_base fc"
        "fc_at (\<lambda>f. matching f st) fc' (k + length evs)" "evs = take (length evs) (drop k ?G)"
        "fc_left (\<lambda>f. matching f st) fc' (k + length evs) < fc_left (\<lambda>f. matching f st) fc k"
      by blast
    have "set evs \<subseteq> set ?G" using P(4) by (metis in_set_dropD in_set_takeD subsetI)
    then have evs: "set evs \<subseteq> goals st (fc # fcs)" by (auto simp: goals_def)
    have add: "page_events (add_events evs page) = page_events page \<union> set evs"
      by (rule page_events_add, rule inj_on_subset [OF Cons.prems(2)]) (use evs in auto)
    have "inj_on ev_id (page_events (add_events evs page) \<union> goals st fcs)"
      using Cons.prems(2) by (rule inj_on_subset) (use add evs in \<open>auto simp: goals_def\<close>)
    from Cons.IH [OF ks(3) this] obtain fcs' page' ks' where
      IH: "page_filters ops st ps fcs (add_events evs page) = Inr (fcs', page')" "cursors_at st fcs' ks'"
        "map fc_base fcs' = map fc_base fcs"
        "page_events page' \<union> delivered st fcs ks0 = page_events (add_events evs page) \<union> delivered st fcs' ks'"
        "page_events (add_events evs page) \<subseteq> page_events page'"
        "page_events page' \<subseteq> page_events (add_events evs page) \<union> delivered st fcs' ks'"
        "left st fcs' ks' \<le> left st fcs ks0"
      by blast
    have "take (k + length evs) ?G = take k ?G @ evs"
      using P(4) by (simp add: take_add)
    then have tk: "set (take (k + length evs) ?G) = set (take k ?G) \<union> set evs" by simp
    show ?thesis
      by (rule exI [of _ "fc' # fcs'"], rule exI [of _ page'], rule exI [of _ "(k + length evs) # ks'"])
        (use IH False ks P(1,2,3,5) add tk in auto)
  qed
qed

definition query_at :: "'st \<Rightarrow> req_query_state \<Rightarrow> nat list \<Rightarrow> bool" where
  "query_at st q ks \<longleftrightarrow> rq_search q = [] \<and> cursors_at st (rq_non_search q) ks \<and>
     set (rq_seen q) = ev_id ` delivered st (rq_non_search q) ks"

lemma exhausted_delivered:
  "cursors_at st fcs ks \<Longrightarrow> \<not> list_ex (\<lambda>fc. \<not> fc_exhausted fc) fcs \<Longrightarrow> delivered st fcs ks = goals st fcs"
proof (induction fcs ks rule: list_all2_induct)
  case (Cons fc fcs k ks)
  then show ?case by (auto simp: goals_def fc_at_def Let_def)
qed (simp add: delivered_def goals_def)

lemma fetch_step:
  assumes V: "valid st" and ops: "so_query ops = query" and ps: "0 < ps" and at: "query_at st q ks"
  shows "\<exists>evs hm q' ks'. fetch_req_page ops st q ps = Inr ((evs, hm), q') \<and> query_at st q' ks' \<and>
    goals st (rq_non_search q') = goals st (rq_non_search q) \<and>
    set evs = delivered st (rq_non_search q') ks' - delivered st (rq_non_search q) ks \<and>
    delivered st (rq_non_search q) ks \<subseteq> delivered st (rq_non_search q') ks' \<and>
    sorted (map event_order evs) \<and>
    (hm \<longrightarrow> left st (rq_non_search q') ks' < left st (rq_non_search q) ks) \<and>
    (\<not> hm \<longrightarrow> delivered st (rq_non_search q') ks' = goals st (rq_non_search q))"
proof (cases "rq_non_search q = []")
  case True
  then have "fetch_req_page ops st q ps = Inr (([], False), q)"
    using at ps by (simp add: fetch_req_page_def query_at_def)
  moreover have "delivered st (rq_non_search q) ks = {}" "goals st (rq_non_search q) = {}"
    using True by (simp_all add: delivered_def goals_def)
  ultimately show ?thesis using at by fastforce
next
  case False
  let ?fcs = "rq_non_search q"
  have C: "cursors_at st ?fcs ks" and seen: "set (rq_seen q) = ev_id ` delivered st ?fcs ks"
    and ns: "rq_search q = []" using at by (auto simp: query_at_def)
  have e: "page_events [] = {}" by (simp add: page_events_def)
  from page_filters_step [OF V ops ps C, of "[]"] goals_inj [OF V] obtain fcs' page' ks' where
    P: "page_filters ops st ps ?fcs [] = Inr (fcs', page')" "cursors_at st fcs' ks'"
      "map fc_base fcs' = map fc_base ?fcs"
      "page_events page' \<union> delivered st ?fcs ks = delivered st fcs' ks'"
      "list_ex (\<lambda>fc. \<not> fc_exhausted fc) fcs' \<longrightarrow> left st fcs' ks' < left st ?fcs ks"
    by (auto simp: e)
  obtain out seen' where m: "merge_page_events page' [] (rq_seen q) = (out, seen')" by fastforce
  have ok: "page_ok page'" using page_ok_filters [OF P(1)] by simp
  note M = merge_page_events_ids [OF ok m]
  let ?hm = "list_ex (\<lambda>fc. \<not> fc_exhausted fc) fcs'"
  let ?q = "q\<lparr>rq_search_done := True, rq_non_search := fcs', rq_seen := seen'\<rparr>"
  have s: "(if rq_search_done q then Inr ([], []) else run_search_filters ops st (rq_search q) [] []) = Inr ([], [])"
    by (simp add: ns)
  have run: "fetch_req_page ops st q ps = Inr ((out, ?hm), ?q)"
    unfolding fetch_req_page_def s using ps False P(1) m by simp
  have G: "goals st fcs' = goals st ?fcs" by (rule goals_base [OF P(3)])
  have inj: "inj_on ev_id (delivered st fcs' ks')"
    by (rule inj_on_subset [OF goals_inj [OF V, of ?fcs]]) (use delivered_subset [of st fcs' ks'] G in simp)
  have sub: "delivered st ?fcs ks \<subseteq> delivered st fcs' ks'" "page_events page' \<subseteq> delivered st fcs' ks'"
    using P(4) by blast+
  have "set out = page_events page' - delivered st ?fcs ks"
    using inj sub unfolding M(4) page_events_def seen inj_on_def by blast
  then have out: "set out = delivered st fcs' ks' - delivered st ?fcs ks" using P(4) by blast
  have "set seen' = ev_id ` delivered st fcs' ks'"
    using M(3) seen out sub(1) by auto
  then have "query_at st ?q ks'" using P(2) ns by (simp add: query_at_def)
  moreover have "sorted (map event_order out)" by (rule merge_page_events_sorted [OF ok m])
  ultimately show ?thesis
    using run G out sub(1) P(5) exhausted_delivered [OF P(2)]
    by (intro exI [of _ out] exI [of _ ?hm] exI [of _ ?q] exI [of _ ks']) simp
qed

lemma drain_all:
  assumes V: "valid st" and ops: "so_query ops = query" and ps: "0 < ps"
  shows "query_at st q ks \<Longrightarrow> left st (rq_non_search q) ks < n \<Longrightarrow>
    \<exists>pages. drain_pages n ops st ps q = Some (Inr pages) \<and>
      set (concat pages) = goals st (rq_non_search q) - delivered st (rq_non_search q) ks \<and>
      (\<forall>page \<in> set pages. sorted (map event_order page))"
proof (induction n arbitrary: q ks)
  case (Suc n)
  from fetch_step [OF V ops ps Suc.prems(1)] obtain evs hm q' ks' where
    F: "fetch_req_page ops st q ps = Inr ((evs, hm), q')" "query_at st q' ks'"
      "goals st (rq_non_search q') = goals st (rq_non_search q)"
      "set evs = delivered st (rq_non_search q') ks' - delivered st (rq_non_search q) ks"
      "delivered st (rq_non_search q) ks \<subseteq> delivered st (rq_non_search q') ks'"
      "sorted (map event_order evs)"
      "hm \<longrightarrow> left st (rq_non_search q') ks' < left st (rq_non_search q) ks"
      "\<not> hm \<longrightarrow> delivered st (rq_non_search q') ks' = goals st (rq_non_search q)"
    by blast
  show ?case
  proof (cases hm)
    case False
    then show ?thesis using F by simp
  next
    case True
    then have "left st (rq_non_search q') ks' < n" using F(7) Suc.prems(2) by simp
    from Suc.IH [OF F(2) this] obtain pages where
      I: "drain_pages n ops st ps q' = Some (Inr pages)"
        "set (concat pages) = goals st (rq_non_search q') - delivered st (rq_non_search q') ks'"
        "\<forall>page \<in> set pages. sorted (map event_order page)" by blast
    have "delivered st (rq_non_search q') ks' \<subseteq> goals st (rq_non_search q)"
      using delivered_subset [of st "rq_non_search q'" ks'] F(3) by simp
    then have "set (concat (evs # pages)) = goals st (rq_non_search q) - delivered st (rq_non_search q) ks"
      using F(3,4,5) I(2) by auto
    then show ?thesis using F(1,6) True I(1,3) by simp
  qed
qed simp

end

context paged_store
begin

text \<open>One filter: the pages are the result cut into pieces, in order.\<close>

lemma drain_single:
  assumes V: "valid st" and ops: "so_query ops = query" and ps: "0 < ps"
  shows "query_at st q [k] \<Longrightarrow> left st (rq_non_search q) [k] < n \<Longrightarrow> rq_non_search q = [fc] \<Longrightarrow>
    \<exists>pages. drain_pages n ops st ps q = Some (Inr pages) \<and>
      concat pages = drop k (filter_goal (\<lambda>f. matching f st) (fc_base fc))"
proof (induction n arbitrary: q k fc)
  case (Suc n)
  let ?G = "filter_goal (\<lambda>f. matching f st) (fc_base fc)"
  from fetch_step [OF V ops ps Suc.prems(1)] obtain evs hm q' ks' where
    F: "fetch_req_page ops st q ps = Inr ((evs, hm), q')" "query_at st q' ks'"
      "set evs = delivered st (rq_non_search q') ks' - delivered st (rq_non_search q) [k]"
      "delivered st (rq_non_search q) [k] \<subseteq> delivered st (rq_non_search q') ks'"
      "sorted (map event_order evs)"
      "hm \<longrightarrow> left st (rq_non_search q') ks' < left st (rq_non_search q) [k]"
      "\<not> hm \<longrightarrow> delivered st (rq_non_search q') ks' = goals st (rq_non_search q)"
    by blast
  from page_filters_step [OF V ops ps, of "rq_non_search q" "[k]" "[]"] Suc.prems(1) goals_inj [OF V]
  obtain fcs' page' where P: "page_filters ops st ps (rq_non_search q) [] = Inr (fcs', page')"
    "map fc_base fcs' = map fc_base (rq_non_search q)"
    by (auto simp: page_events_def query_at_def)
  have "rq_non_search q' = fcs'"
    using F(1) P(1) ps Suc.prems(1,3)
    by (auto simp: fetch_req_page_def query_at_def Let_def split: sum.splits prod.splits if_splits)
  with P(2) Suc.prems(3) obtain fc' where fc': "rq_non_search q' = [fc']" "fc_base fc' = fc_base fc"
    by (auto simp: map_eq_Cons_conv)
  with F(2) obtain k' where k': "ks' = [k']" "fc_at (\<lambda>f. matching f st) fc' k'"
    by (auto simp: query_at_def list_all2_Cons1)
  have d: "distinct ?G" using filter_goal_prefix [of "\<lambda>f. matching f st" "fc_base fc"]
      matching_distinct [OF V, of "fc_base fc"] by (metis distinct_take)
  have sG: "sorted (map event_order ?G)"
    using filter_goal_prefix [of "\<lambda>f. matching f st" "fc_base fc"] matching_sorted [OF V, of "fc_base fc"]
    by (metis (mono_tags, lifting) less_imp_le sorted_map sorted_wrt_mono_rel sorted_wrt_take)
  have kk: "k \<le> length ?G" "k' \<le> length ?G"
    using Suc.prems(1,3) k' fc' by (auto simp: query_at_def fc_at_def Let_def)
  have sub: "set (take k ?G) \<subseteq> set (take k' ?G)"
    using F(4) Suc.prems(3) fc' k' by (simp add: delivered_def)
  have "k \<le> k'"
    using card_mono [OF _ sub] kk d by (simp add: distinct_card)
  then have split: "take k' ?G = take k ?G @ drop k (take k' ?G)"
    by (metis append_take_drop_id min.absorb1 take_take)
  have dk: "distinct (take k ?G @ drop k (take k' ?G))"
    using split d by (metis distinct_take)
  have set_evs: "set evs = set (take k' ?G) - set (take k ?G)"
    using F(3) Suc.prems(3) fc' k' by (simp add: delivered_def)
  also have "\<dots> = set (take k ?G @ drop k (take k' ?G)) - set (take k ?G)"
    using split by simp
  also have "\<dots> = set (drop k (take k' ?G))" using dk by auto
  finally have "set evs = set (drop k (take k' ?G))" .
  moreover have "distinct evs"
    using fetch_req_page_ids [OF F(1)] by (simp add: distinct_map)
  moreover have "distinct (drop k (take k' ?G))" using dk by simp
  moreover have "inj_on event_order (set evs)"
    by (rule event_order_inj_on, rule inj_on_subset [OF goals_inj [OF V, of "[fc]"]])
      (use set_evs in \<open>auto simp: goals_def dest: in_set_takeD\<close>)
  ultimately have "sort_key event_order evs = sort_key event_order (drop k (take k' ?G))"
    by (intro sort_key_same_set) auto
  moreover have "sorted (map event_order (drop k (take k' ?G)))"
    using sG by (simp add: drop_map take_map sorted_wrt_drop sorted_wrt_take flip: drop_map take_map)
  ultimately have evs: "evs = drop k (take k' ?G)"
    using F(5) by (simp add: sort_key_id_if_sorted)
  show ?case
  proof (cases hm)
    case False
    then have "set (take k' ?G) = set ?G"
      using F(7) Suc.prems(3) fc' k' by (simp add: delivered_def goals_def)
    then have "card (set (take k' ?G)) = card (set ?G)" by simp
    then have "take k' ?G = ?G" using d kk by (simp add: distinct_card)
    then show ?thesis using F(1) False evs by simp
  next
    case True
    then have "left st (rq_non_search q') [k'] < n" using F(6) Suc.prems(2) k' by simp
    from Suc.IH [OF _ this fc'(1)] F(2) k' obtain pages where
      I: "drain_pages n ops st ps q' = Some (Inr pages)" "concat pages = drop k' ?G"
      by (auto simp: fc'(2))
    have "take k ?G @ (evs @ drop k' ?G) = take k ?G @ drop k ?G"
      using split evs by (metis append.assoc append_take_drop_id)
    then have "evs @ drop k' ?G = drop k ?G" by (simp only: same_append_eq)
    then show ?thesis using F(1) True I by simp
  qed
qed simp

lemma full_filters_goals:
  assumes V: "valid st" and ops: "so_query ops = query"
  shows "\<forall>fc \<in> set fcs. \<not> has_search (fc_base fc) \<and> f_cursor (fc_base fc) = None \<Longrightarrow>
    inj_on ev_id (page_events page \<union> goals st fcs) \<Longrightarrow>
    \<exists>page'. full_filters ops st fcs page = Inr page' \<and> page_events page' = page_events page \<union> goals st fcs"
proof (induction fcs arbitrary: page)
  case (Cons fc fcs)
  let ?G = "filter_goal (\<lambda>f. matching f st) (fc_base fc)"
  have q: "so_query ops [fc_base fc] st = Inr ?G"
    using Cons.prems(1) by (simp add: ops query_full [OF V] filter_goal_def)
  have add: "page_events (add_events ?G page) = page_events page \<union> set ?G"
    by (rule page_events_add, rule inj_on_subset [OF Cons.prems(2)]) (auto simp: goals_def)
  have "inj_on ev_id (page_events (add_events ?G page) \<union> goals st fcs)"
    using Cons.prems(2) by (rule inj_on_subset) (auto simp: add goals_def)
  with Cons.IH Cons.prems(1) obtain page' where
    "full_filters ops st fcs (add_events ?G page) = Inr page'"
    "page_events page' = page_events (add_events ?G page) \<union> goals st fcs" by fastforce
  then show ?case using q add by (auto simp: goals_def)
qed (simp add: goals_def)

lemma unpaged_goals:
  assumes V: "valid st" and ops: "so_query ops = query"
    and plain: "\<forall>f \<in> set fs. \<not> has_search f \<and> f_cursor f = None"
  shows "\<exists>evs. query_initial_req_events ops st fs se dl = Inr evs \<and> sorted (map event_order evs) \<and>
    set evs = goals st (rq_non_search (new_req_query_state fs dl se))"
proof -
  let ?q = "new_req_query_state fs dl se"
  have plain': "\<forall>f \<in> set (apply_default_query_limit fs dl). \<not> has_search f \<and> f_cursor f = None"
    using plain by (auto simp: apply_default_query_limit_def)
  then have ns: "rq_search ?q = []" "rq_seen ?q = []"
    by (auto simp: new_req_query_state_def Let_def filter_empty_conv)
  have fcs: "\<forall>fc \<in> set (rq_non_search ?q). \<not> has_search (fc_base fc) \<and> f_cursor (fc_base fc) = None"
    using plain' by (auto simp: new_req_query_state_def new_filter_cursor_def Let_def)
  have "inj_on ev_id (page_events [] \<union> goals st (rq_non_search ?q))"
    using goals_inj [OF V] by (simp add: page_events_def)
  from full_filters_goals [OF V ops fcs this] obtain page where
    P: "full_filters ops st (rq_non_search ?q) [] = Inr page"
      "page_events page = goals st (rq_non_search ?q)"
    by (auto simp: page_events_def)
  obtain out seen' where m: "merge_page_events page [] [] = (out, seen')" by fastforce
  have ok: "page_ok page" using page_ok_full [OF P(1)] by simp
  have "query_initial_req_events ops st fs se dl = Inr out"
    using P(1) ns m by (simp add: query_initial_req_events_def fetch_req_page_def fetch_req_all_def)
  moreover have "set out = page_events page"
    using merge_page_events_ids(4) [OF ok m] by (simp add: page_events_def)
  ultimately show ?thesis using merge_page_events_sorted [OF ok m] P(2) by blast
qed

lemma new_query_at:
  assumes "\<forall>f \<in> set fs. \<not> has_search f"
  shows "query_at st (new_req_query_state fs dl se) (map (\<lambda>_. 0) (rq_non_search (new_req_query_state fs dl se)))"
proof -
  have "\<forall>f \<in> set (apply_default_query_limit fs dl). \<not> has_search f"
    using assms by (auto simp: apply_default_query_limit_def)
  moreover have "delivered st fcs (map (\<lambda>_. 0) xs) = {}" for fcs :: "filter_cursor list" and xs :: "filter list"
    by (auto simp: delivered_def dest!: set_zip_rightD)
  ultimately show ?thesis
    by (auto simp: query_at_def new_req_query_state_def Let_def o_def list_all2_map1 list_all2_map2 list.rel_refl_strong
        new_filter_cursor_at filter_empty_conv intro!: list.rel_refl_strong)
qed

lemma left_bound:
  assumes "\<forall>f. length (matching f st) \<le> m"
  shows "left st fcs ks \<le> length fcs * Suc m"
proof (induction fcs arbitrary: ks)
  case (Cons fc fcs)
  have "length (filter_goal (\<lambda>f. matching f st) f) \<le> m" for f
    using filter_goal_prefix [of "\<lambda>f. matching f st" f] assms by (metis length_take min.coboundedI1)
  then have "fc_left (\<lambda>f. matching f st) fc k \<le> Suc m" for k
    by (simp add: fc_left_def le_diff_conv trans_le_add1)
  then have "fc_left (\<lambda>f. matching f st) fc k + left st fcs ks \<le> Suc m + length fcs * Suc m" for k ks
    using Cons by (rule add_mono)
  then have "left st (fc # fcs) (k # ks) \<le> length (fc # fcs) * Suc m" for k ks
    unfolding left_Cons list.size(4) add_Suc_right mult_Suc add_0_right .
  then show ?case by (cases ks) (simp add: left_def, blast)
qed (simp add: left_def)

end

section \<open>Properties\<close>

lemma sql_store_query [simp]: "so_query (sql_store env) = query_events env"
  by (simp add: sql_store_def)

lemma sql_matching_length:
  assumes "db_valid db"
  shows "length (sql_matching env f db) \<le> length (db_events db)"
proof -
  obtain es where R: "represents db es" using assms by (auto simp: db_valid_def)
  then show ?thesis by (simp add: sql_matching_eq [OF R]) (simp add: represents_def)
qed

lemma sql_fuel:
  assumes "db_valid db"
  shows "sql_paged.left env db (rq_non_search (new_req_query_state fs dl se)) ks \<le> length fs * Suc (length (db_events db))"
proof -
  have "length (rq_non_search (new_req_query_state fs dl se)) \<le> length fs"
    by (auto simp: new_req_query_state_def Let_def apply_default_query_limit_def intro: order_trans [OF length_filter_le])
  then have "length (rq_non_search (new_req_query_state fs dl se)) * Suc (length (db_events db)) \<le>
      length fs * Suc (length (db_events db))" by (rule mult_le_mono1)
  with sql_paged.left_bound [of env db "length (db_events db)"] sql_matching_length [OF assms]
  show ?thesis by (meson order_trans)
qed

lemma paged_complete:
  assumes "db_valid db" and "0 < page_size" and "\<forall>f \<in> set fs. \<not> has_search f \<and> f_cursor f = None"
    and "length fs * Suc (length (db_events db)) < n"
  shows "\<exists>pages evs.
    drain_pages n (sql_store env) db page_size (new_req_query_state fs dl se) = Some (Inr pages) \<and>
    query_initial_req_events (sql_store env) db fs se dl = Inr evs \<and>
    set (concat pages) = set evs \<and> (\<forall>page \<in> set pages. sorted (map event_order page)) \<and>
    sorted (map event_order evs)"
proof -
  let ?q = "new_req_query_state fs dl se" and ?ks = "map (\<lambda>_. 0) (rq_non_search (new_req_query_state fs dl se))"
  have at: "sql_paged.query_at env db ?q ?ks"
    by (rule sql_paged.new_query_at) (use assms(3) in blast)
  have "sql_paged.left env db (rq_non_search ?q) ?ks < n"
    using sql_fuel [OF assms(1)] assms(4) by (meson order_le_less_trans)
  from sql_paged.drain_all [OF assms(1) sql_store_query assms(2) at this] obtain pages where
    "drain_pages n (sql_store env) db page_size ?q = Some (Inr pages)"
    "set (concat pages) = sql_paged.goals env db (rq_non_search ?q) - sql_paged.delivered env db (rq_non_search ?q) ?ks"
    "\<forall>page \<in> set pages. sorted (map event_order page)" by blast
  moreover have "sql_paged.delivered env db fcs (map (\<lambda>_. 0) fcs) = {}" for fcs
    by (induction fcs) (simp_all add: sql_paged.delivered_def)
  ultimately show ?thesis
    using sql_paged.unpaged_goals [OF assms(1) sql_store_query assms(3)] by fastforce
qed

lemma paged_ends:
  assumes "db_valid db" and "0 < page_size" and "\<forall>f \<in> set fs. \<not> has_search f \<and> f_cursor f = None"
    and "length fs * Suc (length (db_events db)) < n"
  shows "\<exists>pages. drain_pages n (sql_store env) db page_size (new_req_query_state fs dl se) = Some (Inr pages)"
  using paged_complete [OF assms, of env dl se] by blast

lemma single_page_order:
  assumes "db_valid db" and "0 < page_size" and "\<not> has_search f" and "f_cursor f = None"
    and "Suc (length (db_events db)) < n"
  shows "\<exists>pages. drain_pages n (sql_store env) db page_size (new_req_query_state [f] 0 se) = Some (Inr pages) \<and>
    so_query (sql_store env) [f] db = Inr (concat pages)"
proof -
  let ?q = "new_req_query_state [f] 0 se"
  have q: "rq_non_search ?q = [new_filter_cursor f]" "fc_base (new_filter_cursor f) = f"
    using assms(3) by (simp_all add: new_req_query_state_def apply_default_query_limit_def new_filter_cursor_def Let_def)
  have at: "sql_paged.query_at env db ?q [0]"
    using sql_paged.new_query_at [of "[f]" env db 0 se] assms(3) by (simp add: q)
  have "sql_paged.left env db (rq_non_search ?q) [0] < n"
    using sql_fuel [OF assms(1), of env "[f]" 0 se "[0]"] assms(5) by simp
  from sql_paged.drain_single [OF assms(1) sql_store_query assms(2) at this q(1)] obtain pages where
    P: "drain_pages n (sql_store env) db page_size ?q = Some (Inr pages)"
      "concat pages = filter_goal (\<lambda>f. sql_matching env f db) f" by (auto simp: q(2))
  moreover have "query_events env [f] db = Inr (filter_goal (\<lambda>f. sql_matching env f db) f)"
    using sql_paged.query_full [OF assms(1,3,4)] by (simp add: filter_goal_def)
  ultimately show ?thesis by auto
qed

lemma drain_run:
  "drain_pages n ops st ps q = Some (Inr pages) \<Longrightarrow> run_pages ops ps (replicate (length pages) st) q = Inr pages"
proof (induction n arbitrary: q pages)
  case (Suc n)
  then show ?case by (auto split: sum.splits option.splits if_splits)
qed simp

lemma unpaged_ids: "query_initial_req_events ops st fs se dl = Inr evs \<Longrightarrow> distinct (map ev_id evs)"
  using fetch_req_page_ids [of ops st "new_req_query_state fs dl se" 0]
  by (auto simp: query_initial_req_events_def split: sum.splits)

lemma sorted_ids_newer: "sorted (map event_order es) \<Longrightarrow> distinct (map ev_id es) \<Longrightarrow> sorted_wrt newer es"
proof (induction es)
  case (Cons e es)
  have "newer e x" if "x \<in> set es" for x
  proof -
    have "event_order e \<le> event_order x" using Cons.prems(1) that by simp
    moreover have "ev_id e \<noteq> ev_id x" using Cons.prems(2) imageI [OF that, of ev_id] by auto
    ultimately show ?thesis by (auto simp: event_order_def)
  qed
  then show ?case using Cons by simp
qed simp

lemma same_events_sorted:
  assumes "set xs = set ys" and "distinct (map ev_id xs)" and "distinct (map ev_id ys)" and "sorted (map event_order ys)"
  shows "ys = sort_key event_order xs"
proof (rule properties_for_sort_key [symmetric])
  have "distinct xs" "distinct ys" using assms(2,3) by (auto simp: distinct_map)
  then show m: "mset ys = mset xs" using assms(1) by (simp add: set_eq_iff_mset_eq_distinct)
  show "sorted (map event_order ys)" by (rule assms(4))
  have inj: "inj_on ev_id (set xs)" using assms(2) by (simp add: distinct_map)
  show "List.filter (\<lambda>x. event_order k = event_order x) ys = List.filter (\<lambda>x. event_order k = event_order x) xs"
    if "k \<in> set ys" for k
  proof -
    have "List.filter (\<lambda>x. event_order k = event_order x) zs = List.filter (\<lambda>x. x = k) zs" if "set zs = set xs" for zs
      using that \<open>k \<in> set ys\<close> assms(1) inj by (intro filter_cong) (auto simp: event_order_def dest: inj_onD)
    moreover have "List.filter (\<lambda>x. x = k) zs = [k]" if "distinct zs" "k \<in> set zs" for zs
      using that by (induction zs) (auto simp: filter_empty_conv)
    ultimately show ?thesis using assms(1) \<open>distinct xs\<close> \<open>distinct ys\<close> that by simp
  qed
qed

text \<open>C7: Paging loses nothing, repeats nothing and ends: over an unchanged store, fetching pages of any
  positive size until none is left returns, with the stated fuel, pages that are each strictly
  newest first and in which no event id occurs twice; sorted, the events of all pages are exactly
  the list the unpaged snapshot of the same filters returns.\<close>

theorem paged_snapshot_complete:
  assumes "db_valid db" and "0 < page_size" and "\<forall>f \<in> set fs. \<not> has_search f \<and> f_cursor f = None"
    and "length fs * Suc (length (db_events db)) < n"
  shows "\<exists>pages.
    drain_pages n (sql_store env) db page_size (new_req_query_state fs dl se) = Some (Inr pages) \<and>
    query_initial_req_events (sql_store env) db fs se dl = Inr (sort_key event_order (concat pages)) \<and>
    distinct (map ev_id (concat pages)) \<and> (\<forall>page \<in> set pages. sorted_wrt newer page)"
proof -
  obtain pages evs where P: "drain_pages n (sql_store env) db page_size (new_req_query_state fs dl se) = Some (Inr pages)"
    "query_initial_req_events (sql_store env) db fs se dl = Inr evs" "set (concat pages) = set evs"
    "\<forall>page \<in> set pages. sorted (map event_order page)" "sorted (map event_order evs)"
    using paged_complete [OF assms, of env dl se] by blast
  have d: "distinct (map ev_id (concat pages))" using run_pages_ids [OF drain_run [OF P(1)]] by blast
  have "evs = sort_key event_order (concat pages)"
    by (rule same_events_sorted [OF P(3) d unpaged_ids [OF P(2)] P(5)])
  moreover have "sorted_wrt newer page" if "page \<in> set pages" for page
  proof (rule sorted_ids_newer)
    show "sorted (map event_order page)" using P(4) that by blast
    show "distinct (map ev_id page)" using d that by (induction pages) auto
  qed
  ultimately show ?thesis using P(1,2) d by blast
qed

definition one_event_db :: event_db where
  "one_event_db = \<lparr>db_events = [event_to_row (sample_event ''a'' 5 1 [])], db_tags = [], db_notified = []\<rparr>"

lemma one_event_db_valid: "db_valid one_event_db"
  unfolding db_valid_def one_event_db_def
  by (rule exI [of _ "[sample_event ''a'' 5 1 []]"]) (simp add: represents_def tag_rows_def sample_event_def)

theorem paged_snapshot_complete_witness:
  "\<exists>pages.
    drain_pages 5 (sql_store plain_env) one_event_db 1 (new_req_query_state [empty_filter, empty_filter] 500 False) =
      Some (Inr pages) \<and>
    query_initial_req_events (sql_store plain_env) one_event_db [empty_filter, empty_filter] False 500 =
      Inr (sort_key event_order (concat pages)) \<and>
    distinct (map ev_id (concat pages)) \<and> (\<forall>page \<in> set pages. sorted_wrt newer page)"
  by (rule paged_snapshot_complete [OF one_event_db_valid])
    (simp_all add: one_event_db_def empty_filter_def has_search_def ptr_str_def)

text \<open>With one filter the client receives the unpaged result itself: the pages, in the order they are
  sent, concatenate to the filter's matches newest first, cut at its limit.\<close>

theorem single_filter_pages_in_order:
  assumes "db_valid db" and "0 < page_size" and "\<not> has_search f" and "f_cursor f = None"
    and "Suc (length (db_events db)) < n"
  shows "\<exists>pages. drain_pages n (sql_store env) db page_size (new_req_query_state [f] 0 se) = Some (Inr pages) \<and>
    so_query (sql_store env) [f] db = Inr (concat pages)"
  by (rule single_page_order [OF assms])

theorem single_filter_pages_in_order_witness:
  "\<exists>pages. drain_pages 3 (sql_store plain_env) one_event_db 1 (new_req_query_state [empty_filter] 0 False) = Some (Inr pages) \<and>
    so_query (sql_store plain_env) [empty_filter] one_event_db = Inr (concat pages)"
  by (rule single_filter_pages_in_order [OF one_event_db_valid])
    (simp_all add: one_event_db_def empty_filter_def has_search_def ptr_str_def)

text \<open>No event is sent twice, whatever the store does between the pages: even when every page reads
  a different state of an arbitrary store, no id occurs twice in the pages of one query.\<close>

theorem pages_never_repeat:
  assumes "run_pages ops page_size sts (new_req_query_state fs dl se) = Inr pages"
  shows "distinct (map ev_id (concat pages))"
  using run_pages_ids [OF assms] by simp

definition fixed_store :: "unit store_ops" where
  "fixed_store = \<lparr>so_save = (\<lambda>_ st. (None, st)), so_query = (\<lambda>_ _. Inr [sample_event ''a'' 5 1 [], sample_event ''a'' 5 1 []]),
     so_sync_items = (\<lambda>_ _. Inr []), so_count = (\<lambda>_ _. Inr 0), so_has_id = (\<lambda>_ _. Inr False),
     so_search = (\<lambda>_ _ _. Inr []), so_prefix_exists = (\<lambda>_ _ _ _. Inr False), so_metadata = (\<lambda>_ _ _. Inr None),
     so_admins = (\<lambda>_ _ _. Inr None), so_member = (\<lambda>_ _ _ _. Inr False)\<rparr>"

theorem pages_never_repeat_witness:
  "distinct (map ev_id (concat [[sample_event ''a'' 5 1 []], []]))"
  by (rule pages_never_repeat [of fixed_store 2 "[(), ()]" "[empty_filter\<lparr>f_limit := Some 4\<rparr>]" 0 False])
    (simp add: fixed_store_def fetch_req_page_def new_req_query_state_def apply_default_query_limit_def
      has_search_def ptr_str_def empty_filter_def new_filter_cursor_def page_filter_def add_events_def
      merge_page_events_def sample_event_def)

end
