(* ===== verification/Snapshot.thy ===== *)
theory Snapshot
  imports Subscriptions Req_Query
begin

text \<open>
  Sending the initial snapshot of a subscription and finishing it: \<open>internal/relay/readqueue.go\<close>,
  and the interleaving of snapshots with live broadcasts.

  \<open>visible\<close> is the server's check, \<open>ctx_err\<close> says that the context of the call is cancelled.
  A connection missing from the map has ended, and its context was cancelled before. The loop over
  the remaining pages has fuel; \<open>Req_Query\<close> shows how much is enough.

  The step relation \<open>wire_step\<close> runs the lock-protected pieces of the operations in any order: a
  broadcast is one match step, then for each match a visibility check and a delivery, and anything
  may run in between. It logs, by subscription generation and with their origin, the frames each
  piece queues on the connection; the CLOSED answers of the handlers (a CLOSE, a refused REQ, the
  gate of \<open>nip42.go\<close>, the end of a connection) are queued outside the manager's lock and are logged
  as such. The log is tied to what the connections hold.
\<close>

section \<open>Operations on a connection\<close>

definition conn_op :: "string \<Rightarrow> (conn \<Rightarrow> string option \<times> conn) \<Rightarrow> 'a wire_scheme \<Rightarrow> string option \<times> 'a wire_scheme" where
  "conn_op cid f w =
     (case map_of (w_conns w) cid of
        None \<Rightarrow> (Some err_canceled, w)
      | Some c \<Rightarrow> (let (err, c') = f c in (err, w\<lparr>w_conns := AList.update cid c' (w_conns w)\<rparr>)))"

definition snapshot_canceled :: "bool \<Rightarrow> string \<Rightarrow> 'a wire_scheme \<Rightarrow> bool" where
  "snapshot_canceled ctx_err cid w \<longleftrightarrow>
     ctx_err \<or> (case map_of (w_conns w) cid of None \<Rightarrow> True | Some c \<Rightarrow> cn_ctx_done c)"

section \<open>Snapshot\<close>

definition snapshot_event_fn :: "bool \<Rightarrow> string \<Rightarrow> string \<Rightarrow> event \<Rightarrow> sub_entry \<Rightarrow> 'a wire_scheme \<Rightarrow>
    string option \<times> 'a wire_scheme" where
  "snapshot_event_fn ctx_err cid sid ev e w =
     (if snapshot_canceled ctx_err cid w then (None, w)
      else let (send_err, w) = conn_op cid (send_event sid ev) w in
        (send_err, put_entry cid sid
           (if send_err = None then e\<lparr>se_initial_sent := se_initial_sent e + 1\<rparr>
            else e\<lparr>se_initial_dropped := se_initial_dropped e + 1\<rparr>) w))"

fun send_snapshot_loop :: "bool \<Rightarrow> (string \<Rightarrow> event \<Rightarrow> 'a wire_scheme \<Rightarrow> bool) \<Rightarrow> string \<Rightarrow> string \<Rightarrow> nat \<Rightarrow>
    event list \<Rightarrow> 'a wire_scheme \<Rightarrow> bool \<times> 'a wire_scheme" where
  "send_snapshot_loop ctx_err visible cid sid gen [] w =
     (\<not> snapshot_canceled ctx_err cid w \<and> is_same_snapshot cid sid gen w, w)"
| "send_snapshot_loop ctx_err visible cid sid gen (ev # evs) w =
     (if snapshot_canceled ctx_err cid w then (False, w)
      else if \<not> visible cid ev w then send_snapshot_loop ctx_err visible cid sid gen evs w
      else case with_snapshot cid sid gen (snapshot_event_fn ctx_err cid sid ev) w of
             (None, w') \<Rightarrow> (False, w')
           | (Some _, w') \<Rightarrow> send_snapshot_loop ctx_err visible cid sid gen evs w')"

definition send_snapshot_events :: "bool \<Rightarrow> (string \<Rightarrow> event \<Rightarrow> 'a wire_scheme \<Rightarrow> bool) \<Rightarrow> string \<Rightarrow> string \<Rightarrow> nat \<Rightarrow>
    event list \<Rightarrow> 'a wire_scheme \<Rightarrow> bool \<times> 'a wire_scheme" where
  "send_snapshot_events ctx_err visible cid sid gen evs w =
     (if snapshot_canceled ctx_err cid w \<or> \<not> is_same_snapshot cid sid gen w then (False, w)
      else send_snapshot_loop ctx_err visible cid sid gen evs w)"

definition complete_fn :: "bool \<Rightarrow> string \<Rightarrow> string \<Rightarrow> sub_entry \<Rightarrow> 'a wire_scheme \<Rightarrow> string option \<times> 'a wire_scheme" where
  "complete_fn ctx_err cid sid e w =
     (if snapshot_canceled ctx_err cid w then (Some err_canceled, w)
      else let (send_err, w) = conn_op cid (send_eose sid) w in
        if send_err = None
        then (None, finish_snapshot_locked cid sid (e\<lparr>se_eose_sent := se_eose_sent e + 1\<rparr>) w)
        else (send_err, w))"

definition complete_snapshot :: "bool \<Rightarrow> string \<Rightarrow> string \<Rightarrow> nat \<Rightarrow> 'a wire_scheme \<Rightarrow> string option \<times> 'a wire_scheme" where
  "complete_snapshot ctx_err cid sid gen w =
     (case with_snapshot cid sid gen (complete_fn ctx_err cid sid) w of
        (None, w') \<Rightarrow> (None, w')
      | (Some r, w') \<Rightarrow> (r, w'))"

definition close_error_fn :: "string \<Rightarrow> string \<Rightarrow> sub_entry \<Rightarrow> 'a wire_scheme \<Rightarrow> string option \<times> 'a wire_scheme" where
  "close_error_fn cid sid e w =
     (let (send_err, w) = conn_op cid (send_closed sid ''internal error'') w
      in (send_err, remove_locked cid sid w))"

definition close_snapshot_on_query_error :: "string \<Rightarrow> string \<Rightarrow> nat \<Rightarrow> 'a wire_scheme \<Rightarrow> string option \<times> 'a wire_scheme" where
  "close_snapshot_on_query_error cid sid gen w =
     (case with_snapshot cid sid gen (close_error_fn cid sid) w of
        (None, w') \<Rightarrow> (None, w')
      | (Some r, w') \<Rightarrow> (r, w'))"

section \<open>Remaining pages\<close>

record req_page_job =
  rj_conn_id :: string
  rj_sub_id :: string
  rj_generation :: nat
  rj_state :: req_query_state
  rj_search_enabled :: bool
  rj_page_size :: int

definition reader_queue_capacity :: nat where "reader_queue_capacity = 1024"

definition rq_enqueue :: "req_page_job \<Rightarrow> req_page_job list \<Rightarrow> bool \<times> req_page_job list" where
  "rq_enqueue job jobs =
     (if length jobs < reader_queue_capacity then (True, jobs @ [job]) else (False, jobs))"

definition rq_pending_depth :: "req_page_job list \<Rightarrow> int" where
  "rq_pending_depth jobs = int (length jobs)"

fun drain_remaining_pages :: "nat \<Rightarrow> 'st store_ops \<Rightarrow> 'st \<Rightarrow> bool \<Rightarrow>
    (string \<Rightarrow> event \<Rightarrow> 'a wire_scheme \<Rightarrow> bool) \<Rightarrow> string \<Rightarrow> string \<Rightarrow> req_query_state \<Rightarrow> int \<Rightarrow> nat \<Rightarrow>
    'a wire_scheme \<Rightarrow> (bool \<times> 'a wire_scheme) option" where
  "drain_remaining_pages 0 ops st ctx_err visible cid sid q page_size gen w = None"
| "drain_remaining_pages (Suc n) ops st ctx_err visible cid sid q page_size gen w =
     (if \<not> is_same_snapshot cid sid gen w then Some (False, w)
      else case fetch_req_page ops st q page_size of
             Inl _ \<Rightarrow> Some (False, snd (close_snapshot_on_query_error cid sid gen w))
           | Inr ((events, has_more), q') \<Rightarrow>
               (let (sent, w) = send_snapshot_events ctx_err visible cid sid gen events w in
                if \<not> sent then Some (False, w)
                else if \<not> has_more then Some (True, w)
                else drain_remaining_pages n ops st ctx_err visible cid sid q' page_size gen w))"

definition run_job :: "nat \<Rightarrow> 'st store_ops \<Rightarrow> 'st \<Rightarrow> bool \<Rightarrow> (string \<Rightarrow> event \<Rightarrow> 'a wire_scheme \<Rightarrow> bool) \<Rightarrow>
    req_page_job \<Rightarrow> req_page_job list \<Rightarrow> 'a wire_scheme \<Rightarrow> (req_page_job list \<times> 'a wire_scheme) option" where
  "run_job fuel ops st ctx_err visible job jobs w =
     (let cid = rj_conn_id job; sid = rj_sub_id job; gen = rj_generation job in
      if map_of (w_conns w) cid = None then Some (jobs, w)
      else if \<not> is_same_snapshot cid sid gen w then Some (jobs, w)
      else case fetch_req_page ops st (rj_state job) (rj_page_size job) of
             Inl _ \<Rightarrow> Some (jobs, snd (close_snapshot_on_query_error cid sid gen w))
           | Inr ((events, has_more), q') \<Rightarrow>
               (let (sent, w) = send_snapshot_events ctx_err visible cid sid gen events w;
                    job = job\<lparr>rj_state := q'\<rparr>
                in if \<not> sent then Some (jobs, w)
                else if \<not> has_more then Some (jobs, snd (complete_snapshot ctx_err cid sid gen w))
                else (let (queued, jobs) = rq_enqueue job jobs in
                      if queued then Some (jobs, w)
                      else case drain_remaining_pages fuel ops st ctx_err visible cid sid q' (rj_page_size job) gen w of
                             None \<Rightarrow> None
                           | Some (False, w) \<Rightarrow> Some (jobs, w)
                           | Some (True, w) \<Rightarrow> Some (jobs, snd (complete_snapshot ctx_err cid sid gen w)))))"

section \<open>What the operations queue\<close>

definition out_of :: "string \<Rightarrow> 'a wire_scheme \<Rightarrow> frame list" where
  "out_of cid w = (case map_of (w_conns w) cid of None \<Rightarrow> [] | Some c \<Rightarrow> outbound c)"

definition new_frames :: "string \<Rightarrow> 'a wire_scheme \<Rightarrow> 'a wire_scheme \<Rightarrow> frame list" where
  "new_frames cid w w' = drop (length (out_of cid w)) (out_of cid w')"

lemma out_of_cong: "w_conns w = w_conns w' \<Longrightarrow> out_of cid w = out_of cid w'"
  by (simp add: out_of_def)

lemma new_frames_append: "out_of cid w' = out_of cid w @ fs \<Longrightarrow> new_frames cid w w' = fs"
  by (simp add: new_frames_def)

lemma out_of_put [simp]: "out_of cid (put_entry cid' sid e w) = out_of cid w"
  by (rule out_of_cong) simp

lemma out_of_remove [simp]: "out_of cid (remove_locked cid' sid w) = out_of cid w"
  by (rule out_of_cong) simp

lemma enqueue_subscription_frame_outbound:
  "outbound (snd (enqueue_subscription_frame b c)) =
     outbound c @ (if fst (enqueue_subscription_frame b c) then [b] else [])"
  by (cases rule: enqueue_cases [of c b])
    (auto simp: enqueue_subscription_frame_def initiate_shutdown_def outbound_def enqueue_def split: if_splits)

lemma out_send_to:
  "out_of cid (snd (send_to cid b w)) = out_of cid w @ (if fst (send_to cid b w) then [b] else [])"
proof (cases "map_of (w_conns w) cid")
  case (Some c)
  then show ?thesis
    using enqueue_subscription_frame_outbound [of b c]
    by (simp add: out_of_def send_to_def case_prod_unfold Let_def)
qed (simp add: out_of_def send_to_def)

lemma conn_op_subs [simp]: "w_subs (snd (conn_op cid f w)) = w_subs w"
  by (simp add: conn_op_def split: option.split prod.split)

lemma conn_op_lookup [simp]:
  "sub_lookup cid' sid (snd (conn_op cid f w)) = sub_lookup cid' sid w"
  "has_sender cid' (snd (conn_op cid f w)) = has_sender cid' w"
  by (rule lookup_cong [OF conn_op_subs], rule has_sender_cong [OF conn_op_subs])

lemma out_conn_op:
  "out_of cid (snd (conn_op cid (enqueue b) w)) = out_of cid w @ (if fst (conn_op cid (enqueue b) w) = None then [b] else [])"
proof (cases "map_of (w_conns w) cid")
  case (Some c)
  then show ?thesis
    using outbound_enqueue [of b c] by (simp add: out_of_def conn_op_def case_prod_unfold Let_def)
qed (simp add: out_of_def conn_op_def)

lemma send_event_enqueue: "send_event sid ev = enqueue (FEvent sid ev)"
  by (simp add: fun_eq_iff send_event_def marshal_relay_event_def)

lemma send_eose_enqueue: "send_eose sid = enqueue (FEose sid)"
  by (simp add: fun_eq_iff send_eose_def)

lemma send_closed_enqueue: "send_closed sid r = enqueue (FClosed sid r)"
  by (simp add: fun_eq_iff send_closed_def)

section \<open>Interleavings\<close>

type_synonym sub_key = "string \<times> string \<times> nat"

datatype origin = FromStore | FromLive | FromEnd | FromHandler

record wire_sys =
  ws_wire :: wire
  ws_log :: "(sub_key \<times> origin \<times> frame) list"
  ws_matched :: "(event \<times> sub_key) list"
  ws_cleared :: "(event \<times> sub_key) list"
  ws_jobs :: "sub_key list"
  ws_passed :: "(string \<times> event) list"

text \<open>A delivery queues live events or ends the subscription; a completed snapshot queues EOSE and
  the live events buffered so far.\<close>

definition live_origin :: "frame \<Rightarrow> origin" where
  "live_origin b = (case b of FEvent _ _ \<Rightarrow> FromLive | _ \<Rightarrow> FromEnd)"

fun of_sub :: "string \<Rightarrow> frame \<Rightarrow> bool" where
  "of_sub sid (FEvent s ev) = (s = sid)"
| "of_sub sid (FEose s) = (s = sid)"
| "of_sub sid (FClosed s r) = (s = sid)"
| "of_sub sid _ = False"

definition matches_of :: "event \<Rightarrow> wire \<Rightarrow> (event \<times> sub_key) list" where
  "matches_of ev w = concat (map (\<lambda>(cid, subs). map (\<lambda>(sid, gen). (ev, cid, sid, gen)) subs) (broadcast_matches ev w))"

definition logged :: "(frame \<Rightarrow> origin) \<Rightarrow> sub_key \<Rightarrow> wire \<Rightarrow> wire_sys \<Rightarrow> wire_sys" where
  "logged tag key w' s = s\<lparr>ws_wire := w',
     ws_log := ws_log s @ map (\<lambda>b. (key, tag b, b)) (new_frames (fst key) (ws_wire s) w')\<rparr>"

text \<open>A change of the connections that is none of the pieces below: connections come, with an id
  not used before, and go; a frame is written; frames without a subscription are queued. What
  happens to a connection once its context is cancelled is left open.\<close>

definition conns_change :: "wire_sys \<Rightarrow> wire \<Rightarrow> bool" where
  "conns_change s w' \<longleftrightarrow> w_subs w' = w_subs (ws_wire s) \<and>
     (\<forall>cid c'. map_of (w_conns w') cid = Some c' \<longrightarrow> cn_ctx_done c' \<or>
        (case map_of (w_conns (ws_wire s)) cid of
           None \<Rightarrow> (\<forall>sid. List.filter (of_sub sid) (outbound c') = []) \<and> (\<forall>(key, _) \<in> set (ws_log s). fst key \<noteq> cid)
         | Some c \<Rightarrow> \<not> cn_ctx_done c \<and>
             (\<forall>sid. List.filter (of_sub sid) (outbound c') = List.filter (of_sub sid) (outbound c))))"

inductive wire_step :: "(string \<Rightarrow> event \<Rightarrow> wire \<Rightarrow> bool) \<Rightarrow> wire_sys \<Rightarrow> wire_sys \<Rightarrow> bool" for vis where
  conns: "conns_change s w' \<Longrightarrow> wire_step vis s (s\<lparr>ws_wire := w'\<rparr>)"
| connected: "wire_step vis s (s\<lparr>ws_wire := register_sender cid (ws_wire s)\<rparr>)"
| disconnected: "wire_step vis s (s\<lparr>ws_wire := snd (unregister_sender cid (ws_wire s))\<rparr>)"
| subscribe: "sub_add now cid sid filters (ws_wire s) = (None, w') \<Longrightarrow>
    wire_step vis s (s\<lparr>ws_wire := w', ws_jobs := (cid, sid, fst (sub_generation cid sid w')) # ws_jobs s\<rparr>)"
| refuse: "sub_add now cid sid filters (ws_wire s) = (Some err, w') \<Longrightarrow> wire_step vis s (s\<lparr>ws_wire := w'\<rparr>)"
| answer_closed: "wire_step vis s (logged (\<lambda>_. FromHandler) (cid, sid, fst (sub_generation cid sid (ws_wire s)))
    (snd (conn_op cid (send_closed sid reason) (ws_wire s))) s)"
| close: "wire_step vis s (s\<lparr>ws_wire := sub_remove cid sid (ws_wire s)\<rparr>)"
| match: "wire_step vis s (s\<lparr>ws_matched := matches_of ev (ws_wire s) @ ws_matched s\<rparr>)"
| check: "(ev, cid, sid, gen) \<in> set (ws_matched s) \<Longrightarrow> vis cid ev (ws_wire s) \<Longrightarrow>
    wire_step vis s (s\<lparr>ws_cleared := (ev, cid, sid, gen) # ws_cleared s\<rparr>)"
| deliver: "(ev, cid, sid, gen) \<in> set (ws_cleared s) \<Longrightarrow>
    wire_step vis s (logged live_origin (cid, sid, gen) (deliver_live ev cid sid gen (ws_wire s)) s)"
| check_stored: "vis cid ev (ws_wire s) \<Longrightarrow> wire_step vis s (s\<lparr>ws_passed := (cid, ev) # ws_passed s\<rparr>)"
| snapshot: "(cid, sid, gen) \<in> set (ws_jobs s) \<Longrightarrow> (cid, ev) \<in> set (ws_passed s) \<Longrightarrow>
    wire_step vis s (logged (\<lambda>_. FromStore) (cid, sid, gen)
      (snd (with_snapshot cid sid gen (snapshot_event_fn ctx_err cid sid ev) (ws_wire s))) s)"
| complete: "(cid, sid, gen) \<in> set (ws_jobs s) \<Longrightarrow>
    wire_step vis s (logged live_origin (cid, sid, gen) (snd (complete_snapshot ctx_err cid sid gen (ws_wire s)))
      (s\<lparr>ws_jobs := removeAll (cid, sid, gen) (ws_jobs s)\<rparr>))"
| query_error: "(cid, sid, gen) \<in> set (ws_jobs s) \<Longrightarrow>
    wire_step vis s (logged live_origin (cid, sid, gen) (snd (close_snapshot_on_query_error cid sid gen (ws_wire s)))
      (s\<lparr>ws_jobs := removeAll (cid, sid, gen) (ws_jobs s)\<rparr>))"

inductive wire_reach :: "(string \<Rightarrow> event \<Rightarrow> wire \<Rightarrow> bool) \<Rightarrow> wire_sys \<Rightarrow> bool" for vis where
  start: "wire_reach vis \<lparr>ws_wire = \<lparr>w_subs = new_subscription_manager cfg, w_conns = []\<rparr>,
     ws_log = [], ws_matched = [], ws_cleared = [], ws_jobs = [], ws_passed = []\<rparr>"
| step: "wire_reach vis s \<Longrightarrow> wire_step vis s s' \<Longrightarrow> wire_reach vis s'"

text \<open>The log of one connection and subscription id, in the order of the frames, and what the
  subscription of one generation contributed to it.\<close>

definition stream :: "string \<Rightarrow> string \<Rightarrow> wire_sys \<Rightarrow> (nat \<times> origin \<times> frame) list" where
  "stream cid sid s = map (\<lambda>((_, _, g), x). (g, x)) (List.filter (\<lambda>((c, sd, _), _). c = cid \<and> sd = sid) (ws_log s))"

definition own_entries :: "(nat \<times> origin \<times> frame) list \<Rightarrow> (nat \<times> origin \<times> frame) list" where
  "own_entries st = List.filter (\<lambda>(_, from, _). from \<noteq> FromHandler) st"

definition of_generation :: "nat \<Rightarrow> (nat \<times> origin \<times> frame) list \<Rightarrow> (origin \<times> frame) list" where
  "of_generation g st = map snd (List.filter (\<lambda>(g', _). g' = g) (own_entries st))"

definition pieces_of :: "sub_key \<Rightarrow> wire_sys \<Rightarrow> (origin \<times> frame) list" where
  "pieces_of key s = of_generation (snd (snd key)) (stream (fst key) (fst (snd key)) s)"

definition frames_of :: "sub_key \<Rightarrow> wire_sys \<Rightarrow> frame list" where
  "frames_of key s = map (\<lambda>(_, _, b). b) (List.filter (\<lambda>(k, _). k = key) (ws_log s))"

fun is_event_of :: "string \<Rightarrow> frame \<Rightarrow> bool" where
  "is_event_of sid (FEvent s ev) = (s = sid)"
| "is_event_of sid _ = False"

definition only_events :: "string \<Rightarrow> frame list \<Rightarrow> bool" where
  "only_events sid fs \<longleftrightarrow> list_all (is_event_of sid) fs"

definition events_from :: "origin \<Rightarrow> string \<Rightarrow> (origin \<times> frame) list \<Rightarrow> bool" where
  "events_from from sid fs \<longleftrightarrow> list_all (\<lambda>(x, b). x = from \<and> is_event_of sid b) fs"

text \<open>What a client may see of one subscription: stored events, then either EOSE and from there on
  live events only, or one CLOSED in place of EOSE and nothing after it.\<close>

fun sub_grammar :: "string \<Rightarrow> (origin \<times> frame) list \<Rightarrow> bool" where
  "sub_grammar sid [] = True"
| "sub_grammar sid ((from, FEvent s ev) # fs) \<longleftrightarrow> s = sid \<and> from = FromStore \<and> sub_grammar sid fs"
| "sub_grammar sid ((from, FEose s) # fs) \<longleftrightarrow> s = sid \<and> from = FromEnd \<and> events_from FromLive sid fs"
| "sub_grammar sid ((from, FClosed s r) # fs) \<longleftrightarrow> s = sid \<and> from = FromEnd \<and> fs = []"
| "sub_grammar sid (_ # fs) = False"

definition live_phase :: "string \<Rightarrow> (origin \<times> frame) list \<Rightarrow> bool" where
  "live_phase sid fs \<longleftrightarrow>
     (\<exists>a l. fs = a @ (FromEnd, FEose sid) # l \<and> events_from FromStore sid a \<and> events_from FromLive sid l)"

definition tagged :: "(frame \<Rightarrow> origin) \<Rightarrow> frame list \<Rightarrow> (origin \<times> frame) list" where
  "tagged tag fs = map (\<lambda>b. (tag b, b)) fs"

definition entry_ok :: "nat \<Rightarrow> string \<Rightarrow> (origin \<times> frame) list \<Rightarrow> sub_entry \<Rightarrow> bool" where
  "entry_ok n sid fs e \<longleftrightarrow>
     \<not> se_closed e \<and> se_generation e \<le> n \<and> only_events sid (se_pending_live e) \<and>
     length (se_pending_live e) \<le> pending_live_cap \<and>
     (if se_snapshot_done e then live_phase sid fs else events_from FromStore sid fs)"

definition keys_ok :: "'a wire_scheme \<Rightarrow> bool" where
  "keys_ok w \<longleftrightarrow> distinct (map fst (sm_subs (w_subs w))) \<and>
     (\<forall>(cid, cmap) \<in> set (sm_subs (w_subs w)). distinct (map fst cmap))"

definition wire_inv :: "wire_sys \<Rightarrow> bool" where
  "wire_inv s \<longleftrightarrow>
     keys_ok (ws_wire s) \<and>
     (\<forall>cid sid e. sub_lookup cid sid (ws_wire s) = Some e \<longrightarrow>
        entry_ok (sm_next_generation (w_subs (ws_wire s))) sid (pieces_of (cid, sid, se_generation e) s) e) \<and>
     (\<forall>((cid, sid, g), x) \<in> set (ws_log s). g \<le> sm_next_generation (w_subs (ws_wire s))) \<and>
     (\<forall>cid sid g. sub_grammar sid (pieces_of (cid, sid, g) s)) \<and>
     (\<forall>(ev, cid, sid, g) \<in> set (ws_matched s) \<union> set (ws_cleared s).
        g \<le> sm_next_generation (w_subs (ws_wire s)) \<and>
        (\<forall>e. sub_lookup cid sid (ws_wire s) = Some e \<and> se_generation e = g \<longrightarrow> filters_match (se_filters e) ev)) \<and>
     (\<forall>(cid, sid, g) \<in> set (ws_jobs s). g \<le> sm_next_generation (w_subs (ws_wire s)) \<and>
        (\<forall>e. sub_lookup cid sid (ws_wire s) = Some e \<and> se_generation e = g \<longrightarrow> \<not> se_snapshot_done e))"

lemma only_events_simps [simp]:
  "only_events sid []" "only_events sid (FEvent sid ev # fs) = only_events sid fs"
  "only_events sid (a @ b) \<longleftrightarrow> only_events sid a \<and> only_events sid b"
  by (simp_all add: only_events_def)

lemma events_from_simps [simp]:
  "events_from from sid []" "events_from from sid ((x, b) # fs) \<longleftrightarrow> x = from \<and> is_event_of sid b \<and> events_from from sid fs"
  "events_from from sid (k @ l) \<longleftrightarrow> events_from from sid k \<and> events_from from sid l"
  by (simp_all add: events_from_def)

lemma tagged_simps [simp]:
  "tagged tag [] = []" "tagged tag (b # fs) = (tag b, b) # tagged tag fs"
  by (simp_all add: tagged_def)

lemma live_origin_simps [simp]:
  "live_origin (FEvent sid ev) = FromLive" "live_origin (FEose sid) = FromEnd" "live_origin (FClosed sid r) = FromEnd"
  "live_origin b \<noteq> FromHandler"
  by (simp_all add: live_origin_def split: frame.split)

lemma tagged_events: "only_events sid fs \<Longrightarrow> events_from FromLive sid (tagged live_origin fs)"
proof (induction fs)
  case (Cons b fs)
  then show ?case by (cases b) (simp_all add: only_events_def)
qed simp

lemma live_phase_append: "live_phase sid fs \<Longrightarrow> events_from FromLive sid l \<Longrightarrow> live_phase sid (fs @ l)"
  by (auto simp: live_phase_def) (metis append_Cons append_assoc events_from_simps(3))

lemma grammar_after_stored: "events_from FromStore sid a \<Longrightarrow> sub_grammar sid (a @ l) = sub_grammar sid l"
proof (induction a)
  case (Cons x a)
  obtain t b where x: "x = (t, b)" by (cases x)
  show ?case using Cons by (cases b) (auto simp: x)
qed simp

lemma grammar_stored: "events_from FromStore sid a \<Longrightarrow> sub_grammar sid a"
  using grammar_after_stored [of sid a "[]"] by simp

lemma grammar_live: "live_phase sid fs \<Longrightarrow> sub_grammar sid fs"
  by (auto simp: live_phase_def grammar_after_stored)

lemma keys_ok_cong: "w_subs w = w_subs w' \<Longrightarrow> keys_ok w = keys_ok w'"
  by (simp add: keys_ok_def)

lemma keys_ok_send [simp]: "keys_ok (snd (send_to cid b w)) = keys_ok w" "keys_ok (snd (conn_op cid f w)) = keys_ok w"
  by (rule keys_ok_cong [OF send_to_subs], rule keys_ok_cong [OF conn_op_subs])

lemma conn_subs_distinct: "keys_ok w \<Longrightarrow> distinct (map fst (conn_subs cid w))"
  by (auto simp: keys_ok_def conn_subs_def split: option.split dest!: map_of_SomeD)

lemma set_update_subset: "set (AList.update k v m) \<subseteq> insert (k, v) (set m)"
  by (induction m) auto

lemma set_delete_subset: "set (AList.delete k m) \<subseteq> set m"
  by (auto simp: AList.delete_eq)

lemma keys_ok_update:
  assumes "keys_ok w" and "distinct (map fst cmap)"
  shows "keys_ok (set_subs (AList.update cid cmap (sm_subs (w_subs w))) w)"
proof -
  have "distinct (map fst m)" if "(c, m) \<in> set (AList.update cid cmap (sm_subs (w_subs w)))" for c m
    using set_update_subset [of cid cmap "sm_subs (w_subs w)"] that assms by (auto simp: keys_ok_def)
  then show ?thesis
    using assms(1) by (auto simp: keys_ok_def AList.distinct_update)
qed

lemma keys_ok_delete:
  assumes "keys_ok w"
  shows "keys_ok (set_subs (AList.delete cid (sm_subs (w_subs w))) w)"
proof -
  have "distinct (map fst m)" if "(c, m) \<in> set (AList.delete cid (sm_subs (w_subs w)))" for c m
    using set_delete_subset [of cid "sm_subs (w_subs w)"] that assms by (auto simp: keys_ok_def)
  then show ?thesis
    using assms by (auto simp: keys_ok_def AList.distinct_delete)
qed

lemma keys_ok_put [simp]: "keys_ok w \<Longrightarrow> keys_ok (put_entry cid sid e w)"
  unfolding put_entry_def by (rule keys_ok_update) (simp_all add: AList.distinct_update conn_subs_distinct)

lemma keys_ok_remove [simp]: "keys_ok w \<Longrightarrow> keys_ok (remove_locked cid sid w)"
proof (cases "map_of (sm_subs (w_subs w)) cid")
  case (Some cmap)
  assume a: "keys_ok w"
  then have "distinct (map fst cmap)" using conn_subs_distinct [OF a, of cid] Some by (simp add: conn_subs_def)
  then show ?thesis
    using Some keys_ok_update [OF a] keys_ok_delete [OF a]
    by (simp add: remove_locked_def Let_def AList.distinct_delete)
qed (simp add: remove_locked_def)

lemma entry_grammar: "entry_ok n sid fs e \<Longrightarrow> sub_grammar sid fs"
  by (auto simp: entry_ok_def grammar_stored grammar_live split: if_splits)

lemma closed_grammar:
  "entry_ok n sid fs e \<Longrightarrow> \<not> se_snapshot_done e \<Longrightarrow> sub_grammar sid (fs @ [(FromEnd, FClosed sid r)])"
  by (auto simp: entry_ok_def grammar_after_stored)

lemma stream_logged:
  "stream cid' sid' (logged tag (cid, sid, g) w' s) =
     stream cid' sid' s @
       (if cid' = cid \<and> sid' = sid then map (\<lambda>b. (g, tag b, b)) (new_frames cid (ws_wire s) w') else [])"
  by (auto simp: stream_def logged_def filter_map o_def)

lemma own_entries_append [simp]: "own_entries (a @ b) = own_entries a @ own_entries b"
  by (simp add: own_entries_def)

lemma own_entries_tagged:
  "(\<And>b. tag b \<noteq> FromHandler) \<Longrightarrow> own_entries (map (\<lambda>b. (g, tag b, b)) fs) = map (\<lambda>b. (g, tag b, b)) fs"
  by (simp add: own_entries_def)

lemma own_entries_handler: "own_entries (map (\<lambda>b. (g, FromHandler, b)) fs) = []"
  by (simp add: own_entries_def)

lemma of_generation_append: "of_generation g (a @ b) = of_generation g a @ of_generation g b"
  by (simp add: of_generation_def)

lemma of_generation_tagged:
  "(\<And>b. tag b \<noteq> FromHandler) \<Longrightarrow>
   of_generation g' (map (\<lambda>b. (g, tag b, b)) fs) = (if g' = g then tagged tag fs else [])"
  by (simp add: of_generation_def own_entries_tagged tagged_def filter_map o_def)

lemma of_generation_handler: "of_generation g' (map (\<lambda>b. (g, FromHandler, b)) fs) = []"
  by (simp add: of_generation_def own_entries_handler)

lemma pieces_of_logged:
  assumes "\<And>b. tag b \<noteq> FromHandler"
  shows "pieces_of (cid', sid', g') (logged tag (cid, sid, g) w' s) =
     pieces_of (cid', sid', g') s @
       (if (cid', sid', g') = (cid, sid, g) then tagged tag (new_frames cid (ws_wire s) w') else [])"
  using assms of_generation_append [of _ _ "[]"]
  by (auto simp: pieces_of_def stream_logged of_generation_append of_generation_tagged of_generation_def own_entries_def
      tagged_def)

lemma pieces_of_answer:
  "pieces_of key (logged (\<lambda>_. FromHandler) (cid, sid, g) w' s) = pieces_of key s"
  by (simp add: pieces_of_def stream_logged of_generation_append of_generation_handler)
    (simp add: of_generation_def own_entries_def)

lemma frames_of_logged:
  "frames_of key' (logged tag key w' s) =
     frames_of key' s @ (if key' = key then new_frames (fst key) (ws_wire s) w' else [])"
  by (simp add: frames_of_def logged_def filter_map o_def)

lemma stream_wire [simp]:
  "stream cid sid (s\<lparr>ws_wire := w\<rparr>) = stream cid sid s"
  "stream cid sid (s\<lparr>ws_matched := m\<rparr>) = stream cid sid s"
  "stream cid sid (s\<lparr>ws_cleared := m\<rparr>) = stream cid sid s"
  "stream cid sid (s\<lparr>ws_jobs := j\<rparr>) = stream cid sid s"
  "stream cid sid (s\<lparr>ws_passed := q\<rparr>) = stream cid sid s"
  by (simp_all add: stream_def)

lemma pieces_of_wire [simp]:
  "pieces_of key (s\<lparr>ws_wire := w\<rparr>) = pieces_of key s"
  "pieces_of key (s\<lparr>ws_matched := m\<rparr>) = pieces_of key s"
  "pieces_of key (s\<lparr>ws_cleared := m\<rparr>) = pieces_of key s"
  "pieces_of key (s\<lparr>ws_jobs := j\<rparr>) = pieces_of key s"
  "pieces_of key (s\<lparr>ws_passed := q\<rparr>) = pieces_of key s"
  by (simp_all add: pieces_of_def)

text \<open>An operation that only removes entries or touches connections keeps the invariant.\<close>

lemma inv_shrink:
  assumes "wire_inv s" and "keys_ok w'" and "sm_next_generation (w_subs w') = sm_next_generation (w_subs (ws_wire s))"
    and "\<And>cid sid e. sub_lookup cid sid w' = Some e \<Longrightarrow> sub_lookup cid sid (ws_wire s) = Some e"
  shows "wire_inv (s\<lparr>ws_wire := w'\<rparr>)"
  using assms unfolding wire_inv_def by (simp add: case_prod_unfold)

text \<open>An operation on the current entry of a key.\<close>

lemma inv_update:
  assumes inv: "wire_inv s" and tag: "\<And>b. tag b \<noteq> FromHandler"
    and cur: "sub_lookup cid sid (ws_wire s) = Some e" "se_generation e = g"
    and keys: "keys_ok w'" and next_gen: "sm_next_generation (w_subs w') = sm_next_generation (w_subs (ws_wire s))"
    and others: "\<And>cid' sid'. (cid', sid') \<noteq> (cid, sid) \<Longrightarrow> sub_lookup cid' sid' w' = sub_lookup cid' sid' (ws_wire s)"
    and this_one: "case sub_lookup cid sid w' of
      Some e' \<Rightarrow> se_generation e' = g \<and> se_filters e' = se_filters e \<and>
        (se_snapshot_done e' \<longrightarrow> se_snapshot_done e \<or> (cid, sid, g) \<notin> set (ws_jobs s)) \<and>
        entry_ok (sm_next_generation (w_subs w')) sid (pieces_of (cid, sid, g) s @ tagged tag (new_frames cid (ws_wire s) w')) e'
    | None \<Rightarrow> sub_grammar sid (pieces_of (cid, sid, g) s @ tagged tag (new_frames cid (ws_wire s) w'))"
  shows "wire_inv (logged tag (cid, sid, g) w' s)"
proof -
  let ?s = "logged tag (cid, sid, g) w' s" and ?n = "sm_next_generation (w_subs (ws_wire s))"
  have w: "ws_wire ?s = w'" "ws_matched ?s = ws_matched s" "ws_cleared ?s = ws_cleared s" "ws_jobs ?s = ws_jobs s"
    by (simp_all add: logged_def)
  have ok: "entry_ok ?n sid' (pieces_of (cid', sid', se_generation e') s) e'"
    if "sub_lookup cid' sid' (ws_wire s) = Some e'" for cid' sid' e'
    using inv that by (simp add: wire_inv_def)
  have 1: "entry_ok ?n sid' (pieces_of (cid', sid', se_generation e') ?s) e'"
    if "sub_lookup cid' sid' w' = Some e'" for cid' sid' e'
  proof (cases "(cid', sid') = (cid, sid)")
    case True
    then show ?thesis using this_one that next_gen by (simp add: pieces_of_logged [OF tag])
  next
    case False
    then have "sub_lookup cid' sid' (ws_wire s) = Some e'" using others that by metis
    then show ?thesis using ok False by (auto simp: pieces_of_logged [OF tag])
  qed
  have "sub_grammar sid (pieces_of (cid, sid, g) s @ tagged tag (new_frames cid (ws_wire s) w'))"
    using this_one entry_grammar by (cases "sub_lookup cid sid w'") auto
  then have 3: "sub_grammar sid' (pieces_of (cid', sid', g') ?s)" for cid' sid' g'
    using inv by (auto simp: pieces_of_logged [OF tag] wire_inv_def)
  have "g \<le> ?n" using ok [OF cur(1)] cur(2) by (simp add: entry_ok_def)
  then have 2: "\<forall>((cid, sid, g), x) \<in> set (ws_log ?s). g \<le> ?n"
    using inv by (auto simp: logged_def wire_inv_def)
  have 4: "g' \<le> ?n \<and> (\<forall>e'. sub_lookup cid' sid' w' = Some e' \<and> se_generation e' = g' \<longrightarrow> filters_match (se_filters e') ev)"
    if "(ev, cid', sid', g') \<in> set (ws_matched s) \<union> set (ws_cleared s)" for ev cid' sid' g'
  proof -
    have old: "g' \<le> ?n \<and> (\<forall>e'. sub_lookup cid' sid' (ws_wire s) = Some e' \<and> se_generation e' = g' \<longrightarrow>
        filters_match (se_filters e') ev)"
      using inv that unfolding wire_inv_def by fastforce
    show ?thesis
    proof (cases "(cid', sid') = (cid, sid)")
      case True
      then show ?thesis using old this_one cur by (auto split: option.splits)
    next
      case False
      then show ?thesis using old others by metis
    qed
  qed
  have 5: "g' \<le> ?n \<and> (\<forall>e'. sub_lookup cid' sid' w' = Some e' \<and> se_generation e' = g' \<longrightarrow> \<not> se_snapshot_done e')"
    if "(cid', sid', g') \<in> set (ws_jobs s)" for cid' sid' g'
  proof -
    have old: "g' \<le> ?n \<and> (\<forall>e'. sub_lookup cid' sid' (ws_wire s) = Some e' \<and> se_generation e' = g' \<longrightarrow>
        \<not> se_snapshot_done e')"
      using inv that unfolding wire_inv_def by fastforce
    show ?thesis
    proof (cases "(cid', sid') = (cid, sid)")
      case True
      then show ?thesis using old this_one cur that by (auto split: option.splits)
    next
      case False
      then show ?thesis using old others by metis
    qed
  qed
  show ?thesis
    unfolding wire_inv_def w next_gen using keys 1 2 3 4 5 by blast
qed

lemma inv_same: "wire_inv s \<Longrightarrow> w' = ws_wire s \<Longrightarrow> wire_inv (logged tag key w' s)"
proof -
  assume a: "wire_inv s" "w' = ws_wire s"
  have "logged tag key w' s = s" using a(2) by (simp add: logged_def new_frames_def)
  then show ?thesis using a(1) by simp
qed

lemma inv_jobs:
  "wire_inv s \<Longrightarrow> set j \<subseteq> set (ws_jobs s) \<Longrightarrow> wire_inv (s\<lparr>ws_jobs := j\<rparr>)"
  unfolding wire_inv_def by (auto simp: case_prod_unfold)

lemma entry_ok_live:
  "entry_ok n sid fs e \<Longrightarrow> se_snapshot_done e \<Longrightarrow> only_events sid l \<Longrightarrow> entry_ok n sid (fs @ tagged live_origin l) e"
  by (simp add: entry_ok_def live_phase_append tagged_events)

lemma entry_ok_stored:
  "entry_ok n sid fs e \<Longrightarrow> \<not> se_snapshot_done e \<Longrightarrow> events_from FromStore sid l \<Longrightarrow> entry_ok n sid (fs @ l) e"
  by (simp add: entry_ok_def)

lemma entry_ok_same:
  "entry_ok n sid fs e \<Longrightarrow> se_closed e' = se_closed e \<Longrightarrow> se_generation e' = se_generation e \<Longrightarrow>
   se_pending_live e' = se_pending_live e \<Longrightarrow> se_snapshot_done e' = se_snapshot_done e \<Longrightarrow> entry_ok n sid fs e'"
  by (simp add: entry_ok_def)

lemma inv_entry:
  "wire_inv s \<Longrightarrow> sub_lookup cid sid (ws_wire s) = Some e \<Longrightarrow>
   entry_ok (sm_next_generation (w_subs (ws_wire s))) sid (pieces_of (cid, sid, se_generation e) s) e"
  by (simp add: wire_inv_def)

lemma flush_pending_Cons:
  "flush_pending cid (b # pending) e w =
     flush_pending cid pending
       (if fst (send_to cid b w) then e\<lparr>se_broadcast_ok := se_broadcast_ok e + 1\<rparr>
        else e\<lparr>se_broadcast_drop := se_broadcast_drop e + 1\<rparr>) (snd (send_to cid b w))"
  by (simp add: case_prod_unfold Let_def)

lemma flush_pending_subs [simp]: "w_subs (snd (flush_pending cid pending e w)) = w_subs w"
  by (induction pending arbitrary: e w) (simp_all add: flush_pending_Cons del: flush_pending.simps(2))

lemma flush_pending_entry:
  "\<exists>a b. fst (flush_pending cid pending e w) = e\<lparr>se_broadcast_ok := a, se_broadcast_drop := b\<rparr>"
proof (induction pending arbitrary: e w)
  case Nil
  show ?case by (rule exI [of _ "se_broadcast_ok e"], rule exI [of _ "se_broadcast_drop e"]) simp
next
  case (Cons b pending)
  let ?e = "if fst (send_to cid b w) then e\<lparr>se_broadcast_ok := se_broadcast_ok e + 1\<rparr>
    else e\<lparr>se_broadcast_drop := se_broadcast_drop e + 1\<rparr>"
  obtain x y where "fst (flush_pending cid (b # pending) e w) = ?e\<lparr>se_broadcast_ok := x, se_broadcast_drop := y\<rparr>"
    using Cons [of ?e "snd (send_to cid b w)"] by (auto simp only: flush_pending_Cons)
  then show ?case by (intro exI [of _ x] exI [of _ y]) simp
qed

lemma flush_pending_out:
  "\<exists>l. out_of cid (snd (flush_pending cid pending e w)) = out_of cid w @ l \<and> set l \<subseteq> set pending"
proof (induction pending arbitrary: e w)
  case (Cons b pending)
  let ?e = "if fst (send_to cid b w) then e\<lparr>se_broadcast_ok := se_broadcast_ok e + 1\<rparr>
    else e\<lparr>se_broadcast_drop := se_broadcast_drop e + 1\<rparr>"
  obtain l where l: "out_of cid (snd (flush_pending cid (b # pending) e w)) =
      out_of cid (snd (send_to cid b w)) @ l" "set l \<subseteq> set pending"
    using Cons [of ?e "snd (send_to cid b w)"] by (auto simp only: flush_pending_Cons)
  show ?case
    by (rule exI [of _ "(if fst (send_to cid b w) then [b] else []) @ l"])
      (use l in \<open>auto simp: out_send_to simp del: flush_pending.simps\<close>)
qed simp

lemma finish_snapshot_locked_keys [simp]: "keys_ok w \<Longrightarrow> keys_ok (finish_snapshot_locked cid sid e w)"
  by (simp add: finish_snapshot_locked_def case_prod_unfold Let_def keys_ok_cong [OF flush_pending_subs])

lemma inv_keys: "wire_inv s \<Longrightarrow> keys_ok (ws_wire s)"
  by (simp add: wire_inv_def)

lemma finish_snapshot_locked_effect:
  assumes "has_sender cid w" "only_events sid (se_pending_live e)"
  shows "\<exists>l a b. only_events sid l \<and> out_of cid (finish_snapshot_locked cid sid e w) = out_of cid w @ l \<and>
    (\<forall>cid' sid'. sub_lookup cid' sid' (finish_snapshot_locked cid sid e w) =
       (if (cid', sid') = (cid, sid) then Some (e\<lparr>se_snapshot_done := True, se_pending_live := [],
          se_broadcast_ok := a, se_broadcast_drop := b\<rparr>) else sub_lookup cid' sid' w)) \<and>
    sm_next_generation (w_subs (finish_snapshot_locked cid sid e w)) = sm_next_generation (w_subs w)"
proof -
  let ?e = "e\<lparr>se_snapshot_done := True, se_pending_live := []\<rparr>"
  let ?r = "flush_pending cid (se_pending_live e) ?e w"
  obtain a b where ab: "fst ?r = ?e\<lparr>se_broadcast_ok := a, se_broadcast_drop := b\<rparr>"
    using flush_pending_entry by blast
  obtain l where l: "out_of cid (snd ?r) = out_of cid w @ l" "set l \<subseteq> set (se_pending_live e)"
    using flush_pending_out by blast
  have "only_events sid l" using l(2) assms(2) by (auto simp: only_events_def list_all_iff)
  moreover have f: "finish_snapshot_locked cid sid e w = put_entry cid sid (fst ?r) (snd ?r)"
    using assms(1) by (simp add: finish_snapshot_locked_def Let_def case_prod_unfold)
  moreover have "sub_lookup cid' sid' (snd ?r) = sub_lookup cid' sid' w" for cid' sid'
    by (rule lookup_cong) simp
  ultimately show ?thesis
    using l(1) ab by (intro exI [of _ l] exI [of _ a] exI [of _ b]) auto
qed

text \<open>The pieces of the operations preserve the invariant.\<close>

lemma deliver_inv:
  assumes inv: "wire_inv s"
  shows "wire_inv (logged live_origin (cid, sid, g) (deliver_live ev cid sid g (ws_wire s)) s)"
proof -
  let ?w = "ws_wire s"
  consider (skip) "deliver_live ev cid sid g ?w = ?w"
    | (live) e where "sub_lookup cid sid ?w = Some e" "se_generation e = g" "\<not> se_closed e" "has_sender cid ?w"
  proof (cases "\<exists>e. sub_lookup cid sid ?w = Some e \<and> se_generation e = g \<and> \<not> se_closed e \<and> has_sender cid ?w")
    case False
    then have "deliver_live ev cid sid g ?w = ?w"
      by (cases "sub_lookup cid sid ?w") (simp_all add: deliver_live_def marshal_relay_event_def)
    then show thesis by (rule skip)
  qed (use live in blast)
  then show ?thesis
  proof cases
    case skip
    then show ?thesis using inv_same [OF inv] by simp
  next
    case live
    note ok = inv_entry [OF inv live(1), unfolded live(2)]
    let ?w' = "deliver_live ev cid sid g ?w"
    consider (overflow) "\<not> se_snapshot_done e" "pending_live_cap \<le> length (se_pending_live e)"
      | (buffer) "\<not> se_snapshot_done e" "\<not> pending_live_cap \<le> length (se_pending_live e)"
      | (send) "se_snapshot_done e" by blast
    then show ?thesis
    proof cases
      case overflow
      let ?w1 = "remove_locked cid sid ?w"
      have w': "?w' = snd (send_to cid (FClosed sid overflow_reason) ?w1)"
        using live overflow by (simp add: deliver_live_def marshal_relay_event_def)
      have "new_frames cid ?w ?w' = [] \<or> new_frames cid ?w ?w' = [FClosed sid overflow_reason]"
        using new_frames_append [of cid ?w' ?w] by (auto simp: w' out_send_to)
      then show ?thesis
        by (intro inv_update [OF inv live_origin_simps(4) live(1,2)])
          (auto simp: w' inv_keys [OF inv] intro: entry_grammar [OF ok] closed_grammar [OF ok overflow(1)])
    next
      case buffer
      have w': "?w' = put_entry cid sid (e\<lparr>se_pending_live := se_pending_live e @ [FEvent sid ev]\<rparr>) ?w"
        using live buffer by (simp add: deliver_live_def marshal_relay_event_def)
      have nf: "new_frames cid ?w ?w' = []" by (rule new_frames_append) (simp add: w')
      show ?thesis
        by (rule inv_update [OF inv live_origin_simps(4) live(1,2)]) (use ok buffer nf inv_keys [OF inv] in \<open>auto simp: w' entry_ok_def live(2)\<close>)
    next
      case send
      let ?r = "send_to cid (FEvent sid ev) ?w"
      obtain e' where e': "?w' = put_entry cid sid e' (snd ?r)"
        "se_closed e' = se_closed e" "se_generation e' = g" "se_filters e' = se_filters e"
        "se_pending_live e' = se_pending_live e" "se_snapshot_done e' = se_snapshot_done e"
        using live send by (simp add: deliver_live_def marshal_relay_event_def case_prod_unfold Let_def)
      have nf: "only_events sid (new_frames cid ?w ?w')"
        using new_frames_append [of cid ?w' ?w "if fst ?r then [FEvent sid ev] else []"] by (auto simp: e'(1) out_send_to)
      have "entry_ok (sm_next_generation (w_subs ?w)) sid
          (pieces_of (cid, sid, g) s @ tagged live_origin (new_frames cid ?w ?w')) e'"
        by (rule entry_ok_same [OF entry_ok_live [OF ok send nf]]) (simp_all add: e' live(2))
      then show ?thesis
        by (intro inv_update [OF inv live_origin_simps(4) live(1,2)]) (auto simp: e' send inv_keys [OF inv])
    qed
  qed
qed

lemma with_snapshot_cases:
  obtains (gone) "with_snapshot cid sid g fn w = (None, w)"
  | (current) e where "sub_lookup cid sid w = Some e" "se_generation e = g" "\<not> se_closed e" "has_sender cid w"
      "with_snapshot cid sid g fn w = (Some (fst (fn e w)), snd (fn e w))"
proof (cases "\<exists>e. sub_lookup cid sid w = Some e \<and> se_generation e = g \<and> \<not> se_closed e \<and> has_sender cid w")
  case False
  then have "with_snapshot cid sid g fn w = (None, w)"
    by (cases "sub_lookup cid sid w") (simp_all add: with_snapshot_def)
  then show thesis by (rule gone)
next
  case True
  then obtain e where "sub_lookup cid sid w = Some e" "se_generation e = g" "\<not> se_closed e" "has_sender cid w"
    by blast
  moreover from this have "with_snapshot cid sid g fn w = (Some (fst (fn e w)), snd (fn e w))"
    by (simp add: with_snapshot_def case_prod_unfold Let_def)
  ultimately show thesis by (rule current)
qed

lemma snapshot_event_inv:
  assumes inv: "wire_inv s"
    and not_done: "\<And>e. sub_lookup cid sid (ws_wire s) = Some e \<Longrightarrow> se_generation e = g \<Longrightarrow> \<not> se_snapshot_done e"
  shows "wire_inv (logged (\<lambda>_. FromStore) (cid, sid, g)
    (snd (with_snapshot cid sid g (snapshot_event_fn ctx_err cid sid ev) (ws_wire s))) s)"
proof (cases rule: with_snapshot_cases [of cid sid g "snapshot_event_fn ctx_err cid sid ev" "ws_wire s"])
  case gone
  then show ?thesis using inv_same [OF inv] by simp
next
  case (current e)
  let ?w = "ws_wire s"
  show ?thesis
  proof (cases "snapshot_canceled ctx_err cid ?w")
    case True
    then show ?thesis using current inv_same [OF inv] by (simp add: snapshot_event_fn_def)
  next
    case False
    note ok = inv_entry [OF inv current(1), unfolded current(2)]
    let ?r = "conn_op cid (enqueue (FEvent sid ev)) ?w"
    let ?w' = "snd (snapshot_event_fn ctx_err cid sid ev e ?w)"
    obtain e' where e': "?w' = put_entry cid sid e' (snd ?r)"
      "se_closed e' = se_closed e" "se_generation e' = g" "se_filters e' = se_filters e"
      "se_pending_live e' = se_pending_live e" "se_snapshot_done e' = se_snapshot_done e"
      using False current by (simp add: snapshot_event_fn_def send_event_enqueue case_prod_unfold Let_def)
    have nf: "events_from FromStore sid (tagged (\<lambda>_. FromStore) (new_frames cid ?w ?w'))"
      using new_frames_append [of cid ?w' ?w "if fst ?r = None then [FEvent sid ev] else []"]
      by (auto simp: e'(1) out_conn_op)
    have "entry_ok (sm_next_generation (w_subs ?w)) sid
        (pieces_of (cid, sid, g) s @ tagged (\<lambda>_. FromStore) (new_frames cid ?w ?w')) e'"
      by (rule entry_ok_same [OF entry_ok_stored [OF ok not_done [OF current(1,2)] nf]]) (simp_all add: e' current(2))
    then have "wire_inv (logged (\<lambda>_. FromStore) (cid, sid, g) ?w' s)"
      by (intro inv_update [OF inv _ current(1,2)]) (auto simp: e' inv_keys [OF inv])
    then show ?thesis using current(5) by simp
  qed
qed


lemma complete_inv:
  assumes inv: "wire_inv s" and no_job: "(cid, sid, g) \<notin> set (ws_jobs s)"
    and not_done: "\<And>e. sub_lookup cid sid (ws_wire s) = Some e \<Longrightarrow> se_generation e = g \<Longrightarrow> \<not> se_snapshot_done e"
  shows "wire_inv (logged live_origin (cid, sid, g) (snd (complete_snapshot ctx_err cid sid g (ws_wire s))) s)"
proof (cases rule: with_snapshot_cases [of cid sid g "complete_fn ctx_err cid sid" "ws_wire s"])
  case gone
  then show ?thesis using inv_same [OF inv] by (simp add: complete_snapshot_def)
next
  case (current e)
  let ?w = "ws_wire s"
  let ?w' = "snd (complete_fn ctx_err cid sid e ?w)"
  have run: "snd (complete_snapshot ctx_err cid sid g ?w) = ?w'"
    using current(5) by (simp add: complete_snapshot_def)
  note ok = inv_entry [OF inv current(1), unfolded current(2)]
  let ?r = "conn_op cid (enqueue (FEose sid)) ?w"
  consider (canceled) "snapshot_canceled ctx_err cid ?w"
    | (failed) "\<not> snapshot_canceled ctx_err cid ?w" "fst ?r \<noteq> None"
    | (sent) "\<not> snapshot_canceled ctx_err cid ?w" "fst ?r = None" by blast
  then show ?thesis
  proof cases
    case canceled
    then show ?thesis unfolding run using inv_same [OF inv] by (simp add: complete_fn_def)
  next
    case failed
    then obtain err where "fst ?r = Some err" by blast
    with failed have w': "?w' = snd ?r"
      by (simp add: complete_fn_def send_eose_enqueue case_prod_unfold Let_def)
    have nf: "new_frames cid ?w ?w' = []"
      by (rule new_frames_append) (use failed in \<open>simp add: w' out_conn_op\<close>)
    show ?thesis unfolding run
      by (rule inv_update [OF inv live_origin_simps(4) current(1,2)]) (use nf ok current inv_keys [OF inv] in \<open>simp_all add: w'\<close>)
  next
    case sent
    let ?e = "e\<lparr>se_eose_sent := se_eose_sent e + 1\<rparr>"
    have w': "?w' = finish_snapshot_locked cid sid ?e (snd ?r)"
      using sent by (simp add: complete_fn_def send_eose_enqueue case_prod_unfold Let_def)
    have "has_sender cid (snd ?r)" "only_events sid (se_pending_live ?e)"
      using current ok by (simp_all add: entry_ok_def)
    from finish_snapshot_locked_effect [OF this] obtain l a b where
      l: "only_events sid l" and out: "out_of cid ?w' = out_of cid (snd ?r) @ l"
      and look: "\<And>cid' sid'. sub_lookup cid' sid' ?w' =
        (if (cid', sid') = (cid, sid) then Some (?e\<lparr>se_snapshot_done := True, se_pending_live := [],
            se_broadcast_ok := a, se_broadcast_drop := b\<rparr>) else sub_lookup cid' sid' (snd ?r))"
      and gen: "sm_next_generation (w_subs ?w') = sm_next_generation (w_subs (snd ?r))"
      unfolding w' by blast
    have nf: "new_frames cid ?w ?w' = FEose sid # l"
      by (rule new_frames_append) (use sent in \<open>simp add: out out_conn_op\<close>)
    have "events_from FromStore sid (pieces_of (cid, sid, g) s)"
      using ok not_done [OF current(1,2)] by (simp add: entry_ok_def)
    then have "live_phase sid (pieces_of (cid, sid, g) s @ tagged live_origin (FEose sid # l))"
      using tagged_events [OF l] by (auto simp: live_phase_def)
    moreover have "keys_ok ?w'" using inv_keys [OF inv] by (simp add: w')
    ultimately show ?thesis unfolding run
      by (intro inv_update [OF inv live_origin_simps(4) current(1,2)])
        (use ok no_job current(2) in \<open>auto simp: look gen nf entry_ok_def\<close>)
  qed
qed

lemma query_error_inv:
  assumes inv: "wire_inv s"
    and not_done: "\<And>e. sub_lookup cid sid (ws_wire s) = Some e \<Longrightarrow> se_generation e = g \<Longrightarrow> \<not> se_snapshot_done e"
  shows "wire_inv (logged live_origin (cid, sid, g) (snd (close_snapshot_on_query_error cid sid g (ws_wire s))) s)"
proof (cases rule: with_snapshot_cases [of cid sid g "close_error_fn cid sid" "ws_wire s"])
  case gone
  then show ?thesis using inv_same [OF inv] by (simp add: close_snapshot_on_query_error_def)
next
  case (current e)
  let ?w = "ws_wire s" and ?r = "conn_op cid (enqueue (FClosed sid ''internal error'')) (ws_wire s)"
  let ?w' = "remove_locked cid sid (snd ?r)"
  have run: "snd (close_snapshot_on_query_error cid sid g ?w) = ?w'"
    using current(5) by (simp add: close_snapshot_on_query_error_def close_error_fn_def send_closed_enqueue
        case_prod_unfold Let_def)
  note ok = inv_entry [OF inv current(1), unfolded current(2)]
  have nf: "new_frames cid ?w ?w' = [] \<or> new_frames cid ?w ?w' = [FClosed sid ''internal error'']"
    using new_frames_append [of cid ?w' ?w] by (auto simp: out_conn_op)
  show ?thesis unfolding run
    by (rule inv_update [OF inv live_origin_simps(4) current(1,2)])
      (use nf inv_keys [OF inv] in \<open>auto intro: entry_grammar [OF ok] closed_grammar [OF ok not_done [OF current(1,2)]]\<close>)
qed

text \<open>A new subscription gets a generation no log entry, match or job has.\<close>

lemma sub_add_refused:
  assumes "sub_add now cid sid fs w = (Some err, w')"
  shows "sub_lookup cid' sid' w' = sub_lookup cid' sid' w"
    "sm_next_generation (w_subs w') = sm_next_generation (w_subs w)" "keys_ok w \<Longrightarrow> keys_ok w'"
proof -
  have "w' = w \<or> (map_of (sm_subs (w_subs w)) cid = None \<and> w' = set_subs (AList.update cid [] (sm_subs (w_subs w))) w)"
    using assms by (auto simp: sub_add_def Let_def split: if_splits)
  then show "sub_lookup cid' sid' w' = sub_lookup cid' sid' w"
    "sm_next_generation (w_subs w') = sm_next_generation (w_subs w)" "keys_ok w \<Longrightarrow> keys_ok w'"
    by (auto simp: sub_lookup_def conn_subs_def keys_ok_update)
qed

lemma sub_add_accepted:
  assumes "sub_add now cid sid fs w = (None, w')"
  shows "sub_lookup cid' sid' w' = (if (cid', sid') = (cid, sid)
      then Some (new_sub_entry (Suc (sm_next_generation (w_subs w))) fs now) else sub_lookup cid' sid' w)"
    "sm_next_generation (w_subs w') = Suc (sm_next_generation (w_subs w))"
    "fst (sub_generation cid sid w') = Suc (sm_next_generation (w_subs w))" "keys_ok w \<Longrightarrow> keys_ok w'"
proof -
  define w1 where "w1 = (if map_of (sm_subs (w_subs w)) cid = None
    then set_subs (AList.update cid [] (sm_subs (w_subs w))) w else w)"
  define w2 where "w2 = w1\<lparr>w_subs := (w_subs w1)\<lparr>sm_next_generation := sm_next_generation (w_subs w) + 1\<rparr>\<rparr>"
  let ?e = "new_sub_entry (Suc (sm_next_generation (w_subs w))) fs now"
  have w': "w' = put_entry cid sid ?e w2"
    using assms unfolding sub_add_def Let_def w1_def [symmetric] w2_def
    by (auto split: if_splits)
  have c1: "conn_subs c w1 = conn_subs c w" for c
    by (simp add: w1_def conn_subs_def)
  have "conn_subs c w2 = conn_subs c w1" for c
    by (simp add: w2_def conn_subs_def)
  then have look: "sub_lookup c sd w2 = sub_lookup c sd w" for c sd
    using c1 by (simp add: sub_lookup_def)
  show "sub_lookup cid' sid' w' = (if (cid', sid') = (cid, sid) then Some ?e else sub_lookup cid' sid' w)"
    by (simp add: w' look)
  show "sm_next_generation (w_subs w') = Suc (sm_next_generation (w_subs w))"
    by (simp add: w' w2_def)
  show "fst (sub_generation cid sid w') = Suc (sm_next_generation (w_subs w))"
    by (simp add: w' sub_generation_def new_sub_entry_def)
  assume k: "keys_ok w"
  have "keys_ok w1" using keys_ok_update [OF k, of "[]" cid] k by (simp add: w1_def)
  then have "keys_ok w2" by (simp add: w2_def keys_ok_def)
  then show "keys_ok w'" by (simp add: w')
qed

lemma subscribe_inv:
  assumes inv: "wire_inv s" and add: "sub_add now cid sid fs (ws_wire s) = (None, w')"
  shows "wire_inv (s\<lparr>ws_wire := w', ws_jobs := (cid, sid, fst (sub_generation cid sid w')) # ws_jobs s\<rparr>)"
proof -
  let ?n = "sm_next_generation (w_subs (ws_wire s))"
  let ?s = "s\<lparr>ws_wire := w', ws_jobs := (cid, sid, Suc ?n) # ws_jobs s\<rparr>"
  note look = sub_add_accepted(1) [OF add] and gens = sub_add_accepted(2,3) [OF add]
  have log: "\<forall>((c, sd, g), x) \<in> set (ws_log s). g \<le> ?n" using inv by (simp add: wire_inv_def)
  then have new: "pieces_of (cid, sid, Suc ?n) s = []"
    by (fastforce simp: pieces_of_def of_generation_def own_entries_def stream_def filter_empty_conv)
  have 1: "entry_ok (Suc ?n) sid' (pieces_of (cid', sid', se_generation e) s) e"
    if "sub_lookup cid' sid' w' = Some e" for cid' sid' e
  proof (cases "(cid', sid') = (cid, sid)")
    case True
    then show ?thesis using that new by (auto simp: look entry_ok_def new_sub_entry_def)
  next
    case False
    then have "sub_lookup cid' sid' (ws_wire s) = Some e" using that look by metis
    from inv_entry [OF inv this] show ?thesis by (simp add: entry_ok_def)
  qed
  have 4: "g \<le> Suc ?n \<and> (\<forall>e. sub_lookup cid' sid' w' = Some e \<and> se_generation e = g \<longrightarrow> filters_match (se_filters e) ev)"
    if "(ev, cid', sid', g) \<in> set (ws_matched s) \<union> set (ws_cleared s)" for ev cid' sid' g
  proof -
    have "g \<le> ?n \<and> (\<forall>e. sub_lookup cid' sid' (ws_wire s) = Some e \<and> se_generation e = g \<longrightarrow> filters_match (se_filters e) ev)"
      using inv that unfolding wire_inv_def by fastforce
    then show ?thesis by (auto simp: look new_sub_entry_def)
  qed
  have 5: "g \<le> Suc ?n \<and> (\<forall>e. sub_lookup cid' sid' w' = Some e \<and> se_generation e = g \<longrightarrow> \<not> se_snapshot_done e)"
    if "(cid', sid', g) \<in> set (ws_jobs ?s)" for cid' sid' g
  proof (cases "(cid', sid', g) = (cid, sid, Suc ?n)")
    case True
    then show ?thesis by (auto simp: look new_sub_entry_def)
  next
    case False
    then have "g \<le> ?n \<and> (\<forall>e. sub_lookup cid' sid' (ws_wire s) = Some e \<and> se_generation e = g \<longrightarrow> \<not> se_snapshot_done e)"
      using inv that unfolding wire_inv_def by fastforce
    then show ?thesis by (auto simp: look new_sub_entry_def)
  qed
  have k: "keys_ok w'" using sub_add_accepted(4) [OF add] inv_keys [OF inv] .
  have 2: "\<forall>((c, sd, g), x) \<in> set (ws_log s). g \<le> Suc ?n" using log by fastforce
  have 3: "\<forall>c sd g. sub_grammar sd (pieces_of (c, sd, g) s)" using inv by (simp add: wire_inv_def)
  have f: "pieces_of key ?s = pieces_of key s" for key by (simp add: pieces_of_def stream_def)
  have w: "ws_wire ?s = w'" "ws_matched ?s = ws_matched s" "ws_cleared ?s = ws_cleared s" "ws_log ?s = ws_log s"
    by simp_all
  show ?thesis
    unfolding gens(2) wire_inv_def f w gens(1) using k 1 2 3 4 5 by blast
qed

lemma unregister_lookup:
  "sub_lookup cid' sid' (snd (unregister_sender cid w)) = (if cid' = cid then None else sub_lookup cid' sid' w)"
  "sm_next_generation (w_subs (snd (unregister_sender cid w))) = sm_next_generation (w_subs w)"
  "keys_ok w \<Longrightarrow> keys_ok (snd (unregister_sender cid w))"
  using keys_ok_delete [of w cid]
  by (simp_all add: unregister_sender_def sub_lookup_def conn_subs_def set_subs_def Let_def keys_ok_def)

lemma matches_of_current:
  assumes "keys_ok w" and "(ev, cid, sid, g) \<in> set (matches_of ev' w)"
  shows "\<exists>e. sub_lookup cid sid w = Some e \<and> se_generation e = g \<and> filters_match (se_filters e) ev"
proof -
  obtain cmap e where "(cid, cmap) \<in> set (sm_subs (w_subs w))" "(sid, e) \<in> set cmap" "se_generation e = g"
    "filters_match (se_filters e) ev"
    using assms(2) by (auto simp: matches_of_def broadcast_matches_def)
  then show ?thesis
    using assms(1) by (force simp: keys_ok_def sub_lookup_def conn_subs_def)
qed

lemma inv_matched:
  assumes inv: "wire_inv s"
    and new: "\<And>ev cid sid g. (ev, cid, sid, g) \<in> set m \<Longrightarrow> g \<le> sm_next_generation (w_subs (ws_wire s)) \<and>
      (\<forall>e. sub_lookup cid sid (ws_wire s) = Some e \<and> se_generation e = g \<longrightarrow> filters_match (se_filters e) ev)"
  shows "wire_inv (s\<lparr>ws_matched := m @ ws_matched s\<rparr>)"
proof -
  let ?s = "s\<lparr>ws_matched := m @ ws_matched s\<rparr>"
  have w: "ws_wire ?s = ws_wire s" "ws_log ?s = ws_log s" "ws_jobs ?s = ws_jobs s"
    and u: "set (ws_matched ?s) \<union> set (ws_cleared ?s) = set m \<union> (set (ws_matched s) \<union> set (ws_cleared s))"
    by auto
  show ?thesis
    using inv new unfolding wire_inv_def w u pieces_of_wire Ball_def Un_iff by blast
qed

lemma match_inv:
  assumes inv: "wire_inv s"
  shows "wire_inv (s\<lparr>ws_matched := matches_of ev (ws_wire s) @ ws_matched s\<rparr>)"
proof -
  have "g \<le> sm_next_generation (w_subs (ws_wire s)) \<and>
      (\<forall>e. sub_lookup cid sid (ws_wire s) = Some e \<and> se_generation e = g \<longrightarrow> filters_match (se_filters e) ev')"
    if m: "(ev', cid, sid, g) \<in> set (matches_of ev (ws_wire s))" for ev' cid sid g
  proof -
    obtain e where e: "sub_lookup cid sid (ws_wire s) = Some e" "se_generation e = g" "filters_match (se_filters e) ev'"
      using matches_of_current [OF inv_keys [OF inv] m] by blast
    then show ?thesis using inv_entry [OF inv e(1)] by (auto simp: entry_ok_def)
  qed
  then show ?thesis by (rule inv_matched [OF inv])
qed

lemma check_inv:
  assumes inv: "wire_inv s" and "x \<in> set (ws_matched s)"
  shows "wire_inv (s\<lparr>ws_cleared := x # ws_cleared s\<rparr>)"
proof -
  let ?s = "s\<lparr>ws_cleared := x # ws_cleared s\<rparr>"
  have w: "ws_wire ?s = ws_wire s" "ws_log ?s = ws_log s" "ws_jobs ?s = ws_jobs s"
    and u: "set (ws_matched ?s) \<union> set (ws_cleared ?s) = set (ws_matched s) \<union> set (ws_cleared s)"
    using assms(2) by auto
  show ?thesis using inv unfolding wire_inv_def w u pieces_of_wire .
qed

lemma job_not_done:
  "wire_inv s \<Longrightarrow> (cid, sid, g) \<in> set (ws_jobs s) \<Longrightarrow> sub_lookup cid sid (ws_wire s) = Some e \<Longrightarrow>
   se_generation e = g \<Longrightarrow> \<not> se_snapshot_done e"
  unfolding wire_inv_def by fastforce

lemma answer_inv:
  assumes inv: "wire_inv s"
  shows "wire_inv (logged (\<lambda>_. FromHandler) (cid, sid, fst (sub_generation cid sid (ws_wire s)))
    (snd (conn_op cid f (ws_wire s))) s)" (is "wire_inv ?s")
proof -
  let ?w' = "snd (conn_op cid f (ws_wire s))"
  have w: "ws_wire ?s = ?w'" "ws_matched ?s = ws_matched s" "ws_cleared ?s = ws_cleared s" "ws_jobs ?s = ws_jobs s"
    by (simp_all add: logged_def)
  have "fst (sub_generation cid sid (ws_wire s)) \<le> sm_next_generation (w_subs (ws_wire s))"
    using inv_entry [OF inv, of cid sid] by (auto simp: sub_generation_def entry_ok_def split: option.split)
  then have "\<forall>((cid, sid, g), x) \<in> set (ws_log ?s). g \<le> sm_next_generation (w_subs (ws_wire s))"
    using inv by (auto simp: logged_def wire_inv_def)
  then show ?thesis using inv unfolding wire_inv_def w by (simp add: pieces_of_answer)
qed

lemma wire_step_inv: "wire_step vis s s' \<Longrightarrow> wire_inv s \<Longrightarrow> wire_inv s'"
proof (induction rule: wire_step.induct)
  case (conns s w')
  have subs: "w_subs w' = w_subs (ws_wire s)" using conns(1) by (simp add: conns_change_def)
  have "keys_ok w'" using keys_ok_cong [OF subs] inv_keys [OF conns(2)] by simp
  then show ?case
    by (rule inv_shrink [OF conns(2)]) (use subs in \<open>auto simp: lookup_cong [OF subs]\<close>)
next
  case (connected s cid)
  show ?case
    by (rule inv_shrink [OF connected])
      (use inv_keys [OF connected] in \<open>auto simp: register_sender_def keys_ok_def sub_lookup_def conn_subs_def\<close>)
next
  case (disconnected s cid)
  show ?case
    by (rule inv_shrink [OF disconnected])
      (use inv_keys [OF disconnected] in \<open>auto simp: unregister_lookup split: if_splits\<close>)
next
  case (subscribe now cid sid filters s w')
  then show ?case by (rule subscribe_inv [rotated])
next
  case (refuse now cid sid filters s err w')
  note R = sub_add_refused [OF refuse(1)]
  show ?case by (rule inv_shrink [OF refuse(2) R(3) [OF inv_keys [OF refuse(2)]]]) (simp_all add: R)
next
  case (answer_closed s cid sid reason)
  then show ?case by (rule answer_inv)
next
  case (close s cid sid)
  show ?case
    by (rule inv_shrink [OF close])
      (use inv_keys [OF close] in \<open>auto simp: sub_remove_def split: if_splits\<close>)
next
  case (match s ev)
  then show ?case by (rule match_inv)
next
  case (check ev cid sid gen s)
  then show ?case using check_inv by blast
next
  case (deliver ev cid sid gen s)
  then show ?case using deliver_inv by blast
next
  case (check_stored cid ev s)
  then show ?case unfolding wire_inv_def by simp
next
  case (snapshot cid sid gen s ev ctx_err)
  have "\<not> se_snapshot_done e" if "sub_lookup cid sid (ws_wire s) = Some e" "se_generation e = gen" for e
    using job_not_done [OF snapshot(3,1) that] .
  then show ?case by (rule snapshot_event_inv [OF snapshot(3)])
next
  case (complete cid sid gen s ctx_err)
  let ?s = "s\<lparr>ws_jobs := removeAll (cid, sid, gen) (ws_jobs s)\<rparr>"
  have inv: "wire_inv ?s" by (rule inv_jobs [OF complete(2)]) auto
  have "\<not> se_snapshot_done e" if "sub_lookup cid sid (ws_wire s) = Some e" "se_generation e = gen" for e
    using job_not_done [OF complete(2,1) that] .
  with complete_inv [OF inv, of cid sid gen ctx_err] show ?case by simp
next
  case (query_error cid sid gen s)
  let ?s = "s\<lparr>ws_jobs := removeAll (cid, sid, gen) (ws_jobs s)\<rparr>"
  have inv: "wire_inv ?s" by (rule inv_jobs [OF query_error(2)]) auto
  have "\<not> se_snapshot_done e" if "sub_lookup cid sid (ws_wire s) = Some e" "se_generation e = gen" for e
    using job_not_done [OF query_error(2,1) that] .
  with query_error_inv [OF inv, of cid sid gen] show ?case by simp
qed

lemma wire_reach_inv: "wire_reach vis s \<Longrightarrow> wire_inv s"
proof (induction rule: wire_reach.induct)
  case (start cfg)
  show ?case
    by (simp add: wire_inv_def keys_ok_def new_subscription_manager_def sub_lookup_def conn_subs_def
        pieces_of_def stream_def of_generation_def own_entries_def)
next
  case (step s s')
  then show ?case using wire_step_inv by blast
qed

section \<open>The log is what the connections hold\<close>

text \<open>An operation that queues frames of one subscription on one connection.\<close>

definition appends :: "string \<Rightarrow> string \<Rightarrow> 'a wire_scheme \<Rightarrow> 'a wire_scheme \<Rightarrow> bool" where
  "appends cid sid w w' \<longleftrightarrow>
     (\<forall>cid'. cid' \<noteq> cid \<longrightarrow> map_of (w_conns w') cid' = map_of (w_conns w) cid') \<and>
     (case (map_of (w_conns w) cid, map_of (w_conns w') cid) of
        (Some c, Some c') \<Rightarrow> (\<exists>l. outbound c' = outbound c @ l \<and> list_all (of_sub sid) l \<and> (cn_ctx_done c \<longrightarrow> cn_ctx_done c'))
      | (None, None) \<Rightarrow> True
      | _ \<Rightarrow> False)"

lemma appends_same: "w_conns w' = w_conns w \<Longrightarrow> appends cid sid w w'"
  by (simp add: appends_def split: option.split)

lemma appends_trans: "appends cid sid w w' \<Longrightarrow> appends cid sid w' w'' \<Longrightarrow> appends cid sid w w''"
  unfolding appends_def by (auto split: option.splits)

lemma appends_send_to:
  assumes "of_sub sid b"
  shows "appends cid sid w (snd (send_to cid b w))"
proof (cases "map_of (w_conns w) cid")
  case (Some c)
  have "cn_ctx_done c \<longrightarrow> cn_ctx_done (snd (enqueue_subscription_frame b c))"
    by (simp add: enqueue_subscription_frame_def enqueue_def initiate_shutdown_def)
  then show ?thesis
    using Some enqueue_subscription_frame_outbound [of b c] assms
    by (simp add: appends_def send_to_def case_prod_unfold Let_def)
qed (simp add: appends_def send_to_def)

lemma appends_conn_op:
  assumes "of_sub sid b"
  shows "appends cid sid w (snd (conn_op cid (enqueue b) w))"
proof (cases "map_of (w_conns w) cid")
  case (Some c)
  then show ?thesis
    using outbound_enqueue [of b c] assms by (simp add: appends_def conn_op_def case_prod_unfold Let_def)
qed (simp add: appends_def conn_op_def)

lemma appends_put: "appends cid sid w w' \<Longrightarrow> appends cid sid w (put_entry cid' sid' e w')"
  by (rule appends_trans [OF _ appends_same]) simp_all

lemma appends_remove: "appends cid sid w w' \<Longrightarrow> appends cid sid w (remove_locked cid' sid' w')"
  by (rule appends_trans [OF _ appends_same]) simp_all

lemma appends_flush:
  "only_events sid pending \<Longrightarrow> appends cid sid w (snd (flush_pending cid pending e w))"
proof (induction pending arbitrary: e w)
  case (Cons b pending)
  then have "of_sub sid b" "only_events sid pending" by (cases b; simp add: only_events_def)+
  then show ?case
    using appends_trans [OF appends_send_to Cons.IH] by (simp add: flush_pending_Cons del: flush_pending.simps(2))
qed (simp add: appends_same)

lemma appends_new_frames:
  assumes "appends cid sid w w'" and "map_of (w_conns w') cid = Some c'"
  obtains c where "map_of (w_conns w) cid = Some c" "outbound c' = outbound c @ new_frames cid w w'"
    "list_all (of_sub sid) (new_frames cid w w')" "cn_ctx_done c \<longrightarrow> cn_ctx_done c'"
  using assms by (auto simp: appends_def new_frames_def out_of_def split: option.splits)

text \<open>One piece of an operation: nothing happened, or the entry is the current one of its
  generation, and all entries keep theirs.\<close>

definition touches :: "string \<Rightarrow> string \<Rightarrow> nat \<Rightarrow> wire \<Rightarrow> wire \<Rightarrow> bool" where
  "touches cid sid g w w' \<longleftrightarrow> w' = w \<or>
     (appends cid sid w w' \<and> (\<exists>e. sub_lookup cid sid w = Some e \<and> se_generation e = g) \<and>
      (\<forall>cid' sid' e'. sub_lookup cid' sid' w' = Some e' \<longrightarrow>
         (\<exists>e. sub_lookup cid' sid' w = Some e \<and> se_generation e = se_generation e')))"

lemma deliver_touches: "touches cid sid g w (deliver_live ev cid sid g w)"
proof (cases "sub_lookup cid sid w")
  case None
  then show ?thesis by (simp add: touches_def deliver_live_def marshal_relay_event_def)
next
  case (Some e)
  show ?thesis
  proof (cases "se_generation e = g")
    case False
    with Some show ?thesis by (simp add: touches_def deliver_live_def marshal_relay_event_def)
  next
    case True
    have "appends cid sid w (deliver_live ev cid sid g w)"
      using Some by (simp add: deliver_live_def marshal_relay_event_def case_prod_unfold Let_def appends_put appends_same
          appends_send_to appends_trans [OF appends_same appends_send_to])
    moreover have "\<exists>e. sub_lookup cid' sid' w = Some e \<and> se_generation e = se_generation e'"
      if "sub_lookup cid' sid' (deliver_live ev cid sid g w) = Some e'" for cid' sid' e'
      using that Some by (auto simp: deliver_live_def marshal_relay_event_def case_prod_unfold Let_def split: if_splits)
    ultimately show ?thesis using Some True by (simp add: touches_def)
  qed
qed

lemma snapshot_event_touches:
  "touches cid sid g w (snd (with_snapshot cid sid g (snapshot_event_fn ctx_err cid sid ev) w))"
proof (cases rule: with_snapshot_cases [of cid sid g "snapshot_event_fn ctx_err cid sid ev" w])
  case gone
  then show ?thesis by (simp add: touches_def)
next
  case (current e)
  have "appends cid sid w (snd (snapshot_event_fn ctx_err cid sid ev e w))"
    by (simp add: snapshot_event_fn_def send_event_enqueue case_prod_unfold Let_def appends_put appends_same appends_conn_op)
  moreover have "\<exists>e. sub_lookup cid' sid' w = Some e \<and> se_generation e = se_generation e'"
    if "sub_lookup cid' sid' (snd (snapshot_event_fn ctx_err cid sid ev e w)) = Some e'" for cid' sid' e'
    using that current(1) by (auto simp: snapshot_event_fn_def send_event_enqueue case_prod_unfold Let_def split: if_splits)
  ultimately show ?thesis using current by (simp add: touches_def)
qed

lemma finish_touches:
  assumes "sub_lookup cid sid w = Some e0" "only_events sid (se_pending_live e)" "se_generation e = se_generation e0"
  shows "appends cid sid w (finish_snapshot_locked cid sid e w)"
    "sub_lookup cid' sid' (finish_snapshot_locked cid sid e w) = Some e' \<Longrightarrow>
     \<exists>x. sub_lookup cid' sid' w = Some x \<and> se_generation x = se_generation e'"
proof -
  show "appends cid sid w (finish_snapshot_locked cid sid e w)"
    using assms(2) by (simp add: finish_snapshot_locked_def case_prod_unfold Let_def appends_put appends_same appends_flush)
  let ?e = "e\<lparr>se_snapshot_done := True, se_pending_live := []\<rparr>"
  have look: "sub_lookup cid' sid' (snd (flush_pending cid (se_pending_live e) ?e w)) = sub_lookup cid' sid' w"
    by (rule lookup_cong) simp
  obtain a b where "fst (flush_pending cid (se_pending_live e) ?e w) = ?e\<lparr>se_broadcast_ok := a, se_broadcast_drop := b\<rparr>"
    using flush_pending_entry by blast
  then have "\<exists>x. se_generation x = se_generation e \<and> sub_lookup cid' sid' (finish_snapshot_locked cid sid e w) =
      (if cid' = cid \<and> sid' = sid then Some x else sub_lookup cid' sid' w)"
    by (cases "has_sender cid w") (auto simp: finish_snapshot_locked_def case_prod_unfold Let_def look intro: exI [of _ ?e])
  then show "\<exists>x. sub_lookup cid' sid' w = Some x \<and> se_generation x = se_generation e'"
    if "sub_lookup cid' sid' (finish_snapshot_locked cid sid e w) = Some e'"
    using that assms(1,3) by (metis option.inject)
qed

lemma complete_touches:
  assumes "\<And>e. sub_lookup cid sid w = Some e \<Longrightarrow> only_events sid (se_pending_live e)"
  shows "touches cid sid g w (snd (complete_snapshot ctx_err cid sid g w))"
proof (cases rule: with_snapshot_cases [of cid sid g "complete_fn ctx_err cid sid" w])
  case gone
  then show ?thesis by (simp add: touches_def complete_snapshot_def)
next
  case (current e)
  let ?r = "conn_op cid (enqueue (FEose sid)) w" and ?e = "e\<lparr>se_eose_sent := se_eose_sent e + 1\<rparr>"
  have run: "snd (complete_snapshot ctx_err cid sid g w) = snd (complete_fn ctx_err cid sid e w)"
    using current(5) by (simp add: complete_snapshot_def)
  have at: "sub_lookup cid sid (snd ?r) = Some e" "only_events sid (se_pending_live ?e)"
    "se_generation ?e = se_generation e" "appends cid sid w (snd ?r)"
    using current(1) assms by (simp_all add: appends_conn_op)
  consider (quiet) "snd (complete_fn ctx_err cid sid e w) = w"
    | (failed) "snd (complete_fn ctx_err cid sid e w) = snd ?r"
    | (sent) "snd (complete_fn ctx_err cid sid e w) = finish_snapshot_locked cid sid ?e (snd ?r)"
    by (cases "snapshot_canceled ctx_err cid w"; cases "fst ?r")
      (auto simp: complete_fn_def send_eose_enqueue case_prod_unfold Let_def)
  then show ?thesis
  proof cases
    case quiet
    then show ?thesis by (simp add: run touches_def)
  next
    case failed
    then show ?thesis using at(4) current(1,2) by (simp add: run touches_def)
  next
    case sent
    then show ?thesis
      using appends_trans [OF at(4) finish_touches(1) [OF at(1,2,3)]] finish_touches(2) [OF at(1,2,3)] current(1,2)
      by (auto simp: run touches_def)
  qed
qed

lemma query_error_touches: "touches cid sid g w (snd (close_snapshot_on_query_error cid sid g w))"
proof (cases rule: with_snapshot_cases [of cid sid g "close_error_fn cid sid" w])
  case gone
  then show ?thesis by (simp add: touches_def close_snapshot_on_query_error_def)
next
  case (current e)
  then show ?thesis
    by (auto simp: touches_def close_snapshot_on_query_error_def close_error_fn_def send_closed_enqueue case_prod_unfold
        Let_def appends_remove appends_conn_op split: if_splits)
qed

definition wire_logged :: "wire_sys \<Rightarrow> bool" where
  "wire_logged s \<longleftrightarrow>
     (\<forall>cid c sid. map_of (w_conns (ws_wire s)) cid = Some c \<and> \<not> cn_ctx_done c \<longrightarrow>
        List.filter (of_sub sid) (outbound c) = map (\<lambda>(_, _, b). b) (stream cid sid s))"

definition order_ok :: "wire_sys \<Rightarrow> bool" where
  "order_ok s \<longleftrightarrow>
     (\<forall>cid sid. sorted (map fst (own_entries (stream cid sid s)))) \<and>
     (\<forall>cid sid e. sub_lookup cid sid (ws_wire s) = Some e \<longrightarrow>
        (\<forall>x \<in> set (own_entries (stream cid sid s)). fst x \<le> se_generation e)) \<and>
     (\<forall>cid sid g b. (g, FromHandler, b) \<in> set (stream cid sid s) \<longrightarrow> (\<exists>r. b = FClosed sid r))"

lemma filter_all: "list_all P l \<Longrightarrow> List.filter P l = l"
  by (induction l) auto

lemma of_sub_unique: "list_all (of_sub sid) l \<Longrightarrow> sid' \<noteq> sid \<Longrightarrow> List.filter (of_sub sid') l = []"
proof (induction l)
  case (Cons b l)
  then show ?case by (cases b) auto
qed simp

lemma wire_logged_appends:
  assumes log: "wire_logged s" and app: "appends cid sid (ws_wire s) w'"
  shows "wire_logged (logged tag (cid, sid, g) w' s)"
proof -
  have "List.filter (of_sub sid') (outbound c') = map (\<lambda>(_, _, b). b) (stream cid' sid' (logged tag (cid, sid, g) w' s))"
    if c': "map_of (w_conns w') cid' = Some c'" "\<not> cn_ctx_done c'" for cid' c' sid'
  proof (cases "cid' = cid")
    case True
    obtain c where c: "map_of (w_conns (ws_wire s)) cid = Some c" "outbound c' = outbound c @ new_frames cid (ws_wire s) w'"
      "list_all (of_sub sid) (new_frames cid (ws_wire s) w')" "\<not> cn_ctx_done c"
      using appends_new_frames [OF app, of c'] c' True by blast
    then have "List.filter (of_sub sid') (outbound c) = map (\<lambda>(_, _, b). b) (stream cid sid' s)"
      using log unfolding wire_logged_def by blast
    then show ?thesis
      using c(2) filter_all [OF c(3)] of_sub_unique [OF c(3), of sid'] by (simp add: True stream_logged o_def)
  next
    case False
    then have "map_of (w_conns (ws_wire s)) cid' = Some c'" using app c'(1) by (simp add: appends_def)
    then show ?thesis using log c'(2) False unfolding wire_logged_def by (simp add: stream_logged)
  qed
  then show ?thesis unfolding wire_logged_def by (simp add: logged_def)
qed

lemma wire_logged_conns: "wire_logged s \<Longrightarrow> w_conns w' = w_conns (ws_wire s) \<Longrightarrow> wire_logged (s\<lparr>ws_wire := w'\<rparr>)"
  by (simp add: wire_logged_def)

lemma wire_logged_change:
  assumes "wire_logged s" and "conns_change s w'"
  shows "wire_logged (s\<lparr>ws_wire := w'\<rparr>)"
proof -
  have "List.filter (of_sub sid) (outbound c') = map (\<lambda>(_, _, b). b) (stream cid sid s)"
    if c': "map_of (w_conns w') cid = Some c'" "\<not> cn_ctx_done c'" for cid c' sid
  proof (cases "map_of (w_conns (ws_wire s)) cid")
    case None
    then have "List.filter (of_sub sid) (outbound c') = []" "\<forall>(key, _) \<in> set (ws_log s). fst key \<noteq> cid"
      using assms(2) c' unfolding conns_change_def by fastforce+
    then show ?thesis by (fastforce simp: stream_def filter_empty_conv)
  next
    case (Some c)
    then have "\<not> cn_ctx_done c" "List.filter (of_sub sid) (outbound c') = List.filter (of_sub sid) (outbound c)"
      using assms(2) c' unfolding conns_change_def by fastforce+
    then show ?thesis using assms(1) Some unfolding wire_logged_def by metis
  qed
  then show ?thesis by (simp add: wire_logged_def)
qed

lemma order_shrink:
  assumes "order_ok s" and "\<And>cid sid e. sub_lookup cid sid w' = Some e \<Longrightarrow> sub_lookup cid sid (ws_wire s) = Some e"
  shows "order_ok (s\<lparr>ws_wire := w'\<rparr>)"
proof -
  have "ws_wire (s\<lparr>ws_wire := w'\<rparr>) = w'" by simp
  note w = this
  show ?thesis using assms unfolding order_ok_def stream_wire w by blast
qed

lemma logged_same: "logged tag key (ws_wire s) s = s"
  by (simp add: logged_def new_frames_def)

lemma touches_order:
  assumes ok: "order_ok s" and t: "touches cid sid g (ws_wire s) w'" and tag: "\<And>b. tag b \<noteq> FromHandler"
  shows "order_ok (logged tag (cid, sid, g) w' s)"
proof (cases "w' = ws_wire s")
  case True
  then show ?thesis using ok by (simp add: logged_same)
next
  case False
  let ?s = "logged tag (cid, sid, g) w' s" and ?new = "map (\<lambda>b. (g, tag b, b)) (new_frames cid (ws_wire s) w')"
  obtain e where e: "sub_lookup cid sid (ws_wire s) = Some e" "se_generation e = g"
    and look: "\<And>cid' sid' e'. sub_lookup cid' sid' w' = Some e' \<Longrightarrow>
      \<exists>e. sub_lookup cid' sid' (ws_wire s) = Some e \<and> se_generation e = se_generation e'"
    using t False unfolding touches_def by blast
  have own: "own_entries (stream cid' sid' ?s) =
      own_entries (stream cid' sid' s) @ (if cid' = cid \<and> sid' = sid then ?new else [])" for cid' sid'
    using own_entries_tagged [OF tag] by (simp add: stream_logged) (simp add: own_entries_def)
  have le: "\<forall>x \<in> set (own_entries (stream cid sid s)). fst x \<le> g" using ok e unfolding order_ok_def by blast
  have "sorted (map fst ?new)" by (simp add: o_def sorted_wrt_map sorted_wrt_true)
  then have 1: "sorted (map fst (own_entries (stream cid' sid' ?s)))" for cid' sid'
    using ok le by (auto simp: own sorted_append order_ok_def)
  have 2: "fst x \<le> se_generation e'"
    if new: "sub_lookup cid' sid' w' = Some e'" "x \<in> set (own_entries (stream cid' sid' ?s))" for cid' sid' e' x
  proof -
    obtain d where d: "sub_lookup cid' sid' (ws_wire s) = Some d" "se_generation d = se_generation e'"
      using look new(1) by blast
    then have "\<forall>x \<in> set (own_entries (stream cid' sid' s)). fst x \<le> se_generation e'"
      using ok unfolding order_ok_def by metis
    then show ?thesis using new(2) d e by (auto simp: own split: if_splits)
  qed
  have 3: "\<exists>r. b = FClosed sid' r" if "(g', FromHandler, b) \<in> set (stream cid' sid' ?s)" for cid' sid' g' b
  proof -
    have "(g', FromHandler, b) \<in> set (stream cid' sid' s)"
      using that tag by (auto simp: stream_logged split: if_splits) (metis tag)+
    then show ?thesis using ok unfolding order_ok_def by blast
  qed
  have "ws_wire ?s = w'" by (simp add: logged_def)
  then show ?thesis unfolding order_ok_def using 1 2 3 by simp
qed

lemma touches_logged: "wire_logged s \<Longrightarrow> touches cid sid g (ws_wire s) w' \<Longrightarrow> wire_logged (logged tag (cid, sid, g) w' s)"
  using wire_logged_appends logged_same unfolding touches_def by metis

lemma answer_order:
  assumes "order_ok s"
  shows "order_ok (logged (\<lambda>_. FromHandler) (cid, sid, g) (snd (conn_op cid (send_closed sid r) (ws_wire s))) s)"
    (is "order_ok ?s")
proof -
  let ?w' = "snd (conn_op cid (send_closed sid r) (ws_wire s))"
  have own: "own_entries (stream cid' sid' ?s) = own_entries (stream cid' sid' s)" for cid' sid'
    by (simp add: stream_logged own_entries_handler) (simp add: own_entries_def)
  have "set (new_frames cid (ws_wire s) ?w') \<subseteq> {FClosed sid r}"
    using new_frames_append [of cid ?w' "ws_wire s"] by (auto simp: out_conn_op send_closed_enqueue)
  then have "\<exists>r. b = FClosed sid' r" if "(g', FromHandler, b) \<in> set (stream cid' sid' ?s)" for cid' sid' g' b
    using that assms unfolding order_ok_def by (auto simp: stream_logged split: if_splits)
  moreover have "ws_wire ?s = ?w'" by (simp add: logged_def)
  ultimately show ?thesis using assms unfolding order_ok_def own by simp
qed

lemma stream_generation: "wire_inv s \<Longrightarrow> x \<in> set (stream cid sid s) \<Longrightarrow> fst x \<le> sm_next_generation (w_subs (ws_wire s))"
  unfolding wire_inv_def stream_def by fastforce

lemma subscribe_order:
  assumes inv: "wire_inv s" and ok: "order_ok s" and add: "sub_add now cid sid fs (ws_wire s) = (None, w')"
  shows "order_ok (s\<lparr>ws_wire := w', ws_jobs := j\<rparr>)"
proof -
  let ?s = "s\<lparr>ws_wire := w', ws_jobs := j\<rparr>"
  have st: "stream cid' sid' ?s = stream cid' sid' s" for cid' sid' by (simp add: stream_def)
  have "fst x \<le> se_generation e"
    if "sub_lookup cid' sid' w' = Some e" "x \<in> set (own_entries (stream cid' sid' s))" for cid' sid' e x
  proof (cases "(cid', sid') = (cid, sid)")
    case True
    have "x \<in> set (stream cid' sid' s)" using that(2) by (simp add: own_entries_def)
    then show ?thesis using stream_generation [OF inv] that(1) True
      by (fastforce simp: sub_add_accepted(1) [OF add] new_sub_entry_def)
  next
    case False
    then show ?thesis using that ok by (auto simp: sub_add_accepted(1) [OF add] order_ok_def split: if_splits)
  qed
  then show ?thesis using ok unfolding order_ok_def st by simp
qed

lemma sub_add_conns: "w_conns (snd (sub_add now cid sid fs w)) = w_conns w"
  by (simp add: sub_add_def Let_def)

lemma wire_step_order: "wire_step vis s s' \<Longrightarrow> wire_inv s \<Longrightarrow> order_ok s \<Longrightarrow> order_ok s'"
proof (induction rule: wire_step.induct)
  case (conns s w')
  then have "w_subs w' = w_subs (ws_wire s)" by (simp add: conns_change_def)
  from lookup_cong [OF this] show ?case by (intro order_shrink [OF conns(3)]) simp
next
  case (connected s cid)
  then show ?case by (intro order_shrink) (auto simp: register_sender_def sub_lookup_def conn_subs_def)
next
  case (disconnected s cid)
  then show ?case by (intro order_shrink) (auto simp: unregister_lookup split: if_splits)
next
  case (subscribe now cid sid filters s w')
  then show ?case by (intro subscribe_order)
next
  case (refuse now cid sid filters s err w')
  then show ?case by (intro order_shrink) (simp_all add: sub_add_refused(1) [OF refuse(1)])
next
  case (answer_closed s cid sid reason)
  then show ?case by (intro answer_order)
next
  case (close s cid sid)
  then show ?case by (intro order_shrink) (auto simp: sub_remove_def split: if_splits)
next
  case (deliver ev cid sid gen s)
  then show ?case by (intro touches_order deliver_touches) simp_all
next
  case (snapshot cid sid gen s ev ctx_err)
  then show ?case by (intro touches_order snapshot_event_touches) simp_all
next
  case (complete cid sid gen s ctx_err)
  have "only_events sid (se_pending_live e)" if "sub_lookup cid sid (ws_wire s) = Some e" for e
    using inv_entry [OF complete(2) that] by (simp add: entry_ok_def)
  note t = complete_touches [OF this, where g = gen and ctx_err = ctx_err]
  have "order_ok (s\<lparr>ws_jobs := removeAll (cid, sid, gen) (ws_jobs s)\<rparr>)" using complete(3) by (simp add: order_ok_def)
  then show ?case by (rule touches_order) (simp_all add: t)
next
  case (query_error cid sid gen s)
  have "order_ok (s\<lparr>ws_jobs := removeAll (cid, sid, gen) (ws_jobs s)\<rparr>)" using query_error(3) by (simp add: order_ok_def)
  then show ?case by (rule touches_order) (simp_all add: query_error_touches)
qed (simp_all add: order_ok_def)

lemma wire_step_logged: "wire_step vis s s' \<Longrightarrow> wire_inv s \<Longrightarrow> wire_logged s \<Longrightarrow> wire_logged s'"
proof (induction rule: wire_step.induct)
  case (conns s w')
  then show ?case by (intro wire_logged_change)
next
  case (connected s cid)
  then show ?case by (intro wire_logged_conns) (simp_all add: register_sender_def)
next
  case (disconnected s cid)
  then show ?case by (intro wire_logged_conns) (simp_all add: unregister_sender_def Let_def)
next
  case (subscribe now cid sid filters s w')
  then have "wire_logged (s\<lparr>ws_wire := w'\<rparr>)"
    using sub_add_conns [of now cid sid filters "ws_wire s"] by (intro wire_logged_conns) simp_all
  then show ?case by (simp add: wire_logged_def stream_def)
next
  case (refuse now cid sid filters s err w')
  then show ?case
    using sub_add_conns [of now cid sid filters "ws_wire s"] by (intro wire_logged_conns) simp_all
next
  case (answer_closed s cid sid reason)
  then show ?case by (intro wire_logged_appends) (simp_all add: send_closed_enqueue appends_conn_op)
next
  case (close s cid sid)
  then show ?case by (intro wire_logged_conns) (simp_all add: sub_remove_def)
next
  case (deliver ev cid sid gen s)
  then show ?case by (intro touches_logged deliver_touches)
next
  case (snapshot cid sid gen s ev ctx_err)
  then show ?case by (intro touches_logged snapshot_event_touches)
next
  case (complete cid sid gen s ctx_err)
  have "only_events sid (se_pending_live e)" if "sub_lookup cid sid (ws_wire s) = Some e" for e
    using inv_entry [OF complete(2) that] by (simp add: entry_ok_def)
  note t = complete_touches [OF this, where g = gen and ctx_err = ctx_err]
  have "wire_logged (s\<lparr>ws_jobs := removeAll (cid, sid, gen) (ws_jobs s)\<rparr>)" using complete(3) by (simp add: wire_logged_def)
  then show ?case by (rule touches_logged) (simp add: t)
next
  case (query_error cid sid gen s)
  have "wire_logged (s\<lparr>ws_jobs := removeAll (cid, sid, gen) (ws_jobs s)\<rparr>)" using query_error(3) by (simp add: wire_logged_def)
  then show ?case by (rule touches_logged) (simp add: query_error_touches)
qed (simp_all add: wire_logged_def)

lemma wire_reach_log: "wire_reach vis s \<Longrightarrow> order_ok s \<and> wire_logged s"
proof (induction rule: wire_reach.induct)
  case (start cfg)
  show ?case by (simp add: order_ok_def wire_logged_def stream_def own_entries_def)
next
  case (step s s')
  then show ?case using wire_step_order wire_step_logged wire_reach_inv by blast
qed

section \<open>Every queued event passed the visibility check\<close>

definition seen_ok :: "(string \<Rightarrow> event \<Rightarrow> bool) \<Rightarrow> string \<Rightarrow> frame \<Rightarrow> bool" where
  "seen_ok P cid b \<longleftrightarrow> (\<forall>sid ev. b = FEvent sid ev \<longrightarrow> P cid ev)"

definition checked_inv :: "(string \<Rightarrow> event \<Rightarrow> bool) \<Rightarrow> wire_sys \<Rightarrow> bool" where
  "checked_inv P s \<longleftrightarrow>
     (\<forall>(key, from, b) \<in> set (ws_log s). seen_ok P (fst key) b) \<and>
     (\<forall>cid sid e. sub_lookup cid sid (ws_wire s) = Some e \<longrightarrow> (\<forall>b \<in> set (se_pending_live e). seen_ok P cid b)) \<and>
     (\<forall>(ev, cid, key) \<in> set (ws_cleared s). P cid ev) \<and> (\<forall>(cid, ev) \<in> set (ws_passed s). P cid ev)"

lemma seen_ok_simps [simp]:
  "seen_ok P cid (FEose sid)" "seen_ok P cid (FClosed sid r)"
  "seen_ok P cid (FEvent sid ev) \<longleftrightarrow> P cid ev"
  by (auto simp: seen_ok_def)

text \<open>The pending frames of a subscription are kept, dropped or extended by checked ones.\<close>

lemma checked_update:
  assumes "checked_inv P s"
    and "\<And>b. b \<in> set (new_frames cid (ws_wire s) w') \<Longrightarrow> seen_ok P cid b"
    and "\<And>cid' sid' e. sub_lookup cid' sid' w' = Some e \<Longrightarrow>
      \<exists>old new. sub_lookup cid' sid' (ws_wire s) = Some old \<and>
        set (se_pending_live e) \<subseteq> set (se_pending_live old) \<union> new \<and> (\<forall>b \<in> new. seen_ok P cid' b)"
  shows "checked_inv P (logged tag (cid, sid, g) w' s)"
  using assms unfolding checked_inv_def logged_def by (fastforce dest: subsetD)

lemma checked_shrink:
  assumes "checked_inv P s"
    and "\<And>cid' sid' e. sub_lookup cid' sid' w' = Some e \<Longrightarrow>
      se_pending_live e = [] \<or> sub_lookup cid' sid' (ws_wire s) = Some e"
  shows "checked_inv P (s\<lparr>ws_wire := w'\<rparr>)"
  using assms unfolding checked_inv_def by fastforce

lemma deliver_live_cases:
  obtains (same) "deliver_live ev cid sid g w = w"
    | (closed) "deliver_live ev cid sid g w = snd (send_to cid (FClosed sid overflow_reason) (remove_locked cid sid w))"
    | (buffer) e where "sub_lookup cid sid w = Some e" "deliver_live ev cid sid g w =
        put_entry cid sid (e\<lparr>se_pending_live := se_pending_live e @ [FEvent sid ev]\<rparr>) w"
    | (send) e e' where "sub_lookup cid sid w = Some e" "se_pending_live e' = se_pending_live e"
        "se_filters e' = se_filters e"
        "deliver_live ev cid sid g w = put_entry cid sid e' (snd (send_to cid (FEvent sid ev) w))"
proof (cases "sub_lookup cid sid w")
  case None
  then show thesis by (intro same) (simp add: deliver_live_def marshal_relay_event_def)
next
  case (Some e)
  show thesis
  proof (cases "se_generation e \<noteq> g \<or> se_closed e \<or> \<not> has_sender cid w")
    case True
    with Some show thesis by (intro same) (simp add: deliver_live_def marshal_relay_event_def)
  next
    case go: False
    show thesis
    proof (cases "se_snapshot_done e")
      case True
      let ?r = "send_to cid (FEvent sid ev) w"
      show thesis
        by (rule send [of e "if fst ?r then e\<lparr>se_broadcast_ok := se_broadcast_ok e + 1\<rparr>
            else e\<lparr>se_broadcast_drop := se_broadcast_drop e + 1\<rparr>"])
          (use Some go True in \<open>simp_all add: deliver_live_def marshal_relay_event_def case_prod_unfold Let_def\<close>)
    next
      case False
      then show thesis
        using Some go closed buffer [of e]
        by (cases "pending_live_cap \<le> length (se_pending_live e)")
          (simp_all add: deliver_live_def marshal_relay_event_def)
    qed
  qed
qed

lemma deliver_checked:
  assumes inv: "checked_inv P s" and ok: "P cid ev"
  shows "checked_inv P (logged tag (cid, sid, g) (deliver_live ev cid sid g (ws_wire s)) s)"
proof (rule checked_update [OF inv])
  let ?w = "ws_wire s"
  let ?w' = "deliver_live ev cid sid g ?w"
  let ?r = "send_to cid (FEvent sid ev) ?w"
  show "seen_ok P cid b" if "b \<in> set (new_frames cid ?w ?w')" for b
  proof (cases rule: deliver_live_cases [of ev cid sid g "ws_wire s"])
    case same
    then show ?thesis using that by (simp add: new_frames_def)
  next
    case closed
    then show ?thesis
      using that new_frames_append [of cid ?w' ?w "if fst (send_to cid (FClosed sid overflow_reason)
        (remove_locked cid sid ?w)) then [FClosed sid overflow_reason] else []"]
      by (auto simp: out_send_to split: if_splits)
  next
    case buffer
    then show ?thesis using that new_frames_append [of cid ?w' ?w "[]"] by simp
  next
    case send
    then show ?thesis
      using that ok new_frames_append [of cid ?w' ?w "if fst ?r then [FEvent sid ev] else []"]
      by (auto simp: out_send_to split: if_splits)
  qed
  show "\<exists>old new. sub_lookup cid' sid' ?w = Some old \<and>
      set (se_pending_live e') \<subseteq> set (se_pending_live old) \<union> new \<and> (\<forall>b \<in> new. seen_ok P cid' b)"
    if l: "sub_lookup cid' sid' ?w' = Some e'" for cid' sid' e'
  proof (cases rule: deliver_live_cases [of ev cid sid g "ws_wire s"])
    case same
    then show ?thesis using l by auto
  next
    case closed
    then show ?thesis using l by (auto split: if_splits)
  next
    case buffer
    show ?thesis
    proof (cases "cid' = cid \<and> sid' = sid")
      case True
      then show ?thesis using l ok buffer by (auto intro!: exI [of _ "{FEvent sid ev}"])
    next
      case False
      then show ?thesis using l buffer by (auto split: if_splits)
    qed
  next
    case send
    then show ?thesis using l by (cases "cid' = cid \<and> sid' = sid") auto
  qed
qed

lemma checked_same: "checked_inv P s \<Longrightarrow> w' = ws_wire s \<Longrightarrow> checked_inv P (logged tag key w' s)"
  by (simp add: logged_def new_frames_def)

lemma snapshot_event_checked:
  assumes inv: "checked_inv P s" and ok: "P cid ev"
  shows "checked_inv P (logged tag (cid, sid, g)
    (snd (with_snapshot cid sid g (snapshot_event_fn ctx_err cid sid ev) (ws_wire s))) s)"
proof (cases rule: with_snapshot_cases [of cid sid g "snapshot_event_fn ctx_err cid sid ev" "ws_wire s"])
  case gone
  then show ?thesis using checked_same [OF inv] by simp
next
  case (current e)
  let ?w = "ws_wire s" and ?r = "conn_op cid (enqueue (FEvent sid ev)) (ws_wire s)"
  let ?w' = "snd (snapshot_event_fn ctx_err cid sid ev e ?w)"
  show ?thesis
  proof (cases "snapshot_canceled ctx_err cid ?w")
    case True
    then show ?thesis using current checked_same [OF inv] by (simp add: snapshot_event_fn_def)
  next
    case False
    then obtain e' where e': "?w' = put_entry cid sid e' (snd ?r)" "se_pending_live e' = se_pending_live e"
      by (simp add: snapshot_event_fn_def send_event_enqueue case_prod_unfold Let_def)
    have "checked_inv P (logged tag (cid, sid, g) ?w' s)"
    proof (rule checked_update [OF inv])
      show "seen_ok P cid b" if "b \<in> set (new_frames cid ?w ?w')" for b
        using that ok new_frames_append [of cid ?w' ?w "if fst ?r = None then [FEvent sid ev] else []"]
        by (auto simp: e'(1) out_conn_op split: if_splits)
      show "\<exists>old new. sub_lookup cid' sid' ?w = Some old \<and>
          set (se_pending_live x) \<subseteq> set (se_pending_live old) \<union> new \<and> (\<forall>b \<in> new. seen_ok P cid' b)"
        if "sub_lookup cid' sid' ?w' = Some x" for cid' sid' x
        using that e' current(1) by (cases "cid' = cid \<and> sid' = sid") auto
    qed
    then show ?thesis using current(5) by simp
  qed
qed

lemma complete_checked:
  assumes inv: "checked_inv P s"
  shows "checked_inv P (logged tag (cid, sid, g) (snd (complete_snapshot ctx_err cid sid g (ws_wire s))) s)"
proof (cases rule: with_snapshot_cases [of cid sid g "complete_fn ctx_err cid sid" "ws_wire s"])
  case gone
  then show ?thesis using checked_same [OF inv] by (simp add: complete_snapshot_def)
next
  case (current e)
  let ?w = "ws_wire s" and ?r = "conn_op cid (enqueue (FEose sid)) (ws_wire s)"
  let ?w' = "snd (complete_fn ctx_err cid sid e ?w)"
  have run: "snd (complete_snapshot ctx_err cid sid g ?w) = ?w'"
    using current(5) by (simp add: complete_snapshot_def)
  have pend: "seen_ok P cid b" if "b \<in> set (se_pending_live e)" for b
    using inv current(1) that unfolding checked_inv_def by blast
  consider (canceled) "?w' = ?w" | (failed) "?w' = snd ?r" "fst ?r \<noteq> None"
    | (sent) "fst ?r = None" "?w' = finish_snapshot_locked cid sid (e\<lparr>se_eose_sent := se_eose_sent e + 1\<rparr>) (snd ?r)"
    by (cases "snapshot_canceled ctx_err cid ?w"; cases "fst ?r")
      (auto simp: complete_fn_def send_eose_enqueue case_prod_unfold Let_def)
  then show ?thesis
  proof cases
    case canceled
    then show ?thesis unfolding run by (rule checked_same [OF inv])
  next
    case failed
    have "new_frames cid ?w ?w' = []" by (rule new_frames_append) (use failed in \<open>simp add: out_conn_op\<close>)
    then show ?thesis unfolding run by (intro checked_update [OF inv]) (auto simp: failed(1))
  next
    case sent
    let ?e = "e\<lparr>se_eose_sent := se_eose_sent e + 1, se_snapshot_done := True, se_pending_live := []\<rparr>"
    let ?f = "flush_pending cid (se_pending_live e) ?e (snd ?r)"
    have w': "?w' = put_entry cid sid (fst ?f) (snd ?f)"
      using current(4) by (simp add: sent(2) finish_snapshot_locked_def case_prod_unfold Let_def)
    obtain l where l: "out_of cid (snd ?f) = out_of cid (snd ?r) @ l" "set l \<subseteq> set (se_pending_live e)"
      using flush_pending_out by blast
    have nf: "new_frames cid ?w ?w' = FEose sid # l"
      by (rule new_frames_append) (use sent(1) l(1) in \<open>simp add: w' out_conn_op\<close>)
    obtain a b where "fst ?f = ?e\<lparr>se_broadcast_ok := a, se_broadcast_drop := b\<rparr>"
      using flush_pending_entry by blast
    then have "se_pending_live (fst ?f) = []" by simp
    then show ?thesis unfolding run
      by (intro checked_update [OF inv])
        (use l(2) pend nf current(1) in \<open>auto simp: w' lookup_cong [OF flush_pending_subs] split: if_splits\<close>)
  qed
qed

lemma query_error_checked:
  assumes inv: "checked_inv P s"
  shows "checked_inv P (logged tag (cid, sid, g) (snd (close_snapshot_on_query_error cid sid g (ws_wire s))) s)"
proof (cases rule: with_snapshot_cases [of cid sid g "close_error_fn cid sid" "ws_wire s"])
  case gone
  then show ?thesis using checked_same [OF inv] by (simp add: close_snapshot_on_query_error_def)
next
  case (current e)
  let ?w = "ws_wire s" and ?r = "conn_op cid (enqueue (FClosed sid ''internal error'')) (ws_wire s)"
  let ?w' = "remove_locked cid sid (snd ?r)"
  have run: "snd (close_snapshot_on_query_error cid sid g ?w) = ?w'"
    using current(5) by (simp add: close_snapshot_on_query_error_def close_error_fn_def send_closed_enqueue
        case_prod_unfold Let_def)
  have "new_frames cid ?w ?w' = [] \<or> new_frames cid ?w ?w' = [FClosed sid ''internal error'']"
    using new_frames_append [of cid ?w' ?w] by (auto simp: out_conn_op)
  then show ?thesis unfolding run
    by (intro checked_update [OF inv]) (auto split: if_splits)
qed

lemma wire_step_checked:
  "wire_step vis s s' \<Longrightarrow> checked_inv P s \<Longrightarrow> (\<And>cid ev. vis cid ev (ws_wire s) \<Longrightarrow> P cid ev) \<Longrightarrow> checked_inv P s'"
proof (induction rule: wire_step.induct)
  case (conns s w')
  then have "w_subs w' = w_subs (ws_wire s)" by (simp add: conns_change_def)
  from lookup_cong [OF this] show ?case by (intro checked_shrink [OF conns(2)]) auto
next
  case (connected s cid)
  show ?case
    by (rule checked_shrink [OF connected(1)]) (simp add: register_sender_def sub_lookup_def conn_subs_def)
next
  case (disconnected s cid)
  show ?case by (rule checked_shrink [OF disconnected(1)]) (simp add: unregister_lookup split: if_splits)
next
  case (subscribe now cid sid filters s w')
  have "checked_inv P (s\<lparr>ws_wire := w'\<rparr>)"
    by (rule checked_shrink [OF subscribe(2)])
      (auto simp: sub_add_accepted(1) [OF subscribe(1)] new_sub_entry_def split: if_splits)
  then show ?case by (simp add: checked_inv_def)
next
  case (refuse now cid sid filters s err w')
  show ?case by (rule checked_shrink [OF refuse(2)]) (simp add: sub_add_refused(1) [OF refuse(1)])
next
  case (answer_closed s cid sid reason)
  let ?w = "ws_wire s" and ?w' = "snd (conn_op cid (send_closed sid reason) (ws_wire s))"
  have "new_frames cid ?w ?w' = [] \<or> new_frames cid ?w ?w' = [FClosed sid reason]"
    using new_frames_append [of cid ?w' ?w] by (auto simp: out_conn_op send_closed_enqueue)
  then show ?case by (intro checked_update [OF answer_closed(1)]) auto
next
  case (close s cid sid)
  show ?case by (rule checked_shrink [OF close(1)]) (simp add: sub_remove_def split: if_splits)
next
  case (match s ev)
  then show ?case by (simp add: checked_inv_def)
next
  case (check ev cid sid gen s)
  then show ?case by (auto simp: checked_inv_def)
next
  case (deliver ev cid sid gen s)
  have "P cid ev" using deliver(1,2) unfolding checked_inv_def by fastforce
  then show ?case by (rule deliver_checked [OF deliver(2)])
next
  case (check_stored cid ev s)
  then show ?case by (auto simp: checked_inv_def)
next
  case (snapshot cid sid gen s ev ctx_err)
  have "P cid ev" using snapshot(2,3) unfolding checked_inv_def by fastforce
  then show ?case by (rule snapshot_event_checked [OF snapshot(3)])
next
  case (complete cid sid gen s ctx_err)
  let ?s = "s\<lparr>ws_jobs := removeAll (cid, sid, gen) (ws_jobs s)\<rparr>"
  have "checked_inv P ?s" using complete(2) by (simp add: checked_inv_def)
  from complete_checked [OF this, where cid = cid and sid = sid and g = gen and ctx_err = ctx_err] show ?case by simp
next
  case (query_error cid sid gen s)
  let ?s = "s\<lparr>ws_jobs := removeAll (cid, sid, gen) (ws_jobs s)\<rparr>"
  have "checked_inv P ?s" using query_error(2) by (simp add: checked_inv_def)
  from query_error_checked [OF this, where cid = cid and sid = sid and g = gen] show ?case by simp
qed

text \<open>An event was checked for a connection at a state the run went through.\<close>

definition was_checked :: "(string \<Rightarrow> event \<Rightarrow> wire \<Rightarrow> bool) \<Rightarrow> wire_sys \<Rightarrow> string \<Rightarrow> event \<Rightarrow> bool" where
  "was_checked vis s cid ev \<longleftrightarrow>
     (\<exists>s0. wire_reach vis s0 \<and> rtranclp (wire_step vis) s0 s \<and> vis cid ev (ws_wire s0))"

lemma checked_inv_mono: "checked_inv P s \<Longrightarrow> (\<And>cid ev. P cid ev \<Longrightarrow> Q cid ev) \<Longrightarrow> checked_inv Q s"
  unfolding checked_inv_def seen_ok_def by fastforce

lemma wire_reach_checked: "wire_reach vis s \<Longrightarrow> checked_inv (was_checked vis s) s"
proof (induction rule: wire_reach.induct)
  case (start cfg)
  show ?case by (simp add: checked_inv_def new_subscription_manager_def sub_lookup_def conn_subs_def)
next
  case (step s s')
  have "was_checked vis s cid ev \<Longrightarrow> was_checked vis s' cid ev" for cid ev
    unfolding was_checked_def using step(2) by (blast intro: rtranclp.rtrancl_into_rtrancl)
  with step(3) have "checked_inv (was_checked vis s') s" by (rule checked_inv_mono)
  moreover have "was_checked vis s' cid ev" if "vis cid ev (ws_wire s)" for cid ev
    unfolding was_checked_def using that step(1,2) by blast
  ultimately show ?case by (rule wire_step_checked [OF step(2)])
qed

section \<open>Properties\<close>

text \<open>C3: A client can rely on the order of the frames of a subscription, whatever interleaving of
  broadcasts, snapshot pages, replacements, closes and disconnects happens. On a connection that is
  not shut down, the frames with this subscription id are exactly the logged ones, in order. The
  generations of the subscription follow each other, none reappearing after a later one. Each of
  them has sent stored events first, then either one EOSE and from there on live events only, or
  one CLOSED in place of EOSE and nothing more: a live event never comes before EOSE and a stored
  one never after it. The only other frames with this id are CLOSED answers of the handlers, which
  may come at any point.\<close>

theorem subscription_frames_in_order:
  assumes "wire_reach vis s"
  shows "(\<forall>c. map_of (w_conns (ws_wire s)) cid = Some c \<and> \<not> cn_ctx_done c \<longrightarrow>
       List.filter (of_sub sid) (outbound c) = map (\<lambda>(_, _, b). b) (stream cid sid s)) \<and>
    sorted (map fst (own_entries (stream cid sid s))) \<and>
    sub_grammar sid (of_generation g (stream cid sid s)) \<and>
    (\<forall>g' b. (g', FromHandler, b) \<in> set (stream cid sid s) \<longrightarrow> (\<exists>r. b = FClosed sid r))"
proof -
  have "sub_grammar sid (pieces_of (cid, sid, g) s)"
    using wire_reach_inv [OF assms] unfolding wire_inv_def by blast
  then have "sub_grammar sid (of_generation g (stream cid sid s))" by (simp add: pieces_of_def)
  then show ?thesis using wire_reach_log [OF assms] unfolding order_ok_def wire_logged_def by blast
qed

text \<open>Every event frame a connection is ever sent, stored or live, buffered or not, is one that the
  visibility check accepted for that connection at an earlier state of the same run.\<close>

theorem sent_events_were_checked:
  "wire_reach vis s \<Longrightarrow> FEvent sid' ev \<in> set (frames_of (cid, sid, g) s) \<Longrightarrow>
   \<exists>s0. wire_reach vis s0 \<and> rtranclp (wire_step vis) s0 s \<and> vis cid ev (ws_wire s0)"
  using wire_reach_checked unfolding checked_inv_def frames_of_def was_checked_def by fastforce

text \<open>A broadcast that lost a race does no harm: a delivery changes the frames of a connection
  only while the subscription generation it was matched against is still the current one, and then
  its filters match the event; the buffer of events waiting for EOSE never exceeds its capacity.\<close>

theorem live_delivery_is_current:
  assumes "wire_reach vis s" and "(ev, cid, sid, g) \<in> set (ws_cleared s)"
    and "deliver_live ev cid sid g (ws_wire s) \<noteq> ws_wire s"
  shows "\<exists>e. sub_lookup cid sid (ws_wire s) = Some e \<and> se_generation e = g \<and> filters_match (se_filters e) ev \<and>
    length (se_pending_live e) \<le> pending_live_cap"
proof -
  obtain e where e: "sub_lookup cid sid (ws_wire s) = Some e" "se_generation e = g"
    using assms(3) by (cases "sub_lookup cid sid (ws_wire s)") (auto simp: deliver_live_def marshal_relay_event_def split: if_splits)
  have "filters_match (se_filters e) ev"
    using wire_reach_inv [OF assms(1)] assms(2) e unfolding wire_inv_def by fastforce
  moreover have "length (se_pending_live e) \<le> pending_live_cap"
    using inv_entry [OF wire_reach_inv [OF assms(1)] e(1)] by (simp add: entry_ok_def)
  ultimately show ?thesis using e by blast
qed

text \<open>A run: a client subscribes, a broadcast is matched, checked and buffered, the snapshot sends one
  event and completes.\<close>

definition demo_ev :: "string \<Rightarrow> event" where
  "demo_ev i = sample_event i 5 1 []"

definition demo_open :: wire_sys where
  "demo_open = \<lparr>ws_wire = \<lparr>w_subs = \<lparr>sm_next_generation = 1,
       sm_subs = [(''c1'', [(''s'', new_sub_entry 1 [empty_filter] 9)])], sm_senders = [''c1''],
       sm_max_subs_per_conn = max_subscriptions_per_connection (connection_limits auth_config),
       sm_max_sub_id_len = max_subscription_id_length auth_config,
       sm_max_filters = max_filters_per_req (connection_limits auth_config)\<rparr>,
     w_conns = [(''c1'', sample_conn)]\<rparr>,
     ws_log = [], ws_matched = [], ws_cleared = [], ws_jobs = [(''c1'', ''s'', 1)], ws_passed = []\<rparr>"

lemma demo_open_reach: "wire_reach vis demo_open"
proof -
  let ?v = vis
  let ?s0 = "\<lparr>ws_wire = \<lparr>w_subs = new_subscription_manager auth_config, w_conns = []\<rparr>,
     ws_log = [], ws_matched = [], ws_cleared = [], ws_jobs = [], ws_passed = []\<rparr>"
  let ?w1 = "\<lparr>w_subs = new_subscription_manager auth_config, w_conns = [(''c1'', sample_conn)]\<rparr>"
  let ?w2 = "register_sender ''c1'' ?w1"
  let ?e = "new_sub_entry 1 [empty_filter] 9"
  have 1: "wire_reach ?v (?s0\<lparr>ws_wire := ?w1\<rparr>)"
    by (rule wire_reach.step [OF wire_reach.start [of ?v auth_config] wire_step.conns])
      (simp add: conns_change_def outbound_def sample_conn_def new_conn_def)
  have 2: "wire_reach ?v (?s0\<lparr>ws_wire := ?w2\<rparr>)"
    using wire_reach.step [OF 1 wire_step.connected [of ?v _ "''c1''"]] by simp
  let ?w3 = "ws_wire demo_open"
  have add: "sub_add 9 ''c1'' ''s'' [empty_filter] (ws_wire (?s0\<lparr>ws_wire := ?w2\<rparr>)) = (None, ?w3)"
    by (simp add: sub_add_def new_subscription_manager_def auth_config_def default_config_def register_sender_def
        conn_subs_def set_subs_def put_entry_def Let_def demo_open_def)
  have "wire_reach ?v (?s0\<lparr>ws_wire := ?w2\<rparr>\<lparr>ws_wire := ?w3,
      ws_jobs := [(''c1'', ''s'', fst (sub_generation ''c1'' ''s'' ?w3))]\<rparr>)"
    using wire_reach.step [OF 2 wire_step.subscribe [OF add]] by simp
  then show ?thesis
    by (simp add: demo_open_def sub_generation_def sub_lookup_def conn_subs_def new_sub_entry_def)
qed

definition demo_cleared :: wire_sys where
  "demo_cleared = demo_open\<lparr>ws_matched := [(demo_ev ''a'', ''c1'', ''s'', 1)],
     ws_cleared := [(demo_ev ''a'', ''c1'', ''s'', 1)], ws_passed := [(''c1'', demo_ev ''b'')]\<rparr>"

lemma demo_cleared_reach: "wire_reach (\<lambda>_ _ _. True) demo_cleared"
proof -
  have m: "matches_of (demo_ev ''a'') (ws_wire demo_open) = [(demo_ev ''a'', ''c1'', ''s'', 1)]"
    by (simp add: matches_of_def broadcast_matches_def demo_open_def demo_ev_def sample_event_def empty_filter_def
        has_sender_def new_sub_entry_def filter_matches_def cursor_excludes_def has_search_def ptr_str_def)
  show ?thesis
    using wire_reach.step [OF wire_reach.step [OF wire_reach.step [OF demo_open_reach wire_step.match [of _ _ "demo_ev ''a''"]]
        wire_step.check [of "demo_ev ''a''" "''c1''" "''s''" 1]] wire_step.check_stored [of _ "''c1''" "demo_ev ''b''"]]
    unfolding m demo_cleared_def by (simp add: demo_open_def)
qed

theorem live_delivery_is_current_witness:
  "sub_lookup ''c1'' ''s'' (ws_wire demo_cleared) = Some (new_sub_entry 1 [empty_filter] 9) \<and>
   filters_match [empty_filter] (demo_ev ''a'')"
proof -
  let ?w = "ws_wire demo_cleared"
  have l: "sub_lookup ''c1'' ''s'' ?w = Some (new_sub_entry 1 [empty_filter] 9)"
    by (simp add: demo_cleared_def demo_open_def sub_lookup_def conn_subs_def)
  have "deliver_live (demo_ev ''a'') ''c1'' ''s'' 1 ?w \<noteq> ?w"
    by (simp add: deliver_live_def marshal_relay_event_def l new_sub_entry_def pending_live_cap_def)
      (simp add: demo_cleared_def demo_open_def has_sender_def put_entry_def set_subs_def conn_subs_def new_sub_entry_def)
  from live_delivery_is_current [OF demo_cleared_reach _ this] l
  show ?thesis by (simp add: demo_cleared_def new_sub_entry_def)
qed

definition demo_done :: wire_sys where
  "demo_done = (let k = (''c1'', ''s'', 1); s = demo_cleared;
     s = logged live_origin k (deliver_live (demo_ev ''a'') ''c1'' ''s'' 1 (ws_wire s)) s;
     s = logged (\<lambda>_. FromStore) k (snd (with_snapshot ''c1'' ''s'' 1
       (snapshot_event_fn False ''c1'' ''s'' (demo_ev ''b'')) (ws_wire s))) s
     in logged live_origin k (snd (complete_snapshot False ''c1'' ''s'' 1 (ws_wire s))) (s\<lparr>ws_jobs := []\<rparr>))"

lemma demo_done_reach: "wire_reach (\<lambda>_ _ _. True) demo_done"
proof -
  let ?v = "\<lambda>_ _ _. True" and ?k = "(''c1'', ''s'', 1 :: nat)"
  let ?s1 = "logged live_origin ?k (deliver_live (demo_ev ''a'') ''c1'' ''s'' 1 (ws_wire demo_cleared)) demo_cleared"
  let ?s2 = "logged (\<lambda>_. FromStore) ?k (snd (with_snapshot ''c1'' ''s'' 1
       (snapshot_event_fn False ''c1'' ''s'' (demo_ev ''b'')) (ws_wire ?s1))) ?s1"
  have j: "ws_jobs ?s1 = [?k]" "ws_jobs ?s2 = [?k]" "ws_passed ?s1 = [(''c1'', demo_ev ''b'')]"
    by (simp_all add: logged_def demo_cleared_def demo_open_def)
  have "wire_reach ?v ?s1"
    by (rule wire_reach.step [OF demo_cleared_reach wire_step.deliver]) (simp add: demo_cleared_def)
  then have "wire_reach ?v ?s2"
    by (rule wire_reach.step) (rule wire_step.snapshot, simp_all only: j, simp_all)
  moreover have "wire_step ?v ?s2 demo_done"
    using wire_step.complete [of "''c1''" "''s''" 1 ?s2 ?v False] unfolding demo_done_def Let_def j by simp
  ultimately show ?thesis by (rule wire_reach.step)
qed

lemma demo_done_frames:
  "frames_of (''c1'', ''s'', 1) demo_done =
     [FEvent ''s'' (demo_ev ''b''), FEose ''s'', FEvent ''s'' (demo_ev ''a'')]"
  by code_simp

text \<open>The client then closes the subscription: the answer is queued, a broadcast still gets through,
  and only then the subscription is removed.\<close>

definition demo_closing :: wire_sys where
  "demo_closing = (let k = (''c1'', ''s'', 1); s = demo_done;
     s = logged (\<lambda>_. FromHandler) k (snd (conn_op ''c1'' (send_closed ''s'' []) (ws_wire s))) s
     in logged live_origin k (deliver_live (demo_ev ''a'') ''c1'' ''s'' 1 (ws_wire s)) s)"

lemma demo_closing_reach: "wire_reach (\<lambda>_ _ _. True) demo_closing"
proof -
  let ?v = "\<lambda>_ _ _. True" and ?k = "(''c1'', ''s'', 1 :: nat)"
  let ?s1 = "logged (\<lambda>_. FromHandler) ?k (snd (conn_op ''c1'' (send_closed ''s'' []) (ws_wire demo_done))) demo_done"
  have "fst (sub_generation ''c1'' ''s'' (ws_wire demo_done)) = 1" by code_simp
  then have "wire_reach ?v ?s1"
    using wire_reach.step [OF demo_done_reach wire_step.answer_closed [of ?v demo_done "''c1''" "''s''" "[]"]] by simp
  moreover have "(demo_ev ''a'', ''c1'', ''s'', 1) \<in> set (ws_cleared ?s1)"
    by (simp add: logged_def demo_done_def demo_cleared_def Let_def)
  ultimately show ?thesis
    unfolding demo_closing_def Let_def by (intro wire_reach.step [OF _ wire_step.deliver])
qed

lemma demo_closing_stream:
  "stream ''c1'' ''s'' demo_closing =
     [(1, FromStore, FEvent ''s'' (demo_ev ''b'')), (1, FromEnd, FEose ''s''), (1, FromLive, FEvent ''s'' (demo_ev ''a'')),
      (1, FromHandler, FClosed ''s'' []), (1, FromLive, FEvent ''s'' (demo_ev ''a''))]"
  by code_simp

theorem subscription_frames_in_order_witness:
  "sub_grammar ''s'' [(FromStore, FEvent ''s'' (demo_ev ''b'')), (FromEnd, FEose ''s''),
     (FromLive, FEvent ''s'' (demo_ev ''a'')), (FromLive, FEvent ''s'' (demo_ev ''a''))]"
  using subscription_frames_in_order [OF demo_closing_reach, of "''c1''" "''s''" 1] unfolding demo_closing_stream
  by (simp add: of_generation_def own_entries_def)

theorem sent_events_were_checked_witness:
  "\<exists>s0. wire_reach (\<lambda>_ _ _. True) s0 \<and> rtranclp (wire_step (\<lambda>_ _ _. True)) s0 demo_done"
proof -
  have "FEvent ''s'' (demo_ev ''a'') \<in> set (frames_of (''c1'', ''s'', 1) demo_done)" by (simp only: demo_done_frames) simp
  from sent_events_were_checked [OF demo_done_reach this] show ?thesis by blast
qed

end
