(* ===== verification/Snapshot_Delivery.thy ===== *)
theory Snapshot_Delivery
  imports Snapshot
begin

text \<open>
  What a client receives of a snapshot: the reader-queue functions of \<open>internal/relay/readqueue.go\<close>
  run without interruption, on a connection whose queue has room and on one whose queue is full.
  Sending stored events changes nothing but the subscription's entry and the queue of its connection
  (\<open>delivers_only\<close>), which the relay's own visibility check does not read (\<open>Relay_Handlers\<close>).
\<close>

section \<open>A current subscription\<close>

definition at_subscription :: "string \<Rightarrow> string \<Rightarrow> nat \<Rightarrow> frame list \<Rightarrow> 'a wire_scheme \<Rightarrow> bool" where
  "at_subscription cid sid gen pend w \<longleftrightarrow>
     has_sender cid w \<and>
     (\<exists>e. sub_lookup cid sid w = Some e \<and> se_generation e = gen \<and> \<not> se_closed e \<and> se_pending_live e = pend) \<and>
     (\<exists>c. map_of (w_conns w) cid = Some c \<and> \<not> cn_ctx_done c \<and> \<not> cn_outbound_closed c)"

definition room_for :: "nat \<Rightarrow> string \<Rightarrow> 'a wire_scheme \<Rightarrow> bool" where
  "room_for n cid w \<longleftrightarrow>
     (\<exists>c. map_of (w_conns w) cid = Some c \<and> length (cn_send c) + n \<le> send_queue_cap)"

definition delivers_only :: "string \<Rightarrow> 'a wire_scheme \<Rightarrow> 'a wire_scheme \<Rightarrow> bool" where
  "delivers_only cid w w' \<longleftrightarrow> wire.more w' = wire.more w \<and>
     (\<forall>cid'. cid' \<noteq> cid \<longrightarrow> map_of (w_conns w') cid' = map_of (w_conns w) cid') \<and>
     (\<exists>c q. map_of (w_conns w) cid = Some c \<and> map_of (w_conns w') cid = Some (c\<lparr>cn_send := q\<rparr>))"

definition stable_check :: "(string \<Rightarrow> event \<Rightarrow> 'a wire_scheme \<Rightarrow> bool) \<Rightarrow> string \<Rightarrow> 'a wire_scheme \<Rightarrow> bool" where
  "stable_check visible cid w \<longleftrightarrow> (\<forall>w' ev. delivers_only cid w w' \<longrightarrow> visible cid ev w' = visible cid ev w)"

lemma delivers_only_trans:
  "delivers_only cid w w' \<Longrightarrow> delivers_only cid w' w'' \<Longrightarrow> delivers_only cid w w''"
  unfolding delivers_only_def by fastforce

lemma delivers_only_refl: "at_subscription cid sid gen pend w \<Longrightarrow> delivers_only cid w w"
  unfolding delivers_only_def at_subscription_def by (metis conn.surjective conn.update_convs(3))

lemma at_subscription_current:
  assumes "at_subscription cid sid gen pend w"
  shows "\<not> snapshot_canceled False cid w" "is_same_snapshot cid sid gen w"
  using assms by (auto simp: at_subscription_def snapshot_canceled_def is_same_snapshot_def)

lemma at_subscription_run:
  fixes w :: "'a wire_scheme"
  assumes "at_subscription cid sid gen pend w"
  obtains e where "sub_lookup cid sid w = Some e" "se_pending_live e = pend" "se_generation e = gen" "\<not> se_closed e"
    "\<And>fn :: sub_entry \<Rightarrow> 'a wire_scheme \<Rightarrow> 'b \<times> 'a wire_scheme.
      with_snapshot cid sid gen fn w = (Some (fst (fn e w)), snd (fn e w))"
proof -
  obtain e where e: "sub_lookup cid sid w = Some e" "se_pending_live e = pend" "se_generation e = gen"
    "\<not> se_closed e" "has_sender cid w"
    using assms by (auto simp: at_subscription_def)
  have "with_snapshot cid sid gen fn w = (Some (fst (fn e w)), snd (fn e w))"
    for fn :: "sub_entry \<Rightarrow> 'a wire_scheme \<Rightarrow> 'b \<times> 'a wire_scheme"
    using e by (simp add: with_snapshot_def case_prod_unfold Let_def)
  with e that show thesis by blast
qed

lemma conn_op_enqueue:
  assumes "map_of (w_conns w) cid = Some c" "\<not> cn_ctx_done c" "\<not> cn_outbound_closed c"
  obtains (queued) "length (cn_send c) < send_queue_cap" "fst (conn_op cid (enqueue b) w) = None"
      "map_of (w_conns (snd (conn_op cid (enqueue b) w))) cid = Some (c\<lparr>cn_send := cn_send c @ [b]\<rparr>)"
    | (full) "send_queue_cap \<le> length (cn_send c)" "fst (conn_op cid (enqueue b) w) = Some err_slow_consumer"
      "map_of (w_conns (snd (conn_op cid (enqueue b) w))) cid = Some c"
  using assms by (cases "length (cn_send c) < send_queue_cap") (auto simp: conn_op_def enqueue_def Let_def)

text \<open>Offering one event: it is queued when there is room and skipped otherwise.\<close>

lemma snapshot_event_offered:
  fixes ev :: event and w :: "'a wire_scheme"
  assumes at: "at_subscription cid sid gen pend w"
  defines "w' \<equiv> snd (with_snapshot cid sid gen (snapshot_event_fn False cid sid ev) w)"
  shows "fst (with_snapshot cid sid gen (snapshot_event_fn False cid sid ev) w) \<noteq> None"
    "at_subscription cid sid gen pend w'"
    "room_for (Suc n) cid w \<Longrightarrow> room_for n cid w' \<and> out_of cid w' = out_of cid w @ [FEvent sid ev]"
    "\<not> room_for 1 cid w \<Longrightarrow> \<not> room_for 1 cid w' \<and> out_of cid w' = out_of cid w"
    "delivers_only cid w w'"
proof -
  let ?r = "conn_op cid (enqueue (FEvent sid ev)) w"
  obtain e where e: "sub_lookup cid sid w = Some e" "se_pending_live e = pend" "se_generation e = gen" "\<not> se_closed e"
    "with_snapshot cid sid gen (snapshot_event_fn False cid sid ev) w =
      (Some (fst (snapshot_event_fn False cid sid ev e w)), snd (snapshot_event_fn False cid sid ev e w))"
    by (rule at_subscription_run [OF at, where 'b = "string option"]) (rule that)
  show "fst (with_snapshot cid sid gen (snapshot_event_fn False cid sid ev) w) \<noteq> None" by (simp add: e(5))
  define e' where "e' = (if fst ?r = None then e\<lparr>se_initial_sent := se_initial_sent e + 1\<rparr>
    else e\<lparr>se_initial_dropped := se_initial_dropped e + 1\<rparr>)"
  have "snapshot_event_fn False cid sid ev e w = (fst ?r, put_entry cid sid e' (snd ?r))"
    unfolding snapshot_event_fn_def send_event_enqueue case_prod_unfold Let_def e'_def
    using at_subscription_current(1) [OF at] by (simp only: if_False)
  then have "w' = put_entry cid sid e' (snd ?r)" by (simp only: w'_def e(5) snd_conv)
  moreover have "se_pending_live e' = pend" "se_generation e' = gen" "\<not> se_closed e'"
    using e(2,3,4) by (simp_all add: e'_def)
  ultimately have w': "w' = put_entry cid sid e' (snd ?r)" "se_pending_live e' = pend" "se_generation e' = gen"
    "\<not> se_closed e'" by blast+
  obtain c where c: "map_of (w_conns w) cid = Some c" "\<not> cn_ctx_done c" "\<not> cn_outbound_closed c"
    using at by (auto simp: at_subscription_def)
  have hs: "has_sender cid w" using at by (simp add: at_subscription_def)
  from c show "at_subscription cid sid gen pend w'"
    by (cases rule: conn_op_enqueue [of w cid c "FEvent sid ev"]) (use w' hs c in \<open>auto simp: at_subscription_def\<close>)
  have same: "c\<lparr>cn_send := cn_send c\<rparr> = c" by simp
  have more: "wire.more w' = wire.more w"
    by (simp add: w'(1) put_entry_def set_subs_def conn_op_def split: option.split prod.split)
  have others: "\<forall>cid'. cid' \<noteq> cid \<longrightarrow> map_of (w_conns w') cid' = map_of (w_conns w) cid'"
    by (simp add: w'(1) conn_op_def split: option.split prod.split)
  from c show "delivers_only cid w w'"
    by (cases rule: conn_op_enqueue [of w cid c "FEvent sid ev"])
      (use w' c more others same in \<open>auto simp: delivers_only_def intro: exI [of _ "cn_send c"]\<close>)
  from c show "room_for n cid w' \<and> out_of cid w' = out_of cid w @ [FEvent sid ev]" if r: "room_for (Suc n) cid w"
    by (cases rule: conn_op_enqueue [of w cid c "FEvent sid ev"]) (use w' c r in \<open>auto simp: room_for_def out_conn_op\<close>)
  from c show "\<not> room_for 1 cid w' \<and> out_of cid w' = out_of cid w" if r: "\<not> room_for 1 cid w"
    by (cases rule: conn_op_enqueue [of w cid c "FEvent sid ev"]) (use w' c r in \<open>auto simp: room_for_def out_conn_op\<close>)
qed

lemma room_mono: "room_for n cid w \<Longrightarrow> m \<le> n \<Longrightarrow> room_for m cid w"
  by (auto simp: room_for_def)

lemma send_loop_delivers:
  assumes "stable_check visible cid w0"
  shows "at_subscription cid sid gen pend w \<Longrightarrow> room_for (length evs + k) cid w \<Longrightarrow> delivers_only cid w0 w \<Longrightarrow>
    \<exists>w'. send_snapshot_loop False visible cid sid gen evs w = (True, w') \<and>
      at_subscription cid sid gen pend w' \<and> room_for k cid w' \<and> delivers_only cid w0 w' \<and>
      out_of cid w' = out_of cid w @ map (FEvent sid) (List.filter (\<lambda>ev. visible cid ev w0) evs)"
proof (induction evs arbitrary: w)
  case Nil
  then show ?case using at_subscription_current [OF Nil(1)] by simp
next
  case (Cons ev evs)
  note cur = at_subscription_current [OF Cons.prems(1)]
  have vis: "visible cid ev w = visible cid ev w0" using assms Cons.prems(3) by (simp add: stable_check_def)
  show ?case
  proof (cases "visible cid ev w0")
    case False
    have "room_for (length evs + k) cid w" by (rule room_mono [OF Cons.prems(2)]) simp
    then show ?thesis using Cons.IH [OF Cons.prems(1) _ Cons.prems(3)] cur vis False by simp
  next
    case True
    let ?r = "with_snapshot cid sid gen (snapshot_event_fn False cid sid ev) w"
    note offer = snapshot_event_offered [OF Cons.prems(1), where ev = ev]
    from offer(1) obtain x where x: "?r = (Some x, snd ?r)" by (cases ?r) auto
    have room: "room_for (length evs + k) cid (snd ?r)" "out_of cid (snd ?r) = out_of cid w @ [FEvent sid ev]"
      using offer(3) [of "length evs + k"] Cons.prems(2) by simp_all
    have step: "send_snapshot_loop False visible cid sid gen (ev # evs) w =
        send_snapshot_loop False visible cid sid gen evs (snd ?r)"
      using cur vis True x by (simp split: prod.split option.split) (metis fst_conv option.discI snd_conv)
    from Cons.IH [OF offer(2) room(1) delivers_only_trans [OF Cons.prems(3) offer(5)]] show ?thesis
      unfolding step using room(2) True by auto
  qed
qed

lemma send_events_delivers:
  assumes "stable_check visible cid w0" "at_subscription cid sid gen pend w" "room_for (length evs + k) cid w"
    "delivers_only cid w0 w"
  obtains w' where "send_snapshot_events False visible cid sid gen evs w = (True, w')"
    "at_subscription cid sid gen pend w'" "room_for k cid w'" "delivers_only cid w0 w'"
    "out_of cid w' = out_of cid w @ map (FEvent sid) (List.filter (\<lambda>ev. visible cid ev w0) evs)"
  using send_loop_delivers [OF assms] at_subscription_current [OF assms(2)] that
  by (auto simp: send_snapshot_events_def)

text \<open>With a full queue every event is skipped and the loop still succeeds.\<close>

lemma send_loop_skips:
  "at_subscription cid sid gen pend w \<Longrightarrow> \<not> room_for 1 cid w \<Longrightarrow>
    \<exists>w'. send_snapshot_loop False visible cid sid gen evs w = (True, w') \<and>
      at_subscription cid sid gen pend w' \<and> out_of cid w' = out_of cid w"
proof (induction evs arbitrary: w)
  case Nil
  then show ?case using at_subscription_current [OF Nil(1)] by simp
next
  case (Cons ev evs)
  note cur = at_subscription_current [OF Cons.prems(1)]
  show ?case
  proof (cases "visible cid ev w")
    case False
    then show ?thesis using Cons.IH [OF Cons.prems] cur by simp
  next
    case True
    let ?r = "with_snapshot cid sid gen (snapshot_event_fn False cid sid ev) w"
    note offer = snapshot_event_offered [OF Cons.prems(1), where ev = ev]
    from offer(1) obtain x where x: "?r = (Some x, snd ?r)" by (cases ?r) auto
    have step: "send_snapshot_loop False visible cid sid gen (ev # evs) w =
        send_snapshot_loop False visible cid sid gen evs (snd ?r)"
      using cur True x by (simp split: prod.split option.split) (metis fst_conv option.discI snd_conv)
    from Cons.IH [OF offer(2)] offer(4) [OF Cons.prems(2)] show ?thesis
      unfolding step by auto
  qed
qed

section \<open>All pages\<close>

lemma drain_total:
  "drain_pages n ops st ps q = Some r \<Longrightarrow> drain_remaining_pages n ops st ctx_err visible cid sid q ps gen w \<noteq> None"
proof (induction n arbitrary: q r w)
  case (Suc n)
  show ?case
  proof (cases "fetch_req_page ops st q ps")
    case (Inr x)
    obtain evs more q' where x: "x = ((evs, more), q')" by (cases x) auto
    show ?thesis
    proof (cases more)
      case True
      then obtain r' where "drain_pages n ops st ps q' = Some r'"
        using Suc.prems Inr x by (auto split: option.splits)
      from Suc.IH [OF this] show ?thesis
        using Inr x by (auto simp: case_prod_unfold Let_def)
    qed (use Inr x in \<open>auto simp: case_prod_unfold Let_def\<close>)
  qed auto
qed simp

lemma drain_delivers:
  assumes v: "stable_check visible cid w0"
  shows "drain_pages n ops st ps q = Some (Inr pages) \<Longrightarrow> at_subscription cid sid gen pend w \<Longrightarrow>
    room_for (length (concat pages) + k) cid w \<Longrightarrow> delivers_only cid w0 w \<Longrightarrow>
    \<exists>w'. drain_remaining_pages n ops st False visible cid sid q ps gen w = Some (True, w') \<and>
      at_subscription cid sid gen pend w' \<and> room_for k cid w' \<and>
      out_of cid w' = out_of cid w @ map (FEvent sid) (List.filter (\<lambda>ev. visible cid ev w0) (concat pages))"
proof (induction n arbitrary: q pages w)
  case (Suc n)
  note cur = at_subscription_current(2) [OF Suc.prems(2)]
  obtain evs more q' where f: "fetch_req_page ops st q ps = Inr ((evs, more), q')"
    using Suc.prems(1) by (auto split: sum.splits)
  show ?case
  proof (cases more)
    case False
    then have pages: "pages = [evs]" using Suc.prems(1) f by simp
    have "room_for (length evs + k) cid w" using Suc.prems(3) by (simp add: pages)
    from send_events_delivers [OF v Suc.prems(2) this Suc.prems(4)] obtain w' where
      "send_snapshot_events False visible cid sid gen evs w = (True, w')" "at_subscription cid sid gen pend w'"
      "room_for k cid w'" "out_of cid w' = out_of cid w @ map (FEvent sid) (List.filter (\<lambda>ev. visible cid ev w0) evs)" by blast
    then show ?thesis using cur f False by (simp add: pages)
  next
    case True
    then obtain rest where rest: "drain_pages n ops st ps q' = Some (Inr rest)" "pages = evs # rest"
      using Suc.prems(1) f by (auto split: option.splits sum.splits)
    have "room_for (length evs + (length (concat rest) + k)) cid w"
      using Suc.prems(3) by (simp add: rest(2) add.assoc)
    from send_events_delivers [OF v Suc.prems(2) this Suc.prems(4)] obtain w' where
      w': "send_snapshot_events False visible cid sid gen evs w = (True, w')" "at_subscription cid sid gen pend w'"
      "room_for (length (concat rest) + k) cid w'" "delivers_only cid w0 w'"
      "out_of cid w' = out_of cid w @ map (FEvent sid) (List.filter (\<lambda>ev. visible cid ev w0) evs)" by blast
    have step: "drain_remaining_pages (Suc n) ops st False visible cid sid q ps gen w =
        drain_remaining_pages n ops st False visible cid sid q' ps gen w'"
      using cur f True w'(1) by simp
    from Suc.IH [OF rest(1) w'(2,3,4)] show ?thesis
      unfolding step using w'(5) by (auto simp: rest(2))
  qed
qed simp

section \<open>End of the snapshot\<close>

lemma send_to_room:
  assumes "map_of (w_conns w) cid = Some c" "\<not> cn_outbound_closed c" "length (cn_send c) < send_queue_cap"
  shows "send_to cid b w = (True, w\<lparr>w_conns := AList.update cid (c\<lparr>cn_send := cn_send c @ [b]\<rparr>) (w_conns w)\<rparr>)"
  using assms by (simp add: send_to_def enqueue_subscription_frame_def enqueue_def)

lemma flush_pending_room:
  "map_of (w_conns w) cid = Some c \<Longrightarrow> \<not> cn_outbound_closed c \<Longrightarrow>
   length (cn_send c) + length pending \<le> send_queue_cap \<Longrightarrow>
   out_of cid (snd (flush_pending cid pending e w)) = out_of cid w @ pending"
proof (induction pending arbitrary: c e w)
  case (Cons b pending)
  have room: "length (cn_send c) < send_queue_cap" using Cons.prems(3) by simp
  let ?c = "c\<lparr>cn_send := cn_send c @ [b]\<rparr>"
  let ?w = "w\<lparr>w_conns := AList.update cid ?c (w_conns w)\<rparr>"
  note sent = send_to_room [OF Cons.prems(1,2) room, of b]
  have "out_of cid ?w = out_of cid w @ [b]"
    using out_send_to [of cid b w] by (simp add: sent)
  moreover have "map_of (w_conns ?w) cid = Some ?c" by simp
  ultimately show ?case
    using Cons.IH [of ?w ?c] Cons.prems(2,3) sent by simp
qed simp

lemma complete_delivers:
  assumes at: "at_subscription cid sid gen pend w" and room: "room_for (Suc (length pend)) cid w"
  obtains w' where "complete_snapshot False cid sid gen w = (None, w')"
    "out_of cid w' = out_of cid w @ FEose sid # pend"
    "\<exists>e. sub_lookup cid sid w' = Some e \<and> se_snapshot_done e \<and> se_pending_live e = []"
proof -
  let ?r = "conn_op cid (enqueue (FEose sid)) w"
  obtain e where e: "sub_lookup cid sid w = Some e" "se_pending_live e = pend" "se_generation e = gen" "\<not> se_closed e"
    "with_snapshot cid sid gen (complete_fn False cid sid) w =
      (Some (fst (complete_fn False cid sid e w)), snd (complete_fn False cid sid e w))"
    by (rule at_subscription_run [OF at, where 'b = "string option"]) (rule that)
  obtain c where c: "map_of (w_conns w) cid = Some c" "\<not> cn_ctx_done c" "\<not> cn_outbound_closed c"
    "length (cn_send c) + Suc (length pend) \<le> send_queue_cap"
    using at room by (auto simp: at_subscription_def room_for_def)
  have hs: "has_sender cid w" using at by (simp add: at_subscription_def)
  let ?c = "c\<lparr>cn_send := cn_send c @ [FEose sid]\<rparr>"
  have q: "fst ?r = None" "map_of (w_conns (snd ?r)) cid = Some ?c"
    using c(4) by (cases rule: conn_op_enqueue [OF c(1,2,3), of "FEose sid"]; simp)+
  let ?e = "e\<lparr>se_eose_sent := se_eose_sent e + 1\<rparr>"
  let ?e1 = "?e\<lparr>se_snapshot_done := True, se_pending_live := []\<rparr>"
  let ?f = "flush_pending cid pend ?e1 (snd ?r)"
  have run: "complete_fn False cid sid e w = (None, put_entry cid sid (fst ?f) (snd ?f))"
    using at_subscription_current(1) [OF at] q(1) hs e(2)
    by (simp add: complete_fn_def send_eose_enqueue finish_snapshot_locked_def case_prod_unfold Let_def)
  have out: "out_of cid (snd ?f) = out_of cid w @ FEose sid # pend"
    using flush_pending_room [OF q(2), of pend ?e1] c(3,4) q(1) by (simp add: out_conn_op)
  obtain a b where "fst ?f = ?e1\<lparr>se_broadcast_ok := a, se_broadcast_drop := b\<rparr>"
    using flush_pending_entry by blast
  then show thesis
    using e(5) run out by (intro that [of "put_entry cid sid (fst ?f) (snd ?f)"]) (simp_all add: complete_snapshot_def)
qed

section \<open>Properties\<close>

text \<open>A client that keeps up, under any visibility check that the delivery itself does not change.\<close>

lemma snapshot_delivered:
  fixes w :: "'a wire_scheme"
  assumes "db_valid db" and "0 < page_size" and "\<not> has_search f" and "f_cursor f = None"
    and "Suc (length (db_events db)) < n"
    and "stable_check visible cid w" and at: "at_subscription cid sid gen pend w"
    and "query_events env [f] db = Inr evs" and room: "room_for (length evs + Suc (length pend)) cid w"
  shows "\<exists>w1 w2. drain_remaining_pages n (sql_store env) db False visible cid sid
      (new_req_query_state [f] 0 se) page_size gen w = Some (True, w1) \<and>
    complete_snapshot False cid sid gen w1 = (None, w2) \<and>
    out_of cid w2 = out_of cid w @
      map (FEvent sid) (List.filter (\<lambda>ev. visible cid ev w) evs) @ FEose sid # pend \<and>
    (\<exists>e. sub_lookup cid sid w2 = Some e \<and> se_snapshot_done e \<and> se_pending_live e = [])"
proof -
  obtain pages where p: "drain_pages n (sql_store env) db page_size (new_req_query_state [f] 0 se) = Some (Inr pages)"
    "evs = concat pages"
    using single_page_order [OF assms(1-5), of env se] assms(8) by auto
  from drain_delivers [OF assms(6) p(1) at room [unfolded p(2)] delivers_only_refl [OF at]] obtain w1 where
    w1: "drain_remaining_pages n (sql_store env) db False visible cid sid (new_req_query_state [f] 0 se) page_size gen w =
        Some (True, w1)" "at_subscription cid sid gen pend w1" "room_for (Suc (length pend)) cid w1"
      "out_of cid w1 = out_of cid w @ map (FEvent sid) (List.filter (\<lambda>ev. visible cid ev w) (concat pages))" by blast
  from complete_delivers [OF w1(2,3)] w1(1,4) p(2) show ?thesis by (metis append_assoc)
qed

text \<open>C38: The loop over the remaining pages always ends: over an unchanged store the stated number of
  pages is enough for any filters without search, whatever the connection, the subscription and
  the visibility check do in between.\<close>

theorem drain_remaining_pages_ends:
  assumes "db_valid db" and "0 < page_size" and "\<forall>f \<in> set fs. \<not> has_search f \<and> f_cursor f = None"
    and "length fs * Suc (length (db_events db)) < n"
  shows "drain_remaining_pages n (sql_store env) db ctx_err visible cid sid (new_req_query_state fs dl se)
    page_size gen w \<noteq> None"
proof -
  obtain pages where "drain_pages n (sql_store env) db page_size (new_req_query_state fs dl se) = Some (Inr pages)"
    using paged_ends [OF assms] by blast
  then show ?thesis by (rule drain_total)
qed

text \<open>C39: A client that is behind loses stored events without notice: on a connection whose queue is
  full, sending a page succeeds with none of its events queued, so the snapshot goes on, and once
  the queue has drained EOSE follows as if the snapshot had been complete.\<close>

theorem full_queue_skips_stored_events:
  assumes "at_subscription cid sid gen pend w" and "\<not> room_for 1 cid w"
  shows "\<exists>w'. send_snapshot_events False visible cid sid gen evs w = (True, w') \<and> out_of cid w' = out_of cid w \<and>
    (\<forall>w2. at_subscription cid sid gen pend w2 \<and> room_for (Suc (length pend)) cid w2 \<longrightarrow>
      (\<exists>w3. complete_snapshot False cid sid gen w2 = (None, w3) \<and> out_of cid w3 = out_of cid w2 @ FEose sid # pend))"
proof -
  have "\<exists>w'. send_snapshot_events False visible cid sid gen evs w = (True, w') \<and> out_of cid w' = out_of cid w"
    using send_loop_skips [OF assms, of visible evs] at_subscription_current [OF assms(1)]
    by (auto simp: send_snapshot_events_def)
  then show ?thesis using complete_delivers by metis
qed

lemma demo_at: "at_subscription ''c1'' ''s'' 1 [] (ws_wire demo_open)"
  by (simp add: at_subscription_def demo_open_def has_sender_def sub_lookup_def conn_subs_def new_sub_entry_def
      sample_conn_def new_conn_def)

theorem drain_remaining_pages_ends_witness:
  "drain_remaining_pages 5 (sql_store plain_env) one_event_db False (\<lambda>_ _ _. True) ''c1'' ''s''
     (new_req_query_state [empty_filter, empty_filter] 500 False) 1 1 (ws_wire demo_open) \<noteq> None"
  by (rule drain_remaining_pages_ends [OF one_event_db_valid])
    (simp_all add: one_event_db_def empty_filter_def has_search_def ptr_str_def)

definition backlogged :: wire where
  "backlogged = (ws_wire demo_open)\<lparr>w_conns := [(''c1'', sample_conn\<lparr>cn_send := replicate send_queue_cap (FNotice [])\<rparr>)]\<rparr>"

theorem full_queue_skips_stored_events_witness:
  "\<exists>w'. send_snapshot_events False (\<lambda>_ _ _. True) ''c1'' ''s'' 1 [demo_ev ''a''] backlogged = (True, w') \<and>
     out_of ''c1'' w' = out_of ''c1'' backlogged"
proof -
  have "at_subscription ''c1'' ''s'' 1 [] backlogged"
    by (simp add: at_subscription_def backlogged_def demo_open_def has_sender_def sub_lookup_def conn_subs_def
        new_sub_entry_def sample_conn_def new_conn_def)
  moreover have "\<not> room_for 1 ''c1'' backlogged"
    by (simp add: room_for_def backlogged_def)
  ultimately show ?thesis
    using full_queue_skips_stored_events [of "''c1''" "''s''" 1 "[]" backlogged "\<lambda>_ _ _. True" "[demo_ev ''a'']"]
    by blast
qed

end
