(* ===== verification/Wire_Frame.thy ===== *)
theory Wire_Frame
  imports Snapshot_Delivery
begin

text \<open>
  What the operations on subscriptions leave alone. A relation between two states of the wire that
  every elementary change satisfies - queueing a frame, changing a subscription without changing its
  filters, removing one - is satisfied by every operation built from them: broadcasts, snapshots and
  the loop over the remaining pages. The locale \<open>wire_relation\<close> is that argument, made once;
  \<open>keeps_subs\<close> (no operation invents a subscription or alters its filters) and \<open>quiet\<close> (no
  operation touches what the server accounts for) are its two instances.
\<close>

section \<open>The part of a connection the server accounts for\<close>

definition settled :: "conn \<Rightarrow> string \<times> string \<times> (string, neg_session) go_map \<times> bool" where
  "settled c = (cn_id c, cn_peer_ip c, cn_neg_sessions c, cn_neg_closed c)"

lemma settled_enqueue [simp]: "settled (snd (enqueue b c)) = settled c"
  by (simp add: settled_def)

lemma settled_sends [simp]:
  "settled (snd (send_notice m c)) = settled c" "settled (snd (send_ok i ok m c)) = settled c"
  "settled (snd (send_eose sid c)) = settled c" "settled (snd (send_event sid ev c)) = settled c"
  "settled (snd (send_closed sid m c)) = settled c"
  by (simp_all add: send_notice_def send_ok_def send_eose_def send_event_enqueue send_closed_def)

lemma settled_shutdown [simp]: "settled (initiate_shutdown c) = settled c"
  by (simp add: settled_def initiate_shutdown_def)

lemma settled_subscription_frame [simp]: "settled (snd (enqueue_subscription_frame b c)) = settled c"
proof (cases "enqueue b c")
  case (Pair err c')
  then have "settled c' = settled c" using settled_enqueue [of b c] by simp
  then show ?thesis using Pair by (simp add: enqueue_subscription_frame_def split: option.split)
qed

lemma settled_challenge [simp]: "settled (snd (nip42_enqueue_auth_challenge cfg fresh c)) = settled c"
  by (simp add: nip42_enqueue_auth_challenge_def nip42_ensure_challenge_def marshal_relay_auth_def settled_def Let_def)

lemma settled_notes [simp]:
  "settled (note_subscription_count now n c) = settled c" "settled (note_inbound_after_parse msg c) = settled c"
  "settled (nip42_add_pubkey pk c) = settled c" "settled (write_loop_step e c) = settled c"
  "settled (c\<lparr>cn_limiter := l\<rparr>) = settled c"
  by (simp_all add: settled_def note_subscription_count_def nip42_add_pubkey_def write_loop_step_def
      initiate_shutdown_def split: list.split, cases msg, simp_all add: settled_def note_client_event_def)

text \<open>A connection is shut down for good, and a change leaves that and the accounted part alone.\<close>

definition shut :: "conn \<Rightarrow> bool" where
  "shut c \<longleftrightarrow> cn_ctx_done c \<and> cn_outbound_closed c"

definition tame :: "conn \<Rightarrow> conn \<Rightarrow> bool" where
  "tame c c' \<longleftrightarrow> settled c' = settled c \<and> (shut c \<longrightarrow> shut c')"

lemma shut_sends [simp]:
  "shut (snd (enqueue b c)) = shut c" "shut (snd (send_notice m c)) = shut c" "shut (snd (send_ok i ok m c)) = shut c"
  "shut (snd (send_eose sid c)) = shut c" "shut (snd (send_event sid ev c)) = shut c"
  "shut (snd (send_closed sid m c)) = shut c"
  by (simp_all add: shut_def send_notice_def send_ok_def send_eose_def send_event_enqueue send_closed_def)

lemma shut_pubkey [simp]: "shut (nip42_add_pubkey pk c) = shut c"
  by (simp add: shut_def nip42_add_pubkey_def)

lemma tame_refl [simp]: "tame c c"
  by (simp add: tame_def)

lemma tame_trans: "tame c c' \<Longrightarrow> tame c' c'' \<Longrightarrow> tame c c''"
  by (simp add: tame_def)

lemma tame_shutdown [simp]: "tame c (initiate_shutdown c)"
  by (simp add: tame_def shut_def) (simp add: initiate_shutdown_def)

lemma tame_sends [simp]:
  "tame c (snd (enqueue b c))" "tame c (snd (send_notice m c))" "tame c (snd (send_ok i ok m c))"
  "tame c (snd (send_eose sid c))" "tame c (snd (send_event sid ev c))" "tame c (snd (send_closed sid m c))"
  by (simp_all add: tame_def)

lemma tame_subscription_frame [simp]: "tame c (snd (enqueue_subscription_frame b c))"
proof (cases "enqueue b c")
  case (Pair err c')
  then have "tame c c'" using tame_sends(1) [of c b] by simp
  then show ?thesis
    using Pair by (simp add: enqueue_subscription_frame_def tame_def shut_def initiate_shutdown_def settled_def split: option.split)
qed

lemma tame_challenge [simp]: "tame c (snd (nip42_enqueue_auth_challenge cfg fresh c))"
  by (simp add: tame_def) (simp add: shut_def nip42_enqueue_auth_challenge_def nip42_ensure_challenge_def marshal_relay_auth_def Let_def)

lemma tame_notes [simp]:
  "tame c (note_subscription_count now n c)" "tame c (note_inbound_after_parse msg c)"
  "tame c (nip42_add_pubkey pk c)" "tame c (write_loop_step e c)" "tame c (c\<lparr>cn_limiter := l\<rparr>)"
  by (simp_all only: tame_def settled_notes simp_thms shut_def,
      simp_all add: note_subscription_count_def nip42_add_pubkey_def write_loop_step_def
      initiate_shutdown_def split: list.split, cases msg, simp_all add: note_client_event_def)

section \<open>The interface\<close>

locale wire_relation =
  fixes R :: "'a wire_scheme \<Rightarrow> 'a wire_scheme \<Rightarrow> bool"
  assumes R_refl: "R w w"
    and R_trans: "R w w' \<Longrightarrow> R w' w'' \<Longrightarrow> R w w''"
    and R_conn_op: "(\<And>c. tame c (snd (f c))) \<Longrightarrow> R w (snd (conn_op cid f w))"
    and R_send_to: "R w (snd (send_to cid b w))"
    and R_put: "sub_lookup cid sid w = Some e \<Longrightarrow> se_filters e' = se_filters e \<Longrightarrow> R w (put_entry cid sid e' w)"
    and R_remove: "R w (remove_locked cid sid w)"
begin

lemma put_after:
  assumes "R w w'" "w_subs w' = w_subs w" "sub_lookup cid sid w = Some e" "se_filters e' = se_filters e"
  shows "R w (put_entry cid sid e' w')"
  by (rule R_trans [OF assms(1) R_put [OF _ assms(4)]]) (use lookup_cong [OF assms(2)] assms(3) in simp)

lemma with_snapshot:
  assumes "\<And>e. sub_lookup cid sid w = Some e \<Longrightarrow> R w (snd (fn e w))"
  shows "R w (snd (with_snapshot cid sid gen fn w))"
  by (cases rule: with_snapshot_cases [of cid sid gen fn w]) (simp_all add: assms R_refl)

lemma snapshot_event:
  assumes "sub_lookup cid sid w = Some e"
  shows "R w (snd (snapshot_event_fn ctx cid sid ev e w))"
proof (cases "snapshot_canceled ctx cid w")
  case False
  let ?r = "conn_op cid (send_event sid ev) w"
  have "R w (put_entry cid sid e' (snd ?r))" if "se_filters e' = se_filters e" for e'
    by (rule put_after [OF R_conn_op _ assms that]) simp_all
  then show ?thesis using False by (simp add: snapshot_event_fn_def case_prod_unfold Let_def)
qed (simp add: snapshot_event_fn_def R_refl)

lemma send_loop: "R w (snd (send_snapshot_loop ctx visible cid sid gen evs w))"
proof (induction evs arbitrary: w)
  case (Cons ev evs)
  let ?r = "with_snapshot cid sid gen (snapshot_event_fn ctx cid sid ev) w"
  have "R w (snd ?r)" by (rule with_snapshot) (rule snapshot_event)
  then have "R w (snd (send_snapshot_loop ctx visible cid sid gen evs (snd ?r)))"
    using Cons.IH R_trans by blast
  then show ?case
    using Cons.IH \<open>R w (snd ?r)\<close> R_refl by (auto split: prod.split option.split simp: prod_eq_iff)
qed (simp add: R_refl)

lemma send_events: "R w (snd (send_snapshot_events ctx visible cid sid gen evs w))"
  by (simp add: send_snapshot_events_def send_loop R_refl)

lemma close_error: "R w (snd (close_snapshot_on_query_error cid sid gen w))"
proof -
  have "R w (snd (close_error_fn cid sid e w))" for e
    using R_trans [OF R_conn_op R_remove] by (simp add: close_error_fn_def case_prod_unfold Let_def)
  then have "R w (snd (with_snapshot cid sid gen (close_error_fn cid sid) w))"
    by (rule with_snapshot)
  then show ?thesis by (auto simp: close_snapshot_on_query_error_def split: prod.split option.split)
qed

lemma flush: "R w (snd (flush_pending cid pending e w))"
proof (induction pending arbitrary: e w)
  case (Cons b pending)
  have "R w (snd (flush_pending cid pending e' (snd (send_to cid b w))))" for e'
    by (rule R_trans [OF R_send_to Cons.IH])
  then show ?case by (simp add: case_prod_unfold Let_def)
qed (simp add: R_refl)

lemma finish:
  assumes "sub_lookup cid sid w = Some e" "se_filters e' = se_filters e"
  shows "R w (finish_snapshot_locked cid sid e' w)"
proof -
  let ?e = "e'\<lparr>se_snapshot_done := True, se_pending_live := []\<rparr>"
  let ?f = "flush_pending cid (se_pending_live e') ?e w"
  obtain a b where "fst ?f = ?e\<lparr>se_broadcast_ok := a, se_broadcast_drop := b\<rparr>" using flush_pending_entry by blast
  then have "R w (put_entry cid sid (fst ?f) (snd ?f))"
    by (intro put_after [OF flush _ assms(1)]) (simp_all add: assms(2))
  moreover have "R w (put_entry cid sid ?e w)" by (rule R_put [OF assms(1)]) (simp add: assms(2))
  ultimately show ?thesis by (simp add: finish_snapshot_locked_def case_prod_unfold Let_def)
qed

lemma complete: "R w (snd (complete_snapshot ctx cid sid gen w))"
proof -
  have "R w (snd (complete_fn ctx cid sid e w))" if e: "sub_lookup cid sid w = Some e" for e
  proof -
    let ?r = "conn_op cid (send_eose sid) w"
    have "R (snd ?r) (finish_snapshot_locked cid sid (e\<lparr>se_eose_sent := se_eose_sent e + 1\<rparr>) (snd ?r))"
      by (rule finish [of _ _ _ e]) (simp_all add: e)
    moreover have "R w (snd ?r)" by (rule R_conn_op) simp
    ultimately show ?thesis
      using R_trans R_refl by (auto simp: complete_fn_def case_prod_unfold Let_def)
  qed
  then have "R w (snd (with_snapshot cid sid gen (complete_fn ctx cid sid) w))"
    by (rule with_snapshot)
  then show ?thesis by (auto simp: complete_snapshot_def split: prod.split option.split)
qed

lemma drain:
  "drain_remaining_pages n ops st ctx visible cid sid q ps gen w = Some (b, w') \<Longrightarrow> R w w'"
proof (induction n arbitrary: q w)
  case (Suc n)
  show ?case
  proof (cases "is_same_snapshot cid sid gen w")
    case False
    then show ?thesis using Suc.prems R_refl by simp
  next
    case True
    show ?thesis
    proof (cases "fetch_req_page ops st q ps")
      case (Inl e)
      then show ?thesis using Suc.prems True close_error by auto
    next
      case (Inr x)
      obtain evs more q' where x: "x = ((evs, more), q')" by (cases x) auto
      obtain sent w1 where r: "send_snapshot_events ctx visible cid sid gen evs w = (sent, w1)" by force
      have k: "R w w1" using send_events [of w ctx visible cid sid gen evs] r by simp
      show ?thesis
      proof (cases "sent \<and> more")
        case True
        then show ?thesis
          using Suc.prems \<open>is_same_snapshot cid sid gen w\<close> Inr x r Suc.IH [of q' w1] R_trans [OF k] by auto
      next
        case False
        then show ?thesis using Suc.prems \<open>is_same_snapshot cid sid gen w\<close> Inr x r k by (auto split: if_splits)
      qed
    qed
  qed
qed simp

lemma deliver: "R w (deliver_live ev cid sid g w)"
proof (cases rule: deliver_live_cases [of ev cid sid g w])
  case closed
  then show ?thesis using R_trans [OF R_remove R_send_to] by simp
next
  case (buffer e)
  then show ?thesis using R_put [of cid sid w e] by simp
next
  case (send e e')
  then show ?thesis using put_after [OF R_send_to _ send(1)] by simp
qed (simp add: R_refl)

lemma deliver_subs: "R w (deliver_subs ev cid subs w)"
proof (induction ev cid subs w rule: deliver_subs.induct)
  case (2 ev cid sid gen rest w)
  then show ?case using R_trans [OF deliver] by simp
qed (simp add: R_refl)

lemma deliver_matches: "R w (deliver_matches visible ev ms w)"
proof (induction visible ev ms w rule: deliver_matches.induct)
  case (2 visible ev cid subs rest w)
  then show ?case using R_trans [OF deliver_subs] by (cases visible) auto
qed (simp add: R_refl)

lemma broadcast: "R w (broadcast ev visible w)"
  by (simp add: broadcast_def deliver_matches)

lemma run_job:
  assumes "run_job n ops st ctx visible job jobs w = Some (jobs', w')"
  shows "R w w'"
proof -
  let ?cid = "rj_conn_id job" and ?sid = "rj_sub_id job" and ?gen = "rj_generation job"
  show ?thesis
  proof (cases "map_of (w_conns w) ?cid = None \<or> \<not> is_same_snapshot ?cid ?sid ?gen w")
    case True
    then have "run_job n ops st ctx visible job jobs w = Some (jobs, w)" by (auto simp: run_job_def Let_def)
    then show ?thesis using assms R_refl by simp
  next
    case False
    note run = assms [unfolded run_job_def Let_def]
    show ?thesis
    proof (cases "fetch_req_page ops st (rj_state job) (rj_page_size job)")
      case (Inl e)
      then show ?thesis using run False close_error by auto
    next
      case (Inr x)
      obtain evs more q where x: "x = ((evs, more), q)" by (cases x) auto
      obtain sent w1 where r: "send_snapshot_events ctx visible ?cid ?sid ?gen evs w = (sent, w1)" by force
      have k: "R w w1" using send_events [of w ctx visible ?cid ?sid ?gen evs] r by simp
      have finished: "R w (snd (complete_snapshot ctx ?cid ?sid ?gen w2))" if "R w w2" for w2
        by (rule R_trans [OF that complete])
      show ?thesis
      proof (cases "sent \<and> more")
        case False
        then show ?thesis using run \<open>\<not> (_ \<or> _)\<close> Inr x r k finished [OF k] by (auto split: if_splits)
      next
        case True
        show ?thesis
        proof (cases "rq_enqueue (job\<lparr>rj_state := q\<rparr>) jobs")
          case (Pair queued jobs1)
          show ?thesis
          proof (cases queued)
            case True
            then show ?thesis using run \<open>\<not> (_ \<or> _)\<close> Inr x r k \<open>sent \<and> more\<close> Pair by auto
          next
            case False
            obtain b w2 where d: "drain_remaining_pages n ops st ctx visible ?cid ?sid q (rj_page_size job) ?gen w1
                = Some (b, w2)"
              using run \<open>\<not> (_ \<or> _)\<close> Inr x r \<open>sent \<and> more\<close> Pair False by (auto split: option.splits)
            have "R w w2" by (rule R_trans [OF k drain [OF d]])
            then show ?thesis
              using run \<open>\<not> (_ \<or> _)\<close> Inr x r \<open>sent \<and> more\<close> Pair False d finished by (cases b) auto
          qed
        qed
      qed
    qed
  qed
qed

end

section \<open>Subscriptions keep their filters\<close>

definition keeps_subs :: "'a wire_scheme \<Rightarrow> 'a wire_scheme \<Rightarrow> bool" where
  "keeps_subs w w' \<longleftrightarrow> (\<forall>cid sid e'. sub_lookup cid sid w' = Some e' \<longrightarrow>
     (\<exists>e. sub_lookup cid sid w = Some e \<and> se_filters e' = se_filters e))"

lemma keeps_refl [simp]: "keeps_subs w w"
  by (simp add: keeps_subs_def)

lemma keeps_trans: "keeps_subs w w' \<Longrightarrow> keeps_subs w' w'' \<Longrightarrow> keeps_subs w w''"
  unfolding keeps_subs_def by (metis (no_types))

lemma keeps_same: "w_subs w' = w_subs w \<Longrightarrow> keeps_subs w w'"
  unfolding keeps_subs_def using lookup_cong [of w' w] by (metis (no_types))

lemma keeps_conn_op [simp]: "keeps_subs w (snd (conn_op cid f w))"
  by (rule keeps_same) simp

lemma keeps_remove [simp]: "keeps_subs w (remove_locked cid sid w)"
  by (auto simp: keeps_subs_def split: if_splits)

lemma keeps_put: "sub_lookup cid sid w = Some e \<Longrightarrow> se_filters e' = se_filters e \<Longrightarrow> keeps_subs w (put_entry cid sid e' w)"
  by (auto simp: keeps_subs_def)

interpretation keeps: wire_relation keeps_subs
proof unfold_locales
  show "keeps_subs w (snd (send_to cid b w))" for cid b and w :: "'a wire_scheme" by (rule keeps_same) simp
qed (blast intro: keeps_trans keeps_put | simp)+

section \<open>The server's accounts stay\<close>

definition conn_view :: "'a wire_scheme \<Rightarrow> (string \<times> string \<times> string \<times> (string, neg_session) go_map \<times> bool) list" where
  "conn_view w = map (\<lambda>(cid, c). (cid, settled c)) (w_conns w)"

definition quiet :: "'a wire_scheme \<Rightarrow> 'a wire_scheme \<Rightarrow> bool" where
  "quiet w w' \<longleftrightarrow> conn_view w' = conn_view w \<and> wire.more w' = wire.more w"

lemma conn_view_update:
  "map_of (w_conns w) cid = Some c \<Longrightarrow> settled c' = settled c \<Longrightarrow>
   map (\<lambda>(cid, c). (cid, settled c)) (AList.update cid c' (w_conns w)) = conn_view w"
proof -
  have "map_of m cid = Some c \<Longrightarrow> settled c' = settled c \<Longrightarrow>
      map (\<lambda>(cid, c). (cid, settled c)) (AList.update cid c' m) = map (\<lambda>(cid, c). (cid, settled c)) m" for m
    by (induction m) (auto split: if_splits)
  then show "map_of (w_conns w) cid = Some c \<Longrightarrow> settled c' = settled c \<Longrightarrow> ?thesis" by (simp add: conn_view_def)
qed

lemma quiet_conn_op: "(\<And>c. settled (snd (f c)) = settled c) \<Longrightarrow> quiet w (snd (conn_op cid f w))"
proof (cases "map_of (w_conns w) cid")
  case (Some c)
  assume "\<And>c. settled (snd (f c)) = settled c"
  with conn_view_update [OF Some, of "snd (f c)"] Some show ?thesis
    by (simp add: quiet_def conn_op_def conn_view_def case_prod_unfold Let_def)
qed (simp add: quiet_def conn_op_def)

lemma quiet_send_to: "quiet w (snd (send_to cid b w))"
proof (cases "map_of (w_conns w) cid")
  case (Some c)
  with conn_view_update [OF Some, of "snd (enqueue_subscription_frame b c)"] show ?thesis
    by (simp add: quiet_def send_to_def conn_view_def case_prod_unfold Let_def)
qed (simp add: quiet_def send_to_def)

lemma quiet_subs: "quiet w (set_subs m w)"
  by (simp add: quiet_def conn_view_def set_subs_def)

interpretation quiet: wire_relation quiet
proof unfold_locales
  show "quiet w (put_entry cid sid e' w)" for cid sid e' and w :: "'a wire_scheme"
    by (simp add: put_entry_def quiet_subs)
  show "quiet w w" for w :: "'a wire_scheme" by (simp add: quiet_def)
  show "quiet w (remove_locked cid sid w)" for cid sid and w :: "'a wire_scheme"
    by (simp add: remove_locked_def quiet_def quiet_subs [unfolded quiet_def] Let_def split: option.split)
  show "quiet w (snd (conn_op cid f w))" if "\<And>c. tame c (snd (f c))" for cid f and w :: "'a wire_scheme"
    by (rule quiet_conn_op) (use that in \<open>simp add: tame_def\<close>)
qed (rule quiet_send_to | simp add: quiet_def)+

end
