(* ===== verification/Relay_Policy.thy ===== *)
theory Relay_Policy
  imports Wire_Frame
begin

text \<open>
  The server's state and the policies it applies to events and subscriptions:
  \<open>nip42.go\<close>, \<open>nip17.go\<close> and the validators and the visibility check of \<open>nip29.go\<close>
  in \<open>internal/relay\<close>, with the validator chain of \<open>middleware.go\<close>.

  \<open>relay_env\<close> is what never changes while the server runs: the configuration, the relay's own
  public key (\<open>None\<close> for a nil identity), the store's operations, the signature scheme and the
  libraries for addresses. Go's closures in the validator chain are the constructors of
  \<open>validator\<close>, interpreted by \<open>run_validator\<close>. \<open>now\<close> is the clock in seconds. Events are
  never nil where these functions are called, so their nil checks have no branch.
\<close>

section \<open>State\<close>

datatype intercept_action = InterceptPassthrough | InterceptReshapeREQ | InterceptRespond

record intercept_result =
  ir_action :: intercept_action
  ir_filters :: "filter list"
  ir_event_ids :: "string list"
  ir_subscription_filters :: "filter list"

record 'st relay_env =
  re_cfg :: config
  re_relay_id :: "string option"
  re_sign_id :: "string \<Rightarrow> string result"
  re_crypto :: crypto
  re_net :: netlib
  re_ops :: "'st store_ops"
  re_intercept :: "(string \<Rightarrow> filter list \<Rightarrow> intercept_result) option"

record neg_open_job =
  nj_conn_id :: string
  nj_sub_id :: string
  nj_filter :: filter
  nj_initial_hex :: string
  nj_key :: nat

record 'st server = wire +
  sv_store :: 'st
  sv_hub :: hub
  sv_ip_open :: ip_counts
  sv_open :: int
  sv_shutting_down :: bool
  sv_jobs :: "req_page_job list"
  sv_plugin_events :: "(event \<times> bool) list"
  sv_observed :: "client_msg list"
  sv_neg_jobs :: "neg_open_job list"
  sv_neg_active :: int
  sv_neg_slots :: int
  sv_neg_next :: nat

definition load_conn :: "string \<Rightarrow> 'a wire_scheme \<Rightarrow> conn option" where
  "load_conn cid s = map_of (w_conns s) cid"

section \<open>NIP-42\<close>

definition nip42_auth_event_kind :: int where "nip42_auth_event_kind = 22242"

definition nip42_created_at_skew :: "config \<Rightarrow> int" where
  "nip42_created_at_skew cfg =
     (if created_at_skew_seconds (nip42 cfg) \<le> 0 then 600 else created_at_skew_seconds (nip42 cfg))"

fun filter_needs_auth :: "int list \<Rightarrow> filter list \<Rightarrow> bool" where
  "filter_needs_auth req [] = False"
| "filter_needs_auth req (f # fs) =
     (if length (f_kinds f) = 0 then True
      else if list_ex (\<lambda>k. k \<in> set req) (f_kinds f) then True
      else filter_needs_auth req fs)"

definition subscribe_auth_required :: "config \<Rightarrow> filter list \<Rightarrow> bool" where
  "subscribe_auth_required cfg filters =
     (if \<not> relay_nip42_enabled cfg then False
      else let req = require_auth_subscribe_kinds (nip42 cfg) in
        if length req = 0 then False else filter_needs_auth req filters)"

definition validate_nip42_publish_policy :: "config \<Rightarrow> conn \<Rightarrow> event \<Rightarrow> string option" where
  "validate_nip42_publish_policy cfg c ev =
     (if \<not> relay_nip42_enabled cfg then None
      else let req = require_auth_publish_kinds (nip42 cfg);
               allow = allowlisted_pubkeys (nip42 cfg) in
        if length req = 0 \<and> length allow = 0 then None
        else if ev_kind ev \<notin> set req then None
        else if \<not> nip42_has_pubkey (ev_pubkey ev) c
        then Some ''auth-required: publish requires authentication for this kind''
        else if length allow > 0 \<and> ev_pubkey ev \<notin> set allow
        then Some ''restricted: pubkey is not allowlisted to publish''
        else None)"

fun tag_first :: "string list list \<Rightarrow> string \<Rightarrow> string" where
  "tag_first [] name = []"
| "tag_first (t # ts) name = (if length t \<ge> 2 \<and> t ! 0 = name then t ! 1 else tag_first ts name)"

text \<open>The last part of \<open>verifyNIP42AuthEvent\<close>, on 64-bit integers.\<close>

definition outside_skew :: "int \<Rightarrow> int \<Rightarrow> int \<Rightarrow> bool" where
  "outside_skew skew created now_unix =
     (let dt = sub64 created now_unix;
          dt = (if dt < 0 then neg64 dt else dt)
      in dt > skew)"

definition verify_nip42_auth_event :: "'st relay_env \<Rightarrow> event \<Rightarrow> string \<Rightarrow> int \<Rightarrow> string option" where
  "verify_nip42_auth_event env ev challenge now_unix =
     (let cfg = re_cfg env in
      if ev_kind ev \<noteq> nip42_auth_event_kind then Some ''invalid authentication event: want kind 22242''
      else case verify_sig (re_crypto env) ev of Some err \<Rightarrow> Some err | None \<Rightarrow>
     (case normalize_nip42_relay_url (re_net env) (relay_url (nip42 cfg)) of
        Inl err \<Rightarrow> Some (''relay URL misconfigured: '' @ err)
      | Inr want_relay \<Rightarrow>
     (case normalize_nip42_relay_url (re_net env) (tag_first (ev_tags ev) ''relay'') of
        Inl _ \<Rightarrow> Some ''invalid or missing relay tag''
      | Inr got_relay \<Rightarrow>
          if got_relay = [] then Some ''invalid or missing relay tag''
          else if got_relay \<noteq> want_relay then Some ''relay tag does not match configured relay URL''
          else let got_ch = tag_first (ev_tags ev) ''challenge'' in
            if got_ch = [] \<or> got_ch \<noteq> challenge then Some ''challenge mismatch''
            else if outside_skew (nip42_created_at_skew cfg) (ev_created_at ev) now_unix
            then Some ''created_at outside allowed skew''
            else None)))"

definition nip42_connect_gate :: "config \<Rightarrow> conn \<Rightarrow> bool" where
  "nip42_connect_gate cfg c = (if \<not> nip11_auth_required cfg then False else \<not> nip42_has_any_auth c)"

section \<open>NIP-17\<close>

definition nip17_kind_gift_wrap :: int where "nip17_kind_gift_wrap = 1059"
definition nip59_kind_ephemeral_gift_wrap :: int where "nip59_kind_ephemeral_gift_wrap = 21059"
definition nip17_kind_seal :: int where "nip17_kind_seal = 13"

definition is_gift_wrap_kind :: "int \<Rightarrow> bool" where
  "is_gift_wrap_kind kind \<longleftrightarrow> kind = nip17_kind_gift_wrap \<or> kind = nip59_kind_ephemeral_gift_wrap"

definition nip17_enabled :: "config \<Rightarrow> bool" where
  "nip17_enabled cfg = list_ex (\<lambda>n. n = 17) (nips_enabled cfg)"

definition nip17_valid_x_only_pubkey_hex :: "string \<Rightarrow> bool" where
  "nip17_valid_x_only_pubkey_hex s =
     (if length s \<noteq> 64 then False
      else case hex_decode s of None \<Rightarrow> False | Some b \<Rightarrow> length b = 32)"

definition nip17_validate_reject_gift_wrap_when_disabled :: "config \<Rightarrow> event \<Rightarrow> string option" where
  "nip17_validate_reject_gift_wrap_when_disabled cfg ev =
     (if \<not> is_gift_wrap_kind (ev_kind ev) then None
      else if \<not> nip17_reject_when_disabled cfg then None
      else Some (''reject: kind '' @ show_int (ev_kind ev) @
        '' not accepted (enable NIP-17 for private direct messages)''))"

fun sole_recipient_loop :: "string list list \<Rightarrow> string \<Rightarrow> string option" where
  "sole_recipient_loop [] recipient = Some recipient"
| "sole_recipient_loop (t # ts) recipient =
     (if length t = 0 then sole_recipient_loop ts recipient
      else if t ! 0 \<noteq> ''p'' then sole_recipient_loop ts recipient
      else if recipient \<noteq> [] then None
      else if length t < 2 then None
      else if \<not> nip17_valid_x_only_pubkey_hex (t ! 1) \<or> to_lower (t ! 1) \<noteq> t ! 1 then None
      else sole_recipient_loop ts (t ! 1))"

text \<open>The pair of \<open>soleGiftWrapRecipient\<close>: \<open>None\<close> for a false second component.\<close>

definition sole_gift_wrap_recipient :: "event \<Rightarrow> string option" where
  "sole_gift_wrap_recipient ev =
     (case sole_recipient_loop (ev_tags ev) [] of
        None \<Rightarrow> None
      | Some recipient \<Rightarrow> if recipient \<noteq> [] then Some recipient else None)"

definition nip17_validate_published_event :: "event \<Rightarrow> string option" where
  "nip17_validate_published_event ev =
     (if ev_kind ev = nip17_kind_gift_wrap \<or> ev_kind ev = nip59_kind_ephemeral_gift_wrap then
        (if sole_gift_wrap_recipient ev = None
         then Some (''invalid gift wrap: kind '' @ show_int (ev_kind ev) @
           '' requires exactly one canonical \"p\" recipient tag'')
         else None)
      else if ev_kind ev = nip17_kind_seal then
        (if length (ev_tags ev) \<noteq> 0 then Some ''invalid seal: kind 13 tags must be empty (NIP-59)'' else None)
      else None)"

definition nip17_gift_wrap_visible :: "string \<Rightarrow> event \<Rightarrow> 'a wire_scheme \<Rightarrow> bool" where
  "nip17_gift_wrap_visible cid ev s =
     (case sole_gift_wrap_recipient ev of
        None \<Rightarrow> False
      | Some recipient \<Rightarrow>
     (case load_conn cid s of
        None \<Rightarrow> False
      | Some c \<Rightarrow> nip42_current_auth_pubkey c = recipient))"

text \<open>First loop of \<open>validateNIP17REQ\<close>: a wildcard error, or the last gift-wrap kind named (0: none).\<close>

fun nip17_req_protected :: "filter list \<Rightarrow> int \<Rightarrow> int result" where
  "nip17_req_protected [] protected = Inr protected"
| "nip17_req_protected (f # fs) protected =
     (if length (f_kinds f) = 0
      then Inl ''blocked: wildcard subscriptions are not available when private messages are enabled''
      else nip17_req_protected fs (fold (\<lambda>k p. if is_gift_wrap_kind k then k else p) (f_kinds f) protected))"

fun nip17_req_check :: "int \<Rightarrow> conn \<Rightarrow> filter list \<Rightarrow> string option" where
  "nip17_req_check protected c [] = None"
| "nip17_req_check protected c (f # fs) =
     (if length (f_kinds f) \<noteq> 1 \<or> f_kinds f ! 0 \<noteq> protected
      then Some ''blocked: gift-wrap subscriptions cannot mix event kinds''
      else let p = (case map_of (f_tag f) ''#p'' of None \<Rightarrow> [] | Some vs \<Rightarrow> vs) in
        if length p \<noteq> 1 then Some ''blocked: gift-wrap subscriptions require one canonical recipient filter''
        else if \<not> nip17_valid_x_only_pubkey_hex (p ! 0) \<or> to_lower (p ! 0) \<noteq> p ! 0
        then Some ''blocked: gift-wrap subscriptions require one canonical recipient filter''
        else let current = nip42_current_auth_pubkey c in
          if current = [] then Some ''auth-required: gift-wrap subscriptions require recipient authentication''
          else if p ! 0 \<noteq> current
          then Some ''restricted: gift-wrap recipient does not match authenticated pubkey''
          else nip17_req_check protected c fs)"

definition validate_nip17_req :: "config \<Rightarrow> conn \<Rightarrow> filter list \<Rightarrow> string option" where
  "validate_nip17_req cfg c filters =
     (if \<not> nip17_enabled cfg then None
      else case nip17_req_protected filters 0 of
             Inl err \<Rightarrow> Some err
           | Inr protected \<Rightarrow>
               if protected = 0 then None else nip17_req_check protected c filters)"

section \<open>NIP-29\<close>

definition nip29_enabled :: "config \<Rightarrow> bool" where
  "nip29_enabled cfg = list_ex (\<lambda>n. n = 29) (nips_enabled cfg)"

definition nip29_max_past_sec :: "config \<Rightarrow> int" where
  "nip29_max_past_sec cfg =
     (if late_publication_max_past_seconds (nip29 cfg) \<le> 0 then 86400
      else late_publication_max_past_seconds (nip29 cfg))"

fun nip29_previous_loop :: "'st store_ops \<Rightarrow> 'st \<Rightarrow> string \<Rightarrow> bool \<Rightarrow> string list \<Rightarrow> string option" where
  "nip29_previous_loop ops st gid strict [] = None"
| "nip29_previous_loop ops st gid strict (p # ps) =
     (if \<not> nip29_is_valid_previous_prefix p then Some ''nip-29: invalid previous id prefix''
      else case so_prefix_exists ops p gid strict st of
             Inl err \<Rightarrow> Some (''nip-29: previous check failed: '' @ err)
           | Inr ok \<Rightarrow>
               if \<not> ok then Some ''nip-29: previous references unknown event''
               else nip29_previous_loop ops st gid strict ps)"

definition nip29_validate_previous :: "'st relay_env \<Rightarrow> event \<Rightarrow> 'st \<Rightarrow> string option" where
  "nip29_validate_previous env ev st =
     (let gid = nip29_group_h_tag ev in
      if gid = [] then None
      else let prevs = nip29_previous_tag_values ev in
        if length prevs = 0 then None
        else nip29_previous_loop (re_ops env) st gid (strict_previous_same_h (nip29 (re_cfg env))) prevs)"

definition nip29_validate_late_publication :: "config \<Rightarrow> int \<Rightarrow> event \<Rightarrow> string option" where
  "nip29_validate_late_publication cfg now ev =
     (if nip29_group_h_tag ev = [] then None
      else if sub64 now (ev_created_at ev) > nip29_max_past_sec cfg
      then Some ''nip-29: created_at too far in the past for this group''
      else None)"

definition nip29_validate_restricted_write :: "'st relay_env \<Rightarrow> event \<Rightarrow> 'st \<Rightarrow> string option" where
  "nip29_validate_restricted_write env ev st =
     (case re_relay_id env of None \<Rightarrow> None | Some rpk \<Rightarrow>
      let gid = nip29_group_h_tag ev in
      if gid = [] then None
      else if ev_pubkey ev = rpk then None
      else if ev_kind ev = NIP29KindJoinRequest \<or> ev_kind ev = NIP29KindLeaveReq then None
      else if nip29_is_moderation_kind (ev_kind ev) then None
      else case so_metadata (re_ops env) rpk gid st of
             Inl err \<Rightarrow> Some (''nip-29: group metadata lookup failed: '' @ err)
           | Inr md \<Rightarrow>
               if md = None \<or> \<not> nip29_metadata_is_restricted md then None
               else case so_member (re_ops env) rpk gid (ev_pubkey ev) st of
                      Inl err \<Rightarrow> Some (''nip-29: membership check failed: '' @ err)
                    | Inr member \<Rightarrow>
                        if \<not> member then Some ''nip-29: group is restricted: not a member'' else None)"

definition nip29_validate_moderation :: "'st relay_env \<Rightarrow> string \<Rightarrow> event \<Rightarrow> 'st \<Rightarrow> string option" where
  "nip29_validate_moderation env gid ev st =
     (if gid = [] then Some ''nip-29: moderation events require an h tag''
      else case re_relay_id env of
        None \<Rightarrow> Some ''nip-29: relay identity required for moderation kinds''
      | Some rpk \<Rightarrow>
          if ev_pubkey ev = rpk then None
          else if ev_kind ev = NIP29KindCreateGroup \<or> ev_kind ev = NIP29KindDeleteGroup
          then Some (''nip-29: moderation kind '' @ show_int (ev_kind ev) @ '' must be signed by the relay'')
          else case so_admins (re_ops env) rpk gid st of
                 Inl err \<Rightarrow> Some (''nip-29: group admins lookup failed: '' @ err)
               | Inr admins \<Rightarrow>
                   if admins = None \<or> \<not> nip29_admins39001_contains_pubkey admins (ev_pubkey ev)
                   then Some ''nip-29: moderation not permitted for this pubkey''
                   else None)"

definition nip29_validate_join :: "'st relay_env \<Rightarrow> string \<Rightarrow> event \<Rightarrow> 'st \<Rightarrow> string option" where
  "nip29_validate_join env gid ev st =
     (if gid = [] then Some ''nip-29: join request requires an h tag''
      else case re_relay_id env of
        None \<Rightarrow> Some ''nip-29: relay identity required''
      | Some rpk \<Rightarrow>
     (case so_member (re_ops env) rpk gid (ev_pubkey ev) st of
        Inl err \<Rightarrow> Some (''nip-29: membership check failed: '' @ err)
      | Inr member \<Rightarrow>
          if member then Some ''duplicate: already a group member''
          else case so_metadata (re_ops env) rpk gid st of
                 Inl err \<Rightarrow> Some (''nip-29: group metadata lookup failed: '' @ err)
               | Inr md \<Rightarrow>
                   if md \<noteq> None \<and> nip29_metadata_is_closed md
                   then Some ''nip-29: group is closed; join requests are not accepted (invite flow not implemented)''
                   else None))"

definition nip29_validate_leave :: "'st relay_env \<Rightarrow> string \<Rightarrow> event \<Rightarrow> 'st \<Rightarrow> string option" where
  "nip29_validate_leave env gid ev st =
     (if gid = [] then Some ''nip-29: leave request requires an h tag''
      else case re_relay_id env of
        None \<Rightarrow> Some ''nip-29: relay identity required''
      | Some rpk \<Rightarrow>
     (case so_member (re_ops env) rpk gid (ev_pubkey ev) st of
        Inl err \<Rightarrow> Some (''nip-29: membership check failed: '' @ err)
      | Inr member \<Rightarrow> if \<not> member then Some ''rejected: not a group member'' else None))"

definition nip29_validate_moderation_and_join_leave :: "'st relay_env \<Rightarrow> event \<Rightarrow> 'st \<Rightarrow> string option" where
  "nip29_validate_moderation_and_join_leave env ev st =
     (let gid = nip29_group_h_tag ev in
      if nip29_is_moderation_kind (ev_kind ev) then nip29_validate_moderation env gid ev st
      else if ev_kind ev = NIP29KindJoinRequest then nip29_validate_join env gid ev st
      else if ev_kind ev = NIP29KindLeaveReq then nip29_validate_leave env gid ev st
      else None)"

section \<open>Visibility\<close>

text \<open>A failed membership lookup counts as no membership and the loop goes on.\<close>

definition event_visible :: "'st relay_env \<Rightarrow> string \<Rightarrow> event \<Rightarrow> 'st \<Rightarrow> 'a wire_scheme \<Rightarrow> bool" where
  "event_visible env cid ev st s =
     (let cfg = re_cfg env in
      if nip29_enabled cfg \<and> \<not> nip29_group_h_tags_valid ev then False
      else if is_gift_wrap_kind (ev_kind ev) then
        (if \<not> nip17_enabled cfg then False else nip17_gift_wrap_visible cid ev s)
      else if \<not> nip29_enabled cfg then True
      else case re_relay_id env of None \<Rightarrow> True | Some rpk \<Rightarrow>
     (let h = nip29_group_h_tag ev in
      if h = [] then True
      else case so_metadata (re_ops env) rpk h st of
             Inl _ \<Rightarrow> False
           | Inr md \<Rightarrow>
               if md = None \<or> \<not> nip29_metadata_is_private md then True
               else case load_conn cid s of
                      None \<Rightarrow> False
                    | Some c \<Rightarrow>
                        list_ex (\<lambda>pk. so_member (re_ops env) rpk h pk st = Inr True) (nip42_authed_pubkeys c)))"

definition event_visible_to_subscription :: "'st relay_env \<Rightarrow> string \<Rightarrow> event \<Rightarrow> 'st server \<Rightarrow> bool" where
  "event_visible_to_subscription env cid ev s = event_visible env cid ev (sv_store s) s"

section \<open>Validator chain\<close>

datatype validator =
    VSig | VNip42Publish
  | VNip29Tags | VNip29Previous | VNip29Late | VNip29Restricted | VNip29Moderation
  | VNip17Reject | VNip17Published

fun run_validator :: "'st relay_env \<Rightarrow> int \<Rightarrow> validator \<Rightarrow> conn \<Rightarrow> event \<Rightarrow> 'st \<Rightarrow> string option" where
  "run_validator env now VSig c ev st = verify_sig (re_crypto env) ev"
| "run_validator env now VNip42Publish c ev st = validate_nip42_publish_policy (re_cfg env) c ev"
| "run_validator env now VNip29Tags c ev st =
     (if \<not> nip29_group_h_tags_valid ev
      then Some ''invalid: nip-29 events may contain only one nonempty h tag'' else None)"
| "run_validator env now VNip29Previous c ev st = nip29_validate_previous env ev st"
| "run_validator env now VNip29Late c ev st = nip29_validate_late_publication (re_cfg env) now ev"
| "run_validator env now VNip29Restricted c ev st = nip29_validate_restricted_write env ev st"
| "run_validator env now VNip29Moderation c ev st = nip29_validate_moderation_and_join_leave env ev st"
| "run_validator env now VNip17Reject c ev st = nip17_validate_reject_gift_wrap_when_disabled (re_cfg env) ev"
| "run_validator env now VNip17Published c ev st = nip17_validate_published_event ev"

fun validate_chain :: "'st relay_env \<Rightarrow> int \<Rightarrow> validator list \<Rightarrow> conn \<Rightarrow> event \<Rightarrow> 'st \<Rightarrow> string option" where
  "validate_chain env now [] c ev st = None"
| "validate_chain env now (v # vs) c ev st =
     (case run_validator env now v c ev st of
        Some err \<Rightarrow> Some err
      | None \<Rightarrow> validate_chain env now vs c ev st)"

lemma validate_chain_None:
  "validate_chain env now vs c ev st = None \<longleftrightarrow> (\<forall>v \<in> set vs. run_validator env now v c ev st = None)"
  by (induction vs) (auto split: option.splits)

section \<open>Facts about the policies\<close>

lemma sole_recipient_loop_tags:
  "sole_recipient_loop ts r0 = Some r \<Longrightarrow> r0 \<noteq> [] \<Longrightarrow>
     r = r0 \<and> (\<forall>t \<in> set ts. length t > 0 \<longrightarrow> t ! 0 \<noteq> ''p'')"
proof (induction ts)
  case (Cons t ts)
  then have "length t = 0 \<or> t ! 0 \<noteq> ''p''" "sole_recipient_loop ts r0 = Some r"
    by (simp_all split: if_split_asm)
  then show ?case using Cons.IH Cons.prems(2) by auto
qed simp

lemma sole_recipient_unique:
  assumes "sole_gift_wrap_recipient ev = Some r" "t \<in> set (ev_tags ev)" "length t \<ge> 1" "t ! 0 = ''p''"
  shows "length t \<ge> 2 \<and> t ! 1 = r"
proof -
  have "length t \<ge> 2 \<and> t ! 1 = r" if "sole_recipient_loop ts [] = Some r" "t \<in> set ts" "r \<noteq> []" for ts
    using that
  proof (induction ts)
    case (Cons u us)
    show ?case
    proof (cases "length u > 0 \<and> u ! 0 = ''p''")
      case True
      then have u: "2 \<le> length u" "nip17_valid_x_only_pubkey_hex (u ! 1)" "sole_recipient_loop us (u ! 1) = Some r"
        using Cons.prems(1) by (auto split: if_splits)
      have "u ! 1 \<noteq> []" using u(2) by (auto simp: nip17_valid_x_only_pubkey_hex_def)
      from sole_recipient_loop_tags [OF u(3) this] show ?thesis
        using Cons.prems(2) assms(3,4) u(1) by fastforce
    next
      case False
      then have "sole_recipient_loop us [] = Some r" using Cons.prems(1) by (auto split: if_splits)
      moreover have "t \<in> set us" using Cons.prems(2) False assms(3,4) by auto
      ultimately show ?thesis using Cons.IH Cons.prems(3) by blast
    qed
  qed simp
  then show ?thesis
    using assms(1,2) unfolding sole_gift_wrap_recipient_def by (auto split: option.splits if_splits)
qed

lemma filter_matches_tag:
  assumes "filter_matches f ev" "map_of (f_tag f) ''#p'' = Some want"
  shows "event_tag_matches (ev_tags ev) ''p'' want"
proof -
  have "tag_map_matches m ev \<Longrightarrow> (''#p'', want) \<in> set m \<Longrightarrow> event_tag_matches (ev_tags ev) ''p'' want" for m
    by (induction m ev rule: tag_map_matches.induct) (auto simp: trim_prefix_def has_prefix_def split: if_splits)
  moreover have "tag_map_matches (f_tag f) ev"
    using assms(1) by (simp add: filter_matches_def split: if_splits)
  ultimately show ?thesis using map_of_SomeD [OF assms(2)] by blast
qed

lemma event_tag_matches_witness:
  "event_tag_matches ts name want \<Longrightarrow> \<exists>t \<in> set ts. length t \<ge> 2 \<and> t ! 0 = name \<and> t ! 1 \<in> set want"
  by (induction ts name want rule: event_tag_matches.induct) (auto split: if_splits)

lemma filter_matches_kind: "filter_matches f ev \<Longrightarrow> f_kinds f \<noteq> [] \<Longrightarrow> ev_kind ev \<in> set (f_kinds f)"
  by (auto simp: filter_matches_def list_ex_iff split: if_splits)

lemma protected_fold:
  "is_gift_wrap_kind p \<or> p = 0 \<Longrightarrow>
   (let q = fold (\<lambda>k p. if is_gift_wrap_kind k then k else p) ks p in
     (is_gift_wrap_kind q \<or> q = 0) \<and> (q = 0 \<longrightarrow> p = 0 \<and> (\<forall>k \<in> set ks. \<not> is_gift_wrap_kind k)))"
proof (induction ks arbitrary: p)
  case (Cons k ks)
  have z: "\<not> is_gift_wrap_kind 0"
    by (simp add: is_gift_wrap_kind_def nip17_kind_gift_wrap_def nip59_kind_ephemeral_gift_wrap_def)
  show ?case
  proof (cases "is_gift_wrap_kind k")
    case True
    then have "k \<noteq> 0" using z by metis
    with Cons.IH [of k] True show ?thesis by (auto simp: Let_def)
  next
    case False
    with Cons.IH [OF Cons.prems] show ?thesis by (simp add: Let_def)
  qed
qed (simp add: Let_def)

lemma nip17_req_protected_zero:
  "nip17_req_protected fs p = Inr 0 \<Longrightarrow> is_gift_wrap_kind p \<or> p = 0 \<Longrightarrow>
   p = 0 \<and> (\<forall>f \<in> set fs. f_kinds f \<noteq> [] \<and> (\<forall>k \<in> set (f_kinds f). \<not> is_gift_wrap_kind k))"
proof (induction fs arbitrary: p)
  case (Cons f fs)
  let ?q = "fold (\<lambda>k p. if is_gift_wrap_kind k then k else p) (f_kinds f) p"
  have q: "f_kinds f \<noteq> []" "nip17_req_protected fs ?q = Inr 0" using Cons.prems(1) by (auto split: if_splits)
  note fold = protected_fold [OF Cons.prems(2), of "f_kinds f", unfolded Let_def]
  from Cons.IH [OF q(2)] fold q(1) show ?case by auto
qed simp

lemma nip17_req_check_filters:
  "nip17_req_check protected c fs = None \<Longrightarrow> f \<in> set fs \<Longrightarrow>
   f_kinds f = [protected] \<and> cn_current_pubkey c \<noteq> [] \<and> map_of (f_tag f) ''#p'' = Some [cn_current_pubkey c]"
proof (induction fs)
  case (Cons g fs)
  show ?case
  proof (cases "f = g")
    case True
    let ?p = "case map_of (f_tag g) ''#p'' of None \<Rightarrow> [] | Some vs \<Rightarrow> vs"
    have g: "length (f_kinds g) = 1" "f_kinds g ! 0 = protected" "length ?p = 1" "cn_current_pubkey c \<noteq> []"
      "?p ! 0 = cn_current_pubkey c"
      using Cons.prems(1) by (auto simp: Let_def nip42_current_auth_pubkey_def split: if_splits)
    have "?p = [cn_current_pubkey c]" using g(3,5) by (cases ?p) auto
    moreover have "f_kinds g = [protected]" using g(1,2) by (cases "f_kinds g") auto
    ultimately show ?thesis using True g(4) by (auto split: option.splits)
  next
    case False
    then show ?thesis using Cons by (auto simp: Let_def split: if_splits)
  qed
qed simp

section \<open>Properties\<close>

text \<open>A subscription the NIP-17 check lets through cannot reach anybody else's messages: whatever
  the store returns, a gift wrap that matches one of its filters is addressed to the key the
  connection is authenticated as, and without such a key no gift wrap matches.\<close>

theorem nip17_req_reaches_only_own_messages:
  assumes "nip17_enabled cfg" and "validate_nip17_req cfg c filters = None" and "filters_match filters ev"
    and "is_gift_wrap_kind (ev_kind ev)" and "sole_gift_wrap_recipient ev = Some r"
  shows "cn_current_pubkey c \<noteq> [] \<and> r = cn_current_pubkey c"
proof -
  obtain f where f: "f \<in> set filters" "filter_matches f ev"
    using assms(3) by (auto simp: filters_match_iff)
  obtain p where p: "nip17_req_protected filters 0 = Inr p" "p \<noteq> 0 \<longrightarrow> nip17_req_check p c filters = None"
    using assms(1,2) by (auto simp: validate_nip17_req_def split: sum.splits if_splits)
  have "p \<noteq> 0"
    using nip17_req_protected_zero [of filters 0] p(1) f filter_matches_kind [OF f(2)] assms(4) by auto
  with p(2) f(1) have c: "cn_current_pubkey c \<noteq> []" "map_of (f_tag f) ''#p'' = Some [cn_current_pubkey c]"
    using nip17_req_check_filters by blast+
  from event_tag_matches_witness [OF filter_matches_tag [OF f(2) c(2)]] obtain t where
    t: "t \<in> set (ev_tags ev)" "2 \<le> length t" "t ! 0 = ''p''" "t ! 1 = cn_current_pubkey c" by auto
  from sole_recipient_unique [OF assms(5) t(1) _ t(3)] t(2,4) c(1) show ?thesis by simp
qed

definition wrap_key :: string where
  "wrap_key = replicate 64 CHR ''a''"

definition wrap_config :: config where
  "wrap_config = default_config\<lparr>nips_enabled := [1, 17, 29, 42]\<rparr>"

definition wrap_event :: event where
  "wrap_event = sample_event ''w'' 5 1059 [[''p'', wrap_key]]"

lemma wrap_key_ok: "nip17_valid_x_only_pubkey_hex wrap_key" "to_lower wrap_key = wrap_key"
  by code_simp+

lemma wrap_recipient: "sole_gift_wrap_recipient wrap_event = Some wrap_key"
proof -
  have "wrap_key \<noteq> []" by (simp add: wrap_key_def)
  then show ?thesis using wrap_key_ok by (simp add: sole_gift_wrap_recipient_def wrap_event_def sample_event_def)
qed

theorem nip17_req_reaches_only_own_messages_witness:
  "cn_current_pubkey (nip42_add_pubkey wrap_key sample_conn) = wrap_key"
proof -
  let ?c = "nip42_add_pubkey wrap_key sample_conn"
  let ?f = "empty_filter\<lparr>f_kinds := [1059], f_tag := [(''#p'', [wrap_key])]\<rparr>"
  have g: "is_gift_wrap_kind 1059" by (simp add: is_gift_wrap_kind_def nip17_kind_gift_wrap_def)
  have len: "wrap_key \<noteq> []" by (simp add: wrap_key_def)
  have "validate_nip17_req wrap_config ?c [?f] = None"
    using wrap_key_ok len g
    by (simp add: validate_nip17_req_def nip42_current_auth_pubkey_def nip42_add_pubkey_def)
  moreover have "filters_match [?f] wrap_event"
    by (simp add: filter_matches_def empty_filter_def cursor_excludes_def has_search_def ptr_str_def wrap_event_def
        sample_event_def trim_prefix_def has_prefix_def)
  moreover have "nip17_enabled wrap_config" by (simp add: nip17_enabled_def wrap_config_def)
  moreover have "is_gift_wrap_kind (ev_kind wrap_event)" by (simp add: wrap_event_def sample_event_def g)
  ultimately show ?thesis
    using nip17_req_reaches_only_own_messages [OF _ _ _ _ wrap_recipient, of wrap_config ?c "[?f]"] by simp
qed

lemma visible_entitled:
  assumes "event_visible env cid ev st s"
  shows "(is_gift_wrap_kind (ev_kind ev) \<longrightarrow>
      (\<exists>c. load_conn cid s = Some c \<and> sole_gift_wrap_recipient ev = Some (cn_current_pubkey c))) \<and>
    (\<forall>rpk g rest md. re_relay_id env = Some rpk \<and> nip29_enabled (re_cfg env) \<and> \<not> is_gift_wrap_kind (ev_kind ev) \<and>
      [''h'', g] @ rest \<in> set (ev_tags ev) \<and> g \<noteq> [] \<and>
      so_metadata (re_ops env) rpk g st = Inr (Some md) \<and> nip29_metadata_is_private (Some md) \<longrightarrow>
      (\<exists>c pk. load_conn cid s = Some c \<and> pk \<in> set (cn_pubkeys c) \<and> so_member (re_ops env) rpk g pk st = Inr True))"
proof -
  have 1: "\<exists>c. load_conn cid s = Some c \<and> sole_gift_wrap_recipient ev = Some (cn_current_pubkey c)"
    if "is_gift_wrap_kind (ev_kind ev)"
    using assms that by (auto simp: event_visible_def Let_def nip17_gift_wrap_visible_def nip42_current_auth_pubkey_def
        split: if_splits option.splits)
  have 2: "\<exists>c pk. load_conn cid s = Some c \<and> pk \<in> set (cn_pubkeys c) \<and> so_member (re_ops env) rpk g pk st = Inr True"
    if a: "re_relay_id env = Some rpk" "nip29_enabled (re_cfg env)" "\<not> is_gift_wrap_kind (ev_kind ev)"
      "[''h'', g] @ rest \<in> set (ev_tags ev)" "g \<noteq> []" "so_metadata (re_ops env) rpk g st = Inr (Some md)"
      "nip29_metadata_is_private (Some md)" for rpk g rest md
  proof -
    have "nip29_group_h_tags_valid ev" using assms a(2) by (auto simp: event_visible_def Let_def split: if_splits)
    then have h: "nip29_group_h_tag ev = g"
      using group_h_tag_unique [OF _ a(4)] a(5) by (simp add: is_h_tag_def)
    show ?thesis
      using assms a h
      by (auto simp: event_visible_def Let_def nip42_authed_pubkeys_def list_ex_iff split: if_splits option.splits)
  qed
  show ?thesis using 1 2 by blast
qed

text \<open>C26: The visibility check withholds what it must: a visible gift wrap is addressed to the key the
  connection is authenticated as, and an event of a private group is only visible to a connection
  that is authenticated as a member, whichever of its \<open>h\<close> tags a filter matched on.\<close>

theorem visible_only_to_entitled:
  assumes "event_visible env cid ev st s"
  shows "(is_gift_wrap_kind (ev_kind ev) \<longrightarrow>
      (\<exists>c. load_conn cid s = Some c \<and> sole_gift_wrap_recipient ev = Some (cn_current_pubkey c))) \<and>
    (\<forall>rpk g rest md. re_relay_id env = Some rpk \<and> nip29_enabled (re_cfg env) \<and> \<not> is_gift_wrap_kind (ev_kind ev) \<and>
      [''h'', g] @ rest \<in> set (ev_tags ev) \<and> g \<noteq> [] \<and>
      so_metadata (re_ops env) rpk g st = Inr (Some md) \<and> nip29_metadata_is_private (Some md) \<longrightarrow>
      (\<exists>c pk. load_conn cid s = Some c \<and> pk \<in> set (cn_pubkeys c) \<and> so_member (re_ops env) rpk g pk st = Inr True))"
  by (rule visible_entitled [OF assms])

definition no_crypto :: crypto where
  "no_crypto = \<lparr>cx_encode = (\<lambda>_. []), cx_sha256_hex = (\<lambda>_. replicate 64 CHR ''0''), cx_parse_sig_ok = (\<lambda>_. None),
     cx_parse_pubkey_ok = (\<lambda>_. None), cx_schnorr_verify = (\<lambda>_ _ _. True)\<rparr>"

definition demo_env :: "event_db relay_env" where
  "demo_env = \<lparr>re_cfg = wrap_config, re_relay_id = Some ''rk'', re_sign_id = Inr, re_crypto = no_crypto,
     re_net = no_netlib, re_ops = sql_store plain_env, re_intercept = None\<rparr>"

definition wrap_wire :: wire where
  "wrap_wire = \<lparr>w_subs = new_subscription_manager wrap_config, w_conns = [(''c1'', nip42_add_pubkey wrap_key sample_conn)]\<rparr>"

lemma wrap_visible:
  assumes "load_conn ''c1'' w = Some (nip42_add_pubkey wrap_key sample_conn)"
  shows "event_visible demo_env ''c1'' wrap_event db w"
proof -
  have "nip29_group_h_tags_valid wrap_event"
    by (simp add: nip29_group_h_tags_valid_def wrap_event_def sample_event_def is_h_tag_def)
  moreover have "is_gift_wrap_kind (ev_kind wrap_event)"
    by (simp add: wrap_event_def sample_event_def is_gift_wrap_kind_def nip17_kind_gift_wrap_def)
  moreover have "nip17_enabled (re_cfg demo_env)" by (simp add: demo_env_def nip17_enabled_def wrap_config_def)
  moreover have "nip17_gift_wrap_visible ''c1'' wrap_event w"
    using assms by (simp add: nip17_gift_wrap_visible_def wrap_recipient nip42_current_auth_pubkey_def nip42_add_pubkey_def)
  ultimately show ?thesis by (simp add: event_visible_def Let_def)
qed

theorem visible_only_to_entitled_witness:
  "\<exists>c. load_conn ''c1'' wrap_wire = Some c \<and> sole_gift_wrap_recipient wrap_event = Some (cn_current_pubkey c)"
proof -
  have "load_conn ''c1'' wrap_wire = Some (nip42_add_pubkey wrap_key sample_conn)" by (simp add: load_conn_def wrap_wire_def)
  moreover have "is_gift_wrap_kind (ev_kind wrap_event)"
    by (simp add: wrap_event_def sample_event_def is_gift_wrap_kind_def nip17_kind_gift_wrap_def)
  ultimately show ?thesis using visible_only_to_entitled [OF wrap_visible] by blast
qed

text \<open>C2: No private message leaves the relay on the wrong connection: in every interleaving of
  broadcasts and snapshots, each gift wrap among the frames sent to a connection was addressed to
  the key that connection was authenticated as when the relay checked it.\<close>

theorem no_gift_wrap_leaks:
  assumes "vis = (\<lambda>cid ev w. \<exists>st. event_visible env cid ev st w)" and "wire_reach vis s"
    and "FEvent sid' ev \<in> set (frames_of (cid, sid, g) s)" and "is_gift_wrap_kind (ev_kind ev)"
  shows "\<exists>s0 c. wire_reach vis s0 \<and> rtranclp (wire_step vis) s0 s \<and> load_conn cid (ws_wire s0) = Some c \<and>
    sole_gift_wrap_recipient ev = Some (cn_current_pubkey c)"
proof -
  have "was_checked vis s cid ev"
    using wire_reach_checked [OF assms(2)] assms(3) unfolding checked_inv_def frames_of_def by fastforce
  then obtain s0 st where "wire_reach vis s0" "rtranclp (wire_step vis) s0 s" "event_visible env cid ev st (ws_wire s0)"
    unfolding was_checked_def assms(1) by blast
  note s0 = this
  from visible_entitled [OF s0(3)] assms(4) obtain c
    where "load_conn cid (ws_wire s0) = Some c" "sole_gift_wrap_recipient ev = Some (cn_current_pubkey c)" by blast
  with s0(1,2) show ?thesis by blast
qed

text \<open>Authentication is only granted on proof: an accepted AUTH event has the right kind, a valid
  id and signature, names this relay and carries the connection's own challenge, which is not
  empty; and its time is within the allowed skew, except for the one value 2^63 seconds before now,
  whose distance overflows.\<close>

theorem auth_event_accepted_iff:
  assumes "0 \<le> now" and "now < 2 ^ 62" and "int64_range (ev_created_at ev)"
    and "nip42_created_at_skew (re_cfg env) < 2 ^ 62"
  shows "verify_nip42_auth_event env ev challenge now = None \<longleftrightarrow>
    ev_kind ev = 22242 \<and> verify_sig (re_crypto env) ev = None \<and>
    (\<exists>url. url \<noteq> [] \<and> normalize_nip42_relay_url (re_net env) (relay_url (nip42 (re_cfg env))) = Inr url \<and>
      normalize_nip42_relay_url (re_net env) (tag_first (ev_tags ev) ''relay'') = Inr url) \<and>
    challenge \<noteq> [] \<and> tag_first (ev_tags ev) ''challenge'' = challenge \<and>
    (\<bar>ev_created_at ev - now\<bar> \<le> nip42_created_at_skew (re_cfg env) \<or> ev_created_at ev = now - 2 ^ 63)"
proof -
  have "\<not> outside_skew k (ev_created_at ev) now \<longleftrightarrow> \<bar>ev_created_at ev - now\<bar> \<le> k \<or> ev_created_at ev = now - 2 ^ 63"
    if "0 < k" "k < 2 ^ 62" for k
  proof -
    let ?d = "ev_created_at ev - now"
    have d: "- (2 ^ 63) - 2 ^ 62 < ?d" "?d < 2 ^ 63" using assms(1-3) by (auto simp: int64_range_def)
    consider (low) "?d < - (2 ^ 63)" | (min) "?d = - (2 ^ 63)" | (ok) "- (2 ^ 63) < ?d" by linarith
    then show ?thesis
    proof cases
      case low
      then have "wrap64 ?d = ?d + 2 ^ 64" using d by (intro wrap64_under) auto
      then show ?thesis using low d that by (simp add: outside_skew_def sub64_def Let_def)
    next
      case min
      then have "wrap64 ?d = - (2 ^ 63)" "wrap64 (2 ^ 63) = - (2 ^ 63)" by (simp_all add: wrap64_def)
      then show ?thesis using min that by (simp add: outside_skew_def sub64_def neg64_def Let_def)
    next
      case ok
      then have "wrap64 ?d = ?d" "wrap64 (- ?d) = - ?d" using d by (simp_all add: wrap64_id int64_range_def)
      then show ?thesis using ok that by (auto simp: outside_skew_def sub64_def neg64_def Let_def)
    qed
  qed
  moreover have "0 < nip42_created_at_skew (re_cfg env)" by (simp add: nip42_created_at_skew_def)
  ultimately show ?thesis
    using assms(4)
    by (auto simp: verify_nip42_auth_event_def nip42_auth_event_kind_def Let_def split: option.splits sum.splits if_splits)
qed

definition auth_env :: "event_db relay_env" where
  "auth_env = demo_env\<lparr>re_net := no_netlib\<lparr>nl_url_parse :=
     (\<lambda>_. Some \<lparr>u_scheme = ''wss'', u_host = ''relay'', u_path = [], u_opaque = []\<rparr>)\<rparr>\<rparr>"

definition ancient_auth :: event where
  "ancient_auth = \<lparr>ev_id = replicate 64 CHR ''0'', ev_pubkey = replicate 64 CHR ''0'', ev_created_at = 1700000000 - 2 ^ 63,
     ev_kind = 22242, ev_tags = [[''relay'', ''wss://relay''], [''challenge'', ''ab'']], ev_content = [], ev_sig = []\<rparr>"

theorem auth_event_accepted_iff_witness:
  "verify_nip42_auth_event auth_env ancient_auth ''ab'' 1700000000 = None"
proof -
  have "hex_decode (replicate 64 CHR ''0'') = Some (replicate 32 0)" by code_simp
  then have "verify_sig (re_crypto auth_env) ancient_auth = None"
    by (simp add: verify_sig_def verify_id_def auth_env_def demo_env_def no_crypto_def ancient_auth_def Let_def)
  moreover have "normalize_nip42_relay_url (re_net auth_env) u = Inr ''wss://relay/''" for u
  proof -
    have "to_lower ''wss'' = ''wss''" "to_lower ''relay'' = ''relay''" "strip_slashes ''/'' = ''/''" by code_simp+
    then show ?thesis by (simp add: normalize_nip42_relay_url_def auth_env_def demo_env_def Let_def)
  qed
  moreover have "nip42_created_at_skew (re_cfg auth_env) = 600"
    by (simp add: nip42_created_at_skew_def auth_env_def demo_env_def wrap_config_def default_config_def)
  moreover have "int64_range (ev_created_at ancient_auth)" by (simp add: ancient_auth_def int64_range_def)
  ultimately show ?thesis
    using auth_event_accepted_iff [of 1700000000 ancient_auth auth_env "''ab''"] by (simp add: ancient_auth_def)
qed

text \<open>The late-publication window of a group has a hole: an event of a group passes exactly when it
  is at most the configured time old, or when it is 2^63 seconds old or more, where the age overflows.\<close>

theorem late_publication_accepted_iff:
  assumes "0 \<le> now" and "now < 2 ^ 62" and "int64_range (ev_created_at ev)"
    and "nip29_max_past_sec cfg < 2 ^ 62" and "nip29_group_h_tag ev \<noteq> []"
  shows "nip29_validate_late_publication cfg now ev = None \<longleftrightarrow>
    now - ev_created_at ev \<le> nip29_max_past_sec cfg \<or> 2 ^ 63 \<le> now - ev_created_at ev"
proof -
  have r: "- (2 ^ 63) \<le> ev_created_at ev" "ev_created_at ev < 2 ^ 63" using assms(3) by (simp_all add: int64_range_def)
  have p: "0 < nip29_max_past_sec cfg" by (simp add: nip29_max_past_sec_def)
  show ?thesis
  proof (cases "2 ^ 63 \<le> now - ev_created_at ev")
    case True
    then have "wrap64 (now - ev_created_at ev) = now - ev_created_at ev - 2 ^ 64"
      using r assms(1,2) by (intro wrap64_over) auto
    then show ?thesis
      using True r assms(1,2,5) p by (simp add: nip29_validate_late_publication_def sub64_def)
  next
    case False
    then have "wrap64 (now - ev_created_at ev) = now - ev_created_at ev"
      using r assms(1,2) by (intro wrap64_id) (auto simp: int64_range_def)
    then show ?thesis using False assms(5) by (auto simp: nip29_validate_late_publication_def sub64_def)
  qed
qed

theorem late_publication_accepted_iff_witness:
  "nip29_validate_late_publication wrap_config 1700000000 (sample_event ''x'' (- (2 ^ 63)) 9 [[''h'', ''g'']]) = None \<and>
   nip29_validate_late_publication wrap_config 1700000000 (sample_event ''x'' 1600000000 9 [[''h'', ''g'']]) \<noteq> None"
proof -
  have p: "nip29_max_past_sec wrap_config = 86400"
    by (simp add: nip29_max_past_sec_def wrap_config_def default_config_def)
  have g: "nip29_group_h_tag (sample_event ''x'' t 9 [[''h'', ''g'']]) \<noteq> []" for t
    by (simp add: nip29_group_h_tag_def sample_event_def is_h_tag_def)
  show ?thesis
    using late_publication_accepted_iff [of 1700000000 "sample_event ''x'' (- (2 ^ 63)) 9 [[''h'', ''g'']]" wrap_config]
      late_publication_accepted_iff [of 1700000000 "sample_event ''x'' 1600000000 9 [[''h'', ''g'']]" wrap_config]
    by (simp add: p g) (simp add: sample_event_def int64_range_def)
qed

text \<open>C29: The group rules hold for whatever a client publishes: an event that passes the NIP-29
  validators names at most one group; a moderation event not signed by the relay comes from a
  listed admin and does not create or delete a group; other events in a restricted group come from
  members; a join request comes from a non-member and a leave request from a member.\<close>

theorem group_rules_enforced:
  assumes "validate_chain env now [VNip29Tags, VNip29Previous, VNip29Late, VNip29Restricted, VNip29Moderation] c ev st = None"
    and "re_relay_id env = Some rpk" and "ev_pubkey ev \<noteq> rpk"
  defines "g \<equiv> nip29_group_h_tag ev" and "member \<equiv> \<lambda>g. so_member (re_ops env) rpk g (ev_pubkey ev) st = Inr True"
  shows "(\<forall>t \<in> set (ev_tags ev). is_h_tag t \<longrightarrow> t ! 1 = g) \<and>
    (nip29_is_moderation_kind (ev_kind ev) \<longrightarrow> g \<noteq> [] \<and> ev_kind ev \<noteq> 9007 \<and> ev_kind ev \<noteq> 9008 \<and>
      (\<exists>admins. so_admins (re_ops env) rpk g st = Inr (Some admins) \<and>
        nip29_admins39001_contains_pubkey (Some admins) (ev_pubkey ev))) \<and>
    (ev_kind ev = 9021 \<longrightarrow> g \<noteq> [] \<and> so_member (re_ops env) rpk g (ev_pubkey ev) st = Inr False) \<and>
    (ev_kind ev = 9022 \<longrightarrow> g \<noteq> [] \<and> member g) \<and>
    (g \<noteq> [] \<and> \<not> nip29_is_moderation_kind (ev_kind ev) \<and> ev_kind ev \<noteq> 9021 \<and> ev_kind ev \<noteq> 9022 \<longrightarrow>
      (\<forall>md. so_metadata (re_ops env) rpk g st = Inr md \<and> nip29_metadata_is_restricted md \<longrightarrow> member g))"
proof -
  have v: "nip29_group_h_tags_valid ev" "nip29_validate_restricted_write env ev st = None"
    "nip29_validate_moderation_and_join_leave env ev st = None"
    using assms(1) [unfolded validate_chain_None] by (simp_all split: if_splits)
  have 1: "\<forall>t \<in> set (ev_tags ev). is_h_tag t \<longrightarrow> t ! 1 = g"
    using group_h_tag_unique [OF v(1)] unfolding g_def by metis
  have 2: "nip29_is_moderation_kind (ev_kind ev) \<longrightarrow> g \<noteq> [] \<and> ev_kind ev \<noteq> 9007 \<and> ev_kind ev \<noteq> 9008 \<and>
      (\<exists>admins. so_admins (re_ops env) rpk g st = Inr (Some admins) \<and>
        nip29_admins39001_contains_pubkey (Some admins) (ev_pubkey ev))"
    using v(3) assms(2,3) unfolding g_def
    by (auto simp: nip29_validate_moderation_and_join_leave_def nip29_validate_moderation_def Let_def go_defs
        split: if_splits sum.splits)
  have 3: "ev_kind ev = 9021 \<longrightarrow> g \<noteq> [] \<and> so_member (re_ops env) rpk g (ev_pubkey ev) st = Inr False"
    using v(3) assms(2) unfolding g_def
    by (auto simp: nip29_validate_moderation_and_join_leave_def nip29_validate_join_def nip29_is_moderation_kind_def
        Let_def go_defs split: if_splits sum.splits)
  have 4: "ev_kind ev = 9022 \<longrightarrow> g \<noteq> [] \<and> member g"
    using v(3) assms(2) unfolding g_def member_def
    by (auto simp: nip29_validate_moderation_and_join_leave_def nip29_validate_leave_def nip29_is_moderation_kind_def
        Let_def go_defs split: if_splits sum.splits)
  have 5: "\<forall>md. so_metadata (re_ops env) rpk g st = Inr md \<and> nip29_metadata_is_restricted md \<longrightarrow> member g"
    if "g \<noteq> []" "\<not> nip29_is_moderation_kind (ev_kind ev)" "ev_kind ev \<noteq> 9021" "ev_kind ev \<noteq> 9022"
    using v(2) assms(2,3) that unfolding g_def member_def
    by (auto simp: nip29_validate_restricted_write_def nip29_metadata_is_restricted_def Let_def go_defs
        split: if_splits sum.splits)
  show ?thesis using 1 2 3 4 5 by blast
qed

theorem group_rules_enforced_witness:
  "\<not> nip29_is_moderation_kind (ev_kind (sample_event ''x'' 100 9021 [[''h'', ''g'']])) \<and>
   so_member (re_ops demo_env) ''rk'' ''g'' ''pk'' empty_db = Inr False"
proof -
  let ?ev = "sample_event ''x'' 100 9021 [[''h'', ''g'']]"
  have "validate_chain demo_env 100 [VNip29Tags, VNip29Previous, VNip29Late, VNip29Restricted, VNip29Moderation]
      sample_conn ?ev empty_db = None"
    by code_simp
  from group_rules_enforced [OF this, of "''rk''"] show ?thesis
    by (simp add: demo_env_def sample_event_def nip29_is_moderation_kind_def nip29_group_h_tag_def is_h_tag_def)
qed

theorem no_gift_wrap_leaks_witness:
  "\<exists>s0 c. wire_reach (\<lambda>cid ev w. \<exists>st. event_visible demo_env cid ev st w) s0 \<and> load_conn ''c1'' (ws_wire s0) = Some c \<and>
     cn_current_pubkey c = wrap_key"
proof -
  let ?vis = "\<lambda>cid ev w. \<exists>st. event_visible demo_env cid ev st (w :: wire)" and ?k = "(''c1'', ''s'', 1 :: nat)"
  let ?w = "(ws_wire demo_open)\<lparr>w_conns := w_conns wrap_wire\<rparr>"
  let ?s1 = "demo_open\<lparr>ws_wire := ?w\<rparr>"
  let ?s2 = "?s1\<lparr>ws_passed := [(''c1'', wrap_event)]\<rparr>"
  let ?s = "logged (\<lambda>_. FromStore) ?k (snd (with_snapshot ''c1'' ''s'' 1 (snapshot_event_fn False ''c1'' ''s'' wrap_event) ?w)) ?s2"
  have r1: "wire_reach ?vis ?s1"
    by (rule wire_reach.step [OF demo_open_reach wire_step.conns])
      (simp add: conns_change_def demo_open_def wrap_wire_def outbound_def nip42_add_pubkey_def sample_conn_def new_conn_def)
  have "event_visible demo_env ''c1'' wrap_event db ?w" for db
    by (rule wrap_visible) (simp add: load_conn_def wrap_wire_def)
  then have "wire_step ?vis ?s1 (?s1\<lparr>ws_passed := (''c1'', wrap_event) # ws_passed ?s1\<rparr>)"
    by (intro wire_step.check_stored) auto
  then have r2: "wire_reach ?vis ?s2" using wire_reach.step [OF r1] by (simp add: demo_open_def)
  have "wire_step ?vis ?s2 (logged (\<lambda>_. FromStore) ?k (snd (with_snapshot ''c1'' ''s'' 1 (snapshot_event_fn False ''c1'' ''s'' wrap_event) (ws_wire ?s2))) ?s2)"
    by (rule wire_step.snapshot) (simp_all add: demo_open_def)
  then have r: "wire_reach ?vis ?s" using wire_reach.step [OF r2] by simp
  have "out_of ''c1'' ?w = []"
    by (simp add: out_of_def wrap_wire_def outbound_def nip42_add_pubkey_def sample_conn_def new_conn_def)
  moreover have "at_subscription ''c1'' ''s'' 1 [] ?w" using demo_at
    by (simp add: at_subscription_def sub_lookup_def conn_subs_def has_sender_def wrap_wire_def nip42_add_pubkey_def
        sample_conn_def new_conn_def)
  ultimately have "FEvent ''s'' wrap_event \<in> set (frames_of ?k ?s)"
    using snapshot_event_offered(3) [of "''c1''" "''s''" 1 "[]" ?w 0 wrap_event]
    by (simp add: frames_of_logged new_frames_def room_for_def wrap_wire_def nip42_add_pubkey_def sample_conn_def new_conn_def send_queue_cap_def)
  from no_gift_wrap_leaks [OF refl r this] obtain s0 c where "wire_reach ?vis s0" "load_conn ''c1'' (ws_wire s0) = Some c"
    "sole_gift_wrap_recipient wrap_event = Some (cn_current_pubkey c)"
    by (auto simp: wrap_event_def sample_event_def is_gift_wrap_kind_def nip17_kind_gift_wrap_def)
  moreover have "sole_gift_wrap_recipient wrap_event = Some wrap_key" by code_simp
  ultimately show ?thesis by auto
qed

end
