(* ===== verification/Relay_Handlers.thy ===== *)
theory Relay_Handlers
  imports Relay_Policy
begin

text \<open>
  What the relay does with EVENT, REQ, CLOSE and AUTH: \<open>nip01.go\<close>, the handler of
  \<open>nip42.go\<close>, the post-store hook of \<open>nip29.go\<close>, \<open>hooks.go\<close> and
  \<open>notifier_fanout.go\<close> in \<open>internal/relay\<close>, and \<open>internal/plugin/hydrate.go\<close>.

  A handler returns its Go error (\<open>None\<close> for nil) with the server's next state; it runs on the
  read loop of a connection, which is registered while it does. \<open>fresh\<close> is the challenge the
  random source would give and the \<open>now\<close> arguments are the readings of the clock. The hooks of
  the chain are the constructors of \<open>post_hook\<close>. Logging, metrics and the audit trail are not
  part of the state, so the hook \<open>nip01_audit_event\<close> changes nothing; what plugins are told is.
\<close>

section \<open>Broadcast and relay-signed events\<close>

abbreviation sees :: "'st relay_env \<Rightarrow> string \<Rightarrow> event \<Rightarrow> 'st server \<Rightarrow> bool" where
  "sees env \<equiv> event_visible_to_subscription env"

definition broadcast_event :: "'st relay_env \<Rightarrow> event \<Rightarrow> 'st server \<Rightarrow> 'st server" where
  "broadcast_event env ev s = broadcast ev (Some (sees env)) s"

definition sign_event :: "'st relay_env \<Rightarrow> event \<Rightarrow> event result" where
  "sign_event env ev =
     (case re_relay_id env of
        None \<Rightarrow> Inl ''relayidentity: cannot sign with nil identity''
      | Some pk \<Rightarrow>
          (let (i, e) = compute_id (re_crypto env) (ev\<lparr>ev_pubkey := pk\<rparr>) in
           case re_sign_id env i of
             Inl err \<Rightarrow> Inl err
           | Inr sig \<Rightarrow> Inr (e\<lparr>ev_sig := sig\<rparr>)))"

definition save_in :: "'st relay_env \<Rightarrow> event \<Rightarrow> 'st server \<Rightarrow> string option \<times> 'st server" where
  "save_in env ev s = (let (err, st) = so_save (re_ops env) ev (sv_store s) in (err, s\<lparr>sv_store := st\<rparr>))"

text \<open>Sign, save and broadcast, the sequence the group functions repeat.\<close>

definition publish_signed :: "'st relay_env \<Rightarrow> event \<Rightarrow> 'st server \<Rightarrow> string option \<times> 'st server" where
  "publish_signed env ev s =
     (case sign_event env ev of
        Inl err \<Rightarrow> (Some err, s)
      | Inr ev \<Rightarrow>
          (case save_in env ev s of
             (Some err, s) \<Rightarrow> (Some err, s)
           | (None, s) \<Rightarrow> (None, broadcast_event env ev s)))"

definition relay_event :: "int \<Rightarrow> int \<Rightarrow> string list list \<Rightarrow> event" where
  "relay_event now kind tags = \<lparr>ev_id = [], ev_pubkey = [], ev_created_at = now, ev_kind = kind,
     ev_tags = tags, ev_content = [], ev_sig = []\<rparr>"

definition nip29_ensure_group_metadata :: "'st relay_env \<Rightarrow> int \<Rightarrow> string \<Rightarrow> string \<Rightarrow> 'st server \<Rightarrow>
    string option \<times> 'st server" where
  "nip29_ensure_group_metadata env now rpk gid s =
     (case so_metadata (re_ops env) rpk gid (sv_store s) of
        Inl err \<Rightarrow> (Some err, s)
      | Inr (Some _) \<Rightarrow> (None, s)
      | Inr None \<Rightarrow>
          (case publish_signed env (relay_event now NIP29KindCreateGroup [[''h'', gid]]) s of
             (Some err, s) \<Rightarrow> (Some err, s)
           | (None, s) \<Rightarrow> publish_signed env (relay_event now NIP29KindGroupMetadata [[''d'', gid]]) s))"

definition nip29_relay_put_user :: "'st relay_env \<Rightarrow> int \<Rightarrow> event \<Rightarrow> 'st server \<Rightarrow> string option \<times> 'st server" where
  "nip29_relay_put_user env now join s =
     (let gid = nip29_group_h_tag join in
      if gid = [] then (None, s)
      else publish_signed env (relay_event now NIP29KindPutUser [[''h'', gid], [''p'', ev_pubkey join]]) s)"

definition nip29_relay_remove_user :: "'st relay_env \<Rightarrow> int \<Rightarrow> event \<Rightarrow> 'st server \<Rightarrow> string option \<times> 'st server" where
  "nip29_relay_remove_user env now leave s =
     (let gid = nip29_group_h_tag leave in
      if gid = [] then (None, s)
      else publish_signed env (relay_event now NIP29KindRemoveUser [[''h'', gid], [''p'', ev_pubkey leave]]) s)"

section \<open>Post-accept hooks\<close>

datatype post_hook = HNip29PostStore | HPluginOnStored | HNip01Broadcast | HNip01Audit

definition nip29_post_store_hook :: "'st relay_env \<Rightarrow> int \<Rightarrow> int \<Rightarrow> bool \<Rightarrow> event \<Rightarrow> 'st server \<Rightarrow> 'st server" where
  "nip29_post_store_hook env now now2 stored ev s =
     (if \<not> nip29_enabled (re_cfg env) \<or> \<not> stored then s
      else case re_relay_id env of None \<Rightarrow> s | Some rpk \<Rightarrow>
     (let gid = nip29_group_h_tag ev;
          s = (if gid \<noteq> [] then snd (nip29_ensure_group_metadata env now rpk gid s) else s);
          s = (if ev_kind ev = NIP29KindJoinRequest then snd (nip29_relay_put_user env now2 ev s) else s)
      in if ev_kind ev = NIP29KindLeaveReq then snd (nip29_relay_remove_user env now2 ev s) else s))"

definition notify_plugin_stored_event :: "'st relay_env \<Rightarrow> event \<Rightarrow> bool \<Rightarrow> bool \<Rightarrow> 'st server \<Rightarrow> 'st server" where
  "notify_plugin_stored_event env ev stored observe s =
     (if re_intercept env = None then s
      else let s = s\<lparr>sv_plugin_events := sv_plugin_events s @ [(ev, stored)]\<rparr>
           in if observe then s\<lparr>sv_observed := sv_observed s @ [EventMessage ev]\<rparr> else s)"

fun run_hook :: "'st relay_env \<Rightarrow> int \<Rightarrow> int \<Rightarrow> post_hook \<Rightarrow> bool \<Rightarrow> event \<Rightarrow> 'st server \<Rightarrow> 'st server" where
  "run_hook env now now2 HNip29PostStore stored ev s = nip29_post_store_hook env now now2 stored ev s"
| "run_hook env now now2 HPluginOnStored stored ev s = notify_plugin_stored_event env ev stored False s"
| "run_hook env now now2 HNip01Broadcast stored ev s =
     (if ev_kind ev = nip42_auth_event_kind then s else broadcast_event env ev s)"
| "run_hook env now now2 HNip01Audit stored ev s = s"

fun run_hooks :: "'st relay_env \<Rightarrow> int \<Rightarrow> int \<Rightarrow> post_hook list \<Rightarrow> bool \<Rightarrow> event \<Rightarrow> 'st server \<Rightarrow> 'st server" where
  "run_hooks env now now2 [] stored ev s = s"
| "run_hooks env now now2 (h # hs) stored ev s =
     run_hooks env now now2 hs stored ev (run_hook env now now2 h stored ev s)"

definition deliver_imported_event :: "'st relay_env \<Rightarrow> event \<Rightarrow> 'st server \<Rightarrow> 'st server" where
  "deliver_imported_event env ev s =
     broadcast_event env ev (notify_plugin_stored_event env ev True True s)"

text \<open>One turn of \<open>RunImportedEventFanout\<close>.\<close>

definition imported_event_fanout :: "'st relay_env \<Rightarrow> string \<Rightarrow> 'st server \<Rightarrow> 'st server" where
  "imported_event_fanout env i s =
     (if i = [] then s
      else case so_query (re_ops env) [empty_filter\<lparr>f_ids := [i]\<rparr>] (sv_store s) of
             Inl _ \<Rightarrow> s
           | Inr evs \<Rightarrow> if length evs \<noteq> 1 then s else deliver_imported_event env (evs ! 0) s)"

definition validate_imported_event :: "'st relay_env \<Rightarrow> int \<Rightarrow> validator list \<Rightarrow> conn \<Rightarrow> event \<Rightarrow> 'st \<Rightarrow> string option" where
  "validate_imported_event env now vs blank ev st =
     (if is_ephemeral (ev_kind ev) then Some ''upstream import cannot persist ephemeral events''
      else validate_chain env now vs blank ev st)"

section \<open>EVENT\<close>

abbreviation on_conn :: "string \<Rightarrow> (conn \<Rightarrow> string option \<times> conn) \<Rightarrow> 'st server \<Rightarrow> string option \<times> 'st server" where
  "on_conn cid f s \<equiv> conn_op cid f s"

definition challenge_client :: "'st relay_env \<Rightarrow> string \<Rightarrow> string \<Rightarrow> 'st server \<Rightarrow> 'st server" where
  "challenge_client env fresh cid s = snd (on_conn cid (nip42_enqueue_auth_challenge (re_cfg env) fresh) s)"

definition duplicate_message :: string where
  "duplicate_message = ''duplicate: already have this event''"

definition handle_event :: "'st relay_env \<Rightarrow> validator list \<Rightarrow> post_hook list \<Rightarrow> int \<Rightarrow> int \<Rightarrow> int \<Rightarrow> string \<Rightarrow>
    string \<Rightarrow> event \<Rightarrow> 'st server \<Rightarrow> string option \<times> 'st server" where
  "handle_event env vs hs now now1 now2 fresh cid ev s =
     (case load_conn cid s of None \<Rightarrow> (Some err_canceled, s) | Some c \<Rightarrow>
     (case validate_chain env now vs c ev (sv_store s) of
        Some reason \<Rightarrow>
          on_conn cid (send_ok (ev_id ev) False reason)
            (if has_prefix reason ''auth-required:'' then challenge_client env fresh cid s else s)
      | None \<Rightarrow>
     (if is_ephemeral (ev_kind ev) then
        (case on_conn cid (send_ok (ev_id ev) True []) s of
           (Some err, s) \<Rightarrow> (Some err, s)
         | (None, s) \<Rightarrow> (None, run_hooks env now1 now2 hs False ev s))
      else case so_has_id (re_ops env) (ev_id ev) (sv_store s) of
        Inl _ \<Rightarrow> on_conn cid (send_ok (ev_id ev) False ''error: cannot check stored event'') s
      | Inr exists \<Rightarrow>
     (if exists then on_conn cid (send_ok (ev_id ev) True duplicate_message) s
      else case save_in env ev s of
        (Some reason, s) \<Rightarrow>
          (if so_has_id (re_ops env) (ev_id ev) (sv_store s) = Inr True
           then on_conn cid (send_ok (ev_id ev) True duplicate_message) s
           else on_conn cid (send_ok (ev_id ev) False reason) s)
      | (None, s) \<Rightarrow>
          on_conn cid (send_ok (ev_id ev) True []) (run_hooks env now1 now2 hs True ev s)))))"

section \<open>REQ and CLOSE\<close>

fun unique_ids :: "string list \<Rightarrow> string list \<Rightarrow> string list" where
  "unique_ids [] acc = acc"
| "unique_ids (i # is) acc =
     (if i = [] then unique_ids is acc
      else if i \<in> set acc then unique_ids is acc
      else unique_ids is (acc @ [i]))"

fun hydrate_order :: "(string, event) go_map \<Rightarrow> string list \<Rightarrow> string list \<Rightarrow> event list" where
  "hydrate_order m got [] = []"
| "hydrate_order m got (i # is) =
     (case map_of m i of
        None \<Rightarrow> hydrate_order m got is
      | Some ev \<Rightarrow> if i \<in> set got then hydrate_order m got is
                   else ev # hydrate_order m (i # got) is)"

definition get_events_by_ids :: "'st store_ops \<Rightarrow> string list \<Rightarrow> 'st \<Rightarrow> event list result" where
  "get_events_by_ids ops ids st =
     (if length ids = 0 then Inr []
      else let uniq = unique_ids ids [] in
        if length uniq = 0 then Inr []
        else case so_query ops [empty_filter\<lparr>f_ids := uniq\<rparr>] st of
               Inl err \<Rightarrow> Inl err
             | Inr events \<Rightarrow>
                 Inr (hydrate_order (fold (\<lambda>ev. AList.update (ev_id ev) ev) events []) [] ids))"

fun req_add_error :: "sub_error \<Rightarrow> string" where
  "req_add_error ErrSubscriptionIDTooLong = ''subscription id too long''"
| "req_add_error ErrTooManyFilters = ''too many filters''"
| "req_add_error ErrTooManySubscriptions = ''too many subscriptions''"

text \<open>The checks before a subscription is opened; the result of a rejection is \<open>Some\<close>. The first
  check also issues a challenge for a NIP-17 reason that asks for authentication.\<close>

definition req_gate :: "'st relay_env \<Rightarrow> string \<Rightarrow> bool \<Rightarrow> string \<Rightarrow> string \<Rightarrow> filter list \<Rightarrow> 'st server \<Rightarrow>
    (string option \<times> 'st server) option" where
  "req_gate env fresh first cid sid filters s =
     (case load_conn cid s of None \<Rightarrow> Some (Some err_canceled, s) | Some c \<Rightarrow>
     (case validate_nip17_req (re_cfg env) c filters of
        Some err \<Rightarrow>
          Some (on_conn cid (send_closed sid err)
            (if first \<and> has_prefix err ''auth-required:'' then challenge_client env fresh cid s else s))
      | None \<Rightarrow>
          if subscribe_auth_required (re_cfg env) filters \<and> \<not> nip42_has_any_auth c
          then Some (on_conn cid (send_closed sid ''auth-required: subscription requires authentication'')
            (challenge_client env fresh cid s))
          else None))"

definition note_sub_count :: "int \<Rightarrow> string \<Rightarrow> 'st server \<Rightarrow> 'st server" where
  "note_sub_count now cid s = snd (on_conn cid (\<lambda>c. (None, note_subscription_count now (sub_count cid s) c)) s)"

definition handle_req_respond :: "'st relay_env \<Rightarrow> string \<Rightarrow> int \<Rightarrow> string \<Rightarrow> string \<Rightarrow> filter list \<Rightarrow>
    intercept_result \<Rightarrow> 'st server \<Rightarrow> string option \<times> 'st server" where
  "handle_req_respond env fresh now cid sid filters ires s =
     (let sub_filters = (if length (ir_subscription_filters ires) > 0 then ir_subscription_filters ires else filters) in
      case req_gate env fresh False cid sid sub_filters s of Some r \<Rightarrow> r | None \<Rightarrow>
     (case sub_add now cid sid sub_filters s of
        (Some err, s) \<Rightarrow> on_conn cid (send_closed sid (req_add_error err)) s
      | (None, s) \<Rightarrow>
          (let gen = fst (sub_generation cid sid s); s = note_sub_count now cid s in
           case get_events_by_ids (re_ops env) (ir_event_ids ires) (sv_store s) of
             Inl _ \<Rightarrow> close_snapshot_on_query_error cid sid gen s
           | Inr events \<Rightarrow>
               (let (sent, s) = send_snapshot_events False (sees env) cid sid gen events s in
                if \<not> sent then (None, s) else complete_snapshot False cid sid gen s))))"

definition handle_req_query :: "'st relay_env \<Rightarrow> nat \<Rightarrow> int \<Rightarrow> bool \<Rightarrow> string \<Rightarrow> string \<Rightarrow> filter list \<Rightarrow>
    'st server \<Rightarrow> (string option \<times> 'st server) option" where
  "handle_req_query env fuel now search cid sid filters s =
     (if list_ex has_search filters \<and> \<not> search
      then Some (on_conn cid (send_closed sid
        ''search filter is not supported (enable NIP-50 in nips.enabled and restart)'') s)
      else case sub_add now cid sid filters s of
        (Some err, s) \<Rightarrow> Some (on_conn cid (send_closed sid (req_add_error err)) s)
      | (None, s) \<Rightarrow>
          (let gen = fst (sub_generation cid sid s);
               s = note_sub_count now cid s;
               limits = connection_limits (re_cfg env);
               page_size = effective_query_page_size (query_page_size limits);
               default_limit = effective_req_default_query_limit (default_query_limit limits);
               q = new_req_query_state filters default_limit search
           in case fetch_req_page (re_ops env) (sv_store s) q page_size of
             Inl _ \<Rightarrow> Some (close_snapshot_on_query_error cid sid gen s)
           | Inr ((events, has_more), q) \<Rightarrow>
          (let (sent, s) = send_snapshot_events False (sees env) cid sid gen events s in
           if \<not> sent then Some (None, s)
           else if \<not> has_more then Some (complete_snapshot False cid sid gen s)
           else let job = \<lparr>rj_conn_id = cid, rj_sub_id = sid, rj_generation = gen, rj_state = q,
                      rj_search_enabled = search, rj_page_size = page_size\<rparr>;
                    (queued, jobs) = rq_enqueue job (sv_jobs s)
                in if queued then Some (None, s\<lparr>sv_jobs := jobs\<rparr>)
                   else case drain_remaining_pages fuel (re_ops env) (sv_store s) False (sees env) cid sid q
                       page_size gen s of
                     None \<Rightarrow> None
                   | Some (False, s) \<Rightarrow> Some (None, s)
                   | Some (True, s) \<Rightarrow> Some (complete_snapshot False cid sid gen s))))"

definition handle_req :: "'st relay_env \<Rightarrow> nat \<Rightarrow> string \<Rightarrow> int \<Rightarrow> bool \<Rightarrow> string \<Rightarrow> string \<Rightarrow> filter list \<Rightarrow>
    'st server \<Rightarrow> (string option \<times> 'st server) option" where
  "handle_req env fuel fresh now search cid sid filters s =
     (case req_gate env fresh True cid sid filters s of Some r \<Rightarrow> Some r | None \<Rightarrow>
     (case re_intercept env of
        None \<Rightarrow> handle_req_query env fuel now search cid sid filters s
      | Some intercept \<Rightarrow>
          (let ires = intercept sid filters in
           case ir_action ires of
             InterceptPassthrough \<Rightarrow> handle_req_query env fuel now search cid sid filters s
           | InterceptRespond \<Rightarrow> Some (handle_req_respond env fresh now cid sid filters ires s)
           | InterceptReshapeREQ \<Rightarrow>
               if length (ir_filters ires) > 0
               then (case req_gate env fresh False cid sid (ir_filters ires) s of
                       Some r \<Rightarrow> Some r
                     | None \<Rightarrow> handle_req_query env fuel now search cid sid (ir_filters ires) s)
               else handle_req_query env fuel now search cid sid filters s)))"

definition handle_close :: "int \<Rightarrow> string \<Rightarrow> string \<Rightarrow> 'st server \<Rightarrow> 'st server" where
  "handle_close now cid sid s =
     note_sub_count now cid (sub_remove cid sid (snd (on_conn cid (send_closed sid []) s)))"

section \<open>AUTH\<close>

definition handle_nip42_auth :: "'st relay_env \<Rightarrow> int \<Rightarrow> string \<Rightarrow> event \<Rightarrow> 'st server \<Rightarrow> string option \<times> 'st server" where
  "handle_nip42_auth env now cid ev s =
     (if \<not> relay_nip42_enabled (re_cfg env) then on_conn cid (send_notice ''NIP-42 is not enabled'') s
      else case load_conn cid s of None \<Rightarrow> (Some err_canceled, s) | Some c \<Rightarrow>
     (let ch = nip42_current_challenge c in
      if ch = [] then on_conn cid (send_ok (ev_id ev) False
        ''auth-required: no challenge was issued for this connection'') s
      else case verify_nip42_auth_event env ev ch now of
             Some err \<Rightarrow> on_conn cid (send_ok (ev_id ev) False (''auth-required: '' @ err)) s
           | None \<Rightarrow> on_conn cid (\<lambda>c. send_ok (ev_id ev) True [] (nip42_add_pubkey (ev_pubkey ev) c)) s))"

section \<open>OK frames\<close>

definition oks :: "string \<Rightarrow> 'a wire_scheme \<Rightarrow> frame list" where
  "oks cid w = List.filter (\<lambda>b. case b of FOk _ _ _ \<Rightarrow> True | _ \<Rightarrow> False) (out_of cid w)"

lemma oks_cong: "w_conns w = w_conns w' \<Longrightarrow> oks cid w = oks cid w'"
  unfolding oks_def by (drule out_of_cong [where cid = cid]) (simp only:)

lemma oks_update [simp]:
  "oks cid (s\<lparr>sv_store := st\<rparr>) = oks cid s" "oks cid (s\<lparr>sv_plugin_events := pe\<rparr>) = oks cid s"
  "oks cid (s\<lparr>sv_observed := ob\<rparr>) = oks cid s" "oks cid (s\<lparr>sv_jobs := jb\<rparr>) = oks cid s"
  by (simp_all add: oks_def out_of_def)

lemma out_other:
  "cid' \<noteq> cid \<Longrightarrow> out_of cid' (snd (conn_op cid f w)) = out_of cid' w"
  "cid' \<noteq> cid \<Longrightarrow> out_of cid' (snd (send_to cid b w)) = out_of cid' w"
  by (simp_all add: out_of_def conn_op_def send_to_def case_prod_unfold Let_def split: option.split)

lemma oks_send_to: "(\<And>i ok m. b \<noteq> FOk i ok m) \<Longrightarrow> oks cid' (snd (send_to cid b w)) = oks cid' w"
  by (cases "cid' = cid") (auto simp: oks_def out_send_to out_other split: frame.splits)

lemma oks_deliver [simp]: "oks cid' (deliver_live ev cid sid g w) = oks cid' w"
  by (cases rule: deliver_live_cases [of ev cid sid g w])
    (simp_all add: oks_send_to oks_cong [OF put_entry_simps(1)] oks_cong [OF remove_locked_simps(1)])

lemma oks_deliver_subs [simp]: "oks cid' (deliver_subs ev cid subs w) = oks cid' w"
  by (induction ev cid subs w rule: deliver_subs.induct) simp_all

lemma oks_deliver_matches [simp]: "oks cid' (deliver_matches visible ev ms w) = oks cid' w"
  by (induction visible ev ms w rule: deliver_matches.induct) (auto split: option.splits)

lemma oks_broadcast [simp]: "oks cid' (broadcast_event env ev s) = oks cid' s"
  by (simp add: broadcast_event_def broadcast_def)

lemma oks_save [simp]: "oks cid (snd (save_in env ev s)) = oks cid s"
  by (simp add: save_in_def case_prod_unfold Let_def)

lemma oks_publish [simp]: "oks cid (snd (publish_signed env ev s)) = oks cid s"
proof (cases "sign_event env ev")
  case (Inr e)
  obtain err s' where r: "save_in env e s = (err, s')" by force
  have "oks cid s' = oks cid s" using oks_save [of cid env e s] r by simp
  then show ?thesis using Inr r by (cases err) (simp_all add: publish_signed_def)
qed (simp add: publish_signed_def)

lemma oks_ensure [simp]: "oks cid (snd (nip29_ensure_group_metadata env now rpk gid s)) = oks cid s"
proof (cases "so_metadata (re_ops env) rpk gid (sv_store s)")
  case (Inr md)
  let ?create = "relay_event now NIP29KindCreateGroup [[''h'', gid]]"
  obtain err s' where r: "publish_signed env ?create s = (err, s')" by force
  have "oks cid s' = oks cid s" using oks_publish [of cid env ?create s] r by simp
  then show ?thesis
    using Inr r by (cases md; cases err) (simp_all add: nip29_ensure_group_metadata_def)
qed (simp add: nip29_ensure_group_metadata_def)

lemma oks_put_remove [simp]:
  "oks cid (snd (nip29_relay_put_user env now ev s)) = oks cid s"
  "oks cid (snd (nip29_relay_remove_user env now ev s)) = oks cid s"
  by (simp_all add: nip29_relay_put_user_def nip29_relay_remove_user_def Let_def)

lemma oks_hook [simp]: "oks cid (run_hook env now now2 h stored ev s) = oks cid s"
  by (cases h)
    (simp_all add: nip29_post_store_hook_def notify_plugin_stored_event_def Let_def split: option.split)

lemma oks_hooks [simp]: "oks cid (run_hooks env now now2 hs stored ev s) = oks cid s"
  by (induction hs arbitrary: s) simp_all

lemma oks_send_ok:
  "oks cid' (snd (on_conn cid (send_ok i ok m) s)) =
     oks cid' s @ (if cid' = cid \<and> fst (on_conn cid (send_ok i ok m) s) = None then [FOk i ok m] else [])"
proof -
  have e: "send_ok i ok m = enqueue (FOk i ok m)" by (simp add: fun_eq_iff send_ok_def)
  show ?thesis
    by (cases "cid' = cid") (simp_all add: e oks_def out_conn_op out_other)
qed

lemma oks_challenge [simp]: "oks cid' (challenge_client env fresh cid s) = oks cid' s"
proof (cases "cid' = cid")
  case True
  show ?thesis
  proof (cases "map_of (w_conns s) cid")
    case (Some c)
    let ?r = "nip42_enqueue_auth_challenge (re_cfg env) fresh c"
    have "outbound (snd ?r) = outbound c \<or> (\<exists>ch. outbound (snd ?r) = outbound c @ [FAuth ch])"
      by (auto simp: nip42_enqueue_auth_challenge_def marshal_relay_auth_def Let_def outbound_def enqueue_def
          nip42_ensure_challenge_def)
    then show ?thesis
      using Some True by (auto simp: challenge_client_def conn_op_def oks_def out_of_def case_prod_unfold Let_def)
  qed (simp add: challenge_client_def conn_op_def)
qed (simp add: challenge_client_def oks_def out_other)

text \<open>What the relay answers an EVENT, as a function of the event and the store alone.\<close>

definition event_verdict :: "'st relay_env \<Rightarrow> validator list \<Rightarrow> int \<Rightarrow> conn \<Rightarrow> event \<Rightarrow> 'st \<Rightarrow> bool \<times> string" where
  "event_verdict env vs now c ev st =
     (case validate_chain env now vs c ev st of
        Some reason \<Rightarrow> (False, reason)
      | None \<Rightarrow>
          if is_ephemeral (ev_kind ev) then (True, [])
          else if isl (so_has_id (re_ops env) (ev_id ev) st) then (False, ''error: cannot check stored event'')
          else if so_has_id (re_ops env) (ev_id ev) st = Inr True then (True, duplicate_message)
          else case so_save (re_ops env) ev st of
            (None, _) \<Rightarrow> (True, [])
          | (Some reason, st') \<Rightarrow>
              if so_has_id (re_ops env) (ev_id ev) st' = Inr True then (True, duplicate_message) else (False, reason))"

lemma conn_op_server [simp]:
  "sv_store (snd (conn_op cid f s)) = sv_store s" "sv_plugin_events (snd (conn_op cid f s)) = sv_plugin_events s"
  "sv_jobs (snd (conn_op cid f s)) = sv_jobs s"
  by (simp_all add: conn_op_def split: option.split prod.split)

lemma challenge_server [simp]:
  "sv_store (challenge_client env fresh cid s) = sv_store s" "w_subs (challenge_client env fresh cid s) = w_subs s"
  "sv_plugin_events (challenge_client env fresh cid s) = sv_plugin_events s"
  "sv_jobs (challenge_client env fresh cid s) = sv_jobs s"
  by (simp_all add: challenge_client_def)

lemma oks_send_ok_of:
  "on_conn cid (send_ok i ok m) s = (err, s') \<Longrightarrow>
   oks cid' s' = oks cid' s @ (if cid' = cid \<and> err = None then [FOk i ok m] else [])"
  using oks_send_ok [of cid' cid i ok m s] by simp

section \<open>Properties\<close>

text \<open>C20: Every EVENT is answered exactly once, and as its verdict says: when the handler succeeds,
  its connection has one more OK frame, for this event, whose value and message are those of
  \<open>event_verdict\<close>; when it fails there is none; and no other connection gets an OK frame, whatever
  the hooks sign, save and broadcast before the answer.\<close>

theorem event_answered_once:
  assumes c: "load_conn cid s = Some c"
    and run: "handle_event env vs hs now now1 now2 fresh cid ev s = (err, s')"
  shows "oks cid' s' = oks cid' s @
    (if cid' = cid \<and> err = None
     then [FOk (ev_id ev) (fst (event_verdict env vs now c ev (sv_store s)))
             (snd (event_verdict env vs now c ev (sv_store s)))]
     else [])"
proof (cases "validate_chain env now vs c ev (sv_store s)")
  case (Some reason)
  then have "on_conn cid (send_ok (ev_id ev) False reason)
      (if has_prefix reason ''auth-required:'' then challenge_client env fresh cid s else s) = (err, s')"
    using run c by (simp add: handle_event_def)
  from oks_send_ok_of [OF this, of cid'] Some show ?thesis by (simp add: event_verdict_def)
next
  case valid: None
  note run' = run [unfolded handle_event_def c valid option.case]
  show ?thesis
  proof (cases "is_ephemeral (ev_kind ev)")
    case True
    obtain e1 s1 where r1: "on_conn cid (send_ok (ev_id ev) True []) s = (e1, s1)" by force
    have "oks cid' s' = oks cid' s1 \<and> err = e1"
      using run' True r1 by (cases e1) (auto)
    then show ?thesis using oks_send_ok_of [OF r1, of cid'] valid True by (simp add: event_verdict_def)
  next
    case stored: False
    show ?thesis
    proof (cases "so_has_id (re_ops env) (ev_id ev) (sv_store s)")
      case (Inl e)
      then have "on_conn cid (send_ok (ev_id ev) False ''error: cannot check stored event'') s = (err, s')"
        using run' stored by simp
      from oks_send_ok_of [OF this, of cid'] Inl valid stored show ?thesis by (simp add: event_verdict_def)
    next
      case (Inr found)
      obtain serr s1 where r1: "save_in env ev s = (serr, s1)" by force
      then have st: "so_save (re_ops env) ev (sv_store s) = (serr, sv_store s1)" and o: "oks cid' s1 = oks cid' s"
        using oks_save [of cid' env ev s] by (auto simp: save_in_def case_prod_unfold Let_def prod_eq_iff)
      consider "found" | "\<not> found" "serr = None" | r where "\<not> found" "serr = Some r"
        by (cases serr) auto
      then show ?thesis
      proof cases
        case 1
        then have "on_conn cid (send_ok (ev_id ev) True duplicate_message) s = (err, s')"
          using run' stored Inr by simp
        from oks_send_ok_of [OF this, of cid'] Inr valid stored 1 show ?thesis by (simp add: event_verdict_def)
      next
        case 2
        then have "on_conn cid (send_ok (ev_id ev) True []) (run_hooks env now1 now2 hs True ev s1) = (err, s')"
          using run' stored Inr r1 by simp
        from oks_send_ok_of [OF this, of cid'] Inr valid stored 2 st o show ?thesis
          by (simp add: event_verdict_def)
      next
        case 3
        let ?dup = "so_has_id (re_ops env) (ev_id ev) (sv_store s1) = Inr True"
        have "on_conn cid (send_ok (ev_id ev) ?dup (if ?dup then duplicate_message else r)) s1 = (err, s')"
          using run' stored Inr r1 3 by (simp split: if_splits)
        from oks_send_ok_of [OF this, of cid'] Inr valid stored 3 st o show ?thesis
          by (simp add: event_verdict_def)
      qed
    qed
  qed
qed

lemma refused_event_no_trace:
  assumes c: "load_conn cid s = Some c"
    and "validate_chain env now vs c ev (sv_store s) \<noteq> None \<or>
      (\<not> is_ephemeral (ev_kind ev) \<and> so_has_id (re_ops env) (ev_id ev) (sv_store s) \<noteq> Inr False)"
    and run: "handle_event env vs hs now now1 now2 fresh cid ev s = (err, s')"
  shows "sv_store s' = sv_store s \<and> w_subs s' = w_subs s \<and> sv_plugin_events s' = sv_plugin_events s \<and>
    (cid' \<noteq> cid \<longrightarrow> out_of cid' s' = out_of cid' s)"
proof -
  have s': "s' = snd (handle_event env vs hs now now1 now2 fresh cid ev s)" using run by simp
  let ?s1 = "\<lambda>reason. if has_prefix reason ''auth-required:'' then challenge_client env fresh cid s else s"
  obtain i ok m s1 where s1: "s' = snd (on_conn cid (send_ok i ok m) s1)" "s1 = s \<or> s1 = challenge_client env fresh cid s"
  proof (cases "validate_chain env now vs c ev (sv_store s)")
    case (Some reason)
    then have "s' = snd (on_conn cid (send_ok (ev_id ev) False reason) (?s1 reason))"
      using c by (simp add: s' handle_event_def)
    then show thesis by (rule that) simp
  next
    case None
    then have d: "\<not> is_ephemeral (ev_kind ev)" "so_has_id (re_ops env) (ev_id ev) (sv_store s) \<noteq> Inr False"
      using assms(2) by auto
    show thesis
    proof (cases "so_has_id (re_ops env) (ev_id ev) (sv_store s)")
      case (Inl e)
      then have "s' = snd (on_conn cid (send_ok (ev_id ev) False ''error: cannot check stored event'') s)"
        using c None d by (simp add: s' handle_event_def)
      then show thesis by (rule that) simp
    next
      case (Inr found)
      then have "s' = snd (on_conn cid (send_ok (ev_id ev) True duplicate_message) s)"
        using c None d by (simp add: s' handle_event_def)
      then show thesis by (rule that) simp
    qed
  qed
  from s1(2) show ?thesis unfolding s1(1) by (auto simp: out_other challenge_client_def)
qed

lemma send_ok_effect:
  assumes "load_conn cid s = Some c"
  obtains os where "snd (on_conn cid (send_ok i ok m) s) = s\<lparr>w_conns := AList.update cid (c\<lparr>cn_send := cn_send c @ os\<rparr>) (w_conns s)\<rparr>"
    "os \<in> {[], [FOk i ok m]}"
proof (cases rule: enqueue_cases [of c "FOk i ok m"])
  case sent
  then show thesis
    using assms that [of "[FOk i ok m]"] by (simp add: conn_op_def load_conn_def send_ok_def)
next
  case (failed e)
  then show thesis
    using assms that [of "[]"] by (simp add: conn_op_def load_conn_def send_ok_def)
qed

lemma challenge_effect:
  assumes "load_conn cid s = Some c"
  obtains as ch asked where "challenge_client env fresh cid s =
      s\<lparr>w_conns := AList.update cid (c\<lparr>cn_send := cn_send c @ as, cn_challenge := ch, cn_auth_sent := asked\<rparr>) (w_conns s)\<rparr>"
    "as \<in> {[], [FAuth ch]}"
proof -
  let ?r = "nip42_enqueue_auth_challenge (re_cfg env) fresh c"
  have run: "challenge_client env fresh cid s = s\<lparr>w_conns := AList.update cid (snd ?r) (w_conns s)\<rparr>"
    using assms by (simp add: challenge_client_def conn_op_def load_conn_def case_prod_unfold Let_def)
  have "\<exists>as ch asked. snd ?r = c\<lparr>cn_send := cn_send c @ as, cn_challenge := ch, cn_auth_sent := asked\<rparr> \<and> as \<in> {[], [FAuth ch]}"
  proof (cases "\<not> relay_nip42_enabled (re_cfg env) \<or> cn_auth_sent c")
    case True
    then have "snd ?r = c" by (auto simp: nip42_enqueue_auth_challenge_def)
    then show ?thesis
      by (intro exI [of _ "[]"] exI [of _ "cn_challenge c"] exI [of _ "cn_auth_sent c"]) simp
  next
    case False
    let ?c = "(nip42_ensure_challenge fresh c)\<lparr>cn_auth_sent := True\<rparr>"
    let ?ch = "cn_challenge (nip42_ensure_challenge fresh c)"
    have c: "?c = c\<lparr>cn_challenge := ?ch, cn_auth_sent := True\<rparr>"
      by (simp add: nip42_ensure_challenge_def)
    have "snd ?r = ?c \<or> snd ?r = ?c\<lparr>cn_send := cn_send c @ [FAuth ?ch]\<rparr>"
      using False by (simp add: nip42_enqueue_auth_challenge_def marshal_relay_auth_def enqueue_def
          nip42_ensure_challenge_def Let_def)
    then show ?thesis
    proof
      assume "snd ?r = ?c"
      then show ?thesis unfolding c by (intro exI [of _ "[]"] exI [of _ ?ch] exI [of _ True]) simp
    next
      assume "snd ?r = ?c\<lparr>cn_send := cn_send c @ [FAuth ?ch]\<rparr>"
      then show ?thesis unfolding c by (intro exI [of _ "[FAuth ?ch]"] exI [of _ ?ch] exI [of _ True]) simp
    qed
  qed
  then show thesis using that unfolding run by metis
qed

text \<open>A failed save leaves the tables as they were, so every refusal ends in the one answer.\<close>

lemma refused_event_answer:
  fixes s :: "event_db server"
  assumes c: "load_conn cid s = Some c" and ops: "re_ops env = sql_store senv"
    and v: "event_verdict env vs now c ev (sv_store s) = (ok, reason)" "(ok, reason) \<noteq> (True, [])"
  shows "snd (handle_event env vs hs now now1 now2 fresh cid ev s) = snd (on_conn cid (send_ok (ev_id ev) ok reason)
    (if validate_chain env now vs c ev (sv_store s) \<noteq> None \<and> has_prefix reason ''auth-required:''
     then challenge_client env fresh cid s else s))"
proof (cases "validate_chain env now vs c ev (sv_store s)")
  case (Some r)
  then show ?thesis using c v by (auto simp: event_verdict_def handle_event_def)
next
  case None
  then have d: "\<not> is_ephemeral (ev_kind ev)" using v by (auto simp: event_verdict_def)
  show ?thesis
  proof (cases "so_has_id (re_ops env) (ev_id ev) (sv_store s)")
    case (Inl e)
    then show ?thesis using c v None d by (auto simp: event_verdict_def handle_event_def)
  next
    case (Inr found)
    show ?thesis
    proof (cases found)
      case True
      then show ?thesis using c v None d Inr by (auto simp: event_verdict_def handle_event_def)
    next
      case False
      obtain r st where save: "so_save (re_ops env) ev (sv_store s) = (Some r, st)"
        using v None d Inr False by (cases "so_save (re_ops env) ev (sv_store s)") (auto simp: event_verdict_def split: option.splits)
      then have st: "st = sv_store s" by (auto simp: ops sql_store_def save_event_def split: if_splits sum.splits)
      have "save_in env ev s = (Some r, s)" using save st by (simp add: save_in_def)
      then show ?thesis using c v None d Inr False save st by (auto simp: event_verdict_def handle_event_def)
    qed
  qed
qed

text \<open>C25: A refused or repeated event leaves no trace: whatever the reason (a validator, a failed
  lookup, a stored id, a failed save), the whole server is as before, its store, subscriptions,
  page jobs, plugins, sessions, counters and every other connection, except that the sender's queue
  may get one OK with the verdict; only a refusal that asks for authentication may also queue a
  challenge before it and record it as issued.\<close>

theorem refused_event_leaves_no_trace:
  fixes s :: "event_db server"
  assumes "load_conn cid s = Some c" and "re_ops env = sql_store senv"
    and "event_verdict env vs now c ev (sv_store s) = (ok, reason)" and "(ok, reason) \<noteq> (True, [])"
    and "handle_event env vs hs now now1 now2 fresh cid ev s = (err, s')"
  shows "\<exists>challenged answered ch asked.
    s' = s\<lparr>w_conns := AList.update cid (c\<lparr>cn_send := cn_send c @ challenged @ answered, cn_challenge := ch,
      cn_auth_sent := asked\<rparr>) (w_conns s)\<rparr> \<and>
    challenged \<in> {[], [FAuth ch]} \<and> answered \<in> {[], [FOk (ev_id ev) ok reason]} \<and>
    (\<not> has_prefix reason ''auth-required:'' \<longrightarrow> challenged = [] \<and> ch = cn_challenge c \<and> asked = cn_auth_sent c)"
proof (cases "validate_chain env now vs c ev (sv_store s) \<noteq> None \<and> has_prefix reason ''auth-required:''")
  case True
  obtain as ch asked where ch: "challenge_client env fresh cid s = s\<lparr>w_conns := AList.update cid
      (c\<lparr>cn_send := cn_send c @ as, cn_challenge := ch, cn_auth_sent := asked\<rparr>) (w_conns s)\<rparr>" "as \<in> {[], [FAuth ch]}"
    using challenge_effect [OF assms(1)] .
  let ?c = "c\<lparr>cn_send := cn_send c @ as, cn_challenge := ch, cn_auth_sent := asked\<rparr>"
  have "load_conn cid (challenge_client env fresh cid s) = Some ?c" by (simp add: ch(1) load_conn_def)
  from send_ok_effect [OF this, of "ev_id ev" ok reason] obtain os where os:
    "snd (on_conn cid (send_ok (ev_id ev) ok reason) (challenge_client env fresh cid s)) =
      challenge_client env fresh cid s\<lparr>w_conns := AList.update cid (?c\<lparr>cn_send := cn_send ?c @ os\<rparr>)
        (w_conns (challenge_client env fresh cid s))\<rparr>"
    "os \<in> {[], [FOk (ev_id ev) ok reason]}" .
  have "s' = snd (on_conn cid (send_ok (ev_id ev) ok reason) (challenge_client env fresh cid s))"
    using refused_event_answer [OF assms(1-4), of hs now1 now2 fresh] True assms(5) by simp
  then have s': "s' = challenge_client env fresh cid s\<lparr>w_conns := AList.update cid (?c\<lparr>cn_send := cn_send ?c @ os\<rparr>)
      (w_conns (challenge_client env fresh cid s))\<rparr>" using os(1) by simp
  have c: "?c\<lparr>cn_send := cn_send ?c @ os\<rparr> =
      c\<lparr>cn_send := cn_send c @ as @ os, cn_challenge := ch, cn_auth_sent := asked\<rparr>" by (cases c) simp
  have run: "s' = s\<lparr>w_conns := AList.update cid (c\<lparr>cn_send := cn_send c @ as @ os, cn_challenge := ch,
      cn_auth_sent := asked\<rparr>) (w_conns s)\<rparr>" unfolding s' c ch(1) by simp
  show ?thesis
    by (rule exI [of _ as], rule exI [of _ os], rule exI [of _ ch], rule exI [of _ asked])
      (intro conjI, rule run, rule ch(2), rule os(2), use True in simp)
next
  case False
  obtain os where os: "snd (on_conn cid (send_ok (ev_id ev) ok reason) s) =
      s\<lparr>w_conns := AList.update cid (c\<lparr>cn_send := cn_send c @ os\<rparr>) (w_conns s)\<rparr>"
    "os \<in> {[], [FOk (ev_id ev) ok reason]}"
    using send_ok_effect [OF assms(1), of "ev_id ev" ok reason] .
  have "s' = snd (on_conn cid (send_ok (ev_id ev) ok reason) s)"
    using refused_event_answer [OF assms(1-4), of hs now1 now2 fresh, unfolded if_not_P [OF False]] assms(5) by simp
  note s' = this [unfolded os(1)]
  have "c\<lparr>cn_send := cn_send c @ os\<rparr> = c\<lparr>cn_send := cn_send c @ [] @ os, cn_challenge := cn_challenge c,
      cn_auth_sent := cn_auth_sent c\<rparr>" by simp
  note run = s' [unfolded this]
  show ?thesis
    by (rule exI [of _ "[]"], rule exI [of _ os], rule exI [of _ "cn_challenge c"], rule exI [of _ "cn_auth_sent c"])
      (intro conjI, rule run, simp, rule os(2), simp)
qed

section \<open>Which subscriptions a REQ opens\<close>

lemma keeps_note [simp]: "keeps_subs s (note_sub_count now cid s)"
  by (simp add: note_sub_count_def)

lemma snd_eqD: "p = (a, b) \<Longrightarrow> b = snd p"
  by simp

text \<open>The filters a connection may subscribe with.\<close>

definition filters_allowed :: "'st relay_env \<Rightarrow> conn \<Rightarrow> filter list \<Rightarrow> bool" where
  "filters_allowed env c filters \<longleftrightarrow> validate_nip17_req (re_cfg env) c filters = None \<and>
     (subscribe_auth_required (re_cfg env) filters \<longrightarrow> nip42_has_any_auth c)"

definition opens_allowed :: "'st relay_env \<Rightarrow> conn \<Rightarrow> 'a wire_scheme \<Rightarrow> 'a wire_scheme \<Rightarrow> bool" where
  "opens_allowed env c w w' \<longleftrightarrow> (\<forall>cid sid e'. sub_lookup cid sid w' = Some e' \<longrightarrow>
     filters_allowed env c (se_filters e') \<or> (\<exists>e. sub_lookup cid sid w = Some e \<and> se_filters e' = se_filters e))"

lemma keeps_opens: "keeps_subs w w' \<Longrightarrow> opens_allowed env c w w'"
  by (auto simp: keeps_subs_def opens_allowed_def)

lemma opens_then_keeps: "opens_allowed env c w w' \<Longrightarrow> keeps_subs w' w'' \<Longrightarrow> opens_allowed env c w w''"
  unfolding keeps_subs_def opens_allowed_def by (metis (no_types))

lemma sub_add_opens:
  "sub_add now cid sid fs w = (None, w') \<Longrightarrow> filters_allowed env c fs \<Longrightarrow> opens_allowed env c w w'"
  by (auto simp: opens_allowed_def sub_add_accepted(1) new_sub_entry_def split: if_splits)

lemma sub_add_refused_keeps: "sub_add now cid sid fs w = (Some err, w') \<Longrightarrow> keeps_subs w w'"
  by (auto simp: keeps_subs_def sub_add_refused(1))

lemma req_gate_None:
  "req_gate env fresh first cid sid fs s = None \<Longrightarrow> load_conn cid s = Some c \<Longrightarrow> filters_allowed env c fs"
  by (auto simp: req_gate_def filters_allowed_def split: option.splits if_splits)

lemma req_gate_Some: "req_gate env fresh first cid sid fs s = Some r \<Longrightarrow> keeps_subs s (snd r)"
  by (auto simp: req_gate_def keeps_same split: option.splits if_splits)

text \<open>How a REQ runs, for any relation its pieces satisfy: it is answered with CLOSED and opens
  nothing, or opens the subscription and then only works on it.\<close>

definition req_path :: "('st server \<Rightarrow> 'st server \<Rightarrow> bool) \<Rightarrow> int \<Rightarrow> string \<Rightarrow> string \<Rightarrow> filter list \<Rightarrow>
    'st server \<Rightarrow> 'st server \<Rightarrow> bool" where
  "req_path R now cid sid filters s s' \<longleftrightarrow>
     (\<exists>m s0. (s0 = s \<or> (\<exists>e. sub_add now cid sid filters s = (Some e, s0))) \<and>
        s' = snd (on_conn cid (send_closed sid m) s0)) \<or>
     (\<exists>s1. sub_add now cid sid filters s = (None, s1) \<and> R s1 s')"

lemma req_path_refused:
  "s0 = s \<or> (\<exists>e. sub_add now cid sid filters s = (Some e, s0)) \<Longrightarrow>
   req_path R now cid sid filters s (snd (on_conn cid (send_closed sid m) s0))"
  unfolding req_path_def by blast

lemma req_path_opened: "sub_add now cid sid filters s = (None, s1) \<Longrightarrow> R s1 s' \<Longrightarrow> req_path R now cid sid filters s s'"
  unfolding req_path_def by blast

lemma handle_req_query_path:
  assumes rel: "wire_relation R" and jobs: "\<And>s j. R s (s\<lparr>sv_jobs := j\<rparr>)"
    and query: "handle_req_query env fuel now search cid sid filters s = Some (err, s')"
  shows "req_path R now cid sid filters s s'"
proof (cases "list_ex has_search filters \<and> \<not> search")
  case True
  then have "s' = snd (on_conn cid (send_closed sid
      ''search filter is not supported (enable NIP-50 in nips.enabled and restart)'') s)"
    using query by (simp add: handle_req_query_def prod_eq_iff)
  then show ?thesis using req_path_refused by blast
next
  case search: False
  obtain aerr s1 where add: "sub_add now cid sid filters s = (aerr, s1)" by force
  note run = query [unfolded handle_req_query_def if_not_P [OF search] add]
  show ?thesis
  proof (cases aerr)
    case (Some e)
    then have "s' = snd (on_conn cid (send_closed sid (req_add_error e)) s1)" by (intro snd_eqD [of _ err]) (use run in simp)
    then show ?thesis using req_path_refused add Some by blast
  next
    case None
    let ?gen = "fst (sub_generation cid sid s1)" and ?s2 = "note_sub_count now cid s1"
    let ?page = "effective_query_page_size (query_page_size (connection_limits (re_cfg env)))"
    let ?q = "new_req_query_state filters
      (effective_req_default_query_limit (default_query_limit (connection_limits (re_cfg env)))) search"
    note trans = wire_relation.R_trans [OF rel]
    have o2: "R s1 ?s2" unfolding note_sub_count_def by (rule wire_relation.R_conn_op [OF rel]) simp
    have finished: "R s1 (snd (complete_snapshot False cid sid ?gen w))" if "R s1 w" for w
      by (rule trans [OF that wire_relation.complete [OF rel]])
    have "R s1 s'"
    proof (cases "fetch_req_page (re_ops env) (sv_store ?s2) ?q ?page")
      case (Inl e)
      then have "s' = snd (close_snapshot_on_query_error cid sid ?gen ?s2)"
        by (intro snd_eqD [of _ err]) (use run None in \<open>simp add: Let_def\<close>)
      then show ?thesis using trans [OF o2 wire_relation.close_error [OF rel]] by simp
    next
      case (Inr x)
      obtain evs more q where x: "x = ((evs, more), q)" by (cases x) auto
      obtain sent s3 where r: "send_snapshot_events False (sees env) cid sid ?gen evs ?s2 = (sent, s3)" by force
      have o3: "R s1 s3"
        using trans [OF o2 wire_relation.send_events [OF rel, of ?s2 False "sees env" cid sid ?gen evs]] r by simp
      note run' = run [unfolded None Let_def, simplified, unfolded Inr x, simplified, unfolded r, simplified]
      show ?thesis
      proof (cases "sent \<and> more")
        case False
        then show ?thesis using run' o3 finished [OF o3] by (auto split: if_splits)
      next
        case True
        obtain queued jobs where q: "rq_enqueue \<lparr>rj_conn_id = cid, rj_sub_id = sid, rj_generation = ?gen, rj_state = q,
            rj_search_enabled = search, rj_page_size = ?page\<rparr> (sv_jobs s3) = (queued, jobs)" by force
        show ?thesis
        proof (cases queued)
          case True
          then have "s' = s3\<lparr>sv_jobs := jobs\<rparr>" using run' \<open>sent \<and> more\<close> q by simp
          then show ?thesis using trans [OF o3 jobs] by simp
        next
          case False
          obtain b s4 where d: "drain_remaining_pages fuel (re_ops env) (sv_store s3) False (sees env) cid sid q
              ?page ?gen s3 = Some (b, s4)"
            using run' \<open>sent \<and> more\<close> q False by (auto split: option.splits)
          have o4: "R s1 s4" by (rule trans [OF o3 wire_relation.drain [OF rel d]])
          show ?thesis
            using run' \<open>sent \<and> more\<close> q False d o4 finished [OF o4] by (cases b) auto
        qed
      qed
    qed
    then show ?thesis using req_path_opened add None by blast
  qed
qed

lemma handle_req_respond_path:
  assumes rel: "wire_relation R"
    and run: "handle_req_respond env fresh now cid sid filters ires s = (err, s')"
    and fs: "fs = (if length (ir_subscription_filters ires) > 0 then ir_subscription_filters ires else filters)"
  shows "req_gate env fresh False cid sid fs s = Some (err, s') \<or>
    (req_gate env fresh False cid sid fs s = None \<and> req_path R now cid sid fs s s')"
proof (cases "req_gate env fresh False cid sid fs s")
  case (Some r)
  then show ?thesis using run by (simp add: handle_req_respond_def Let_def fs)
next
  case gate: None
  obtain aerr s1 where add: "sub_add now cid sid fs s = (aerr, s1)" by force
  note run' = run [unfolded handle_req_respond_def Let_def, folded fs, unfolded gate add option.case]
  have "req_path R now cid sid fs s s'"
  proof (cases aerr)
    case (Some e)
    then have "s' = snd (on_conn cid (send_closed sid (req_add_error e)) s1)"
      by (intro snd_eqD [of _ err]) (use run' in simp)
    then show ?thesis using req_path_refused add Some by blast
  next
    case None
    let ?gen = "fst (sub_generation cid sid s1)" and ?s2 = "note_sub_count now cid s1"
    note trans = wire_relation.R_trans [OF rel]
    have o2: "R s1 ?s2" unfolding note_sub_count_def by (rule wire_relation.R_conn_op [OF rel]) simp
    have "R s1 s'"
    proof (cases "get_events_by_ids (re_ops env) (ir_event_ids ires) (sv_store ?s2)")
      case (Inl e)
      then have "s' = snd (close_snapshot_on_query_error cid sid ?gen ?s2)"
        by (intro snd_eqD [of _ err]) (use run' None in \<open>simp add: Let_def\<close>)
      then show ?thesis using trans [OF o2 wire_relation.close_error [OF rel]] by simp
    next
      case (Inr evs)
      obtain sent s3 where r: "send_snapshot_events False (sees env) cid sid ?gen evs ?s2 = (sent, s3)" by force
      have o3: "R s1 s3"
        using trans [OF o2 wire_relation.send_events [OF rel, of ?s2 False "sees env" cid sid ?gen evs]] r by simp
      have "s' = s3 \<or> s' = snd (complete_snapshot False cid sid ?gen s3)"
        using run' None Inr r by (cases sent) (auto simp: Let_def intro: snd_eqD [of _ err])
      then show ?thesis using o3 trans [OF o3 wire_relation.complete [OF rel]] by blast
    qed
    then show ?thesis using req_path_opened add None by blast
  qed
  with gate show ?thesis by blast
qed

text \<open>A whole REQ: refused at a gate, or run with filters that passed the gate.\<close>

lemma handle_req_path:
  assumes rel: "wire_relation R" and jobs: "\<And>s j. R s (s\<lparr>sv_jobs := j\<rparr>)"
    and req: "handle_req env fuel fresh now search cid sid filters s = Some (err, s')"
  shows "\<exists>fs first. req_gate env fresh first cid sid fs s = Some (err, s') \<or>
    (req_gate env fresh first cid sid fs s = None \<and> req_path R now cid sid fs s s')"
proof (cases "req_gate env fresh True cid sid filters s")
  case (Some r)
  then show ?thesis using req by (intro exI [of _ filters] exI [of _ True]) (simp add: handle_req_def)
next
  case gate: None
  note query = handle_req_query_path [OF rel jobs, of env fuel now search cid sid _ s err s']
  note run = req [unfolded handle_req_def gate Let_def, simplified]
  show ?thesis
  proof (cases "re_intercept env")
    case None
    then have "req_path R now cid sid filters s s'" using run query by simp
    then show ?thesis using gate by blast
  next
    case (Some intercept)
    let ?ires = "intercept sid filters"
    show ?thesis
    proof (cases "ir_action ?ires = InterceptRespond")
      case True
      then have "handle_req_respond env fresh now cid sid filters ?ires s = (err, s')" using run Some by simp
      from handle_req_respond_path [OF rel this refl] show ?thesis by blast
    next
      case False
      let ?reshaped = "ir_action ?ires = InterceptReshapeREQ \<and> length (ir_filters ?ires) > 0"
      show ?thesis
      proof (cases ?reshaped)
        case True
        show ?thesis
        proof (cases "req_gate env fresh False cid sid (ir_filters ?ires) s")
          case (Some r)
          then have "req_gate env fresh False cid sid (ir_filters ?ires) s = Some (err, s')"
            using run True \<open>re_intercept env = Some intercept\<close> by simp
          then show ?thesis by blast
        next
          case None
          then have "req_path R now cid sid (ir_filters ?ires) s s'"
            using run True \<open>re_intercept env = Some intercept\<close> query by simp
          then show ?thesis using None by blast
        qed
      next
        case plain: False
        then have "handle_req_query env fuel now search cid sid filters s = Some (err, s')"
          using run Some False by (cases "ir_action ?ires") auto
        then show ?thesis using gate query by blast
      qed
    qed
  qed
qed

lemma req_path_opens:
  assumes "req_path keeps_subs now cid sid fs s s'" and "filters_allowed env c fs"
  shows "opens_allowed env c s s'"
proof -
  consider m s0 where "s0 = s \<or> (\<exists>e. sub_add now cid sid fs s = (Some e, s0))"
      "s' = snd (on_conn cid (send_closed sid m) s0)"
    | s1 where "sub_add now cid sid fs s = (None, s1)" "keeps_subs s1 s'"
    using assms(1) unfolding req_path_def by blast
  then show ?thesis
  proof cases
    case 1
    then have "keeps_subs s s0" using sub_add_refused_keeps by auto
    then show ?thesis unfolding 1(2) by (rule keeps_opens [OF keeps_trans [OF _ keeps_conn_op]])
  next
    case 2
    then show ?thesis using opens_then_keeps [OF sub_add_opens] assms(2) by blast
  qed
qed

text \<open>C22: No way around the subscription policy: whatever a plugin does to a REQ - pass it, rewrite its
  filters or answer it with events and subscription filters of its own - every subscription the
  request leaves open either has filters the NIP-17 and NIP-42 checks allow this connection, or
  was open with the same filters before.\<close>

theorem plugins_cannot_bypass_req_policy:
  assumes "load_conn cid s = Some c" and "handle_req env fuel fresh now search cid sid filters s = Some (err, s')"
    and "sub_lookup cid' sid' s' = Some e'"
  shows "(validate_nip17_req (re_cfg env) c (se_filters e') = None \<and>
      (subscribe_auth_required (re_cfg env) (se_filters e') \<longrightarrow> nip42_has_any_auth c)) \<or>
    (\<exists>e. sub_lookup cid' sid' s = Some e \<and> se_filters e' = se_filters e)"
proof -
  have rel: "wire_relation keeps_subs" and jobs: "keeps_subs s (s\<lparr>sv_jobs := j\<rparr>)" for s :: "'a server" and j
    by (rule keeps.wire_relation_axioms) (simp add: keeps_same)
  obtain fs first where "req_gate env fresh first cid sid fs s = Some (err, s') \<or>
      (req_gate env fresh first cid sid fs s = None \<and> req_path keeps_subs now cid sid fs s s')"
    using handle_req_path [OF rel jobs assms(2)] by blast
  then have "opens_allowed env c s s'"
  proof (elim disjE conjE)
    assume "req_gate env fresh first cid sid fs s = Some (err, s')"
    from req_gate_Some [OF this] show ?thesis by (simp add: keeps_opens)
  next
    assume gate: "req_gate env fresh first cid sid fs s = None" and path: "req_path keeps_subs now cid sid fs s s'"
    show ?thesis by (rule req_path_opens [OF path req_gate_None [OF gate assms(1)]])
  qed
  with assms(3) show ?thesis unfolding opens_allowed_def filters_allowed_def by blast
qed

text \<open>Authentication events stay between the client and the relay: one sent as an EVENT is never
  stored and never reaches another connection or a subscription, whatever hooks are registered.\<close>

theorem auth_events_not_forwarded:
  assumes c: "load_conn cid s = Some c" and kind: "ev_kind ev = 22242"
    and run: "handle_event env vs hs now now1 now2 fresh cid ev s = (err, s')"
  shows "sv_store s' = sv_store s \<and> w_subs s' = w_subs s \<and> (cid' \<noteq> cid \<longrightarrow> out_of cid' s' = out_of cid' s)"
proof (cases "validate_chain env now vs c ev (sv_store s)")
  case (Some reason)
  then show ?thesis using refused_event_no_trace [OF c _ run, of cid'] by simp
next
  case None
  have hook: "sv_store (run_hooks env now1 now2 hs False ev t) = sv_store t \<and>
      w_subs (run_hooks env now1 now2 hs False ev t) = w_subs t \<and>
      w_conns (run_hooks env now1 now2 hs False ev t) = w_conns t" for t
  proof (induction hs arbitrary: t)
    case (Cons h hs)
    have "sv_store (run_hook env now1 now2 h False ev t) = sv_store t \<and>
        w_subs (run_hook env now1 now2 h False ev t) = w_subs t \<and> w_conns (run_hook env now1 now2 h False ev t) = w_conns t"
      using kind
      by (cases h) (simp_all add: nip29_post_store_hook_def notify_plugin_stored_event_def nip42_auth_event_kind_def)
    then show ?case using Cons.IH [of "run_hook env now1 now2 h False ev t"] by simp
  qed simp
  have eph: "is_ephemeral (ev_kind ev)" by (simp add: kind is_ephemeral_def classify_kind_def)
  obtain e1 s1 where r: "on_conn cid (send_ok (ev_id ev) True []) s = (e1, s1)" by force
  have s1: "s1 = snd (on_conn cid (send_ok (ev_id ev) True []) s)" using r by simp
  have "s' = s1 \<or> s' = run_hooks env now1 now2 hs False ev s1"
    using run c None eph r by (cases e1) (auto simp: handle_event_def)
  then have "sv_store s' = sv_store s1" "w_subs s' = w_subs s1" "w_conns s' = w_conns s1" using hook [of s1] by auto
  then show ?thesis using out_of_cong [of s' s1 cid'] by (simp add: s1 out_other)
qed

definition demo_server :: "event_db server" where
  "demo_server = \<lparr>w_subs = w_subs (ws_wire demo_open), w_conns = [(''c1'', sample_conn)], sv_store = empty_db,
     sv_hub = new_hub, sv_ip_open = [], sv_open = 1, sv_shutting_down = False, sv_jobs = [],
     sv_plugin_events = [], sv_observed = [], sv_neg_jobs = [], sv_neg_active = 0, sv_neg_slots = 2, sv_neg_next = 0\<rparr>"

lemma demo_server_conn: "load_conn ''c1'' demo_server = Some sample_conn"
  by (simp add: load_conn_def demo_server_def)

lemma demo_server_oks: "oks ''c1'' demo_server = []"
  by (simp add: oks_def out_of_def demo_server_def outbound_def sample_conn_def new_conn_def)

section \<open>Snapshots under the relay's own visibility check\<close>

lemma server_store_more: "wire.more s' = wire.more s \<Longrightarrow> sv_store s' = sv_store (s :: 'st server)"
  by (cases s; cases s') simp

text \<open>The check reads the store and the keys of the connection, which sending stored events leaves
  alone.\<close>

lemma sees_stable: "stable_check (sees env) cid s"
proof -
  have "sees env cid ev s' = sees env cid ev s" if d: "delivers_only cid s s'" for s' ev
  proof -
    obtain c q where c: "load_conn cid s = Some c" "load_conn cid s' = Some (c\<lparr>cn_send := q\<rparr>)"
      using d by (auto simp: delivers_only_def load_conn_def)
    have "sv_store s' = sv_store s" using d by (intro server_store_more) (simp add: delivers_only_def)
    then show ?thesis
      by (cases "re_relay_id env"; cases "sole_gift_wrap_recipient ev";
          cases "so_metadata (re_ops env) (the (re_relay_id env)) (nip29_group_h_tag ev) (sv_store s)")
        (simp_all add: event_visible_to_subscription_def event_visible_def nip17_gift_wrap_visible_def c Let_def
          nip42_current_auth_pubkey_def nip42_authed_pubkeys_def)
  qed
  then show ?thesis by (simp add: stable_check_def)
qed

text \<open>C4: A client that keeps up receives its whole snapshot: with one filter over an unchanged store,
  on a connection whose queue has room, the reader queue's loop ends, with the stated fuel, and
  leaves on the connection the matches newest first, cut at the filter's limit, less those the
  relay's visibility check withholds from this connection (gift wraps for others, private groups),
  then EOSE, then every live event that arrived meanwhile, with nothing lost, repeated or
  reordered. The connection's authentication does not change while the snapshot is sent.\<close>

theorem snapshot_delivered_in_full:
  fixes s :: "event_db server"
  assumes "re_ops env = sql_store senv" and "db_valid (sv_store s)" and "0 < page_size" and "\<not> has_search f"
    and "f_cursor f = None" and "Suc (length (db_events (sv_store s))) < n"
    and "at_subscription cid sid gen pend s" and "query_events senv [f] (sv_store s) = Inr evs"
    and "room_for (length evs + Suc (length pend)) cid s"
  shows "\<exists>s1 s2. drain_remaining_pages n (re_ops env) (sv_store s) False (sees env) cid sid
      (new_req_query_state [f] 0 se) page_size gen s = Some (True, s1) \<and>
    complete_snapshot False cid sid gen s1 = (None, s2) \<and>
    out_of cid s2 = out_of cid s @
      map (FEvent sid) (List.filter (\<lambda>ev. sees env cid ev s) evs) @ FEose sid # pend \<and>
    (\<exists>e. sub_lookup cid sid s2 = Some e \<and> se_snapshot_done e \<and> se_pending_live e = [])"
  using snapshot_delivered [OF assms(2-6) sees_stable assms(7-9), of env se] unfolding assms(1) .

definition wrap_server :: "event_db server" where
  "wrap_server = demo_server\<lparr>w_conns := [(''c1'', nip42_add_pubkey wrap_key sample_conn)],
     sv_store := \<lparr>db_events = map event_to_row [wrap_event, sample_event ''x'' 4 1059 [], demo_ev ''a''],
       db_tags = tag_rows wrap_event, db_notified = []\<rparr>\<rparr>"

theorem snapshot_delivered_in_full_witness:
  "\<exists>s1 s2. drain_remaining_pages 5 (re_ops demo_env) (sv_store wrap_server) False (sees demo_env) ''c1'' ''s''
      (new_req_query_state [empty_filter] 0 False) 1 1 wrap_server = Some (True, s1) \<and>
    complete_snapshot False ''c1'' ''s'' 1 s1 = (None, s2) \<and>
    out_of ''c1'' s2 = [FEvent ''s'' (demo_ev ''a''), FEvent ''s'' wrap_event, FEose ''s'']"
proof -
  let ?es = "[wrap_event, sample_event ''x'' 4 1059 [], demo_ev ''a'']"
  let ?out = "[demo_ev ''a'', wrap_event, sample_event ''x'' 4 1059 []]"
  have "represents (sv_store wrap_server) ?es"
    by (simp add: represents_def wrap_server_def demo_ev_def wrap_event_def tag_rows_def sample_event_def)
  then have valid: "db_valid (sv_store wrap_server)" unfolding db_valid_def by blast
  have at: "at_subscription ''c1'' ''s'' 1 [] wrap_server"
    by (simp add: at_subscription_def wrap_server_def demo_server_def demo_open_def has_sender_def sub_lookup_def conn_subs_def
        new_sub_entry_def nip42_add_pubkey_def sample_conn_def new_conn_def)
  have q: "query_events plain_env [empty_filter] (sv_store wrap_server) = Inr ?out" by code_simp
  have room: "room_for (length ?out + Suc (length ([] :: frame list))) ''c1'' wrap_server"
    by (simp add: room_for_def wrap_server_def nip42_add_pubkey_def sample_conn_def new_conn_def send_queue_cap_def)
  have ops: "re_ops demo_env = sql_store plain_env" by (simp add: demo_env_def)
  have "List.filter (\<lambda>ev. sees demo_env ''c1'' ev wrap_server) ?out = [demo_ev ''a'', wrap_event]" by code_simp
  moreover have "out_of ''c1'' wrap_server = []"
    by (simp add: out_of_def wrap_server_def outbound_def nip42_add_pubkey_def sample_conn_def new_conn_def)
  moreover have "\<not> has_search empty_filter" "f_cursor empty_filter = None"
    "Suc (length (db_events (sv_store wrap_server))) < 5"
    by (simp_all add: wrap_server_def empty_filter_def has_search_def ptr_str_def)
  ultimately show ?thesis
    using snapshot_delivered_in_full [OF ops valid _ _ _ _ at q room, of 1 5 False] by auto
qed

theorem event_answered_once_witness:
  "oks ''c1'' (snd (handle_event demo_env [VNip17Published] [HPluginOnStored, HNip01Broadcast] 0 0 0 ''x'' ''c1''
     (demo_ev ''a'') demo_server)) = [FOk ''a'' True []]"
proof -
  let ?r = "handle_event demo_env [VNip17Published] [HPluginOnStored, HNip01Broadcast] 0 0 0 ''x'' ''c1''
     (demo_ev ''a'') demo_server"
  have "fst ?r = None" by code_simp
  then obtain s' where r: "?r = (None, s')" by (metis prod.collapse)
  have "event_verdict demo_env [VNip17Published] 0 sample_conn (demo_ev ''a'') (sv_store demo_server) = (True, [])"
    by code_simp
  with event_answered_once [OF demo_server_conn r, of "''c1''"] have "oks ''c1'' s' = [FOk (ev_id (demo_ev ''a'')) True []]"
    by (simp add: demo_server_oks)
  then show ?thesis unfolding r by (simp add: demo_ev_def sample_event_def)
qed

theorem refused_event_leaves_no_trace_witness:
  "\<exists>c'. snd (handle_event demo_env [VNip17Published] [HNip01Broadcast] 0 0 0 ''x'' ''c1''
     (sample_event ''g'' 5 13 [[''p'']]) demo_server) = demo_server\<lparr>w_conns := [(''c1'', c')]\<rparr> \<and>
     (cn_send c' = [] \<or> cn_send c' = [FOk ''g'' False ''invalid seal: kind 13 tags must be empty (NIP-59)''])"
proof -
  let ?ev = "sample_event ''g'' 5 13 [[''p'']]"
  obtain err s' where r: "handle_event demo_env [VNip17Published] [HNip01Broadcast] 0 0 0 ''x'' ''c1'' ?ev demo_server = (err, s')"
    by force
  have v: "event_verdict demo_env [VNip17Published] 0 sample_conn ?ev (sv_store demo_server) =
      (False, ''invalid seal: kind 13 tags must be empty (NIP-59)'')" by code_simp
  have "re_ops demo_env = sql_store plain_env" by (simp add: demo_env_def)
  note ops = this
  have "(False, ''invalid seal: kind 13 tags must be empty (NIP-59)'') \<noteq> (True, [])" by simp
  from refused_event_leaves_no_trace [OF demo_server_conn ops v this r] obtain fs gs ch asked where
    s': "s' = demo_server\<lparr>w_conns := AList.update ''c1'' (sample_conn\<lparr>cn_send := cn_send sample_conn @ fs @ gs,
      cn_challenge := ch, cn_auth_sent := asked\<rparr>) (w_conns demo_server)\<rparr>"
    and gs: "gs \<in> {[], [FOk (ev_id ?ev) False ''invalid seal: kind 13 tags must be empty (NIP-59)'']}"
    and fs: "\<not> has_prefix ''invalid seal: kind 13 tags must be empty (NIP-59)'' ''auth-required:'' \<longrightarrow> fs = []"
    by blast
  have "fs = []" using fs by (simp add: has_prefix_def)
  moreover have "cn_send sample_conn = []" "w_conns demo_server = [(''c1'', sample_conn)]" "ev_id ?ev = ''g''"
    by (simp_all add: sample_conn_def new_conn_def demo_server_def sample_event_def)
  ultimately show ?thesis unfolding r snd_conv s'
    by (intro exI [of _ "sample_conn\<lparr>cn_send := gs, cn_challenge := ch, cn_auth_sent := asked\<rparr>"]) (use gs in auto)
qed

theorem auth_events_not_forwarded_witness:
  "sv_store (snd (handle_event demo_env [] [HNip29PostStore, HPluginOnStored, HNip01Broadcast] 0 0 0 ''x'' ''c1''
     (sample_event ''g'' 5 22242 []) demo_server)) = empty_db"
proof -
  let ?ev = "sample_event ''g'' 5 22242 []"
  obtain err s' where r: "handle_event demo_env [] [HNip29PostStore, HPluginOnStored, HNip01Broadcast] 0 0 0 ''x'' ''c1''
      ?ev demo_server = (err, s')" by force
  from auth_events_not_forwarded [OF demo_server_conn _ r, of "''c2''"] r show ?thesis
    by (simp add: demo_server_def sample_event_def)
qed

definition rewriting_env :: "event_db relay_env" where
  "rewriting_env = demo_env\<lparr>re_intercept := Some (\<lambda>_ _. \<lparr>ir_action = InterceptRespond, ir_filters = [],
     ir_event_ids = [], ir_subscription_filters = [empty_filter\<lparr>f_kinds := [1059]\<rparr>]\<rparr>)\<rparr>"

theorem plugins_cannot_bypass_req_policy_witness:
  "\<exists>err s'. handle_req rewriting_env 1 ''x'' 0 False ''c1'' ''t'' [empty_filter\<lparr>f_kinds := [1]\<rparr>] demo_server = Some (err, s') \<and>
     (\<forall>e'. sub_lookup ''c1'' ''s'' s' = Some e' \<longrightarrow>
       (validate_nip17_req wrap_config sample_conn (se_filters e') = None \<and>
         (subscribe_auth_required wrap_config (se_filters e') \<longrightarrow> nip42_has_any_auth sample_conn)) \<or>
       (\<exists>e. sub_lookup ''c1'' ''s'' demo_server = Some e \<and> se_filters e' = se_filters e))"
proof -
  let ?r = "handle_req rewriting_env 1 ''x'' 0 False ''c1'' ''t'' [empty_filter\<lparr>f_kinds := [1]\<rparr>] demo_server"
  have "?r \<noteq> None" by code_simp
  then obtain err s' where r: "?r = Some (err, s')" by force
  have "re_cfg rewriting_env = wrap_config" by (simp add: rewriting_env_def demo_env_def)
  with plugins_cannot_bypass_req_policy [OF demo_server_conn r] r show ?thesis by (intro exI [of _ err] exI [of _ s']) auto
qed

end
