(* ===== verification/Neg_Sessions.thy ===== *)
theory Neg_Sessions
  imports Relay_Handlers
begin

text \<open>
  NIP-77 synchronisation: \<open>neg_sessions.go\<close>, \<open>negqueue.go\<close> and \<open>nip77.go\<close> in
  \<open>internal/relay\<close>.

  The sessions of a connection are its map \<open>cn_neg_sessions\<close>; every session in a map owns one slot
  of the server-wide counter \<open>sv_neg_active\<close>. Go compares session pointers; here a session has the
  key \<open>ns_key\<close>, which is never reused. \<open>reconcile\<close> is the negentropy library: from the
  items of the vector, the frame limit, the messages a session was given before and the new one it
  computes the answer or an error. The timer of an idle session is the step \<open>neg_idle_fires\<close>,
  which can come at any time after a session is scheduled. \<open>ctx_err\<close> of the code is the
  connection's own flag. Metrics and audit entries are left out.
\<close>

type_synonym reconciler = "sync_item list \<Rightarrow> int \<Rightarrow> string list \<Rightarrow> string \<Rightarrow> string result"

section \<open>Sessions\<close>

definition update_conn :: "string \<Rightarrow> (conn \<Rightarrow> conn) \<Rightarrow> 'st server \<Rightarrow> 'st server" where
  "update_conn cid f s = snd (conn_op cid (\<lambda>c. (None, f c)) s)"

definition new_neg_session :: "nat \<Rightarrow> neg_session" where
  "new_neg_session key = \<lparr>ns_key = key, ns_filter_kinds = [], ns_record_count = 0, ns_opened_unix = 0,
     ns_rounds = 0, ns_last_act_unix = 0, ns_neg = None\<rparr>"

definition neg_get :: "string \<Rightarrow> string \<Rightarrow> 'st server \<Rightarrow> neg_session option" where
  "neg_get cid sid s = (case load_conn cid s of None \<Rightarrow> None | Some c \<Rightarrow> map_of (cn_neg_sessions c) sid)"

definition neg_get_ready :: "string \<Rightarrow> string \<Rightarrow> 'st server \<Rightarrow> neg_session option \<times> bool" where
  "neg_get_ready cid sid s =
     (let r = neg_get cid sid s in (r, case r of None \<Rightarrow> False | Some ses \<Rightarrow> ns_neg ses \<noteq> None))"

definition neg_put :: "string \<Rightarrow> string \<Rightarrow> neg_session \<Rightarrow> 'st server \<Rightarrow> 'st server" where
  "neg_put cid sid ses = update_conn cid (\<lambda>c. c\<lparr>cn_neg_sessions := AList.update sid ses (cn_neg_sessions c)\<rparr>)"

text \<open>\<open>remove\<close>: closing a session gives its slot back.\<close>

definition neg_remove :: "string \<Rightarrow> string \<Rightarrow> 'st server \<Rightarrow> neg_session option \<times> 'st server" where
  "neg_remove cid sid s =
     (case neg_get cid sid s of
        None \<Rightarrow> (None, s)
      | Some ses \<Rightarrow>
          (Some ses, update_conn cid (\<lambda>c. c\<lparr>cn_neg_sessions := AList.delete sid (cn_neg_sessions c)\<rparr>)
            (s\<lparr>sv_neg_active := sv_neg_active s - 1\<rparr>)))"

definition neg_remove_if :: "string \<Rightarrow> string \<Rightarrow> nat \<Rightarrow> 'st server \<Rightarrow> bool \<times> 'st server" where
  "neg_remove_if cid sid key s =
     (case neg_get cid sid s of
        None \<Rightarrow> (False, s)
      | Some ses \<Rightarrow> if ns_key ses \<noteq> key then (False, s) else (True, snd (neg_remove cid sid s)))"

definition neg_reserve :: "string \<Rightarrow> string \<Rightarrow> int \<Rightarrow> 'st server \<Rightarrow> nat option \<times> 'st server" where
  "neg_reserve cid sid mx s =
     (case load_conn cid s of None \<Rightarrow> (None, s) | Some c \<Rightarrow>
      if cn_neg_closed c then (None, s)
      else let s = snd (neg_remove cid sid s) in
        if sv_neg_active s \<ge> mx then (None, s)
        else let key = sv_neg_next s;
                 s = s\<lparr>sv_neg_active := sv_neg_active s + 1, sv_neg_next := key + 1\<rparr>
             in (Some key, neg_put cid sid (new_neg_session key) s))"

definition neg_close_all :: "string \<Rightarrow> 'st server \<Rightarrow> 'st server" where
  "neg_close_all cid s =
     (case load_conn cid s of None \<Rightarrow> s | Some c \<Rightarrow>
      update_conn cid (\<lambda>c. c\<lparr>cn_neg_closed := True, cn_neg_sessions := []\<rparr>)
        (s\<lparr>sv_neg_active := sv_neg_active s - int (length (cn_neg_sessions c))\<rparr>))"

definition neg_count :: "string \<Rightarrow> 'st server \<Rightarrow> int" where
  "neg_count cid s = (case load_conn cid s of None \<Rightarrow> 0 | Some c \<Rightarrow> int (length (cn_neg_sessions c)))"

record neg_conn_audit =
  na_sub_id :: string
  na_opened_unix :: int
  na_filter_kinds :: "int list"
  na_record_count :: int
  na_rounds :: int
  na_last_activity_unix :: int

definition neg_audit_list :: "conn \<Rightarrow> neg_conn_audit list" where
  "neg_audit_list c = map (\<lambda>(sid, ses). \<lparr>na_sub_id = sid, na_opened_unix = ns_opened_unix ses,
     na_filter_kinds = ns_filter_kinds ses, na_record_count = ns_record_count ses,
     na_rounds = ns_rounds ses, na_last_activity_unix = ns_last_act_unix ses\<rparr>) (cn_neg_sessions c)"

definition touch_activity :: "int \<Rightarrow> neg_session \<Rightarrow> neg_session" where
  "touch_activity now ses = ses\<lparr>ns_last_act_unix := now, ns_rounds := ns_rounds ses + 1\<rparr>"

section \<open>NEG-OPEN\<close>

definition neg_queue_capacity :: nat where "neg_queue_capacity = 64"

definition neg_enqueue :: "neg_open_job \<Rightarrow> neg_open_job list \<Rightarrow> bool \<times> neg_open_job list" where
  "neg_enqueue job jobs = (if length jobs < neg_queue_capacity then (True, jobs @ [job]) else (False, jobs))"

definition relay_busy_for_neg :: "'st relay_env \<Rightarrow> 'st server \<Rightarrow> bool" where
  "relay_busy_for_neg env s =
     (let depth = effective_backpressure_depth (re_cfg env) in
      if depth \<le> 0 then False else rq_pending_depth (sv_jobs s) \<ge> depth)"

definition send_neg_err :: "string \<Rightarrow> string \<Rightarrow> string \<Rightarrow> 'st server \<Rightarrow> string option \<times> 'st server" where
  "send_neg_err cid sid reason s = on_conn cid (enqueue (FNegErr sid reason)) s"

definition validate_neg_filter :: "config \<Rightarrow> conn \<Rightarrow> filter \<Rightarrow> string option" where
  "validate_neg_filter cfg c f =
     (if has_search f then Some ''blocked: search filters not supported''
      else if f_limit f \<noteq> None then Some ''blocked: limit filters not supported for NEG-OPEN''
      else if length (f_kinds f) = 0 \<or> nip17_kind_gift_wrap \<in> set (f_kinds f) \<or>
        nip59_kind_ephemeral_gift_wrap \<in> set (f_kinds f)
      then Some ''blocked: gift-wrap kinds are not available for negentropy''
      else if subscribe_auth_required cfg [f] \<and> \<not> nip42_has_any_auth c
      then Some ''auth-required: subscription requires authentication''
      else None)"

definition handle_neg_open :: "'st relay_env \<Rightarrow> string \<Rightarrow> string \<Rightarrow> string \<Rightarrow> filter \<Rightarrow> string \<Rightarrow> 'st server \<Rightarrow>
    string option \<times> 'st server" where
  "handle_neg_open env fresh cid sid f hex s =
     (let cfg = re_cfg env in
      if \<not> nip77_enabled cfg then send_neg_err cid sid ''blocked: NIP-77 is not enabled'' s
      else if int (length sid) > max_subscription_id_length cfg
      then send_neg_err cid sid ''blocked: relay: subscription id too long'' s
      else if relay_busy_for_neg env s then send_neg_err cid sid ''blocked: relay busy'' s
      else case load_conn cid s of None \<Rightarrow> (Some err_canceled, s) | Some c \<Rightarrow>
     (case validate_neg_filter cfg c f of
        Some err \<Rightarrow>
          (if has_prefix err ''auth-required:'' then
             (case on_conn cid (nip42_enqueue_auth_challenge cfg fresh) s of
                (Some e, s) \<Rightarrow> (Some e, s)
              | (None, s) \<Rightarrow> send_neg_err cid sid err s)
           else send_neg_err cid sid err s)
      | None \<Rightarrow>
     (case neg_reserve cid sid (effective_max_concurrent_sessions cfg) s of
        (None, s) \<Rightarrow> send_neg_err cid sid ''blocked: too many sync sessions'' s
      | (Some key, s) \<Rightarrow>
          (let job = \<lparr>nj_conn_id = cid, nj_sub_id = sid, nj_filter = f, nj_initial_hex = hex, nj_key = key\<rparr>;
               (queued, jobs) = neg_enqueue job (sv_neg_jobs s)
           in if queued then (None, s\<lparr>sv_neg_jobs := jobs\<rparr>)
              else send_neg_err cid sid ''blocked: sync queue full'' (snd (neg_remove_if cid sid key s))))))"

section \<open>Which records a session may reveal\<close>

text \<open>One item of a batch: \<open>groups\<close> remembers the decision for each group.\<close>

definition neg_item_visible :: "'st relay_env \<Rightarrow> string \<Rightarrow> filter \<Rightarrow> (string, event) go_map \<Rightarrow> 'st server \<Rightarrow>
    sync_item \<Rightarrow> (string, bool) go_map \<Rightarrow> bool \<times> (string, bool) go_map" where
  "neg_item_visible env cid f index s item groups =
     (case map_of index (si_id item) of
        None \<Rightarrow> (False, groups)
      | Some ev \<Rightarrow>
          if ev_created_at ev \<noteq> si_created_at item \<or> \<not> filter_matches f ev then (False, groups)
          else if \<not> nip29_group_h_tags_valid ev then (False, groups)
          else let h = nip29_group_h_tag ev in
            (case map_of groups h of
               Some allowed \<Rightarrow>
                 if h \<noteq> [] then (allowed, groups)
                 else (sees env cid ev s, groups)
             | None \<Rightarrow>
                 let allowed = sees env cid ev s
                 in (allowed, if h \<noteq> [] then AList.update h allowed groups else groups)))"

fun neg_batch_visible :: "'st relay_env \<Rightarrow> string \<Rightarrow> filter \<Rightarrow> (string, event) go_map \<Rightarrow> 'st server \<Rightarrow>
    sync_item list \<Rightarrow> (string, bool) go_map \<Rightarrow> sync_item list \<times> (string, bool) go_map" where
  "neg_batch_visible env cid f index s [] groups = ([], groups)"
| "neg_batch_visible env cid f index s (item # items) groups =
     (let (allowed, groups) = neg_item_visible env cid f index s item groups;
          (rest, groups) = neg_batch_visible env cid f index s items groups
      in (if allowed then item # rest else rest, groups))"

definition neg_batch_size :: nat where "neg_batch_size = 256"

function neg_batches :: "'st relay_env \<Rightarrow> string \<Rightarrow> filter \<Rightarrow> 'st server \<Rightarrow> sync_item list \<Rightarrow>
    (string, bool) go_map \<Rightarrow> sync_item list result" where
  "neg_batches env cid f s items groups =
     (if items = [] then Inr []
      else let batch = take neg_batch_size items in
        case so_query (re_ops env) [empty_filter\<lparr>f_ids := map si_id batch\<rparr>] (sv_store s) of
          Inl err \<Rightarrow> Inl err
        | Inr events \<Rightarrow>
            (let (visible, groups) = neg_batch_visible env cid f (index_by_id events) s batch groups in
             case neg_batches env cid f s (drop neg_batch_size items) groups of
               Inl err \<Rightarrow> Inl err
             | Inr rest \<Rightarrow> Inr (visible @ rest)))"
  by pat_completeness auto
termination
  by (relation "measure (\<lambda>(_, _, _, _, items, _). length items)") (auto simp: neg_batch_size_def)

declare neg_batches.simps [simp del]

definition visible_neg_sync_items :: "'st relay_env \<Rightarrow> string \<Rightarrow> filter \<Rightarrow> sync_item list \<Rightarrow> 'st server \<Rightarrow>
    sync_item list result" where
  "visible_neg_sync_items env cid f items s =
     (if \<not> nip29_enabled (re_cfg env) then Inr items
      else if snapshot_canceled False cid s then Inl err_canceled
      else neg_batches env cid f s items [])"

section \<open>Loading a session\<close>

definition neg_fail :: "neg_open_job \<Rightarrow> string \<Rightarrow> 'st server \<Rightarrow> 'st server" where
  "neg_fail job reason s =
     (let (mine, s') = neg_remove_if (nj_conn_id job) (nj_sub_id job) (nj_key job) s in
      if mine then snd (send_neg_err (nj_conn_id job) (nj_sub_id job) reason s') else s)"

definition neg_start_session :: "reconciler \<Rightarrow> 'st relay_env \<Rightarrow> int \<Rightarrow> neg_open_job \<Rightarrow> sync_item list \<Rightarrow>
    'st server \<Rightarrow> 'st server" where
  "neg_start_session reconcile env now job items s =
     (let cid = nj_conn_id job; sid = nj_sub_id job;
          limit = effective_frame_size_limit (re_cfg env)
      in case reconcile items limit [] (nj_initial_hex job) of
           Inl err \<Rightarrow> neg_fail job (''error: '' @ err) s
         | Inr out \<Rightarrow>
        (case marshal_relay_neg_msg sid out of
           Inl _ \<Rightarrow> neg_fail job ''error: marshal failed'' s
         | Inr b \<Rightarrow>
        (case neg_get cid sid s of None \<Rightarrow> s | Some ses \<Rightarrow>
           if ns_key ses \<noteq> nj_key job then s
           else let ses = ses\<lparr>ns_filter_kinds := f_kinds (nj_filter job), ns_record_count := int (length items),
                      ns_opened_unix := now, ns_last_act_unix := now,
                      ns_neg := Some (items, limit, [nj_initial_hex job])\<rparr>;
                    (err, s) = on_conn cid (enqueue b) (neg_put cid sid ses s)
                in if err \<noteq> None \<or> out = [] then snd (neg_remove cid sid s) else s)))"

definition run_neg_open_job :: "reconciler \<Rightarrow> 'st relay_env \<Rightarrow> int \<Rightarrow> neg_open_job \<Rightarrow> 'st server \<Rightarrow> 'st server" where
  "run_neg_open_job reconcile env now job s =
     (let cid = nj_conn_id job; sid = nj_sub_id job; f = nj_filter job; ops = re_ops env in
      case neg_get cid sid s of None \<Rightarrow> s | Some ses \<Rightarrow>
      if ns_key ses \<noteq> nj_key job then s
      else if sv_neg_slots s = 0 then neg_fail job ''blocked: sync load capacity reached'' s
      else let max_rec = effective_max_records (re_cfg env);
               counted = (if max_rec > 0 then so_count ops [f] (sv_store s) else Inr 0)
      in case counted of
           Inl _ \<Rightarrow> neg_fail job ''error: count failed'' s
         | Inr n \<Rightarrow>
        if max_rec > 0 \<and> n > max_rec
        then neg_fail job (''blocked: this query exceeds the maximum of '' @ show_int max_rec @ '' records'') s
        else (case so_sync_items ops f (sv_store s) of
           Inl _ \<Rightarrow> neg_fail job ''error: query failed'' s
         | Inr items \<Rightarrow>
        (case visible_neg_sync_items env cid f items s of
           Inl _ \<Rightarrow> neg_fail job ''error: query failed'' s
         | Inr items \<Rightarrow> neg_start_session reconcile env now job items s)))"

section \<open>NEG-MSG, NEG-CLOSE and the idle timer\<close>

definition neg_idle_fires :: "string \<Rightarrow> string \<Rightarrow> nat \<Rightarrow> 'st server \<Rightarrow> 'st server" where
  "neg_idle_fires cid sid key s =
     (let (removed, s) = neg_remove_if cid sid key s in
      if removed then snd (send_neg_err cid sid ''closed: you took too long to respond!'' s) else s)"

definition handle_neg_msg :: "reconciler \<Rightarrow> 'st relay_env \<Rightarrow> int \<Rightarrow> string \<Rightarrow> string \<Rightarrow> string \<Rightarrow> 'st server \<Rightarrow>
    string option \<times> 'st server" where
  "handle_neg_msg reconcile env now cid sid hex s =
     (if \<not> nip77_enabled (re_cfg env) then send_neg_err cid sid ''blocked: NIP-77 is not enabled'' s
      else case neg_get_ready cid sid s of
        (None, _) \<Rightarrow> send_neg_err cid sid ''closed: unknown subscription'' s
      | (Some ses, ready) \<Rightarrow>
          if \<not> ready then send_neg_err cid sid ''closed: unknown subscription'' (snd (neg_remove_if cid sid (ns_key ses) s))
          else case ns_neg ses of None \<Rightarrow> (None, s) | Some (items, limit, given) \<Rightarrow>
            (let ses = (touch_activity now ses)\<lparr>ns_neg := Some (items, limit, given @ [hex])\<rparr>;
                 s = neg_put cid sid ses s
             in case reconcile items limit given hex of
                  Inl err \<Rightarrow> send_neg_err cid sid (''error: '' @ err) (snd (neg_remove_if cid sid (ns_key ses) s))
                | Inr out \<Rightarrow>
                    (let s = (if out = [] then snd (neg_remove_if cid sid (ns_key ses) s) else s) in
                     case marshal_relay_neg_msg sid out of
                       Inl _ \<Rightarrow> send_neg_err cid sid ''error: marshal failed'' s
                     | Inr b \<Rightarrow> on_conn cid (enqueue b) s)))"

definition handle_neg_close :: "string \<Rightarrow> string \<Rightarrow> 'st server \<Rightarrow> 'st server" where
  "handle_neg_close cid sid s = snd (neg_remove cid sid s)"

section \<open>The remembered group decisions are the real ones\<close>

definition plain_kinds :: "filter \<Rightarrow> bool" where
  "plain_kinds f \<longleftrightarrow> f_kinds f \<noteq> [] \<and> (\<forall>k \<in> set (f_kinds f). \<not> is_gift_wrap_kind k)"

lemma validate_neg_filter_plain: "validate_neg_filter cfg c f = None \<Longrightarrow> plain_kinds f"
  by (auto simp: validate_neg_filter_def plain_kinds_def is_gift_wrap_kind_def split: if_splits)

lemma visible_by_group:
  assumes "nip29_group_h_tags_valid a" "nip29_group_h_tags_valid b" "nip29_group_h_tag a = nip29_group_h_tag b"
    "\<not> is_gift_wrap_kind (ev_kind a)" "\<not> is_gift_wrap_kind (ev_kind b)"
  shows "event_visible env cid a st w = event_visible env cid b st w"
  unfolding event_visible_def Let_def assms(3) using assms(1,2,4,5) by simp

definition groups_ok :: "'st relay_env \<Rightarrow> string \<Rightarrow> 'st server \<Rightarrow> (string, bool) go_map \<Rightarrow> bool" where
  "groups_ok env cid s groups \<longleftrightarrow> (\<forall>h a. map_of groups h = Some a \<longrightarrow> (\<forall>ev. nip29_group_h_tags_valid ev \<and>
     nip29_group_h_tag ev = h \<and> \<not> is_gift_wrap_kind (ev_kind ev) \<longrightarrow> sees env cid ev s = a))"

definition item_readable :: "'st relay_env \<Rightarrow> string \<Rightarrow> filter \<Rightarrow> (string \<Rightarrow> event option) \<Rightarrow> 'st server \<Rightarrow>
    sync_item \<Rightarrow> bool" where
  "item_readable env cid f find_event s item \<longleftrightarrow>
     (\<exists>ev. find_event (si_id item) = Some ev \<and> ev_created_at ev = si_created_at item \<and> filter_matches f ev \<and>
       nip29_group_h_tags_valid ev \<and> sees env cid ev s)"

lemma neg_item_visible_correct:
  assumes "plain_kinds f" and ok: "groups_ok env cid s groups"
    and run: "neg_item_visible env cid f index s item groups = (allowed, groups')"
  shows "allowed = item_readable env cid f (map_of index) s item \<and> groups_ok env cid s groups'"
proof (cases "map_of index (si_id item)")
  case None
  then show ?thesis using run ok by (auto simp: neg_item_visible_def item_readable_def)
next
  case (Some ev)
  show ?thesis
  proof (cases "ev_created_at ev = si_created_at item \<and> filter_matches f ev \<and> nip29_group_h_tags_valid ev")
    case False
    then show ?thesis using run ok Some by (auto simp: neg_item_visible_def item_readable_def split: if_splits)
  next
    case True
    let ?h = "nip29_group_h_tag ev"
    have plain: "\<not> is_gift_wrap_kind (ev_kind ev)"
      using assms(1) filter_matches_kind [of f ev] True by (auto simp: plain_kinds_def)
    have r: "item_readable env cid f (map_of index) s item = sees env cid ev s"
      using Some True by (simp add: item_readable_def)
    show ?thesis
    proof (cases "map_of groups ?h")
      case g: (Some a)
      then have "sees env cid ev s = a" using ok True plain unfolding groups_ok_def by blast
      then show ?thesis using run Some True g ok r by (auto simp: neg_item_visible_def split: if_splits)
    next
      case None
      have "groups_ok env cid s (AList.update ?h (sees env cid ev s) groups)"
        unfolding groups_ok_def
      proof (intro allI impI)
        fix h a e
        assume h: "map_of (AList.update ?h (sees env cid ev s) groups) h = Some a"
          and e: "nip29_group_h_tags_valid e \<and> nip29_group_h_tag e = h \<and> \<not> is_gift_wrap_kind (ev_kind e)"
        show "sees env cid e s = a"
        proof (cases "h = ?h")
          case True
          then have "sees env cid e s = sees env cid ev s"
            unfolding event_visible_to_subscription_def
            by (intro visible_by_group) (use e plain \<open>ev_created_at ev = si_created_at item \<and> _\<close> in auto)
          then show ?thesis using h True by (simp add: update_conv')
        next
          case False
          then have "map_of groups h = Some a" using h by (simp add: update_conv')
          then show ?thesis using ok e unfolding groups_ok_def by blast
        qed
      qed
      then show ?thesis using run Some True None ok r by (auto simp: neg_item_visible_def Let_def split: if_splits)
    qed
  qed
qed

lemma neg_batch_visible_correct:
  "plain_kinds f \<Longrightarrow> groups_ok env cid s groups \<Longrightarrow>
   neg_batch_visible env cid f index s items groups = (visible, groups') \<Longrightarrow>
   visible = List.filter (item_readable env cid f (map_of index) s) items \<and> groups_ok env cid s groups'"
proof (induction items arbitrary: groups visible groups')
  case (Cons item items)
  obtain allowed g1 where 1: "neg_item_visible env cid f index s item groups = (allowed, g1)" by force
  obtain rest g2 where 2: "neg_batch_visible env cid f index s items g1 = (rest, g2)" by force
  note item = neg_item_visible_correct [OF Cons.prems(1,2) 1]
  from Cons.IH [OF Cons.prems(1) _ 2] item Cons.prems(3) 1 2 show ?case by auto
qed simp

lemma item_readable_cong:
  "(si_id item \<in> set ids \<Longrightarrow> find_event (si_id item) = find_event' (si_id item)) \<Longrightarrow> si_id item \<in> set ids \<Longrightarrow>
   item_readable env cid f find_event s item = item_readable env cid f find_event' s item"
  by (simp add: item_readable_def)

lemma neg_batches_correct:
  assumes env: "re_ops env = sql_store se" and v: "db_valid (sv_store s)" and f: "plain_kinds f"
  shows "groups_ok env cid s groups \<Longrightarrow>
    neg_batches env cid f s items groups =
      Inr (List.filter (item_readable env cid f (sql_ids.stored_event se (sv_store s)) s) items)"
proof (induction "length items" arbitrary: items groups rule: less_induct)
  case less
  show ?case
  proof (cases "items = []")
    case True
    then show ?thesis by (simp add: neg_batches.simps)
  next
    case False
    let ?batch = "take neg_batch_size items" and ?rest = "drop neg_batch_size items"
    let ?P = "item_readable env cid f (sql_ids.stored_event se (sv_store s)) s"
    have ne: "map si_id ?batch \<noteq> []" using False by (simp add: neg_batch_size_def)
    obtain evs where q: "query_events se [empty_filter\<lparr>f_ids := map si_id ?batch\<rparr>] (sv_store s) = Inr evs"
      "\<And>i. map_of (index_by_id evs) i =
        (if i \<in> set (map si_id ?batch) then sql_ids.stored_event se (sv_store s) i else None)"
      using sql_ids.lookup_batch [OF v ne] by blast
    obtain visible g1 where b: "neg_batch_visible env cid f (index_by_id evs) s ?batch groups = (visible, g1)" by force
    note batch = neg_batch_visible_correct [OF f less.prems b]
    have "visible = List.filter ?P ?batch"
      unfolding conjunct1 [OF batch]
      by (rule filter_cong [OF refl]) (simp add: item_readable_def q(2))
    moreover have "neg_batches env cid f s ?rest g1 = Inr (List.filter ?P ?rest)"
      by (rule less.hyps) (use False batch in \<open>auto simp: neg_batch_size_def\<close>)
    moreover have "List.filter ?P items = List.filter ?P ?batch @ List.filter ?P ?rest"
      by (metis append_take_drop_id filter_append)
    ultimately show ?thesis
      using False q(1) b by (simp add: neg_batches.simps [of env cid f s items] env)
  qed
qed

section \<open>Properties\<close>

text \<open>C8: Synchronisation reveals exactly what a REQ would: for a filter that NEG-OPEN accepts, the
  items put before the client are, in order, those whose event is stored unchanged, matches the
  filter, names at most one group and is visible on this connection - although the events are
  looked up in batches and a group's decision is computed once and remembered. The limitation that
  \<open>docs/nip77.md\<close> states, that group visibility is not applied, is not what the code does.\<close>

theorem neg_items_are_readable:
  assumes "re_ops env = sql_store se" and "nip29_enabled (re_cfg env)" and "db_valid (sv_store s)"
    and "validate_neg_filter (re_cfg env) c f = None" and "\<not> snapshot_canceled False cid s"
  shows "visible_neg_sync_items env cid f items s = Inr (List.filter (\<lambda>item.
    \<exists>ev \<in> db_stored se (sv_store s). ev_id ev = si_id item \<and> ev_created_at ev = si_created_at item \<and>
      filter_matches f ev \<and> nip29_group_h_tags_valid ev \<and> event_visible_to_subscription env cid ev s) items)"
proof -
  have "item_readable env cid f (sql_ids.stored_event se (sv_store s)) s =
      (\<lambda>item. \<exists>ev \<in> db_stored se (sv_store s). ev_id ev = si_id item \<and> ev_created_at ev = si_created_at item \<and>
        filter_matches f ev \<and> nip29_group_h_tags_valid ev \<and> event_visible_to_subscription env cid ev s)"
    using sql_ids.stored_event_iff [OF assms(3)] by (auto simp: fun_eq_iff item_readable_def)
  moreover have "groups_ok env cid s []" by (simp add: groups_ok_def)
  ultimately show ?thesis
    using neg_batches_correct [OF assms(1,3) validate_neg_filter_plain [OF assms(4)]] assms(2,5)
    by (simp add: visible_neg_sync_items_def)
qed

theorem neg_items_are_readable_witness:
  "visible_neg_sync_items demo_env ''c1'' (empty_filter\<lparr>f_kinds := [1]\<rparr>)
     [\<lparr>si_id = ''a'', si_created_at = 5\<rparr>, \<lparr>si_id = ''b'', si_created_at = 5\<rparr>] (demo_server\<lparr>sv_store := one_event_db\<rparr>) =
   Inr [\<lparr>si_id = ''a'', si_created_at = 5\<rparr>]"
proof -
  let ?s = "demo_server\<lparr>sv_store := one_event_db\<rparr>" and ?f = "empty_filter\<lparr>f_kinds := [1]\<rparr>"
  have R: "represents one_event_db [sample_event ''a'' 5 1 []]"
    by (simp add: represents_def one_event_db_def tag_rows_def sample_event_def)
  have v: "event_visible_to_subscription demo_env ''c1'' (sample_event ''a'' 5 1 []) ?s" by code_simp
  have m: "filter_matches ?f (sample_event ''a'' 5 1 [])" "nip29_group_h_tags_valid (sample_event ''a'' 5 1 [])" by code_simp+
  have g: "validate_neg_filter (re_cfg demo_env) sample_conn ?f = None" "\<not> snapshot_canceled False ''c1'' ?s" by code_simp+
  show ?thesis
    using neg_items_are_readable [of demo_env plain_env ?s sample_conn ?f "''c1''"
        "[\<lparr>si_id = ''a'', si_created_at = 5\<rparr>, \<lparr>si_id = ''b'', si_created_at = 5\<rparr>]"] v m g one_event_db_valid
    by (simp add: db_stored_eq [OF R]) (simp add: demo_env_def nip29_enabled_def wrap_config_def sample_event_def)
qed

section \<open>Slots\<close>

definition neg_view :: "'a wire_scheme \<Rightarrow> (string \<times> ((string, neg_session) go_map \<times> bool)) list" where
  "neg_view s = map (\<lambda>(cid, c). (cid, (cn_neg_sessions c, cn_neg_closed c))) (w_conns s)"

definition neg_total :: "(string \<times> ((string, neg_session) go_map \<times> bool)) list \<Rightarrow> int" where
  "neg_total v = sum_list (map (\<lambda>(_, m, _). int (length m)) v)"

definition neg_inv :: "int \<Rightarrow> 'st server \<Rightarrow> bool" where
  "neg_inv mx s \<longleftrightarrow> distinct (map fst (neg_view s)) \<and>
     (\<forall>(cid, m, closed) \<in> set (neg_view s). distinct (map fst m) \<and> (closed \<longrightarrow> m = [])) \<and>
     sv_neg_active s = neg_total (neg_view s) \<and> sv_neg_active s \<le> mx"

lemma neg_view_of: "map_of (neg_view s) cid = map_option (\<lambda>c. (cn_neg_sessions c, cn_neg_closed c)) (load_conn cid s)"
proof -
  have "map_of (map (\<lambda>(cid, c). (cid, (cn_neg_sessions c, cn_neg_closed c))) m) cid =
      map_option (\<lambda>c. (cn_neg_sessions c, cn_neg_closed c)) (map_of m cid)" for m
    by (induction m) auto
  then show ?thesis by (simp add: neg_view_def load_conn_def)
qed

lemma neg_view_update:
  "map_of (w_conns s) cid = Some c \<Longrightarrow>
   neg_view (s\<lparr>w_conns := AList.update cid c' (w_conns s)\<rparr>) =
     AList.update cid (cn_neg_sessions c', cn_neg_closed c') (neg_view s)"
proof -
  have "map (\<lambda>(cid, c). (cid, (cn_neg_sessions c, cn_neg_closed c))) (AList.update cid c' m) =
      AList.update cid (cn_neg_sessions c', cn_neg_closed c') (map (\<lambda>(cid, c). (cid, (cn_neg_sessions c, cn_neg_closed c))) m)" for m
    by (induction m) auto
  then show ?thesis by (simp add: neg_view_def)
qed

lemma update_same: "map_of m k = Some v \<Longrightarrow> AList.update k v m = m"
  by (induction m) (auto split: if_splits)

lemma total_update:
  "map_of v cid = Some (m, b) \<Longrightarrow> neg_total (AList.update cid (m', b') v) = neg_total v - int (length m) + int (length m')"
  by (induction v) (auto simp: neg_total_def split: if_splits)

lemma neg_view_conn_op:
  assumes "\<And>c. cn_neg_sessions (snd (f c)) = cn_neg_sessions c \<and> cn_neg_closed (snd (f c)) = cn_neg_closed c"
  shows "neg_view (snd (conn_op cid f s)) = neg_view s"
proof (cases "map_of (w_conns s) cid")
  case (Some c)
  have "neg_view (snd (conn_op cid f s)) =
      AList.update cid (cn_neg_sessions (snd (f c)), cn_neg_closed (snd (f c))) (neg_view s)"
    using neg_view_update [OF Some] Some by (simp add: conn_op_def case_prod_unfold Let_def)
  also have "\<dots> = neg_view s"
    using assms [of c] Some by (intro update_same) (simp add: neg_view_of load_conn_def)
  finally show ?thesis .
qed (simp add: conn_op_def)

lemma active_conn_op [simp]:
  "sv_neg_active (snd (conn_op cid f s)) = sv_neg_active s" "sv_neg_next (snd (conn_op cid f s)) = sv_neg_next s"
  "sv_neg_jobs (snd (conn_op cid f s)) = sv_neg_jobs s" "sv_neg_slots (snd (conn_op cid f s)) = sv_neg_slots s"
  by (simp_all add: conn_op_def split: option.split prod.split)

lemma neg_view_store [simp]:
  "neg_view (s\<lparr>sv_neg_active := a\<rparr>) = neg_view s" "neg_view (s\<lparr>sv_neg_next := k\<rparr>) = neg_view s"
  "neg_view (s\<lparr>sv_neg_jobs := j\<rparr>) = neg_view s"
  by (simp_all add: neg_view_def)

lemma neg_inv_cong: "neg_view s' = neg_view s \<Longrightarrow> sv_neg_active s' = sv_neg_active s \<Longrightarrow> neg_inv mx s' = neg_inv mx s"
  by (simp add: neg_inv_def)

lemma neg_inv_op:
  assumes "\<And>c. cn_neg_sessions (snd (f c)) = cn_neg_sessions c \<and> cn_neg_closed (snd (f c)) = cn_neg_closed c"
  shows "neg_inv mx (snd (conn_op cid f s)) = neg_inv mx s"
  by (rule neg_inv_cong [OF neg_view_conn_op [OF assms]]) simp

lemma neg_inv_send [simp]:
  "neg_inv mx (snd (conn_op cid (enqueue b) s)) = neg_inv mx s"
  "neg_inv mx (snd (send_neg_err cid sid reason s)) = neg_inv mx s"
  "neg_inv mx (snd (conn_op cid (nip42_enqueue_auth_challenge cfg fresh) s)) = neg_inv mx s"
proof -
  show e: "neg_inv mx (snd (conn_op cid (enqueue b) s)) = neg_inv mx s" for b by (rule neg_inv_op) simp
  show "neg_inv mx (snd (send_neg_err cid sid reason s)) = neg_inv mx s" by (simp add: send_neg_err_def e)
  show "neg_inv mx (snd (conn_op cid (nip42_enqueue_auth_challenge cfg fresh) s)) = neg_inv mx s"
    by (rule neg_inv_op)
      (simp add: nip42_enqueue_auth_challenge_def nip42_ensure_challenge_def marshal_relay_auth_def Let_def)
qed

text \<open>Replacing the map of one connection moves the counter by the difference of the sizes.\<close>

lemma neg_inv_change:
  assumes inv: "neg_inv mx s" and c: "load_conn cid s = Some c"
    and map: "distinct (map fst (cn_neg_sessions (f c)))" "cn_neg_closed (f c) \<longrightarrow> cn_neg_sessions (f c) = []"
    and act: "sv_neg_active s' = sv_neg_active s - int (length (cn_neg_sessions c)) + int (length (cn_neg_sessions (f c)))"
      "sv_neg_active s' \<le> mx" and same: "w_conns s' = w_conns s"
  shows "neg_inv mx (update_conn cid f s')"
proof -
  have c': "map_of (w_conns s') cid = Some c" using c same by (simp add: load_conn_def)
  have v: "neg_view s' = neg_view s" using same by (simp add: neg_view_def)
  have view: "neg_view (update_conn cid f s') = AList.update cid (cn_neg_sessions (f c), cn_neg_closed (f c)) (neg_view s)"
    using neg_view_update [OF c', of "f c"] c' by (simp add: update_conn_def conn_op_def v)
  have old: "map_of (neg_view s) cid = Some (cn_neg_sessions c, cn_neg_closed c)"
    using c by (simp add: neg_view_of)
  have "distinct (map fst m) \<and> (b \<longrightarrow> m = [])"
    if "(k, m, b) \<in> set (AList.update cid (cn_neg_sessions (f c), cn_neg_closed (f c)) (neg_view s))" for k m b
    using set_update_subset [of cid "(cn_neg_sessions (f c), cn_neg_closed (f c))" "neg_view s"] that inv map
    by (auto simp: neg_inv_def)
  moreover have "distinct (map fst (neg_view s))" using inv by (simp add: neg_inv_def)
  moreover have "sv_neg_active s = neg_total (neg_view s)" using inv by (simp add: neg_inv_def)
  moreover have "sv_neg_active (update_conn cid f s') = sv_neg_active s'" by (simp add: update_conn_def)
  ultimately show ?thesis
    using act total_update [OF old, of "cn_neg_sessions (f c)" "cn_neg_closed (f c)"]
    by (auto simp: neg_inv_def view AList.distinct_update)
qed

lemma neg_inv_conn:
  assumes "neg_inv mx s" "load_conn cid s = Some c"
  shows "distinct (map fst (cn_neg_sessions c))" "cn_neg_closed c \<longrightarrow> cn_neg_sessions c = []"
proof -
  have "(cid, cn_neg_sessions c, cn_neg_closed c) \<in> set (neg_view s)"
    using assms(2) by (auto intro!: map_of_SomeD simp: neg_view_of)
  then show "distinct (map fst (cn_neg_sessions c))" "cn_neg_closed c \<longrightarrow> cn_neg_sessions c = []"
    using assms(1) by (auto simp: neg_inv_def)
qed

lemma length_delete_old:
  "distinct (map fst m) \<Longrightarrow> map_of m k = Some v \<Longrightarrow> Suc (length (AList.delete k m)) = length m"
proof -
  assume "distinct (map fst m)" "map_of m k = Some v"
  moreover from this(2) have "m \<noteq> []" by auto
  ultimately show ?thesis by (simp add: length_delete)
qed

lemma neg_remove_inv [simp]:
  assumes inv: "neg_inv mx s"
  shows "neg_inv mx (snd (neg_remove cid sid s))"
proof (cases "neg_get cid sid s")
  case (Some ses)
  then obtain c where c: "load_conn cid s = Some c" "map_of (cn_neg_sessions c) sid = Some ses"
    by (auto simp: neg_get_def split: option.splits)
  let ?f = "\<lambda>c. c\<lparr>cn_neg_sessions := AList.delete sid (cn_neg_sessions c)\<rparr>"
  have len: "Suc (length (AList.delete sid (cn_neg_sessions c))) = length (cn_neg_sessions c)"
    using length_delete_old [OF neg_inv_conn(1) [OF inv c(1)] c(2)] .
  have "neg_inv mx (update_conn cid ?f (s\<lparr>sv_neg_active := sv_neg_active s - 1\<rparr>))"
    by (rule neg_inv_change [OF inv c(1)])
      (use neg_inv_conn [OF inv c(1)] len inv c(2) in \<open>auto simp: AList.distinct_delete neg_inv_def\<close>)
  then show ?thesis using Some by (simp add: neg_remove_def)
qed (use inv in \<open>simp add: neg_remove_def\<close>)

lemma neg_remove_if_inv [simp]: "neg_inv mx s \<Longrightarrow> neg_inv mx (snd (neg_remove_if cid sid key s))"
  by (simp add: neg_remove_if_def split: option.split)

lemma neg_put_inv:
  assumes inv: "neg_inv mx s" and old: "neg_get cid sid s = Some ses"
  shows "neg_inv mx (neg_put cid sid ses' s)"
proof -
  obtain c where c: "load_conn cid s = Some c" "map_of (cn_neg_sessions c) sid = Some ses"
    using old by (auto simp: neg_get_def split: option.splits)
  show ?thesis
    unfolding neg_put_def
    by (rule neg_inv_change [OF inv c(1)])
      (use neg_inv_conn [OF inv c(1)] c(2) inv in
        \<open>auto simp: AList.distinct_update length_update neg_inv_def\<close>)
qed

lemma load_update:
  "load_conn cid (update_conn cid f s) = map_option f (load_conn cid s)"
  "w_conns (s\<lparr>sv_neg_active := a\<rparr>) = w_conns s"
  by (simp_all add: update_conn_def conn_op_def load_conn_def update_conv' split: option.split)

lemma neg_remove_conn:
  assumes "load_conn cid s = Some c" "\<not> cn_neg_closed c"
  obtains c' where "load_conn cid (snd (neg_remove cid sid s)) = Some c'" "\<not> cn_neg_closed c'"
    "map_of (cn_neg_sessions c') sid = None"
proof (cases "neg_get cid sid s")
  case None
  then show thesis using that [of c] assms by (simp add: neg_remove_def neg_get_def)
next
  case (Some ses)
  have "load_conn cid (s\<lparr>sv_neg_active := a\<rparr>) = load_conn cid s" for a by (simp add: load_conn_def)
  then show thesis
    using that [of "c\<lparr>cn_neg_sessions := AList.delete sid (cn_neg_sessions c)\<rparr>"] assms Some
    by (simp add: neg_remove_def load_update(1) delete_conv)
qed

lemma neg_reserve_inv:
  assumes inv: "neg_inv mx s"
  shows "neg_inv mx (snd (neg_reserve cid sid mx s))"
proof (cases "load_conn cid s")
  case (Some c)
  let ?s1 = "snd (neg_remove cid sid s)"
  have inv1: "neg_inv mx ?s1" by (rule neg_remove_inv [OF inv])
  show ?thesis
  proof (cases "cn_neg_closed c \<or> sv_neg_active ?s1 \<ge> mx")
    case True
    then show ?thesis using Some inv inv1 by (auto simp: neg_reserve_def Let_def)
  next
    case False
    then have open_c: "\<not> cn_neg_closed c" by simp
    obtain c' where c': "load_conn cid ?s1 = Some c'" "\<not> cn_neg_closed c'" "map_of (cn_neg_sessions c') sid = None"
      by (rule neg_remove_conn [OF Some open_c])
    let ?ses = "new_neg_session (sv_neg_next ?s1)"
    let ?s2 = "?s1\<lparr>sv_neg_active := sv_neg_active ?s1 + 1, sv_neg_next := sv_neg_next ?s1 + 1\<rparr>"
    have "neg_inv mx (neg_put cid sid ?ses ?s2)"
      unfolding neg_put_def
      by (rule neg_inv_change [OF inv1 c'(1)])
        (use neg_inv_conn [OF inv1 c'(1)] c' False in \<open>simp_all add: AList.distinct_update length_update\<close>)
    then show ?thesis using Some False by (simp add: neg_reserve_def Let_def)
  qed
qed (use inv in \<open>simp add: neg_reserve_def\<close>)

lemma neg_close_all_inv [simp]:
  assumes inv: "neg_inv mx s" and "0 \<le> mx"
  shows "neg_inv mx (neg_close_all cid s)"
proof (cases "load_conn cid s")
  case (Some c)
  let ?f = "\<lambda>c. c\<lparr>cn_neg_closed := True, cn_neg_sessions := []\<rparr>"
  have "sv_neg_active s \<le> mx" using inv by (simp add: neg_inv_def)
  then have "neg_inv mx (update_conn cid ?f (s\<lparr>sv_neg_active := sv_neg_active s - int (length (cn_neg_sessions c))\<rparr>))"
    by (intro neg_inv_change [OF inv Some]) simp_all
  then show ?thesis using Some by (simp add: neg_close_all_def)
qed (use inv in \<open>simp add: neg_close_all_def\<close>)

lemma neg_fail_inv [simp]: "neg_inv mx s \<Longrightarrow> neg_inv mx (neg_fail job reason s)"
  using neg_remove_if_inv [of mx s "nj_conn_id job" "nj_sub_id job" "nj_key job"]
  by (simp add: neg_fail_def case_prod_unfold Let_def)

lemma neg_idle_fires_inv [simp]: "neg_inv mx s \<Longrightarrow> neg_inv mx (neg_idle_fires cid sid key s)"
  using neg_remove_if_inv [of mx s cid sid key] by (simp add: neg_idle_fires_def case_prod_unfold Let_def)

lemma handle_neg_close_inv [simp]: "neg_inv mx s \<Longrightarrow> neg_inv mx (handle_neg_close cid sid s)"
  by (simp add: handle_neg_close_def)

lemma neg_get_conn [simp]: "neg_get cid sid (s\<lparr>sv_neg_jobs := j\<rparr>) = neg_get cid sid s"
  by (simp add: neg_get_def load_conn_def)

lemma neg_inv_jobs [simp]: "neg_inv mx (s\<lparr>sv_neg_jobs := j\<rparr>) = neg_inv mx s"
  by (rule neg_inv_cong) simp_all

lemma handle_neg_open_inv:
  assumes inv: "neg_inv mx s" and mx: "mx = effective_max_concurrent_sessions (re_cfg env)"
  shows "neg_inv mx (snd (handle_neg_open env fresh cid sid f hex s))"
proof -
  obtain key s1 where r: "neg_reserve cid sid mx s = (key, s1)" by force
  have inv1: "neg_inv mx s1" using neg_reserve_inv [OF inv, of cid sid] r by simp
  obtain e s2 where ch: "conn_op cid (nip42_enqueue_auth_challenge (re_cfg env) fresh) s = (e, s2)" by force
  have inv2: "neg_inv mx s2" using neg_inv_send(3) [of mx cid "re_cfg env" fresh s] inv ch by simp
  show ?thesis
    using r [unfolded mx] inv inv1 inv2 ch
    by (cases key; cases e)
      (auto simp: handle_neg_open_def Let_def neg_enqueue_def split: option.split)
qed

lemma neg_start_session_inv:
  assumes inv: "neg_inv mx s"
  shows "neg_inv mx (neg_start_session reconcile env now job items s)"
proof (cases "reconcile items (effective_frame_size_limit (re_cfg env)) [] (nj_initial_hex job)")
  case (Inr out)
  let ?cid = "nj_conn_id job" and ?sid = "nj_sub_id job"
  show ?thesis
  proof (cases "marshal_relay_neg_msg ?sid out")
    case b: (Inr b)
    show ?thesis
    proof (cases "neg_get ?cid ?sid s")
      case (Some ses)
      let ?s1 = "\<lambda>ses'. neg_put ?cid ?sid ses' s"
      have put: "neg_inv mx (snd (conn_op ?cid (enqueue b) (?s1 ses')))" for ses'
        using neg_put_inv [OF inv Some, of ses'] by simp
      then have rem: "neg_inv mx (snd (neg_remove ?cid ?sid (snd (conn_op ?cid (enqueue b) (?s1 ses')))))" for ses'
        by (rule neg_remove_inv)
      show ?thesis
        unfolding neg_start_session_def Let_def Inr b Some sum.case option.case case_prod_unfold
        using inv put rem by simp
    qed (use inv Inr b in \<open>simp add: neg_start_session_def Let_def\<close>)
  qed (use inv Inr in \<open>simp add: neg_start_session_def Let_def\<close>)
qed (use inv in \<open>simp add: neg_start_session_def Let_def\<close>)

lemma run_neg_open_job_inv:
  assumes inv: "neg_inv mx s"
  shows "neg_inv mx (run_neg_open_job reconcile env now job s)"
  unfolding run_neg_open_job_def Let_def
  using inv neg_start_session_inv [OF inv] by (simp split: option.split sum.split)

lemma handle_neg_msg_inv:
  assumes inv: "neg_inv mx s"
  shows "neg_inv mx (snd (handle_neg_msg reconcile env now cid sid hex s))"
proof (cases "neg_get cid sid s")
  case (Some ses)
  have put: "neg_inv mx (neg_put cid sid ses' s)" for ses' by (rule neg_put_inv [OF inv Some])
  note rem = neg_remove_if_inv [OF put]
  show ?thesis
    unfolding handle_neg_msg_def neg_get_ready_def Let_def Some
    using inv put rem neg_remove_if_inv [OF inv] by (simp split: option.split sum.split prod.split)
qed (use inv in \<open>simp add: handle_neg_msg_def neg_get_ready_def\<close>)

end
