(* ===== verification/Relay_Dispatch.thy ===== *)
theory Relay_Dispatch
  imports Neg_Sessions
begin

text \<open>
  From the configuration to the pipeline and from a payload to its handler: \<open>internal/nips/loader.go\<close>,
  the \<open>RegisterNIPxx\<close> functions and \<open>registry.go\<close> of \<open>internal/relay\<close>, and \<open>dispatchPayload\<close>
  of \<open>handler.go\<close> with \<open>rejectUntilConnectAuth\<close> of \<open>nip42.go\<close>.

  Go's closures in the registry are the constructors of \<open>msg_handler\<close>. A payload is its length and
  the JSON value its text parses to, \<open>None\<close> when it is not JSON. \<open>reading\<close> holds what one message
  reads from outside: the clocks, the random challenge, and the fuel of the loop over the pages
  (\<open>Snapshot_Delivery\<close> shows how much ends it), whose exhaustion is the result \<open>None\<close>.
\<close>

section \<open>Pipeline\<close>

datatype msg_handler = OnEvent | OnReq bool | OnClose | OnAuth | OnNegOpen | OnNegMsg | OnNegClose

record pipeline =
  pl_validators :: "validator list"
  pl_hooks :: "post_hook list"
  pl_handlers :: "(string, msg_handler) go_map"
  pl_neg_loads :: int

definition new_pipeline :: pipeline where
  "new_pipeline = \<lparr>pl_validators = [], pl_hooks = [HPluginOnStored], pl_handlers = [], pl_neg_loads = 0\<rparr>"

definition register_handler :: "string \<Rightarrow> msg_handler \<Rightarrow> pipeline \<Rightarrow> pipeline" where
  "register_handler typ h p = p\<lparr>pl_handlers := AList.update typ h (pl_handlers p)\<rparr>"

definition append_validator :: "validator \<Rightarrow> pipeline \<Rightarrow> pipeline" where
  "append_validator v p = p\<lparr>pl_validators := pl_validators p @ [v]\<rparr>"

definition append_hook :: "post_hook \<Rightarrow> pipeline \<Rightarrow> pipeline" where
  "append_hook h p = p\<lparr>pl_hooks := pl_hooks p @ [h]\<rparr>"

definition prepend_hook :: "post_hook \<Rightarrow> pipeline \<Rightarrow> pipeline" where
  "prepend_hook h p = p\<lparr>pl_hooks := [h] @ pl_hooks p\<rparr>"

definition register_nip01 :: "pipeline \<Rightarrow> pipeline" where
  "register_nip01 p =
     (let p = append_validator VSig p;
          p = append_hook HNip01Broadcast p;
          p = append_hook HNip01Audit p;
          p = register_handler ''EVENT'' OnEvent p;
          p = register_handler ''REQ'' (OnReq False) p
      in register_handler ''CLOSE'' OnClose p)"

definition register_nip42 :: "pipeline \<Rightarrow> pipeline" where
  "register_nip42 p = append_validator VNip42Publish (register_handler ''AUTH'' OnAuth p)"

definition register_nip50 :: "pipeline \<Rightarrow> pipeline" where
  "register_nip50 p = register_handler ''REQ'' (OnReq True) p"

definition register_nip29 :: "config \<Rightarrow> pipeline \<Rightarrow> pipeline" where
  "register_nip29 cfg p =
     (if \<not> nip29_enabled cfg then p
      else prepend_hook HNip29PostStore
        (append_validator VNip29Moderation (append_validator VNip29Restricted (append_validator VNip29Late
          (append_validator VNip29Previous (append_validator VNip29Tags p))))))"

definition register_nip77 :: "config \<Rightarrow> pipeline \<Rightarrow> pipeline" where
  "register_nip77 cfg p =
     (let p = p\<lparr>pl_neg_loads := effective_max_concurrent_loads cfg\<rparr>;
          p = register_handler ''NEG-OPEN'' OnNegOpen p;
          p = register_handler ''NEG-MSG'' OnNegMsg p
      in register_handler ''NEG-CLOSE'' OnNegClose p)"

definition register_nip17 :: "config \<Rightarrow> pipeline \<Rightarrow> pipeline" where
  "register_nip17 cfg p =
     (let p = append_validator VNip17Reject p in
      if \<not> nip17_enabled cfg then p else append_validator VNip17Published p)"

fun load_loop :: "config \<Rightarrow> int list \<Rightarrow> int list \<Rightarrow> pipeline \<Rightarrow> pipeline result" where
  "load_loop cfg [] seen p = Inr p"
| "load_loop cfg (n # ns) seen p =
     (if n \<in> set seen then load_loop cfg ns seen p
      else let seen = n # seen in
        if n = 2 then load_loop cfg ns seen p
        else if n = 11 then load_loop cfg ns seen p
        else if n = 42 then load_loop cfg ns seen (register_nip42 p)
        else if n = 50 then load_loop cfg ns seen (register_nip50 p)
        else if n = 29 then load_loop cfg ns seen (register_nip29 cfg p)
        else if n = 77 then load_loop cfg ns seen (register_nip77 cfg p)
        else if n = 17 then load_loop cfg ns seen p
        else Inl (''nips: NIP '' @ show_int n @ '' is not implemented in the loader''))"

definition load_enabled :: "config \<Rightarrow> pipeline \<Rightarrow> pipeline result" where
  "load_enabled cfg p =
     (case load_loop cfg (nips_enabled cfg) [1] (register_nip01 p) of
        Inl err \<Rightarrow> Inl err
      | Inr p \<Rightarrow> Inr (register_nip17 cfg p))"

definition is_implemented :: "int \<Rightarrow> bool" where
  "is_implemented n \<longleftrightarrow> n \<in> set [1, 2, 11, 17, 29, 42, 50, 77]"

section \<open>Dispatch\<close>

record reading =
  rd_fuel :: nat
  rd_fresh :: string
  rd_ip_times :: "int \<times> int \<times> int"
  rd_bytes_time :: int
  rd_limit_time :: int
  rd_now :: int
  rd_hook_now :: "int \<times> int"

fun message_type :: "client_msg \<Rightarrow> string" where
  "message_type (EventMessage _) = ''EVENT''"
| "message_type (ReqMessage _ _) = ''REQ''"
| "message_type (CloseMessage _) = ''CLOSE''"
| "message_type (AuthMessage _) = ''AUTH''"
| "message_type (NegOpenMessage _ _ _) = ''NEG-OPEN''"
| "message_type (NegMsgMessage _ _) = ''NEG-MSG''"
| "message_type (NegCloseMessage _) = ''NEG-CLOSE''"

text \<open>A handler asserts the type of its message; the last equation is the failing assertion, a panic
  that \<open>load_enabled\<close> never sets up.\<close>

fun run_handler :: "reconciler \<Rightarrow> 'st relay_env \<Rightarrow> pipeline \<Rightarrow> reading \<Rightarrow> string \<Rightarrow> msg_handler \<Rightarrow> client_msg \<Rightarrow>
    'st server \<Rightarrow> (string option \<times> 'st server) option" where
  "run_handler reconcile env p rd cid OnEvent (EventMessage ev) s =
     Some (handle_event env (pl_validators p) (pl_hooks p) (rd_now rd) (fst (rd_hook_now rd)) (snd (rd_hook_now rd))
       (rd_fresh rd) cid ev s)"
| "run_handler reconcile env p rd cid (OnReq search) (ReqMessage sid filters) s =
     handle_req env (rd_fuel rd) (rd_fresh rd) (rd_now rd) search cid sid filters s"
| "run_handler reconcile env p rd cid OnClose (CloseMessage sid) s = Some (None, handle_close (rd_now rd) cid sid s)"
| "run_handler reconcile env p rd cid OnAuth (AuthMessage ev) s = Some (handle_nip42_auth env (rd_now rd) cid ev s)"
| "run_handler reconcile env p rd cid OnNegOpen (NegOpenMessage sid f hex) s =
     Some (handle_neg_open env (rd_fresh rd) cid sid f hex s)"
| "run_handler reconcile env p rd cid OnNegMsg (NegMsgMessage sid hex) s =
     Some (handle_neg_msg reconcile env (rd_now rd) cid sid hex s)"
| "run_handler reconcile env p rd cid OnNegClose (NegCloseMessage sid) s = Some (None, handle_neg_close cid sid s)"
| "run_handler reconcile env p rd cid _ _ s = None"

definition dispatch :: "reconciler \<Rightarrow> 'st relay_env \<Rightarrow> pipeline \<Rightarrow> reading \<Rightarrow> string \<Rightarrow> client_msg \<Rightarrow>
    'st server \<Rightarrow> (string option \<times> 'st server) option" where
  "dispatch reconcile env p rd cid msg s =
     (case map_of (pl_handlers p) (message_type msg) of
        None \<Rightarrow> Some (Some (''relay: no handler for \"'' @ message_type msg @ ''\"''), s)
      | Some h \<Rightarrow> run_handler reconcile env p rd cid h msg s)"

definition connect_auth_required :: string where
  "connect_auth_required = ''auth-required: authentication required''"

fun connect_refusal :: "client_msg \<Rightarrow> conn \<Rightarrow> string option \<times> conn" where
  "connect_refusal (EventMessage ev) = send_ok (ev_id ev) False connect_auth_required"
| "connect_refusal (ReqMessage sid _) = send_closed sid connect_auth_required"
| "connect_refusal (NegOpenMessage sid _ _) = send_closed sid connect_auth_required"
| "connect_refusal (NegMsgMessage sid _) = send_closed sid connect_auth_required"
| "connect_refusal (NegCloseMessage sid) = send_closed sid connect_auth_required"
| "connect_refusal _ = send_notice connect_auth_required"

definition reject_until_connect_auth :: "'st relay_env \<Rightarrow> string \<Rightarrow> string \<Rightarrow> client_msg \<Rightarrow> 'st server \<Rightarrow> 'st server" where
  "reject_until_connect_auth env fresh cid msg s =
     snd (on_conn cid (connect_refusal msg) (challenge_client env fresh cid s))"

fun is_auth_message :: "client_msg \<Rightarrow> bool" where
  "is_auth_message (AuthMessage _) = True"
| "is_auth_message _ = False"

text \<open>The per-connection limit of each message type: the reason for a refusal, and the limiter.\<close>

fun allow_by_type :: "int \<Rightarrow> client_msg \<Rightarrow> conn_limiter \<Rightarrow> string option \<times> conn_limiter" where
  "allow_by_type now (EventMessage _) cl =
     (let (ok, cl) = allow_event now cl in (if ok then None else Some ''rate limited: events'', cl))"
| "allow_by_type now (ReqMessage _ _) cl =
     (let (ok, cl) = allow_req now cl in (if ok then None else Some ''rate limited: subscription requests'', cl))"
| "allow_by_type now (AuthMessage _) cl =
     (let (ok, cl) = allow_req now cl in (if ok then None else Some ''rate limited: subscription requests'', cl))"
| "allow_by_type now (NegOpenMessage _ _ _) cl =
     (let (ok, cl) = allow_neg_open now cl in (if ok then None else Some ''rate limited: negentropy'', cl))"
| "allow_by_type now (NegMsgMessage _ _) cl =
     (let (ok, cl) = allow_neg_msg now cl in (if ok then None else Some ''rate limited: negentropy'', cl))"
| "allow_by_type now _ cl = (None, cl)"

definition observe :: "'st relay_env \<Rightarrow> client_msg \<Rightarrow> 'st server \<Rightarrow> 'st server" where
  "observe env msg s = (if re_intercept env = None then s else s\<lparr>sv_observed := sv_observed s @ [msg]\<rparr>)"

definition notice :: "string \<Rightarrow> string \<Rightarrow> 'st server \<Rightarrow> 'st server" where
  "notice cid m s = snd (on_conn cid (send_notice m) s)"

text \<open>\<open>dispatchPayload\<close> from the parsed message on.\<close>

definition dispatch_message :: "reconciler \<Rightarrow> 'st relay_env \<Rightarrow> pipeline \<Rightarrow> reading \<Rightarrow> string \<Rightarrow> conn \<Rightarrow> client_msg \<Rightarrow>
    'st server \<Rightarrow> 'st server option" where
  "dispatch_message reconcile env p rd cid c msg s =
     (if nip42_connect_gate (re_cfg env) c \<and> \<not> is_auth_message msg
      then Some (reject_until_connect_auth env (rd_fresh rd) cid msg s)
      else let s = update_conn cid (note_inbound_after_parse msg) s;
               (refusal, cl) = allow_by_type (rd_limit_time rd) msg (cn_limiter c);
               s = update_conn cid (\<lambda>c. c\<lparr>cn_limiter := cl\<rparr>) s
           in case refusal of
                Some reason \<Rightarrow> Some (notice cid reason s)
              | None \<Rightarrow>
             (case dispatch reconcile env p rd cid msg (observe env msg s) of
                None \<Rightarrow> None
              | Some (None, s) \<Rightarrow> Some s
              | Some (Some err, s) \<Rightarrow> Some (notice cid err s)))"

definition dispatch_payload :: "reconciler \<Rightarrow> 'st relay_env \<Rightarrow> pipeline \<Rightarrow> reading \<Rightarrow> string \<Rightarrow> int \<Rightarrow> json option \<Rightarrow>
    'st server \<Rightarrow> 'st server option" where
  "dispatch_payload reconcile env p rd cid len data s =
     (case load_conn cid s of None \<Rightarrow> Some s | Some c \<Rightarrow>
     (let (t1, t2, t3) = rd_ip_times rd;
          (ok, h) = allow_message (re_cfg env) t1 t2 t3 (cn_peer_ip c) (sv_hub s);
          s = s\<lparr>sv_hub := h\<rparr>
      in if \<not> ok then Some (notice cid ''rate limited: too many messages from this IP'' s)
         else let (ok, cl) = allow_inbound_bytes (rd_bytes_time rd) len (cn_limiter c);
                  c = c\<lparr>cn_limiter := cl\<rparr>;
                  s = update_conn cid (\<lambda>_. c) s
              in if \<not> ok then Some (notice cid ''rate limited: bandwidth'' s)
                 else case data of
                        None \<Rightarrow> Some (notice cid ''invalid message'' s)
                      | Some j \<Rightarrow>
                     (case parse_message j of
                        Inl _ \<Rightarrow> Some (notice cid ''invalid message'' s)
                      | Inr msg \<Rightarrow> dispatch_message reconcile env p rd cid c msg s)))"

section \<open>What the loader sets up\<close>

definition nip_validators :: "config \<Rightarrow> int \<Rightarrow> validator list" where
  "nip_validators cfg n =
     (if n = 42 then [VNip42Publish]
      else if n = 29 \<and> nip29_enabled cfg
      then [VNip29Tags, VNip29Previous, VNip29Late, VNip29Restricted, VNip29Moderation] else [])"

definition handlers_after :: "int set \<Rightarrow> string \<Rightarrow> msg_handler option \<Rightarrow> msg_handler option" where
  "handlers_after nips typ h =
     (if 42 \<in> nips \<and> typ = ''AUTH'' then Some OnAuth
      else if 50 \<in> nips \<and> typ = ''REQ'' then Some (OnReq True)
      else if 77 \<in> nips \<and> typ = ''NEG-OPEN'' then Some OnNegOpen
      else if 77 \<in> nips \<and> typ = ''NEG-MSG'' then Some OnNegMsg
      else if 77 \<in> nips \<and> typ = ''NEG-CLOSE'' then Some OnNegClose else h)"

definition nip_step :: "config \<Rightarrow> int \<Rightarrow> pipeline \<Rightarrow> pipeline" where
  "nip_step cfg n p =
     (if n = 42 then register_nip42 p else if n = 50 then register_nip50 p
      else if n = 29 then register_nip29 cfg p else if n = 77 then register_nip77 cfg p else p)"

lemmas register_defs = register_nip42_def register_nip50_def register_nip29_def register_nip77_def
  append_validator_def append_hook_def prepend_hook_def register_handler_def Let_def

lemma nip_step_simps:
  "pl_validators (nip_step cfg n p) = pl_validators p @ nip_validators cfg n"
  "pl_hooks (nip_step cfg n p) = (if n = 29 \<and> nip29_enabled cfg then [HNip29PostStore] else []) @ pl_hooks p"
  "map_of (pl_handlers (nip_step cfg n p)) typ =
     handlers_after {n} typ (map_of (pl_handlers p) typ)"
  by (simp_all add: nip_step_def nip_validators_def handlers_after_def register_defs update_conv')

lemma load_loop_Cons:
  "load_loop cfg (n # ns) seen p =
     (if n \<in> set seen then load_loop cfg ns seen p
      else if is_implemented n \<and> n \<noteq> 1 then load_loop cfg ns (n # seen) (nip_step cfg n p)
      else Inl (''nips: NIP '' @ show_int n @ '' is not implemented in the loader''))"
  by (simp add: is_implemented_def nip_step_def Let_def)

declare load_loop.simps(2) [simp del]

lemma nip_validators_disjoint: "a \<noteq> b \<Longrightarrow> set (nip_validators cfg a) \<inter> set (nip_validators cfg b) = {}"
  by (auto simp: nip_validators_def split: if_splits)

lemma distinct_nip_validators [simp]: "distinct (nip_validators cfg n)"
  by (simp add: nip_validators_def)

lemma handlers_after_insert:
  "handlers_after N typ (handlers_after {n} typ h) = handlers_after (insert n N) typ h"
  by (simp add: handlers_after_def)

lemma load_loop_spec:
  "load_loop cfg ns seen p = Inr p' \<Longrightarrow> 1 \<in> set seen \<Longrightarrow> new = set ns - set seen \<Longrightarrow>
   (\<forall>n \<in> new. is_implemented n) \<and>
   (\<exists>vs. pl_validators p' = pl_validators p @ vs \<and> set vs = (\<Union>n \<in> new. set (nip_validators cfg n)) \<and> distinct vs) \<and>
   pl_hooks p' = (if 29 \<in> new \<and> nip29_enabled cfg then [HNip29PostStore] else []) @ pl_hooks p \<and>
   (\<forall>typ. map_of (pl_handlers p') typ = handlers_after new typ (map_of (pl_handlers p) typ))"
proof (induction ns arbitrary: seen p new)
  case Nil
  then show ?case by (simp add: handlers_after_def)
next
  case (Cons n ns)
  show ?case
  proof (cases "n \<in> set seen")
    case True
    have run: "load_loop cfg ns seen p = Inr p'" using Cons.prems(1) True by (simp add: load_loop_Cons)
    have "new = set ns - set seen" using Cons.prems(3) True by auto
    then show ?thesis by (rule Cons.IH [OF run Cons.prems(2)])
  next
    case False
    let ?new = "set ns - set (n # seen)" and ?q = "nip_step cfg n p"
    have n: "is_implemented n" "n \<noteq> 1" and run: "load_loop cfg ns (n # seen) ?q = Inr p'"
      using Cons.prems(1) False by (simp_all add: load_loop_Cons split: if_split_asm)
    have new: "new = insert n ?new" "n \<notin> ?new" using Cons.prems False by auto
    have "1 \<in> set (n # seen)" using Cons.prems(2) by simp
    from Cons.IH [OF run this refl] obtain vs where
      ih: "\<forall>n \<in> ?new. is_implemented n" "pl_validators p' = pl_validators ?q @ vs"
        "set vs = (\<Union>n \<in> ?new. set (nip_validators cfg n))" "distinct vs"
        "pl_hooks p' = (if 29 \<in> ?new \<and> nip29_enabled cfg then [HNip29PostStore] else []) @ pl_hooks ?q"
        "\<And>typ. map_of (pl_handlers p') typ = handlers_after ?new typ (map_of (pl_handlers ?q) typ)"
      by blast
    have "set (nip_validators cfg n) \<inter> set vs = {}"
      unfolding ih(3) using nip_validators_disjoint [of n _ cfg] by fastforce
    then have "\<exists>vs. pl_validators p' = pl_validators p @ vs \<and>
        set vs = (\<Union>n \<in> new. set (nip_validators cfg n)) \<and> distinct vs"
      using ih(2-4) new(1) by (intro exI [of _ "nip_validators cfg n @ vs"]) (simp add: nip_step_simps)
    moreover have "pl_hooks p' = (if 29 \<in> new \<and> nip29_enabled cfg then [HNip29PostStore] else []) @ pl_hooks p"
      using ih(5) new by (auto simp: nip_step_simps)
    moreover have "map_of (pl_handlers p') t = handlers_after new t (map_of (pl_handlers p) t)" for t
      by (simp only: ih(6) nip_step_simps handlers_after_insert new(1))
    ultimately show ?thesis using ih(1) n new(1) by blast
  qed
qed

lemma load_loop_total: "\<forall>n \<in> set ns. is_implemented n \<Longrightarrow> 1 \<in> set seen \<Longrightarrow> \<exists>p'. load_loop cfg ns seen p = Inr p'"
  by (induction ns arbitrary: seen p) (auto simp: load_loop_Cons)

lemma loaded_pipeline:
  assumes "load_enabled cfg new_pipeline = Inr p"
  shows "\<forall>n \<in> set (nips_enabled cfg). is_implemented n"
    and "\<exists>vs. pl_validators p = VSig # vs @ VNip17Reject # (if nip17_enabled cfg then [VNip17Published] else []) \<and>
      distinct vs \<and> set vs = (\<Union>n \<in> set (nips_enabled cfg). set (nip_validators cfg n))"
    and "pl_hooks p = (if nip29_enabled cfg then [HNip29PostStore] else []) @ [HPluginOnStored, HNip01Broadcast, HNip01Audit]"
    and "map_of (pl_handlers p) typ = handlers_after (set (nips_enabled cfg)) typ
      (if typ = ''EVENT'' then Some OnEvent else if typ = ''REQ'' then Some (OnReq False)
       else if typ = ''CLOSE'' then Some OnClose else None)"
proof -
  let ?new = "set (nips_enabled cfg) - {1}"
  obtain q where q: "load_loop cfg (nips_enabled cfg) [1] (register_nip01 new_pipeline) = Inr q" "p = register_nip17 cfg q"
    using assms by (auto simp: load_enabled_def split: sum.splits)
  note spec = load_loop_spec [OF q(1) _ refl, simplified]
  have p: "pl_validators p = pl_validators q @ VNip17Reject # (if nip17_enabled cfg then [VNip17Published] else [])"
    "pl_hooks p = pl_hooks q" "pl_handlers p = pl_handlers q"
    by (simp_all add: q(2) register_nip17_def append_validator_def Let_def)
  have n1: "pl_validators (register_nip01 new_pipeline) = [VSig]"
    "pl_hooks (register_nip01 new_pipeline) = [HPluginOnStored, HNip01Broadcast, HNip01Audit]"
    "map_of (pl_handlers (register_nip01 new_pipeline)) typ =
      (if typ = ''EVENT'' then Some OnEvent else if typ = ''REQ'' then Some (OnReq False)
       else if typ = ''CLOSE'' then Some OnClose else None)"
    by (simp_all add: register_nip01_def register_defs new_pipeline_def)
  show "\<forall>n \<in> set (nips_enabled cfg). is_implemented n"
    using spec by (metis DiffI is_implemented_def list.set_intros(1) singletonD)
  have v: "(\<Union>n \<in> ?new. set (nip_validators cfg n)) = (\<Union>n \<in> set (nips_enabled cfg). set (nip_validators cfg n))"
    by (force simp: nip_validators_def)
  obtain vs where "pl_validators q = VSig # vs" "set vs = (\<Union>n \<in> ?new. set (nip_validators cfg n))" "distinct vs"
    using spec n1(1) by auto
  then show "\<exists>vs. pl_validators p = VSig # vs @ VNip17Reject # (if nip17_enabled cfg then [VNip17Published] else []) \<and>
      distinct vs \<and> set vs = (\<Union>n \<in> set (nips_enabled cfg). set (nip_validators cfg n))"
    unfolding v p by (intro exI [of _ vs]) simp
  have "29 \<in> ?new \<longleftrightarrow> nip29_enabled cfg" by (auto simp: nip29_enabled_def list_ex_iff)
  then show "pl_hooks p = (if nip29_enabled cfg then [HNip29PostStore] else []) @ [HPluginOnStored, HNip01Broadcast, HNip01Audit]"
    using spec n1(2) p(2) by simp
  have "handlers_after ?new typ h = handlers_after (set (nips_enabled cfg)) typ h" for h
    by (simp add: handlers_after_def)
  then show "map_of (pl_handlers p) typ = handlers_after (set (nips_enabled cfg)) typ
      (if typ = ''EVENT'' then Some OnEvent else if typ = ''REQ'' then Some (OnReq False)
       else if typ = ''CLOSE'' then Some OnClose else None)"
    using spec n1(3) p(3) by simp
qed

lemma load_enabled_iff: "(\<exists>p. load_enabled cfg new_pipeline = Inr p) \<longleftrightarrow> list_all is_implemented (nips_enabled cfg)"
proof
  assume "\<exists>p. load_enabled cfg new_pipeline = Inr p"
  then show "list_all is_implemented (nips_enabled cfg)"
    using loaded_pipeline(1) by (auto simp: list_all_iff)
next
  assume "list_all is_implemented (nips_enabled cfg)"
  then have "\<exists>q. load_loop cfg (nips_enabled cfg) [1] (register_nip01 new_pipeline) = Inr q"
    by (intro load_loop_total) (simp_all add: list_all_iff)
  then show "\<exists>p. load_enabled cfg new_pipeline = Inr p"
    by (auto simp: load_enabled_def)
qed

lemma loaded_handler:
  assumes "load_enabled cfg new_pipeline = Inr p"
  shows "map_of (pl_handlers p) (message_type msg) =
    (case msg of
       EventMessage _ \<Rightarrow> Some OnEvent
     | ReqMessage _ _ \<Rightarrow> Some (OnReq (50 \<in> set (nips_enabled cfg)))
     | CloseMessage _ \<Rightarrow> Some OnClose
     | AuthMessage _ \<Rightarrow> if 42 \<in> set (nips_enabled cfg) then Some OnAuth else None
     | NegOpenMessage _ _ _ \<Rightarrow> if 77 \<in> set (nips_enabled cfg) then Some OnNegOpen else None
     | NegMsgMessage _ _ \<Rightarrow> if 77 \<in> set (nips_enabled cfg) then Some OnNegMsg else None
     | NegCloseMessage _ \<Rightarrow> if 77 \<in> set (nips_enabled cfg) then Some OnNegClose else None)"
  by (cases msg) (simp_all add: loaded_pipeline(4) [OF assms] handlers_after_def)

text \<open>With a loaded pipeline no handler meets a message of another type: only the loop over the pages
  of a REQ can exhaust its fuel.\<close>

lemma loaded_dispatch_total:
  assumes "load_enabled cfg new_pipeline = Inr p" and "\<And>sid fs. msg \<noteq> ReqMessage sid fs"
  shows "dispatch reconcile env p rd cid msg s \<noteq> None"
  using loaded_handler [OF assms(1), of msg] assms(2) by (cases msg) (auto simp: dispatch_def)

section \<open>The connect gate\<close>

text \<open>What a refused message may not change of its connection: who it is authenticated as, its idle
  clock and counters, and the budgets of the message types.\<close>

definition gated_same :: "conn \<Rightarrow> conn \<Rightarrow> bool" where
  "gated_same c c' \<longleftrightarrow> cn_pubkeys c' = cn_pubkeys c \<and> cn_idle_since_unix c' = cn_idle_since_unix c \<and>
     cn_client_event_total c' = cn_client_event_total c \<and> cn_req_total c' = cn_req_total c \<and>
     settled c' = settled c \<and>
     (cn_limiter c')\<lparr>cl_bytes := cl_bytes (cn_limiter c)\<rparr> = cn_limiter c"

definition gate_frame :: "string \<Rightarrow> conn \<Rightarrow> 'st server \<Rightarrow> 'st server \<Rightarrow> bool" where
  "gate_frame cid c s s' \<longleftrightarrow>
     (\<exists>c' h. s' = s\<lparr>w_conns := AList.update cid c' (w_conns s), sv_hub := h\<rparr> \<and> gated_same c c')"

lemma gated_enqueue: "gated_same c c' \<Longrightarrow> gated_same c (snd (enqueue b c'))"
  by (simp add: gated_same_def enqueue_def settled_def)

lemma gated_challenge: "gated_same c c' \<Longrightarrow> gated_same c (snd (nip42_enqueue_auth_challenge cfg fresh c'))"
  by (simp add: gated_same_def nip42_enqueue_auth_challenge_def nip42_ensure_challenge_def marshal_relay_auth_def
      settled_def Let_def enqueue_def)

lemma gate_frame_op:
  assumes "gate_frame cid c s s1" and "\<And>c'. gated_same c c' \<Longrightarrow> gated_same c (snd (f c'))"
  shows "gate_frame cid c s (snd (conn_op cid f s1))"
proof -
  obtain c' h where s1: "s1 = s\<lparr>w_conns := AList.update cid c' (w_conns s), sv_hub := h\<rparr>" "gated_same c c'"
    using assms(1) by (auto simp: gate_frame_def)
  have "snd (conn_op cid f s1) = s\<lparr>w_conns := AList.update cid (snd (f c')) (w_conns s), sv_hub := h\<rparr>"
    by (simp add: s1(1) conn_op_def case_prod_unfold Let_def)
  with assms(2) [OF s1(2)] show ?thesis unfolding gate_frame_def by blast
qed

lemma gate_frame_notice: "gate_frame cid c s s1 \<Longrightarrow> gate_frame cid c s (notice cid m s1)"
  unfolding notice_def by (rule gate_frame_op) (simp_all add: send_notice_def gated_enqueue)

lemma gate_frame_reject:
  "gate_frame cid c s s1 \<Longrightarrow> gate_frame cid c s (reject_until_connect_auth env fresh cid msg s1)"
  unfolding reject_until_connect_auth_def challenge_client_def
  by (intro gate_frame_op) (auto simp: gated_challenge gated_enqueue send_ok_def send_closed_def send_notice_def
      intro: gated_enqueue, cases msg, simp_all add: send_ok_def send_closed_def send_notice_def gated_enqueue)

lemma dispatch_payload_gated:
  assumes c: "load_conn cid s = Some c" and gate: "nip42_connect_gate (re_cfg env) c"
    and no_auth: "\<And>j ev. data = Some j \<Longrightarrow> parse_message j \<noteq> Inr (AuthMessage ev)"
  shows "\<exists>s'. dispatch_payload reconcile env p rd cid len data s = Some s' \<and> gate_frame cid c s s'"
proof -
  obtain t1 t2 t3 where t: "rd_ip_times rd = (t1, t2, t3)" by (cases "rd_ip_times rd") auto
  obtain ok h where m: "allow_message (re_cfg env) t1 t2 t3 (cn_peer_ip c) (sv_hub s) = (ok, h)" by force
  obtain ok2 cl where b: "allow_inbound_bytes (rd_bytes_time rd) len (cn_limiter c) = (ok2, cl)" by force
  let ?s1 = "s\<lparr>sv_hub := h\<rparr>" and ?c = "c\<lparr>cn_limiter := cl\<rparr>"
  let ?s2 = "update_conn cid (\<lambda>_. ?c) ?s1"
  have c': "map_of (w_conns s) cid = Some c" using c by (simp add: load_conn_def)
  have "?s1 = s\<lparr>w_conns := AList.update cid c (w_conns s), sv_hub := h\<rparr>" by (simp add: AList.update_triv [OF c'])
  then have f1: "gate_frame cid c s ?s1" unfolding gate_frame_def
    by (intro exI [of _ c] exI [of _ h]) (simp add: gated_same_def)
  have cl: "cl\<lparr>cl_bytes := cl_bytes (cn_limiter c)\<rparr> = cn_limiter c"
    using b by (auto simp: allow_inbound_bytes_def case_prod_unfold Let_def)
  have "?s2 = s\<lparr>w_conns := AList.update cid ?c (w_conns s), sv_hub := h\<rparr>"
    using c' by (simp add: update_conn_def conn_op_def)
  then have f2: "gate_frame cid c s ?s2" unfolding gate_frame_def
    by (intro exI [of _ ?c] exI [of _ h]) (simp add: gated_same_def settled_def cl)
  have g: "nip42_connect_gate (re_cfg env) ?c" using gate by (simp add: nip42_connect_gate_def nip42_has_any_auth_def split: if_splits)
  note run = dispatch_payload_def c t m b
  show ?thesis
  proof (cases "ok \<and> ok2")
    case False
    then show ?thesis using gate_frame_notice [OF f1] gate_frame_notice [OF f2] by (cases ok) (simp_all add: run)
  next
    case True
    show ?thesis
    proof (cases "\<exists>j msg. data = Some j \<and> parse_message j = Inr msg")
      case False
      then have "dispatch_payload reconcile env p rd cid len data s = Some (notice cid ''invalid message'' ?s2)"
        using True by (auto simp: run Let_def split: option.split sum.split)
      then show ?thesis using gate_frame_notice [OF f2] by simp
    next
      case parsed: True
      then obtain j msg where j: "data = Some j" "parse_message j = Inr msg" by blast
      then have "\<not> is_auth_message msg" using no_auth [OF j(1)] by (cases msg) auto
      then show ?thesis
        using True j g gate_frame_reject [OF f2] by (simp add: run dispatch_message_def)
    qed
  qed
qed

section \<open>Properties\<close>

text \<open>C21: Until a connection has authenticated, a relay that requires AUTH on connect processes nothing
  but AUTH: any other payload - a message, a malformed one, or one over a limit - leaves the store,
  the subscriptions, the queues, the plugins and every other connection untouched, keeps the
  connection behind the gate, and spends neither its idle clock nor the budgets AUTH needs. What may
  change is the connection's own queue and challenge, its byte budget and the windows of its
  address.\<close>

theorem connect_gate_protects:
  assumes "load_conn cid s = Some c" and "nip42_connect_gate (re_cfg env) c"
    and "\<forall>j ev. data = Some j \<longrightarrow> parse_message j \<noteq> Inr (AuthMessage ev)"
  shows "\<exists>s' c'. dispatch_payload reconcile env p rd cid len data s = Some s' \<and>
    sv_store s' = sv_store s \<and> w_subs s' = w_subs s \<and> sv_jobs s' = sv_jobs s \<and> sv_neg_jobs s' = sv_neg_jobs s \<and>
    sv_plugin_events s' = sv_plugin_events s \<and> sv_observed s' = sv_observed s \<and>
    (\<forall>cid'. cid' \<noteq> cid \<longrightarrow> load_conn cid' s' = load_conn cid' s) \<and>
    load_conn cid s' = Some c' \<and> nip42_connect_gate (re_cfg env) c' \<and>
    cn_idle_since_unix c' = cn_idle_since_unix c \<and> cn_client_event_total c' = cn_client_event_total c \<and>
    cl_reqs (cn_limiter c') = cl_reqs (cn_limiter c) \<and> cl_events (cn_limiter c') = cl_events (cn_limiter c)"
proof -
  obtain s' where run: "dispatch_payload reconcile env p rd cid len data s = Some s'" and "gate_frame cid c s s'"
    using dispatch_payload_gated [OF assms(1,2)] assms(3) by blast
  then obtain c' h where s': "s' = s\<lparr>w_conns := AList.update cid c' (w_conns s), sv_hub := h\<rparr>" "gated_same c c'"
    by (auto simp: gate_frame_def)
  have l: "(cn_limiter c')\<lparr>cl_bytes := cl_bytes (cn_limiter c)\<rparr> = cn_limiter c" using s'(2) by (simp add: gated_same_def)
  have "cl_reqs (cn_limiter c') = cl_reqs (cn_limiter c)" "cl_events (cn_limiter c') = cl_events (cn_limiter c)"
    using arg_cong [OF l, of cl_reqs] arg_cong [OF l, of cl_events] by simp_all
  moreover have "nip42_connect_gate (re_cfg env) c'"
    using assms(2) s'(2) by (simp add: nip42_connect_gate_def nip42_has_any_auth_def gated_same_def split: if_splits)
  ultimately show ?thesis
    using run s'(2) by (intro exI [of _ s'] exI [of _ c']) (simp add: s'(1) load_conn_def gated_same_def)
qed

definition demo_reading :: reading where
  "demo_reading = \<lparr>rd_fuel = 1, rd_fresh = ''x'', rd_ip_times = (0, 0, 0), rd_bytes_time = 0, rd_limit_time = 0,
     rd_now = 0, rd_hook_now = (0, 0)\<rparr>"

definition gate_env :: "event_db relay_env" where
  "gate_env = demo_env\<lparr>re_cfg := wrap_config\<lparr>nip42 := (nip42 wrap_config)\<lparr>require_auth := ''connect''\<rparr>\<rparr>\<rparr>"

theorem connect_gate_protects_witness:
  "\<exists>s'. dispatch_payload (\<lambda>_ _ _ _. Inl []) gate_env new_pipeline demo_reading ''c1'' 20
     (Some (JArr [JStr ''REQ'', JStr ''t'', JObj []])) demo_server = Some s' \<and> w_subs s' = w_subs demo_server"
proof -
  let ?j = "JArr [JStr ''REQ'', JStr ''t'', JObj []]"
  have "nip42_connect_gate (re_cfg gate_env) sample_conn" by code_simp
  moreover have "parse_message ?j = Inr (ReqMessage ''t'' [empty_filter])" by code_simp
  ultimately show ?thesis
    using connect_gate_protects [OF demo_server_conn, of gate_env "Some ?j" "\<lambda>_ _ _ _. Inl []" new_pipeline
      demo_reading 20] by auto
qed

text \<open>The enabled NIPs determine the pipeline, and nothing else about the configuration's list
  does: loading succeeds exactly when every NIP is implemented; then the signature is checked
  first, no validator runs twice however often a NIP is listed, each enabled NIP contributes its
  validators, the group hook runs before plugins and the broadcast, and a command has a handler -
  the one for its own message type - exactly when its NIP is enabled.\<close>

theorem enabled_nips_give_pipeline:
  assumes "load_enabled cfg new_pipeline = Inr p" and "E = set (nips_enabled cfg)"
  shows "list_all is_implemented (nips_enabled cfg) \<and> hd (pl_validators p) = VSig \<and> distinct (pl_validators p) \<and>
    set (pl_validators p) = {VSig, VNip17Reject} \<union> (if 42 \<in> E then {VNip42Publish} else {}) \<union>
      (if 29 \<in> E then {VNip29Tags, VNip29Previous, VNip29Late, VNip29Restricted, VNip29Moderation} else {}) \<union>
      (if 17 \<in> E then {VNip17Published} else {}) \<and>
    pl_hooks p = (if 29 \<in> E then [HNip29PostStore] else []) @ [HPluginOnStored, HNip01Broadcast, HNip01Audit] \<and>
    map_of (pl_handlers p) (message_type msg) =
      (case msg of
         EventMessage _ \<Rightarrow> Some OnEvent
       | ReqMessage _ _ \<Rightarrow> Some (OnReq (50 \<in> E))
       | CloseMessage _ \<Rightarrow> Some OnClose
       | AuthMessage _ \<Rightarrow> if 42 \<in> E then Some OnAuth else None
       | NegOpenMessage _ _ _ \<Rightarrow> if 77 \<in> E then Some OnNegOpen else None
       | NegMsgMessage _ _ \<Rightarrow> if 77 \<in> E then Some OnNegMsg else None
       | NegCloseMessage _ \<Rightarrow> if 77 \<in> E then Some OnNegClose else None)"
proof -
  obtain vs where vs: "pl_validators p = VSig # vs @ VNip17Reject # (if nip17_enabled cfg then [VNip17Published] else [])"
    "distinct vs" "set vs = (\<Union>n \<in> E. set (nip_validators cfg n))"
    using loaded_pipeline(2) [OF assms(1)] assms(2) by blast
  have e: "nip29_enabled cfg \<longleftrightarrow> 29 \<in> E" "nip17_enabled cfg \<longleftrightarrow> 17 \<in> E"
    by (auto simp: nip29_enabled_def nip17_enabled_def list_ex_iff assms(2))
  have set_vs: "set vs = (if 42 \<in> E then {VNip42Publish} else {}) \<union>
      (if 29 \<in> E then {VNip29Tags, VNip29Previous, VNip29Late, VNip29Restricted, VNip29Moderation} else {})"
    unfolding vs(3) by (auto simp: nip_validators_def e split: if_splits)
  have "list_all is_implemented (nips_enabled cfg)" using load_enabled_iff assms(1) by blast
  moreover have "distinct (pl_validators p)" using vs(1,2) set_vs by (auto split: if_splits)
  moreover have "set (pl_validators p) = {VSig, VNip17Reject} \<union> set vs \<union> (if 17 \<in> E then {VNip17Published} else {})"
    using vs(1) e by auto
  moreover have "hd (pl_validators p) = VSig" by (simp add: vs(1))
  ultimately show ?thesis
    using loaded_pipeline(3) [OF assms(1)] loaded_handler [OF assms(1), of msg]
    unfolding set_vs e assms(2) [symmetric] by (simp only: Un_assoc simp_thms)
qed

theorem enabled_nips_give_pipeline_witness:
  "\<exists>p. load_enabled (default_config\<lparr>nips_enabled := [1, 42, 77, 42]\<rparr>) new_pipeline = Inr p \<and>
     distinct (pl_validators p) \<and> set (pl_validators p) = {VSig, VNip17Reject, VNip42Publish}"
proof -
  let ?cfg = "default_config\<lparr>nips_enabled := [1, 42, 77, 42]\<rparr>"
  have "list_all is_implemented (nips_enabled ?cfg)" by (simp add: is_implemented_def)
  then obtain p where p: "load_enabled ?cfg new_pipeline = Inr p" using load_enabled_iff by blast
  from enabled_nips_give_pipeline [OF p refl, of "CloseMessage []"] have "distinct (pl_validators p)"
    "set (pl_validators p) = {VSig, VNip17Reject, VNip42Publish}" by (simp_all add: insert_commute)
  with p show ?thesis by blast
qed

end
