(* ===== verification/Relay_Http.thy ===== *)
theory Relay_Http
  imports Relay_Config
begin

text \<open>
  The HTTP side of \<open>internal/relay/relay.go\<close>: who a request comes from (\<open>clientIP\<close> and the
  trust in proxies), which requests are WebSocket upgrades, where \<open>handleRoot\<close> sends a request,
  the start-up checks of \<open>NewServer\<close>, and the limits \<open>nip11.go\<close> advertises.

  A request is its method, path, remote address and headers, the values by canonical name. Parsing
  of addresses and prefixes is Go's \<open>net\<close> and \<open>netip\<close>, the parameter \<open>netlib\<close>: \<open>nl_parse_ip\<close>
  gives the canonical text of an address, \<open>nl_parse_addr\<close> the unmapped address a prefix is
  compared with.
\<close>

section \<open>Requests and headers\<close>

record http_request =
  hr_method :: string
  hr_path :: string
  hr_remote_addr :: string
  hr_headers :: "(string, string list) go_map"

definition header_values :: "http_request \<Rightarrow> string \<Rightarrow> string list" where
  "header_values r key = (case map_of (hr_headers r) key of None \<Rightarrow> [] | Some vs \<Rightarrow> vs)"

definition header_get :: "http_request \<Rightarrow> string \<Rightarrow> string" where
  "header_get r key = (case header_values r key of [] \<Rightarrow> [] | v # _ \<Rightarrow> v)"

text \<open>Go's \<open>http.CanonicalHeaderKey\<close>: a name with a byte that no header may have is left alone,
  otherwise the first letter and each letter after a hyphen become upper case, the rest lower.\<close>

definition upper_char :: "char \<Rightarrow> char" where
  "upper_char c = (if CHR ''a'' \<le> c \<and> c \<le> CHR ''z'' then char_of (of_char c - (32::nat)) else c)"

definition is_token_char :: "char \<Rightarrow> bool" where
  "is_token_char c \<longleftrightarrow> (CHR ''a'' \<le> c \<and> c \<le> CHR ''z'') \<or> (CHR ''A'' \<le> c \<and> c \<le> CHR ''Z'') \<or>
     (CHR ''0'' \<le> c \<and> c \<le> CHR ''9'') \<or> c \<in> set ''!#$%&*+-.^_|~'' \<or> c = CHR 0x27 \<or> c = CHR 0x60"

fun canonical_loop :: "bool \<Rightarrow> string \<Rightarrow> string" where
  "canonical_loop upper [] = []"
| "canonical_loop upper (c # cs) =
     (if upper then upper_char c else lower_char c) # canonical_loop (c = CHR ''-'') cs"

definition canonical_header_key :: "string \<Rightarrow> string" where
  "canonical_header_key s = (if list_all is_token_char s then canonical_loop True s else s)"

fun split_comma_loop :: "string \<Rightarrow> string \<Rightarrow> string list" where
  "split_comma_loop [] part = [part]"
| "split_comma_loop (c # cs) part =
     (if c = CHR '','' then part # split_comma_loop cs [] else split_comma_loop cs (part @ [c]))"

definition split_comma :: "string \<Rightarrow> string list" where
  "split_comma s = split_comma_loop s []"

fun join_comma :: "string list \<Rightarrow> string" where
  "join_comma [] = []"
| "join_comma [v] = v"
| "join_comma (v # vs) = v @ '','' @ join_comma vs"

definition is_blank :: "char \<Rightarrow> bool" where
  "is_blank c \<longleftrightarrow> c = CHR '' '' \<or> c = CHR 0x09"

definition strings_trim_space :: "string \<Rightarrow> string" where
  "strings_trim_space s = rev (dropWhile is_blank (rev (dropWhile is_blank s)))"

fun fold_eq_loop :: "string \<Rightarrow> string \<Rightarrow> bool" where
  "fold_eq_loop [] b = True"
| "fold_eq_loop (x # xs) b =
     (case b of [] \<Rightarrow> True | y # ys \<Rightarrow> if lower_char x \<noteq> lower_char y then False else fold_eq_loop xs ys)"

definition strings_fold_eq :: "string \<Rightarrow> string \<Rightarrow> bool" where
  "strings_fold_eq a b = (if length a \<noteq> length b then False else fold_eq_loop a b)"

definition contains_token_fold :: "string \<Rightarrow> string \<Rightarrow> bool" where
  "contains_token_fold s tok = list_ex (\<lambda>part. strings_fold_eq (strings_trim_space part) tok) (split_comma s)"

definition is_websocket_upgrade :: "http_request \<Rightarrow> bool" where
  "is_websocket_upgrade r =
     (let conn = header_get r ''Connection''; up = header_get r ''Upgrade''
      in (conn \<noteq> [] \<and> contains_token_fold conn ''upgrade'') \<and> strings_fold_eq up ''websocket'')"

fun has_substring :: "string \<Rightarrow> string \<Rightarrow> bool" where
  "has_substring [] sub = (sub = [])"
| "has_substring (c # cs) sub = (has_prefix (c # cs) sub \<or> has_substring cs sub)"

definition accepts_nostr_json :: "http_request \<Rightarrow> bool" where
  "accepts_nostr_json r = has_substring (header_get r ''Accept'') ''application/nostr+json''"

section \<open>Client address\<close>

definition peer_ip :: "netlib \<Rightarrow> string \<Rightarrow> string" where
  "peer_ip nl remote = (case nl_split_host_port nl remote of None \<Rightarrow> remote | Some (host, _) \<Rightarrow> host)"

definition parse_client_ip_header :: "netlib \<Rightarrow> string \<Rightarrow> string option" where
  "parse_client_ip_header nl v = (let trimmed = trim_space v in if trimmed = [] then None else nl_parse_ip nl trimmed)"

definition trusted_proxy :: "netlib \<Rightarrow> string list \<Rightarrow> string \<Rightarrow> bool" where
  "trusted_proxy nl prefixes ip =
     (case nl_parse_addr nl ip of None \<Rightarrow> False | Some addr \<Rightarrow> list_ex (\<lambda>p. nl_prefix_contains nl p addr) prefixes)"

text \<open>The walk over the chain from its end; the list is the chain reversed.\<close>

fun client_ip_walk :: "netlib \<Rightarrow> string list \<Rightarrow> string \<Rightarrow> string list \<Rightarrow> string" where
  "client_ip_walk nl prefixes peer [] = peer"
| "client_ip_walk nl prefixes peer (hop # hops) =
     (case parse_client_ip_header nl hop of
        None \<Rightarrow> peer
      | Some ip \<Rightarrow> if \<not> trusted_proxy nl prefixes ip then ip else client_ip_walk nl prefixes peer hops)"

definition client_ip :: "netlib \<Rightarrow> string list \<Rightarrow> string \<Rightarrow> http_request \<Rightarrow> string" where
  "client_ip nl prefixes header r =
     (let peer = peer_ip nl (hr_remote_addr r);
          peer = (case parse_client_ip_header nl peer of None \<Rightarrow> peer | Some canonical \<Rightarrow> canonical)
      in if \<not> trusted_proxy nl prefixes peer then peer
         else if header \<noteq> ''X-Forwarded-For'' then
           (let values = header_values r header in
            if length values = 1
            then (case parse_client_ip_header nl (values ! 0) of Some ip \<Rightarrow> ip | None \<Rightarrow> peer)
            else peer)
         else client_ip_walk nl prefixes peer (rev (split_comma (join_comma (header_values r ''X-Forwarded-For'')))))"

section \<open>Start-up checks and routing\<close>

text \<open>What \<open>NewServer\<close> derives from the connection limits: the trusted prefixes and the header.\<close>

definition new_server_check :: "netlib \<Rightarrow> config \<Rightarrow> (string list \<times> string) result" where
  "new_server_check nl cfg =
     (let limits = connection_limits cfg in
      if list_ex (trusted_cidr_bad nl) (trusted_proxy_cidrs limits) then Inl ''relay: invalid trusted proxy CIDR''
      else let header = canonical_header_key (trusted_proxy_client_ip_header limits);
               header = (if header = [] then ''X-Forwarded-For'' else header)
           in if header \<in> set [''X-Forwarded-For'', ''Fly-Client-Ip'', ''Cf-Connecting-Ip'', ''X-Real-Ip'']
              then Inr (trusted_proxy_cidrs limits, header)
              else Inl ''relay: unsupported trusted proxy client IP header'')"

datatype root_answer =
    RootNotFound | RootPreflight | RootMethodNotAllowed | RootWebSocket | RootInformation | RootUpgradeRequired

definition handle_root :: "bool \<Rightarrow> http_request \<Rightarrow> root_answer" where
  "handle_root cors r =
     (if hr_path r \<noteq> ''/'' then RootNotFound
      else if hr_method r = ''OPTIONS'' \<and> cors \<and> \<not> is_websocket_upgrade r then RootPreflight
      else if hr_method r \<noteq> ''GET'' then RootMethodNotAllowed
      else if is_websocket_upgrade r then RootWebSocket
      else if accepts_nostr_json r then RootInformation
      else RootUpgradeRequired)"

section \<open>Facts\<close>

lemma split_comma_loop_append:
  "split_comma_loop (s @ CHR '','' # t) part = split_comma_loop s part @ split_comma_loop t []"
  by (induction s part rule: split_comma_loop.induct) auto

lemma split_join: "vs \<noteq> [] \<Longrightarrow> split_comma (join_comma vs) = concat (map split_comma vs)"
  by (induction vs rule: join_comma.induct) (simp_all add: split_comma_def split_comma_loop_append)

lemma fold_eq_loop_iff: "length a = length b \<Longrightarrow> fold_eq_loop a b \<longleftrightarrow> to_lower a = to_lower b"
  by (induction a b rule: list_induct2) (auto simp: to_lower_def)

lemma strings_fold_eq_iff: "strings_fold_eq a b \<longleftrightarrow> to_lower a = to_lower b"
  using fold_eq_loop_iff [of a b] by (auto simp: strings_fold_eq_def dest: map_eq_imp_length_eq simp: to_lower_def)

lemma walk_skips_proxies:
  "(\<forall>p \<in> set proxies. \<exists>a. parse_client_ip_header nl p = Some a \<and> trusted_proxy nl prefixes a) \<Longrightarrow>
   client_ip_walk nl prefixes peer (proxies @ hops) = client_ip_walk nl prefixes peer hops"
  by (induction proxies) auto

lemma has_substring_iff: "has_substring s sub \<longleftrightarrow> (\<exists>a b. s = a @ sub @ b)"
proof (induction s)
  case (Cons c cs)
  have "has_prefix (c # cs) sub \<longleftrightarrow> (\<exists>b. c # cs = sub @ b)"
    by (auto simp: has_prefix_def) (metis append_take_drop_id)
  then show ?case using Cons by (auto simp: Cons_eq_append_conv)
qed auto

lemma fold_char:
  "upper_char (lower_char c) = upper_char c" "lower_char c = CHR ''-'' \<longleftrightarrow> c = CHR ''-''"
  "is_token_char (lower_char c) = is_token_char c"
proof -
  have "\<forall>c. upper_char (lower_char c) = upper_char c" by code_simp
  then show "upper_char (lower_char c) = upper_char c" by blast
  have "\<forall>c. (lower_char c = CHR ''-'') = (c = CHR ''-'')" by code_simp
  then show "lower_char c = CHR ''-'' \<longleftrightarrow> c = CHR ''-''" by blast
  have "\<forall>c. is_token_char (lower_char c) = is_token_char c" by code_simp
  then show "is_token_char (lower_char c) = is_token_char c" by blast
qed

lemma canonical_loop_lower: "canonical_loop u (to_lower s) = canonical_loop u s"
  by (induction u s rule: canonical_loop.induct) (simp_all add: to_lower_def fold_char)

lemma canonical_header_key_lower: "list_all is_token_char (to_lower s) \<Longrightarrow> canonical_header_key s = canonical_header_key (to_lower s)"
  by (simp add: canonical_header_key_def canonical_loop_lower) (simp add: to_lower_def list_all_iff fold_char)

lemma limits_start:
  assumes "validate_limits nl c = None"
  shows "\<exists>header. new_server_check nl c = Inr (trusted_proxy_cidrs (connection_limits c), header)"
proof -
  let ?h = "trusted_proxy_client_ip_header (connection_limits c)"
  have cidrs: "\<not> list_ex (trusted_cidr_bad nl) (trusted_proxy_cidrs (connection_limits c))"
    and h: "to_lower ?h \<in> set [[], ''x-forwarded-for'', ''fly-client-ip'', ''cf-connecting-ip'', ''x-real-ip'']"
    using assms unfolding validate_limits_def first_error_None_iff Let_def by auto
  have "list_all (\<lambda>l. list_all is_token_char l \<and> canonical_header_key l \<in>
      set [[], ''X-Forwarded-For'', ''Fly-Client-Ip'', ''Cf-Connecting-Ip'', ''X-Real-Ip''])
      [[], ''x-forwarded-for'', ''fly-client-ip'', ''cf-connecting-ip'', ''x-real-ip'']" by code_simp
  then have "list_all is_token_char (to_lower ?h) \<and> canonical_header_key (to_lower ?h) \<in>
      set [[], ''X-Forwarded-For'', ''Fly-Client-Ip'', ''Cf-Connecting-Ip'', ''X-Real-Ip'']"
    using h unfolding list_all_iff [of _ "[[], _, _, _, _]"] by blast
  then have "canonical_header_key ?h \<in>
      set [[], ''X-Forwarded-For'', ''Fly-Client-Ip'', ''Cf-Connecting-Ip'', ''X-Real-Ip'']"
    using canonical_header_key_lower by metis
  then show ?thesis using cidrs by (auto simp: new_server_check_def Let_def)
qed

section \<open>Properties\<close>

text \<open>C30: A client cannot choose the address it is limited by. Unless the socket's peer is a trusted
  proxy no header counts; behind one, the forwarded chain is read from its end, trusted hops are
  skipped, and the first hop that is not one decides - its address if it parses, else the peer -
  whatever a client put before it.\<close>

theorem client_ip_trust_boundary:
  assumes "peer = client_ip nl [] ''X-Forwarded-For'' r"
    and "concat (map split_comma (header_values r ''X-Forwarded-For'')) = forged @ hop # proxies"
    and "\<forall>p \<in> set proxies. \<exists>a. parse_client_ip_header nl p = Some a \<and> trusted_proxy nl prefixes a"
    and "\<forall>a. parse_client_ip_header nl hop = Some a \<longrightarrow> \<not> trusted_proxy nl prefixes a"
  shows "client_ip nl prefixes ''X-Forwarded-For'' r =
    (if trusted_proxy nl prefixes peer
     then (case parse_client_ip_header nl hop of None \<Rightarrow> peer | Some a \<Rightarrow> a) else peer) \<and>
    (\<not> trusted_proxy nl prefixes peer \<longrightarrow> (\<forall>header hs. client_ip nl prefixes header (r\<lparr>hr_headers := hs\<rparr>) = peer))"
proof -
  have none: "\<not> trusted_proxy nl [] ip" for ip by (simp add: trusted_proxy_def split: option.split)
  have peer: "peer = (case parse_client_ip_header nl (peer_ip nl (hr_remote_addr r)) of
      None \<Rightarrow> peer_ip nl (hr_remote_addr r) | Some canonical \<Rightarrow> canonical)"
    unfolding assms(1) by (simp add: client_ip_def none Let_def)
  have "header_values r ''X-Forwarded-For'' \<noteq> []" using assms(2) by auto
  then have chain: "rev (split_comma (join_comma (header_values r ''X-Forwarded-For''))) = rev proxies @ hop # rev forged"
    by (simp add: split_join assms(2))
  have "client_ip_walk nl prefixes peer (rev proxies @ hop # rev forged) =
      (case parse_client_ip_header nl hop of None \<Rightarrow> peer | Some a \<Rightarrow> a)"
    using assms(3,4) by (subst walk_skips_proxies) (auto split: option.split)
  then show ?thesis
    by (simp add: client_ip_def Let_def chain flip: peer)
qed

definition ip_netlib :: netlib where
  "ip_netlib = no_netlib\<lparr>nl_prefix_contains := (\<lambda>p a. has_prefix a p), nl_parse_addr := Some, nl_parse_ip := Some\<rparr>"

theorem client_ip_trust_boundary_witness:
  "client_ip ip_netlib [''10.''] ''X-Forwarded-For''
     \<lparr>hr_method = ''GET'', hr_path = ''/'', hr_remote_addr = ''10.0.0.1'',
      hr_headers = [(''X-Forwarded-For'', [''192.0.2.99'', ''198.51.100.8,10.0.0.2''])]\<rparr> = ''198.51.100.8''"
proof -
  let ?r = "\<lparr>hr_method = ''GET'', hr_path = ''/'', hr_remote_addr = ''10.0.0.1'',
      hr_headers = [(''X-Forwarded-For'', [''192.0.2.99'', ''198.51.100.8,10.0.0.2''])]\<rparr>"
  have 1: "''10.0.0.1'' = client_ip ip_netlib [] ''X-Forwarded-For'' ?r" by code_simp
  have 2: "concat (map split_comma (header_values ?r ''X-Forwarded-For'')) =
      [''192.0.2.99''] @ ''198.51.100.8'' # [''10.0.0.2'']" by code_simp
  have 3: "parse_client_ip_header ip_netlib ''10.0.0.2'' = Some ''10.0.0.2''"
    "trusted_proxy ip_netlib [''10.''] ''10.0.0.2''" "trusted_proxy ip_netlib [''10.''] ''10.0.0.1''"
    "parse_client_ip_header ip_netlib ''198.51.100.8'' = Some ''198.51.100.8''"
    "\<not> trusted_proxy ip_netlib [''10.''] ''198.51.100.8''" by code_simp+
  show ?thesis using client_ip_trust_boundary [OF 1 2, of "[''10.'']"] 3 by simp
qed

end
