(* ===== verification/Upstream_Sync.thy ===== *)
theory Upstream_Sync
  imports Neg_Sessions
begin

text \<open>
  Pulling missing events from other relays: \<open>client.go\<close>, \<open>auth.go\<close> and \<open>scheduler.go\<close> in
  \<open>internal/nip77/upstream\<close>.

  A connection is what the upstream will send, with the times at which it arrives, and what was sent
  to it. Time is in nanoseconds and passes while a read waits. gorilla/websocket is modelled as it is
  documented: a read ends with the next message, with the connection's failure or at its deadline,
  and an error of a read is permanent. The negentropy client is a parameter: its answers are
  functions of the local items, the frame limit and the messages received so far. Dialling is the
  result \<open>dial\<close> gives for a URL. The scheduler's context has no deadline, and reads do not end when
  it is cancelled. Logging, metrics and audit entries are left out.
\<close>

section \<open>The client connection\<close>

datatype read_error = ReadTimeout | ReadFailed string

datatype peer_item = PeerText "json result" | PeerFail string

record upstream_conn =
  uc_inbox :: "(int \<times> peer_item) list"
  uc_now :: int
  uc_broken :: "read_error option"
  uc_sent :: "json list"
  uc_writes :: nat
  uc_fetch_seq :: nat

fun read_error_text :: "read_error \<Rightarrow> string" where
  "read_error_text ReadTimeout = ''i/o timeout''"
| "read_error_text (ReadFailed e) = e"

definition is_timeout_err :: "read_error \<Rightarrow> bool" where
  "is_timeout_err e \<longleftrightarrow> e = ReadTimeout"

fun cut_path :: "string \<Rightarrow> string" where
  "cut_path [] = []"
| "cut_path (c # cs) = (if c \<in> set ''/?#'' then [] else c # cut_path cs)"

definition origin_from_ws_url :: "string \<Rightarrow> string" where
  "origin_from_ws_url raw =
     (if has_prefix raw ''wss://'' then ''https://'' @ cut_path (trim_prefix raw ''wss://'')
      else if has_prefix raw ''ws://'' then ''http://'' @ cut_path (trim_prefix raw ''ws://'')
      else [])"

definition send_json :: "json \<Rightarrow> upstream_conn \<Rightarrow> string option \<times> upstream_conn" where
  "send_json v c =
     (if uc_writes c = 0 then (Some ''write failed'', c)
      else (None, c\<lparr>uc_sent := uc_sent c @ [v], uc_writes := uc_writes c - 1\<rparr>))"

definition next_message :: "int \<Rightarrow> upstream_conn \<Rightarrow> (read_error + json result) \<times> upstream_conn" where
  "next_message deadline c =
     (case uc_broken c of Some e \<Rightarrow> (Inl e, c) | None \<Rightarrow>
     (let expired = (Inl ReadTimeout, c\<lparr>uc_now := deadline, uc_broken := Some ReadTimeout\<rparr>) in
      case uc_inbox c of
        [] \<Rightarrow> expired
      | (t, m) # rest \<Rightarrow>
          if deadline < t then expired
          else let c = c\<lparr>uc_inbox := rest, uc_now := max (uc_now c) t\<rparr> in
            case m of
              PeerFail e \<Rightarrow> (Inl (ReadFailed e), c\<lparr>uc_broken := Some (ReadFailed e)\<rparr>)
            | PeerText data \<Rightarrow> (Inr data, c)))"

definition read_message :: "int \<Rightarrow> upstream_conn \<Rightarrow> (read_error + string \<times> json list) \<times> upstream_conn" where
  "read_message timeout c =
     (let timeout = (if timeout \<le> 0 then 60 * second else timeout) in
      case next_message (uc_now c + timeout) c of
        (Inl e, c) \<Rightarrow> (Inl e, c)
      | (Inr data, c) \<Rightarrow>
          ((case data of Inl e \<Rightarrow> Inl (ReadFailed e) | Inr v \<Rightarrow>
           (case raw_array v of Inl e \<Rightarrow> Inl (ReadFailed e) | Inr raw \<Rightarrow>
            if length raw = 0 then Inl (ReadFailed ''empty message'')
            else (case decode_string [] (raw ! 0) of Inl e \<Rightarrow> Inl (ReadFailed e) | Inr typ \<Rightarrow> Inr (typ, raw)))), c))"

section \<open>Fetching one event\<close>

definition for_subscription :: "string \<Rightarrow> json list \<Rightarrow> bool" where
  "for_subscription sid raw \<longleftrightarrow> 2 \<le> length raw \<and> decode_string [] (raw ! 1) = Inr sid"

lemma next_message_inbox:
  "next_message dl c = (Inr data, c') \<Longrightarrow> length (uc_inbox c') < length (uc_inbox c)"
  by (auto simp: next_message_def Let_def split: option.splits list.splits prod.splits peer_item.splits if_splits)

lemma read_message_inbox:
  "read_message timeout c = (Inr r, c') \<Longrightarrow> length (uc_inbox c') < length (uc_inbox c)"
  by (auto simp: read_message_def Let_def split: sum.splits prod.splits if_splits dest!: next_message_inbox)

lemma send_json_simps [simp]:
  "uc_inbox (snd (send_json v c)) = uc_inbox c" "uc_now (snd (send_json v c)) = uc_now c"
  "uc_broken (snd (send_json v c)) = uc_broken c" "uc_fetch_seq (snd (send_json v c)) = uc_fetch_seq c"
  by (simp_all add: send_json_def)

lemma send_json_len: "send_json v c = (r, c') \<Longrightarrow> uc_inbox c' = uc_inbox c"
  using send_json_simps(1) [of v c] by simp

function fetch_loop :: "string \<Rightarrow> string \<Rightarrow> int \<Rightarrow> upstream_conn \<Rightarrow> event result \<times> upstream_conn" where
  "fetch_loop sid i deadline c =
     (if \<not> uc_now c < deadline then (Inl ''context deadline exceeded'', c)
      else case read_message (30 * second) c of
        (Inl e, c) \<Rightarrow> (Inl (read_error_text e), c)
      | (Inr (typ, raw), c) \<Rightarrow>
          if (typ = ''EVENT'' \<or> typ = ''EOSE'') \<and> \<not> for_subscription sid raw then fetch_loop sid i deadline c
          else if typ = ''EVENT'' then
            (if length raw < 3 then fetch_loop sid i deadline c
             else case decode_event (raw ! 2) of
               Inl _ \<Rightarrow> fetch_loop sid i deadline c
             | Inr ev \<Rightarrow>
                 if ev_id ev = i then (Inr ev, snd (send_json (JArr [JStr ''CLOSE'', JStr sid]) c))
                 else fetch_loop sid i deadline c)
          else if typ = ''EOSE'' then
            (Inl (''event not found: '' @ i), snd (send_json (JArr [JStr ''CLOSE'', JStr sid]) c))
          else fetch_loop sid i deadline c)"
  by pat_completeness auto

termination
  by (relation "measure (\<lambda>(_, _, _, c). length (uc_inbox c))") (auto dest: read_message_inbox [OF sym])

declare fetch_loop.simps [simp del]

definition req_event_by_id :: "string \<Rightarrow> upstream_conn \<Rightarrow> event result \<times> upstream_conn" where
  "req_event_by_id i c =
     (let c = c\<lparr>uc_fetch_seq := uc_fetch_seq c + 1\<rparr>;
          sid = ''fetch-'' @ show_nat (uc_fetch_seq c)
      in case send_json (JArr [JStr ''REQ'', JStr sid, JObj [(''ids'', JArr [JStr i])]]) c of
           (Some e, c) \<Rightarrow> (Inl e, c)
         | (None, c) \<Rightarrow> fetch_loop sid i (uc_now c + 30 * second) c)"

section \<open>Authentication towards the upstream\<close>

definition json_string_at :: "json list \<Rightarrow> nat \<Rightarrow> string" where
  "json_string_at payload i =
     (if length payload \<le> i then [] else case decode_string [] (payload ! i) of Inl _ \<Rightarrow> [] | Inr s \<Rightarrow> s)"

definition json_bool_at :: "json list \<Rightarrow> nat \<Rightarrow> bool" where
  "json_bool_at payload i \<longleftrightarrow> i < length payload \<and> payload ! i = JBool True"

definition auth_relay_tag :: "netlib \<Rightarrow> string \<Rightarrow> string" where
  "auth_relay_tag nl raw = (case normalize_nip42_relay_url nl raw of Inl _ \<Rightarrow> raw | Inr n \<Rightarrow> n)"

definition build_upstream_auth_event :: "'st relay_env \<Rightarrow> int \<Rightarrow> string \<Rightarrow> string \<Rightarrow> event result" where
  "build_upstream_auth_event env now ru challenge =
     (if re_relay_id env = None then Inl ''upstream AUTH requires relay identity''
      else if challenge = [] then Inl ''empty AUTH challenge''
      else sign_event env (relay_event now nip42_auth_event_kind
        [[''relay'', auth_relay_tag (re_net env) ru], [''challenge'', challenge]]))"

definition unix_now :: "upstream_conn \<Rightarrow> int" where
  "unix_now c = uc_now c div second"

definition answer_auth :: "'st relay_env \<Rightarrow> string \<Rightarrow> string \<Rightarrow> upstream_conn \<Rightarrow> string option \<times> upstream_conn" where
  "answer_auth env ru challenge c =
     (case build_upstream_auth_event env (unix_now c) ru challenge of
        Inl e \<Rightarrow> (Some e, c)
      | Inr ev \<Rightarrow>
          (case send_json (JArr [JStr ''AUTH'', event_json ev]) c of
             (Some e, c) \<Rightarrow> (Some (''send AUTH: '' @ e), c)
           | (None, c) \<Rightarrow> (None, c)))"

lemma answer_auth_inbox [simp]:
  "uc_inbox (snd (answer_auth env url ch c)) = uc_inbox c" "uc_now (snd (answer_auth env url ch c)) = uc_now c"
  "uc_broken (snd (answer_auth env url ch c)) = uc_broken c"
  "uc_fetch_seq (snd (answer_auth env url ch c)) = uc_fetch_seq c"
  by (simp_all add: answer_auth_def send_json_def split: sum.split)

lemma answer_auth_len: "answer_auth env url ch c = (r, c') \<Longrightarrow> uc_inbox c' = uc_inbox c"
  using answer_auth_inbox(1) [of env url ch c] by simp

function wait_auth_ok :: "'st relay_env \<Rightarrow> string \<Rightarrow> int \<Rightarrow> upstream_conn \<Rightarrow> string option \<times> upstream_conn" where
  "wait_auth_ok env ru timeout c =
     (case read_message timeout c of
        (Inl e, c) \<Rightarrow> (Some (if is_timeout_err e then ''timeout waiting for AUTH OK'' else read_error_text e), c)
      | (Inr (typ, payload), c) \<Rightarrow>
          if typ = ''OK'' then
            (if \<not> json_bool_at payload 2 then (Some (''AUTH rejected: '' @ json_string_at payload 3), c) else (None, c))
          else if typ = ''AUTH'' then
            (case answer_auth env ru (json_string_at payload 1) c of
               (Some e, c) \<Rightarrow> (Some e, c)
             | (None, c) \<Rightarrow> wait_auth_ok env ru timeout c)
          else wait_auth_ok env ru timeout c)"
  by pat_completeness auto

termination
  by (relation "measure (\<lambda>(_, _, _, c). length (uc_inbox c))") (auto dest!: read_message_inbox [OF sym] answer_auth_len [OF sym])

declare wait_auth_ok.simps [simp del]

definition millisecond :: int where "millisecond = 10 ^ 6"

function handshake_auth :: "'st relay_env \<Rightarrow> string \<Rightarrow> int \<Rightarrow> int \<Rightarrow> upstream_conn \<Rightarrow> string option \<times> upstream_conn" where
  "handshake_auth env ru deadline timeout c =
     (let remaining = deadline - uc_now c in
      if \<not> uc_now c < deadline \<or> remaining < millisecond then (None, c)
      else case read_message remaining c of
        (Inl e, c) \<Rightarrow> (if is_timeout_err e then None else Some (read_error_text e), c)
      | (Inr (typ, payload), c) \<Rightarrow>
          if typ = ''AUTH'' then
            (case answer_auth env ru (json_string_at payload 1) c of
               (Some e, c) \<Rightarrow> (Some e, c)
             | (None, c) \<Rightarrow> wait_auth_ok env ru timeout c)
          else handshake_auth env ru deadline timeout c)"
  by pat_completeness auto

termination
  by (relation "measure (\<lambda>(_, _, _, _, c). length (uc_inbox c))") (auto dest: read_message_inbox [OF sym])

declare handshake_auth.simps [simp del]

section \<open>Filters and reconciliation\<close>

fun parse_filters_from :: "nat \<Rightarrow> json list \<Rightarrow> filter list result" where
  "parse_filters_from i [] = Inr []"
| "parse_filters_from i (r # rs) =
     (case unmarshal_filter r of
        Inl e \<Rightarrow> Inl (''filter '' @ show_nat i @ '': '' @ e)
      | Inr f \<Rightarrow>
          if has_search f then Inl (''filter '' @ show_nat i @ '': search not supported'')
          else if length (f_kinds f) = 0 \<or> nip17_kind_gift_wrap \<in> set (f_kinds f) \<or>
            nip59_kind_ephemeral_gift_wrap \<in> set (f_kinds f)
          then Inl (''filter '' @ show_nat i @ '': gift-wrap kinds are not available for upstream sync'')
          else (case parse_filters_from (i + 1) rs of Inl e \<Rightarrow> Inl e | Inr fs \<Rightarrow> Inr (f # fs)))"

definition parse_upstream_filters :: "json list \<Rightarrow> filter list result" where
  "parse_upstream_filters raw = (if length raw = 0 then Inl ''no filters'' else parse_filters_from 0 raw)"

record neg_client =
  nc_start :: "sync_item list \<Rightarrow> int \<Rightarrow> string"
  nc_reconcile :: "sync_item list \<Rightarrow> int \<Rightarrow> string list \<Rightarrow> string \<Rightarrow> string result"
  nc_have_nots :: "sync_item list \<Rightarrow> int \<Rightarrow> string list \<Rightarrow> string list"

text \<open>The rounds after NEG-OPEN; the result is the list of messages the client has reconciled.\<close>

function neg_rounds :: "'st relay_env \<Rightarrow> neg_client \<Rightarrow> string \<Rightarrow> int \<Rightarrow> sync_item list \<Rightarrow> string \<Rightarrow> string list \<Rightarrow>
    upstream_conn \<Rightarrow> string list result \<times> upstream_conn" where
  "neg_rounds env nc ru limit items sid msgs c =
     (case read_message (effective_upstream_message_timeout (re_cfg env) * second) c of
        (Inl e, c) \<Rightarrow>
          (Inl (if is_timeout_err e then ''negentropy message timeout'' else read_error_text e), c)
      | (Inr (typ, payload), c) \<Rightarrow>
          if typ = ''NEG-ERR'' then (Inl (''upstream neg-err: '' @ json_string_at payload 2), c)
          else if typ = ''NEG-MSG'' then
            (let hex = to_lower (json_string_at payload 2) in
             case nc_reconcile nc items limit msgs hex of
               Inl e \<Rightarrow> (Inl e, c)
             | Inr out \<Rightarrow>
                 if out = [] then (Inr (msgs @ [hex]), snd (send_json (JArr [JStr ''NEG-CLOSE'', JStr sid]) c))
                 else (case send_json (JArr [JStr ''NEG-MSG'', JStr sid, JStr out]) c of
                   (Some e, c) \<Rightarrow> (Inl e, c)
                 | (None, c) \<Rightarrow> neg_rounds env nc ru limit items sid (msgs @ [hex]) c))
          else if typ = ''AUTH'' then
            (case answer_auth env ru (json_string_at payload 1) c of
               (Some e, c) \<Rightarrow> (Inl e, c)
             | (None, c) \<Rightarrow> neg_rounds env nc ru limit items sid msgs c)
          else neg_rounds env nc ru limit items sid msgs c)"
  by pat_completeness auto

termination
  by (relation "measure (\<lambda>(_, _, _, _, _, _, _, c). length (uc_inbox c))")
    (auto dest!: read_message_inbox [OF sym] answer_auth_len [OF sym] send_json_len [OF sym])

declare neg_rounds.simps [simp del]

definition collect_need_ids :: "string list \<Rightarrow> string list" where
  "collect_need_ids ids = List.filter (\<lambda>i. i \<noteq> []) ids"

section \<open>Importing\<close>

text \<open>The validators see a connection without any authenticated key.\<close>

definition blank_conn :: "config \<Rightarrow> conn" where
  "blank_conn cfg = new_conn cfg [] [] 0"

definition persist_imported_event :: "'st relay_env \<Rightarrow> int \<Rightarrow> validator list \<Rightarrow> event \<Rightarrow> 'st server \<Rightarrow>
    bool result \<times> 'st server" where
  "persist_imported_event env now vs ev s =
     (case so_has_id (re_ops env) (ev_id ev) (sv_store s) of
        Inl e \<Rightarrow> (Inl e, s)
      | Inr True \<Rightarrow> (Inr False, s)
      | Inr False \<Rightarrow>
     (case validate_imported_event env now vs (blank_conn (re_cfg env)) ev (sv_store s) of
        Some e \<Rightarrow> (Inl e, s)
      | None \<Rightarrow>
     (case save_in env ev s of
        (Some e, s) \<Rightarrow> (if e = err_stale_replaceable then Inr False else Inl e, s)
      | (None, s) \<Rightarrow> (Inr True, deliver_imported_event env ev s))))"

text \<open>One id of the loop over the missing ones.\<close>

definition import_id :: "'st relay_env \<Rightarrow> validator list \<Rightarrow> filter \<Rightarrow> string \<Rightarrow> int \<times> upstream_conn \<times> 'st server \<Rightarrow>
    int \<times> upstream_conn \<times> 'st server" where
  "import_id env vs f i st =
     (let (imported, c, s) = st in
      case req_event_by_id i c of
        (Inl _, c) \<Rightarrow> (imported, c, s)
      | (Inr ev, c) \<Rightarrow>
          if verify_sig (re_crypto env) ev \<noteq> None then (imported, c, s)
          else if \<not> filter_matches f ev then (imported, c, s)
          else (case persist_imported_event env (unix_now c) vs ev s of
            (Inr True, s) \<Rightarrow> (imported + 1, c, s)
          | (_, s) \<Rightarrow> (imported, c, s)))"

type_synonym sync_counts = "int \<times> int \<times> string option"

definition sync_filter :: "'st relay_env \<Rightarrow> neg_client \<Rightarrow> validator list \<Rightarrow> string \<Rightarrow> int \<Rightarrow> filter \<Rightarrow> upstream_conn \<Rightarrow>
    'st server \<Rightarrow> sync_counts \<times> upstream_conn \<times> 'st server" where
  "sync_filter env nc vs ru limit f c s =
     (case so_sync_items (re_ops env) f (sv_store s) of
        Inl e \<Rightarrow> ((0, 0, Some e), c, s)
      | Inr items \<Rightarrow>
     (let sid = ''up-'' @ show_int (uc_now c) in
      case send_json (JArr [JStr ''NEG-OPEN'', JStr sid, marshal_filter f, JStr (nc_start nc items limit)]) c of
        (Some e, c) \<Rightarrow> ((0, 0, Some e), c, s)
      | (None, c) \<Rightarrow>
     (case neg_rounds env nc ru limit items sid [] c of
        (Inl e, c) \<Rightarrow> ((0, 0, Some e), c, s)
      | (Inr msgs, c) \<Rightarrow>
          (let need = collect_need_ids (nc_have_nots nc items limit msgs);
               (imported, c, s) = fold (import_id env vs f) need (0, c, s)
           in ((int (length need), imported, None), c, s)))))"

fun sync_filters :: "'st relay_env \<Rightarrow> neg_client \<Rightarrow> validator list \<Rightarrow> string \<Rightarrow> int \<Rightarrow> filter list \<Rightarrow> int \<times> int \<Rightarrow>
    upstream_conn \<Rightarrow> 'st server \<Rightarrow> sync_counts \<times> upstream_conn \<times> 'st server" where
  "sync_filters env nc vs ru limit [] (need, imported) c s = ((need, imported, None), c, s)"
| "sync_filters env nc vs ru limit (f # fs) (need, imported) c s =
     (case sync_filter env nc vs ru limit f c s of
        ((_, _, Some e), c, s) \<Rightarrow> ((need, imported, Some e), c, s)
      | ((n, i, None), c, s) \<Rightarrow> sync_filters env nc vs ru limit fs (need + n, imported + i) c s)"

definition pull_upstream :: "'st relay_env \<Rightarrow> neg_client \<Rightarrow> validator list \<Rightarrow> (string \<Rightarrow> upstream_conn result) \<Rightarrow>
    nip77_upstream \<Rightarrow> 'st server \<Rightarrow> sync_counts \<times> 'st server" where
  "pull_upstream env nc vs dial u s =
     (case parse_upstream_filters (up_filters u) of Inl e \<Rightarrow> ((0, 0, Some e), s) | Inr fs \<Rightarrow>
     (case dial (up_url u) of Inl e \<Rightarrow> ((0, 0, Some (''dial: '' @ e)), s) | Inr c \<Rightarrow>
     (let cfg = re_cfg env;
          timeout = effective_upstream_message_timeout cfg * second;
          auth_wait = effective_upstream_auth_wait cfg * second;
          (err, c) = (if auth_wait > 0 then handshake_auth env (up_url u) (uc_now c + auth_wait) timeout c else (None, c))
      in case err of
           Some e \<Rightarrow> ((0, 0, Some e), s)
         | None \<Rightarrow>
             (let (counts, c, s) = sync_filters env nc vs (up_url u) (effective_frame_size_limit cfg) fs (0, 0) c s
              in (counts, s)))))"

section \<open>The scheduler\<close>

record job_status =
  js_name :: string
  js_url :: string
  js_enabled :: bool
  js_last_run_unix :: int
  js_next_run_unix :: int
  js_last_error :: string
  js_last_need_count :: int
  js_last_imported :: int
  js_running :: bool

record scheduler =
  sc_status :: "(string, job_status) go_map"
  sc_running :: "(string, bool) go_map"

definition new_scheduler :: scheduler where
  "new_scheduler = \<lparr>sc_status = [], sc_running = []\<rparr>"

definition new_status :: "nip77_upstream \<Rightarrow> job_status" where
  "new_status u = \<lparr>js_name = up_name u, js_url = up_url u, js_enabled = up_enabled u, js_last_run_unix = 0,
     js_next_run_unix = 0, js_last_error = [], js_last_need_count = 0, js_last_imported = 0, js_running = False\<rparr>"

definition init_status :: "nip77_upstream \<Rightarrow> scheduler \<Rightarrow> scheduler" where
  "init_status u sch = sch\<lparr>sc_status := AList.update (up_name u) (new_status u) (sc_status sch)\<rparr>"

definition effective_interval :: "nip77_upstream \<Rightarrow> int" where
  "effective_interval u = (if up_interval_seconds u \<le> 0 then 3600 else up_interval_seconds u)"

text \<open>Which jobs \<open>Start\<close> launches, each with the seconds between its runs.\<close>

definition start_jobs :: "config \<Rightarrow> scheduler \<Rightarrow> (nip77_upstream \<times> int) list \<times> scheduler" where
  "start_jobs cfg sch =
     (let us = List.filter up_enabled (upstreams (nip77 cfg)) in
      (map (\<lambda>u. (u, effective_interval u)) us, fold init_status us sch))"

definition job_statuses :: "scheduler \<Rightarrow> job_status list" where
  "job_statuses sch = map snd (sc_status sch)"

definition is_running :: "string \<Rightarrow> scheduler \<Rightarrow> bool" where
  "is_running name sch = (case map_of (sc_running sch) name of None \<Rightarrow> False | Some b \<Rightarrow> b)"

text \<open>\<open>runOnce\<close> in its three pieces: claiming the job, recording a run and giving the job back.\<close>

definition begin_run :: "'st relay_env \<Rightarrow> 'st server \<Rightarrow> nip77_upstream \<Rightarrow> scheduler \<Rightarrow> scheduler option" where
  "begin_run env s u sch =
     (let cfg = re_cfg env in
      if \<not> nip77_enabled cfg \<or> \<not> upstream_enabled (nip77 cfg) \<or> \<not> up_enabled u then None
      else if upstream_pause_when_busy (nip77 cfg) \<and> relay_busy_for_neg env s then None
      else if is_running (up_name u) sch then None
      else let st = (case map_of (sc_status sch) (up_name u) of None \<Rightarrow> new_status u | Some st \<Rightarrow> st)
           in Some (sch\<lparr>sc_running := AList.update (up_name u) True (sc_running sch),
                sc_status := AList.update (up_name u) (st\<lparr>js_running := True\<rparr>) (sc_status sch)\<rparr>))"

definition update_status :: "string \<Rightarrow> (job_status \<Rightarrow> job_status) \<Rightarrow> scheduler \<Rightarrow> scheduler" where
  "update_status name g sch =
     (case map_of (sc_status sch) name of
        None \<Rightarrow> sch
      | Some st \<Rightarrow> sch\<lparr>sc_status := AList.update name (g st) (sc_status sch)\<rparr>)"

definition record_run :: "nip77_upstream \<Rightarrow> int \<Rightarrow> sync_counts \<Rightarrow> scheduler \<Rightarrow> scheduler" where
  "record_run u now counts = (let (need, imported, err) = counts in
     update_status (up_name u) (\<lambda>st. st\<lparr>js_last_run_unix := now,
       js_next_run_unix := wrap64 (now + up_interval_seconds u), js_last_need_count := need,
       js_last_imported := imported, js_last_error := (case err of None \<Rightarrow> [] | Some e \<Rightarrow> e)\<rparr>))"

definition release_run :: "nip77_upstream \<Rightarrow> scheduler \<Rightarrow> scheduler" where
  "release_run u sch = update_status (up_name u) (\<lambda>st. st\<lparr>js_running := False\<rparr>)
     (sch\<lparr>sc_running := AList.update (up_name u) False (sc_running sch)\<rparr>)"

definition run_once :: "'st relay_env \<Rightarrow> neg_client \<Rightarrow> validator list \<Rightarrow> (string \<Rightarrow> upstream_conn result) \<Rightarrow> int \<Rightarrow>
    nip77_upstream \<Rightarrow> scheduler \<Rightarrow> 'st server \<Rightarrow> scheduler \<times> 'st server" where
  "run_once env nc vs dial now u sch s =
     (case begin_run env s u sch of
        None \<Rightarrow> (sch, s)
      | Some sch \<Rightarrow>
          (let (counts, s) = pull_upstream env nc vs dial u s
           in (release_run u (record_run u now counts sch), s)))"

section \<open>Reading\<close>

lemma next_message_Inr:
  assumes "next_message dl c = (Inr data, c')"
  shows "\<exists>t rest. uc_inbox c = (t, PeerText data) # rest \<and> t \<le> dl \<and> uc_broken c = None \<and>
    c' = c\<lparr>uc_inbox := rest, uc_now := max (uc_now c) t\<rparr>"
  using assms by (auto simp: next_message_def Let_def split: option.splits list.splits prod.splits peer_item.splits if_splits)

lemma next_message_now: "uc_now c \<le> dl \<Longrightarrow> uc_now (snd (next_message dl c)) \<le> dl"
  by (auto simp: next_message_def Let_def split: option.splits list.splits prod.splits peer_item.splits)

lemma read_message_now:
  assumes "0 < timeout"
  shows "uc_now (snd (read_message timeout c)) \<le> uc_now c + timeout"
  using next_message_now [of c "uc_now c + timeout"] assms
  by (auto simp: read_message_def Let_def split: sum.splits prod.splits)

lemma read_message_Inr:
  assumes "read_message timeout c = (Inr (ty, raw), c')"
  shows "\<exists>t rest. uc_inbox c = (t, PeerText (Inr (JArr raw))) # rest \<and> uc_inbox c' = rest \<and>
    raw \<noteq> [] \<and> decode_string [] (raw ! 0) = Inr ty"
proof -
  let ?dl = "uc_now c + (if timeout \<le> 0 then 60 * second else timeout)"
  obtain data c1 where n: "next_message ?dl c = (data, c1)" by force
  note r = assms [unfolded read_message_def Let_def n prod.case]
  from assms r obtain v where v: "data = Inr (Inr v)" "raw_array v = Inr raw" "raw \<noteq> []"
    "decode_string [] (raw ! 0) = Inr ty" "c' = c1"
    by (auto split: sum.splits if_splits)
  from v(2,3) have "v = JArr raw" by (cases v) auto
  with next_message_Inr [of ?dl c "Inr v" c1] n v show ?thesis by auto
qed

text \<open>After a failed read no read succeeds.\<close>

lemma read_message_broken: "uc_broken c = Some e \<Longrightarrow> read_message timeout c = (Inl e, c)"
  by (simp add: read_message_def next_message_def Let_def)

lemma read_message_expired:
  assumes "0 < timeout" "uc_broken c = None" "\<forall>(t, m) \<in> set (uc_inbox c). uc_now c + timeout < t"
  shows "read_message timeout c =
    (Inl ReadTimeout, c\<lparr>uc_now := uc_now c + timeout, uc_broken := Some ReadTimeout\<rparr>)"
  using assms by (cases "uc_inbox c") (auto simp: read_message_def next_message_def Let_def)

lemma read_message_next:
  assumes "uc_broken c = None" "uc_inbox c = (t, PeerText (Inr (JArr raw))) # rest" "t \<le> uc_now c + timeout" "0 < timeout"
    and "raw \<noteq> []" "decode_string [] (raw ! 0) = Inr ty"
  shows "read_message timeout c = (Inr (ty, raw), c\<lparr>uc_inbox := rest, uc_now := max (uc_now c) t\<rparr>)"
  using assms by (simp add: read_message_def next_message_def Let_def)

lemma second_pos [simp]: "0 < second"
  by (simp add: second_def)

section \<open>Fetching\<close>

lemma fetch_loop_now: "uc_now c \<le> deadline + 30 * second \<Longrightarrow>
  uc_now (snd (fetch_loop sid i deadline c)) \<le> deadline + 30 * second"
proof (induction sid i deadline c rule: fetch_loop.induct)
  case (1 sid i deadline c)
  have step: "uc_now c' \<le> deadline + 30 * second" if "read_message (30 * second) c = (r, c')" "uc_now c < deadline" for r c'
    using read_message_now [of "30 * second" c] that by simp
  show ?case
  proof (cases "uc_now c < deadline")
    case True
    obtain r c' where r: "read_message (30 * second) c = (r, c')" by force
    note b = step [OF r True]
    show ?thesis
    proof (cases r)
      case (Inr p)
      obtain ty raw where p: "p = (ty, raw)" by force
      note IH = "1.IH" [OF _ r [symmetric], unfolded Inr p, OF _ refl refl]
      show ?thesis
        using IH True b r Inr p by (subst fetch_loop.simps) (auto split: sum.splits)
    qed (use True b r in \<open>subst fetch_loop.simps, simp\<close>)
  qed (use "1.prems" in \<open>subst fetch_loop.simps, simp\<close>)
qed

definition sent_by_peer :: "json list \<Rightarrow> upstream_conn \<Rightarrow> bool" where
  "sent_by_peer raw c \<longleftrightarrow> (\<exists>t. (t, PeerText (Inr (JArr raw))) \<in> set (uc_inbox c))"

lemma fetch_loop_Inr:
  "fetch_loop sid i deadline c = (Inr ev, c') \<Longrightarrow>
   ev_id ev = i \<and> (\<exists>raw. sent_by_peer raw c \<and> for_subscription sid raw \<and> 3 \<le> length raw \<and>
     decode_string [] (raw ! 0) = Inr ''EVENT'' \<and> decode_event (raw ! 2) = Inr ev)"
proof (induction sid i deadline c rule: fetch_loop.induct)
  case (1 sid i deadline c)
  then have t: "uc_now c < deadline" by (auto simp: fetch_loop.simps split: if_splits)
  obtain r c1 where r: "read_message (30 * second) c = (r, c1)" by force
  with t "1.prems" obtain ty raw where R: "r = Inr (ty, raw)" by (cases r) (auto simp: fetch_loop.simps)
  obtain tm rest where m: "uc_inbox c = (tm, PeerText (Inr (JArr raw))) # rest" "uc_inbox c1 = rest"
    "decode_string [] (raw ! 0) = Inr ty"
    using read_message_Inr r R by blast
  have sub: "sent_by_peer x c1 \<Longrightarrow> sent_by_peer x c" for x using m by (auto simp: sent_by_peer_def)
  have here: "sent_by_peer raw c" using m by (auto simp: sent_by_peer_def)
  note IH = "1.IH" [OF _ r [symmetric], unfolded R, OF _ refl refl]
  let ?hit = "ty = ''EVENT'' \<and> for_subscription sid raw \<and> 3 \<le> length raw \<and> decode_event (raw ! 2) = Inr ev \<and> ev_id ev = i"
  show ?case
  proof (cases ?hit)
    case False
    have "fetch_loop sid i deadline c1 = (Inr ev, c')"
      using "1.prems" False t r R by (subst (asm) fetch_loop.simps) (auto split: if_splits sum.splits)
    moreover have "ty \<noteq> ''EVENT'' \<and> ty \<noteq> ''EOSE'' \<or> \<not> for_subscription sid raw \<or> ty = ''EVENT'' \<and>
      (length raw < 3 \<or> (\<exists>e. decode_event (raw ! 2) = Inl e) \<or> (\<exists>e. decode_event (raw ! 2) = Inr e \<and> ev_id e \<noteq> i))"
      using "1.prems" False t r R by (subst (asm) fetch_loop.simps) (auto split: if_splits sum.splits)
    ultimately have "ev_id ev = i \<and> (\<exists>raw. sent_by_peer raw c1 \<and> for_subscription sid raw \<and> 3 \<le> length raw \<and>
     decode_string [] (raw ! 0) = Inr ''EVENT'' \<and> decode_event (raw ! 2) = Inr ev)" using IH t by fastforce
    then show ?thesis using sub by blast
  qed (use here m in blast)
qed

text \<open>Messages the loop passes over.\<close>

definition passed_over :: "string \<Rightarrow> string \<Rightarrow> json list \<Rightarrow> bool" where
  "passed_over sid i raw \<longleftrightarrow> (\<exists>ty. raw \<noteq> [] \<and> decode_string [] (raw ! 0) = Inr ty \<and>
     (ty = ''EVENT'' \<and> for_subscription sid raw \<longrightarrow>
        length raw < 3 \<or> (\<forall>e. decode_event (raw ! 2) = Inr e \<longrightarrow> ev_id e \<noteq> i)) \<and>
     (ty = ''EOSE'' \<longrightarrow> \<not> for_subscription sid raw))"

lemma fetch_loop_skips:
  assumes "passed_over sid i raw" "uc_broken c = None" "uc_inbox c = (t, PeerText (Inr (JArr raw))) # rest"
    and "uc_now c < deadline" "t < deadline" "deadline \<le> uc_now c + 30 * second"
  shows "fetch_loop sid i deadline c = fetch_loop sid i deadline (c\<lparr>uc_inbox := rest, uc_now := max (uc_now c) t\<rparr>)"
proof -
  obtain ty where ty: "raw \<noteq> []" "decode_string [] (raw ! 0) = Inr ty"
    "ty = ''EVENT'' \<and> for_subscription sid raw \<longrightarrow>
      length raw < 3 \<or> (\<forall>e. decode_event (raw ! 2) = Inr e \<longrightarrow> ev_id e \<noteq> i)" "ty = ''EOSE'' \<longrightarrow> \<not> for_subscription sid raw"
    using assms(1) by (auto simp: passed_over_def)
  have "read_message (30 * second) c = (Inr (ty, raw), c\<lparr>uc_inbox := rest, uc_now := max (uc_now c) t\<rparr>)"
    by (rule read_message_next) (use assms ty in simp_all)
  then show ?thesis
    using ty(3,4) assms(4) by (subst fetch_loop.simps) (auto split: sum.splits)
qed

lemma fetch_loop_finds:
  assumes "\<forall>(t, raw) \<in> set noise. passed_over sid i raw \<and> t < deadline" "uc_broken c = None"
    and "uc_inbox c = map (\<lambda>(t, raw). (t, PeerText (Inr (JArr raw)))) noise @ (t, PeerText (Inr (JArr raw))) # rest"
    and "uc_now c < deadline" "t < deadline" "deadline \<le> uc_now c + 30 * second"
    and "3 \<le> length raw" "raw ! 0 = JStr ''EVENT''" "raw ! 1 = JStr sid" "decode_event (raw ! 2) = Inr ev" "ev_id ev = i"
  shows "fst (fetch_loop sid i deadline c) = Inr ev"
  using assms(1-6)
proof (induction noise arbitrary: c)
  case Nil
  have "raw \<noteq> []" using assms(7) by auto
  then have "read_message (30 * second) c = (Inr (''EVENT'', raw), c\<lparr>uc_inbox := rest, uc_now := max (uc_now c) t\<rparr>)"
    by (intro read_message_next) (use Nil assms(7-11) in simp_all)
  moreover have "for_subscription sid raw" using assms(7,9) by (simp add: for_subscription_def)
  ultimately show ?case using Nil.prems(4) assms(7-11) by (subst fetch_loop.simps) simp
next
  case (Cons p noise)
  obtain u v where p: "p = (u, v)" by force
  let ?c = "c\<lparr>uc_inbox := map (\<lambda>(t, raw). (t, PeerText (Inr (JArr raw)))) noise @ (t, PeerText (Inr (JArr raw))) # rest,
    uc_now := max (uc_now c) u\<rparr>"
  have "fetch_loop sid i deadline c = fetch_loop sid i deadline ?c"
    by (rule fetch_loop_skips) (use Cons.prems p in auto)
  moreover have "fst (fetch_loop sid i deadline ?c) = Inr ev"
    by (rule Cons.IH) (use Cons.prems p in auto)
  ultimately show ?case by simp
qed

section \<open>What an import does to the store\<close>

lemma quiet_server:
  assumes "quiet s s'"
  shows "sv_store s' = sv_store s" "sv_ip_open s' = sv_ip_open s" "sv_open s' = sv_open s"
    "sv_shutting_down s' = sv_shutting_down s" "sv_neg_active s' = sv_neg_active s" "conn_view s' = conn_view s"
  using assms by (cases s; cases s'; simp add: quiet_def)+

lemma store_delivered [simp]: "sv_store (deliver_imported_event env ev s) = sv_store s"
proof -
  have "quiet w (broadcast_event env ev w)" for w unfolding broadcast_event_def by (rule quiet.broadcast)
  then have "sv_store (broadcast_event env ev w) = sv_store w" for w by (rule quiet_server(1))
  then show ?thesis by (simp add: deliver_imported_event_def notify_plugin_stored_event_def Let_def)
qed

lemma persist_store:
  "sv_store (snd (persist_imported_event env now vs ev s)) = sv_store s \<or>
   (validate_imported_event env now vs (blank_conn (re_cfg env)) ev (sv_store s) = None \<and>
    sv_store (snd (persist_imported_event env now vs ev s)) = snd (so_save (re_ops env) ev (sv_store s)))"
proof -
  obtain err st where save: "so_save (re_ops env) ev (sv_store s) = (err, st)" by force
  then have "save_in env ev s = (err, s\<lparr>sv_store := st\<rparr>)" by (simp add: save_in_def)
  then show ?thesis
    using save by (cases err) (auto simp: persist_imported_event_def split: sum.split bool.split option.split)
qed

lemma parse_filters_safe:
  "parse_filters_from i raw = Inr fs \<Longrightarrow> f \<in> set fs \<Longrightarrow>
   \<not> has_search f \<and> f_kinds f \<noteq> [] \<and> nip17_kind_gift_wrap \<notin> set (f_kinds f) \<and>
   nip59_kind_ephemeral_gift_wrap \<notin> set (f_kinds f)"
  by (induction raw arbitrary: i fs) (fastforce split: sum.splits if_splits)+

lemma upstream_filters_safe:
  "parse_upstream_filters raw = Inr fs \<Longrightarrow> f \<in> set fs \<Longrightarrow>
   \<not> has_search f \<and> f_kinds f \<noteq> [] \<and> nip17_kind_gift_wrap \<notin> set (f_kinds f) \<and>
   nip59_kind_ephemeral_gift_wrap \<notin> set (f_kinds f)"
  using parse_filters_safe by (auto simp: parse_upstream_filters_def split: if_splits)

text \<open>Which events a run with given filters may bring in.\<close>

definition importable :: "'st relay_env \<Rightarrow> validator list \<Rightarrow> filter list \<Rightarrow> event \<Rightarrow> bool" where
  "importable env vs fs ev \<longleftrightarrow> verify_sig (re_crypto env) ev = None \<and> \<not> is_ephemeral (ev_kind ev) \<and>
     (\<exists>f \<in> set fs. filter_matches f ev) \<and>
     (\<exists>now st. validate_chain env now vs (blank_conn (re_cfg env)) ev st = None)"

lemma import_id_keeps:
  assumes inv: "sql_saves.all_stored se P (sv_store s)" and P: "\<And>ev. importable env vs fs ev \<Longrightarrow> P ev"
    and f: "f \<in> set fs" and ops: "re_ops env = sql_store se" and r: "import_id env vs f i (n, c, s) = (n', c', s')"
  shows "sql_saves.all_stored se P (sv_store s') \<and> n \<le> n' \<and> n' \<le> n + 1"
proof -
  obtain res c1 where q: "req_event_by_id i c = (res, c1)" by force
  show ?thesis
  proof (cases "\<exists>ev. res = Inr ev \<and> verify_sig (re_crypto env) ev = None \<and> filter_matches f ev")
    case True
    then obtain ev where ev: "res = Inr ev" "verify_sig (re_crypto env) ev = None" "filter_matches f ev" by blast
    obtain a s1 where p: "persist_imported_event env (unix_now c1) vs ev s = (a, s1)" by force
    have "sql_saves.all_stored se P (sv_store s1)"
    proof (cases "sv_store s1 = sv_store s")
      case False
      with persist_store [of env "unix_now c1" vs ev s] p
      have v: "validate_imported_event env (unix_now c1) vs (blank_conn (re_cfg env)) ev (sv_store s) = None"
        and st: "sv_store s1 = snd (save_event ev (sv_store s))" using ops by (auto simp: sql_store_def)
      from v ev f have "importable env vs fs ev"
        by (auto simp: importable_def validate_imported_event_def split: if_splits)
      then show ?thesis using sql_saves.save_all [OF inv P] st by simp
    qed (use inv in simp)
    then show ?thesis using r q ev p by (auto simp: import_id_def Let_def split: sum.splits bool.splits)
  next
    case False
    then have "n' = n \<and> s' = s" using r q by (auto simp: import_id_def Let_def split: sum.splits if_splits)
    then show ?thesis using inv by simp
  qed
qed

lemma import_ids_keep:
  assumes P: "\<And>ev. importable env vs fs ev \<Longrightarrow> P ev" and f: "f \<in> set fs" and ops: "re_ops env = sql_store se"
  shows "sql_saves.all_stored se P (sv_store s) \<Longrightarrow> fold (import_id env vs f) ids (n, c, s) = (n', c', s') \<Longrightarrow>
    sql_saves.all_stored se P (sv_store s') \<and> n \<le> n' \<and> n' \<le> n + int (length ids)"
proof (induction ids arbitrary: n c s)
  case (Cons i ids)
  obtain n1 c1 s1 where one: "import_id env vs f i (n, c, s) = (n1, c1, s1)" by (metis prod.exhaust)
  note k = import_id_keeps [OF Cons.prems(1) P f ops one]
  from Cons.prems(2) one have "fold (import_id env vs f) ids (n1, c1, s1) = (n', c', s')" by simp
  from Cons.IH [OF _ this] k show ?case by auto
qed simp

lemma sync_filter_keeps:
  assumes inv: "sql_saves.all_stored se P (sv_store s)" and P: "\<And>ev. importable env vs fs ev \<Longrightarrow> P ev"
    and f: "f \<in> set fs" and ops: "re_ops env = sql_store se"
    and r: "sync_filter env nc vs ru limit f c s = ((need, imported, err), c', s')"
  shows "sql_saves.all_stored se P (sv_store s') \<and> 0 \<le> imported \<and> imported \<le> need"
proof -
  let ?sid = "''up-'' @ show_int (uc_now c)" and ?items = "query_event_sync_items f (sv_store s)"
  let ?open = "send_json (JArr [JStr ''NEG-OPEN'', JStr ?sid, marshal_filter f, JStr (nc_start nc ?items limit)]) c"
  obtain e c1 where o: "?open = (e, c1)" by force
  obtain m c2 where m: "neg_rounds env nc ru limit ?items ?sid [] c1 = (m, c2)" by force
  show ?thesis
  proof (cases "e = None \<and> (\<exists>msgs. m = Inr msgs)")
    case True
    then obtain msgs where msgs: "e = None" "m = Inr msgs" by blast
    let ?need = "collect_need_ids (nc_have_nots nc ?items limit msgs)"
    obtain n3 c3 s3 where d: "fold (import_id env vs f) ?need (0, c2, s) = (n3, c3, s3)" by (metis prod.exhaust)
    from import_ids_keep [OF P f ops inv d] r o m msgs d show ?thesis
      by (simp add: sync_filter_def ops sql_store_def Let_def)
  next
    case False
    then have "s' = s \<and> need = 0 \<and> imported = 0"
      using r o m by (cases e; cases m) (auto simp: sync_filter_def ops sql_store_def Let_def)
    then show ?thesis using inv by simp
  qed
qed

lemma sync_filters_keep:
  assumes P: "\<And>ev. importable env vs fs ev \<Longrightarrow> P ev" and ops: "re_ops env = sql_store se"
  shows "set gs \<subseteq> set fs \<Longrightarrow> sql_saves.all_stored se P (sv_store s) \<Longrightarrow> 0 \<le> i \<Longrightarrow> i \<le> n \<Longrightarrow>
    sync_filters env nc vs ru limit gs (n, i) c s = ((need, imported, err), c', s') \<Longrightarrow>
    sql_saves.all_stored se P (sv_store s') \<and> 0 \<le> imported \<and> imported \<le> need"
proof (induction gs arbitrary: n i c s)
  case (Cons g gs)
  obtain n1 i1 e1 c1 s1 where one: "sync_filter env nc vs ru limit g c s = ((n1, i1, e1), c1, s1)" by (metis prod.exhaust)
  have g: "g \<in> set fs" using Cons.prems(1) by simp
  note k = sync_filter_keeps [OF Cons.prems(2) P g ops one]
  show ?case
  proof (cases e1)
    case None
    then have "sync_filters env nc vs ru limit gs (n + n1, i + i1) c1 s1 = ((need, imported, err), c', s')"
      using Cons.prems(5) one by simp
    from Cons.IH [OF _ _ _ _ this] Cons.prems(1,3,4) k show ?thesis by simp
  next
    case (Some e)
    then show ?thesis using Cons.prems(3-5) one k by auto
  qed
qed simp

section \<open>What the upstream learns\<close>

definition without_wraps :: "event list \<Rightarrow> event list" where
  "without_wraps es = List.filter (\<lambda>e. \<not> is_gift_wrap_kind (ev_kind e)) es"

lemma kinds_exclude_wraps:
  assumes "f_kinds f \<noteq> []" "nip17_kind_gift_wrap \<notin> set (f_kinds f)" "nip59_kind_ephemeral_gift_wrap \<notin> set (f_kinds f)"
  shows "sql_matches f e \<Longrightarrow> \<not> is_gift_wrap_kind (ev_kind e)" "filter_matches f e \<Longrightarrow> \<not> is_gift_wrap_kind (ev_kind e)"
  using assms by (auto simp: sql_matches_def struct_clauses_def filter_matches_def list_ex_iff is_gift_wrap_kind_def split: if_splits)

lemma items_ignore_wraps:
  assumes R: "represents db es" "represents db' es'" and same: "set (without_wraps es) = set (without_wraps es')"
    and f: "f_kinds f \<noteq> []" "nip17_kind_gift_wrap \<notin> set (f_kinds f)" "nip59_kind_ephemeral_gift_wrap \<notin> set (f_kinds f)"
  shows "query_event_sync_items f db = query_event_sync_items f db'"
proof -
  have w: "set (List.filter (sql_matches f) xs) = set (List.filter (sql_matches f) (without_wraps xs))" for xs
    using kinds_exclude_wraps(1) [OF f] by (auto simp: without_wraps_def)
  have s: "set (List.filter (sql_matches f) es) = set (List.filter (sql_matches f) es')"
    unfolding w [of es] w [of es'] using same by simp
  have d: "distinct es" "distinct es'" "inj_on ev_id (set es)"
    using R by (simp_all add: represents_def distinct_map)
  have "sort_key (\<lambda>e. (ev_created_at e, ev_id e)) (List.filter (sql_matches f) es) =
      sort_key (\<lambda>e. (ev_created_at e, ev_id e)) (List.filter (sql_matches f) es')"
    by (rule sort_key_same_set) (use s d in \<open>auto simp: inj_on_def\<close>)
  then show ?thesis by (simp add: sync_items_refines [OF R(1)] sync_items_refines [OF R(2)])
qed

text \<open>The messages to the upstream do not depend on the store, apart from the items.\<close>

lemma import_id_conn: "fst (snd (import_id env vs f i (n, c, s))) = snd (req_event_by_id i c)"
  by (auto simp: import_id_def Let_def split: prod.splits sum.splits bool.splits)

lemma import_ids_conn:
  "fst (snd (fold (import_id env vs f) ids (n, c, s))) = fold (\<lambda>i c. snd (req_event_by_id i c)) ids c"
proof (induction ids arbitrary: n c s)
  case (Cons i ids)
  obtain n1 c1 s1 where one: "import_id env vs f i (n, c, s) = (n1, c1, s1)" by (metis prod.exhaust)
  then have "c1 = snd (req_event_by_id i c)" using import_id_conn [of env vs f i n c s] by simp
  with one Cons.IH show ?case by simp
qed simp

lemma sync_filter_conn:
  assumes "so_sync_items (re_ops env) f (sv_store s) = so_sync_items (re_ops env) f (sv_store s')"
  shows "fst (snd (sync_filter env nc vs ru limit f c s)) = fst (snd (sync_filter env nc vs ru limit f c s'))"
proof (cases "so_sync_items (re_ops env) f (sv_store s')")
  case (Inr items)
  let ?sid = "''up-'' @ show_int (uc_now c)"
  obtain e c1 where o: "send_json (JArr [JStr ''NEG-OPEN'', JStr ?sid, marshal_filter f, JStr (nc_start nc items limit)]) c = (e, c1)"
    by force
  obtain m c2 where m: "neg_rounds env nc ru limit items ?sid [] c1 = (m, c2)" by force
  have conn: "fst (snd (sync_filter env nc vs ru limit f c w)) =
      (case e of Some e \<Rightarrow> c1 | None \<Rightarrow> (case m of Inl e \<Rightarrow> c2
       | Inr msgs \<Rightarrow> fold (\<lambda>i c. snd (req_event_by_id i c)) (collect_need_ids (nc_have_nots nc items limit msgs)) c2))"
    if "so_sync_items (re_ops env) f (sv_store w) = Inr items" for w
    using that o m import_ids_conn [of env vs f _ 0 c2 w]
    by (auto simp: sync_filter_def Let_def split: option.split sum.split prod.splits) (metis fst_conv snd_conv)
  show ?thesis using conn [of s] conn [of s'] assms Inr by simp
qed (use assms in \<open>simp add: sync_filter_def\<close>)

section \<open>Runs of the scheduler\<close>

text \<open>The scheduler with the jobs between their claim and their release; the pieces of different jobs
  interleave. The first state is the one \<open>Start\<close> leaves.\<close>

inductive sched_step :: "'st relay_env \<Rightarrow> scheduler \<times> nip77_upstream list \<Rightarrow> scheduler \<times> nip77_upstream list \<Rightarrow> bool" for env where
  claim: "begin_run env s u sch = Some sch' \<Longrightarrow> sched_step env (sch, act) (sch', u # act)"
| finish: "u \<in> set act \<Longrightarrow> sched_step env (sch, act) (record_run u now counts sch, act)"
| release: "u \<in> set act \<Longrightarrow> sched_step env (sch, act) (release_run u sch, remove1 u act)"

inductive sched_reach :: "'st relay_env \<Rightarrow> scheduler \<times> nip77_upstream list \<Rightarrow> bool" for env where
  launched: "sched_reach env (snd (start_jobs (re_cfg env) new_scheduler), [])"
| step: "sched_reach env x \<Longrightarrow> sched_step env x y \<Longrightarrow> sched_reach env y"

definition sched_inv :: "scheduler \<times> nip77_upstream list \<Rightarrow> bool" where
  "sched_inv x = (case x of (sch, act) \<Rightarrow> distinct (map up_name act) \<and>
     (\<forall>name. is_running name sch \<longleftrightarrow> name \<in> up_name ` set act) \<and>
     (\<forall>name st. map_of (sc_status sch) name = Some st \<longrightarrow> js_running st = is_running name sch) \<and>
     (\<forall>name. is_running name sch \<longrightarrow> map_of (sc_status sch) name \<noteq> None))"

definition all_idle :: "scheduler \<Rightarrow> bool" where
  "all_idle sch \<longleftrightarrow> sc_running sch = [] \<and> (\<forall>name st. map_of (sc_status sch) name = Some st \<longrightarrow> \<not> js_running st)"

lemma all_idle_init: "all_idle sch \<Longrightarrow> all_idle (init_status u sch)"
  by (simp add: all_idle_def init_status_def new_status_def update_conv')

lemma all_idle_fold: "all_idle sch \<Longrightarrow> all_idle (fold init_status us sch)"
  by (induction us arbitrary: sch) (simp_all add: all_idle_init)

lemma launched_inv: "sched_inv (snd (start_jobs cfg new_scheduler), [])"
proof -
  have "all_idle new_scheduler" by (simp add: all_idle_def new_scheduler_def)
  then have "all_idle (snd (start_jobs cfg new_scheduler))" by (simp add: start_jobs_def all_idle_fold Let_def)
  then show ?thesis by (simp add: sched_inv_def all_idle_def is_running_def)
qed

lemma update_status_running: "is_running name (update_status n g sch) = is_running name sch"
  by (simp add: update_status_def is_running_def split: option.split)

lemma update_status_of: "map_of (sc_status (update_status n g sch)) name =
  (if name = n then map_option g (map_of (sc_status sch) name) else map_of (sc_status sch) name)"
  by (simp add: update_status_def update_conv' split: option.split)

lemma sched_step_inv: "sched_step env x y \<Longrightarrow> sched_inv x \<Longrightarrow> sched_inv y"
proof (induction rule: sched_step.induct)
  case (claim s u sch sch' act)
  let ?st = "case map_of (sc_status sch) (up_name u) of None \<Rightarrow> new_status u | Some st \<Rightarrow> st"
  from claim.hyps have idle: "\<not> is_running (up_name u) sch"
    and sch': "sch' = sch\<lparr>sc_running := AList.update (up_name u) True (sc_running sch),
      sc_status := AList.update (up_name u) (?st\<lparr>js_running := True\<rparr>) (sc_status sch)\<rparr>"
    by (auto simp: begin_run_def Let_def split: if_splits)
  have run: "is_running name sch' \<longleftrightarrow> name = up_name u \<or> is_running name sch" for name
    by (simp add: sch' is_running_def update_conv')
  show ?case using claim.prems idle
    unfolding sched_inv_def prod.case run by (auto simp: sch' update_conv' split: if_splits)
next
  case (finish u act sch now counts)
  then show ?case
    by (auto simp: sched_inv_def record_run_def case_prod_unfold Let_def update_status_running update_status_of split: if_splits)
next
  case (release u act sch)
  let ?s = "sch\<lparr>sc_running := AList.update (up_name u) False (sc_running sch)\<rparr>"
  have run: "is_running name (release_run u sch) \<longleftrightarrow> name \<noteq> up_name u \<and> is_running name sch" for name
    by (simp add: release_run_def update_status_running) (simp add: is_running_def update_conv')
  have d: "distinct act" "inj_on up_name (set act)"
    using release.prems by (simp_all add: sched_inv_def distinct_map)
  have "up_name ` set (remove1 u act) = up_name ` set act - {up_name u}"
    using d release.hyps by (auto simp: inj_on_def)
  moreover have "distinct (map up_name (remove1 u act))"
    using d by (simp add: distinct_map inj_on_diff)
  ultimately show ?case using release.prems
    unfolding sched_inv_def prod.case run by (auto simp: release_run_def update_status_of split: if_splits)
qed

section \<open>Properties\<close>

text \<open>C9: A pull brings in only what the relay would take: each event it adds to the store has a valid id
  and signature, matches one of the configured filters, is neither ephemeral nor a gift wrap and
  passed the relay's validators as sent by a client without authentication. The number of imported
  events is at most the number of missing ones.\<close>

theorem imports_are_admissible:
  assumes "re_ops env = sql_store se" and "db_valid (sv_store s)"
    and "pull_upstream env nc vs dial u s = ((need, imported, err), s')"
  shows "(\<forall>ev \<in> db_stored se (sv_store s') - db_stored se (sv_store s).
      verify_sig (re_crypto env) ev = None \<and> \<not> is_ephemeral (ev_kind ev) \<and> \<not> is_gift_wrap_kind (ev_kind ev) \<and>
      (\<exists>fs. parse_upstream_filters (up_filters u) = Inr fs \<and> (\<exists>f \<in> set fs. filter_matches f ev)) \<and>
      (\<exists>now st. validate_chain env now vs (blank_conn (re_cfg env)) ev st = None)) \<and>
    0 \<le> imported \<and> imported \<le> need"
proof (cases "parse_upstream_filters (up_filters u)")
  case (Inr fs)
  let ?P = "\<lambda>ev. ev \<in> db_stored se (sv_store s) \<or> importable env vs fs ev"
  have start: "sql_saves.all_stored se ?P (sv_store s)" using assms(2) by (simp add: sql_saves.all_stored_def)
  have kept: "sql_saves.all_stored se ?P (sv_store s') \<and> 0 \<le> imported \<and> imported \<le> need"
  proof (cases "s' = s \<and> need = 0 \<and> imported = 0")
    case False
    then obtain c c' where "sync_filters env nc vs (up_url u) (effective_frame_size_limit (re_cfg env)) fs (0, 0) c s =
        ((need, imported, err), c', s')"
      using assms(3) Inr by (auto simp: pull_upstream_def Let_def split: sum.splits option.splits prod.splits if_splits)
    from sync_filters_keep [OF _ assms(1) order.refl start _ _ this] show ?thesis by simp
  qed (use start in simp)
  moreover have "\<not> is_gift_wrap_kind (ev_kind ev)" if "importable env vs fs ev" for ev
    using that upstream_filters_safe [OF Inr] kinds_exclude_wraps(2) by (auto simp: importable_def)
  ultimately have "importable env vs fs ev \<and> \<not> is_gift_wrap_kind (ev_kind ev)"
    if "ev \<in> db_stored se (sv_store s') - db_stored se (sv_store s)" for ev
    using that by (auto simp: sql_saves.all_stored_def)
  then show ?thesis using Inr kept by (auto simp: importable_def)
qed (use assms(3) in \<open>simp add: pull_upstream_def\<close>)

text \<open>C10: What is sent to an upstream does not depend on stored gift wraps: for each filter the configuration
  can give, the conversation is the same for two stores with the same other events.\<close>

theorem upstream_learns_no_gift_wraps:
  assumes "re_ops env = sql_store se" and "parse_upstream_filters raw = Inr fs" and "f \<in> set fs"
    and "represents (sv_store s) es" and "represents (sv_store s') es'"
    and "set (without_wraps es) = set (without_wraps es')"
  shows "uc_sent (fst (snd (sync_filter env nc vs ru limit f c s))) =
    uc_sent (fst (snd (sync_filter env nc vs ru limit f c s')))"
proof -
  have "query_event_sync_items f (sv_store s) = query_event_sync_items f (sv_store s')"
    by (rule items_ignore_wraps [OF assms(4-6)]) (use upstream_filters_safe [OF assms(2,3)] in simp_all)
  then have "so_sync_items (re_ops env) f (sv_store s) = so_sync_items (re_ops env) f (sv_store s')"
    by (simp add: assms(1) sql_store_def)
  then show ?thesis using sync_filter_conn by metis
qed

text \<open>A fetch returns only an event that has the requested id and that the upstream sent as an event of this
  fetch's own subscription, and it ends within a minute, whatever the upstream sends. If the upstream
  sends the event within thirty seconds, with nothing before it that ends the subscription or
  that carries the same id, the fetch returns it.\<close>

theorem fetch_returns_requested:
  assumes "req_event_by_id i c = (r, c')" and "sid = ''fetch-'' @ show_nat (uc_fetch_seq c + 1)"
  shows "(\<forall>ev. r = Inr ev \<longrightarrow> ev_id ev = i \<and>
      (\<exists>raw. sent_by_peer raw c \<and> for_subscription sid raw \<and> decode_event (raw ! 2) = Inr ev)) \<and>
    uc_now c' \<le> uc_now c + 60 * second \<and>
    (\<forall>ev t noise rest. uc_broken c = None \<and> 0 < uc_writes c \<and> t < uc_now c + 30 * second \<and>
      uc_inbox c = map (\<lambda>(t, raw). (t, PeerText (Inr (JArr raw)))) noise @
        (t, PeerText (Inr (frame_json (FEvent sid ev)))) # rest \<and>
      (\<forall>(t, raw) \<in> set noise. passed_over sid i raw \<and> t < uc_now c + 30 * second) \<and>
      ev_id ev = i \<and> int64_range (ev_created_at ev) \<and> int64_range (ev_kind ev) \<longrightarrow> r = Inr ev)"
proof -
  let ?c = "c\<lparr>uc_fetch_seq := uc_fetch_seq c + 1\<rparr>"
  obtain e c1 where o: "send_json (JArr [JStr ''REQ'', JStr sid, JObj [(''ids'', JArr [JStr i])]]) ?c = (e, c1)" by force
  have run: "(r, c') = (case e of Some err \<Rightarrow> (Inl err, c1) | None \<Rightarrow> fetch_loop sid i (uc_now c1 + 30 * second) c1)"
    using assms o by (simp add: req_event_by_id_def Let_def split: option.splits)
  have c1: "uc_inbox c1 = uc_inbox c" "uc_now c1 = uc_now c" "uc_broken c1 = uc_broken c" "e = None \<longleftrightarrow> 0 < uc_writes c"
    using o by (auto simp: send_json_def split: if_splits)
  have "uc_now c' \<le> uc_now c + 60 * second"
  proof (cases e)
    case None
    then have "c' = snd (fetch_loop sid i (uc_now c1 + 30 * second) c1)" using run by (metis option.case(1) snd_conv)
    then show ?thesis using fetch_loop_now [of c1 "uc_now c1 + 30 * second" sid i] c1(2) second_pos by simp
  qed (use run c1(2) less_imp_le [OF second_pos] in simp)
  moreover have "ev_id ev = i \<and> (\<exists>raw. sent_by_peer raw c \<and> for_subscription sid raw \<and> decode_event (raw ! 2) = Inr ev)"
    if "r = Inr ev" for ev
  proof -
    from that run have "fetch_loop sid i (uc_now c1 + 30 * second) c1 = (Inr ev, c')" by (auto split: option.splits)
    from fetch_loop_Inr [OF this] show ?thesis using c1(1) by (auto simp: sent_by_peer_def)
  qed
  moreover have "r = Inr ev"
    if "uc_broken c = None \<and> 0 < uc_writes c \<and> t < uc_now c + 30 * second \<and>
      uc_inbox c = map (\<lambda>(t, raw). (t, PeerText (Inr (JArr raw)))) noise @
        (t, PeerText (Inr (frame_json (FEvent sid ev)))) # rest \<and>
      (\<forall>(t, raw) \<in> set noise. passed_over sid i raw \<and> t < uc_now c + 30 * second) \<and>
      ev_id ev = i \<and> int64_range (ev_created_at ev) \<and> int64_range (ev_kind ev)" for ev t noise rest
  proof -
    have "fst (fetch_loop sid i (uc_now c1 + 30 * second) c1) = Inr ev"
      by (rule fetch_loop_finds [where raw = "[JStr ''EVENT'', JStr sid, event_json ev]"])
        (use that c1 event_json_roundtrip in auto)
    moreover have "(r, c') = fetch_loop sid i (uc_now c1 + 30 * second) c1" using run that c1(4) by simp
    ultimately show ?thesis by (metis fst_conv)
  qed
  ultimately show ?thesis by blast
qed

text \<open>C11: A read that times out leaves the connection unusable. So with a positive wait for AUTH an upstream that
  sends nothing while the relay waits - one that does not ask for authentication - is never
  synchronised: the wait succeeds, NEG-OPEN goes out, and the run ends with a timeout and no import,
  whatever the upstream answers.\<close>

theorem silent_upstream_never_synced:
  assumes "re_ops env = sql_store se" and "parse_upstream_filters (up_filters u) = Inr fs" and "dial (up_url u) = Inr c"
    and "uc_broken c = None" and "0 < uc_writes c" and "0 < effective_upstream_auth_wait (re_cfg env)"
    and "\<forall>(t, m) \<in> set (uc_inbox c). uc_now c + effective_upstream_auth_wait (re_cfg env) * second < t"
  shows "pull_upstream env nc vs dial u s = ((0, 0, Some ''negentropy message timeout''), s)"
proof -
  let ?wait = "effective_upstream_auth_wait (re_cfg env) * second"
  let ?c = "c\<lparr>uc_now := uc_now c + ?wait, uc_broken := Some ReadTimeout\<rparr>"
  have wait: "millisecond \<le> ?wait" "0 < ?wait"
    using assms(6) mult_right_mono [of 1 "effective_upstream_auth_wait (re_cfg env)" second]
    by (simp_all add: millisecond_def second_def)
  have hs: "handshake_auth env (up_url u) (uc_now c + ?wait) timeout c = (None, ?c)" for timeout
    using read_message_expired [OF wait(2) assms(4,7)] wait
    by (subst handshake_auth.simps) (simp add: is_timeout_err_def Let_def)
  obtain f rest where fs: "fs = f # rest"
    using assms(2) by (cases "up_filters u") (auto simp: parse_upstream_filters_def split: sum.splits if_splits)
  have "\<exists>c'. sync_filter env nc vs ru limit f ?c s = ((0, 0, Some ''negentropy message timeout''), c', s)" for ru limit
  proof -
    obtain c1 where o: "send_json (JArr [JStr ''NEG-OPEN'', JStr (''up-'' @ show_int (uc_now ?c)), marshal_filter f,
        JStr (nc_start nc (query_event_sync_items f (sv_store s)) limit)]) ?c = (None, c1)" and b: "uc_broken c1 = Some ReadTimeout"
      using assms(5) by (simp add: send_json_def)
    have "neg_rounds env nc ru limit items sid [] c1 = (Inl ''negentropy message timeout'', c1)" for items sid
      by (subst neg_rounds.simps) (simp add: read_message_broken [OF b] is_timeout_err_def)
    then show ?thesis using o by (simp add: sync_filter_def assms(1) sql_store_def Let_def)
  qed
  then obtain c' where "sync_filter env nc vs (up_url u) (effective_frame_size_limit (re_cfg env)) f ?c s =
      ((0, 0, Some ''negentropy message timeout''), c', s)" by blast
  then show ?thesis using wait assms(2,3) hs fs by (simp add: pull_upstream_def Let_def)
qed

text \<open>However the runs of different upstreams interleave, no upstream has two runs at a time, and the status
  of a job says running exactly while a run of it is in progress.\<close>

theorem one_run_per_upstream:
  assumes "sched_reach env (sch, act)"
  shows "distinct (map up_name act) \<and>
    (\<forall>st name. map_of (sc_status sch) name = Some st \<longrightarrow> (js_running st \<longleftrightarrow> name \<in> up_name ` set act)) \<and>
    (\<forall>u \<in> set act. \<forall>s. begin_run env s u sch = None)"
proof -
  have "sched_inv (sch, act)"
    using assms by (induction "(sch, act)" arbitrary: sch act rule: sched_reach.induct)
      (auto intro: launched_inv sched_step_inv)
  then show ?thesis by (auto simp: sched_inv_def begin_run_def Let_def)
qed

section \<open>Witnesses\<close>

definition demo_id :: string where "demo_id = replicate 64 CHR ''0''"

definition demo_import :: event where
  "demo_import = \<lparr>ev_id = demo_id, ev_pubkey = demo_id, ev_created_at = 5, ev_kind = 1, ev_tags = [],
     ev_content = ''hi'', ev_sig = replicate 128 CHR ''0''\<rparr>"

definition demo_filter :: filter where "demo_filter = empty_filter\<lparr>f_kinds := [1]\<rparr>"

definition demo_upstream :: nip77_upstream where
  "demo_upstream = \<lparr>up_name = ''up'', up_url = ''wss://up'', up_filters = [JObj [(''kinds'', JArr [JInt 1])]],
     up_interval_seconds = 0, up_enabled = True\<rparr>"

text \<open>An upstream that answers three seconds after the connection was opened.\<close>

definition demo_peer :: upstream_conn where
  "demo_peer = \<lparr>uc_inbox = map (\<lambda>(t, v). (t * second, PeerText (Inr v)))
       [(3, JArr [JStr ''NEG-MSG'', JStr ''up-0'', JStr ''61'']), (4, frame_json (FEvent ''fetch-1'' demo_import))],
     uc_now = 0, uc_broken = None, uc_sent = [], uc_writes = 9, uc_fetch_seq = 0\<rparr>"

definition demo_neg :: neg_client where
  "demo_neg = \<lparr>nc_start = (\<lambda>_ _. ''61''), nc_reconcile = (\<lambda>_ _ _ _. Inr []), nc_have_nots = (\<lambda>_ _ _. [demo_id])\<rparr>"

definition waiting :: "int \<Rightarrow> event_db relay_env" where
  "waiting n = demo_env\<lparr>re_cfg := wrap_config\<lparr>nips_enabled := [1, 77], nip77 := (nip77 wrap_config)\<lparr>upstream_auth_wait_seconds := n\<rparr>\<rparr>\<rparr>"

abbreviation demo_pull :: "int \<Rightarrow> sync_counts \<times> event_db server" where
  "demo_pull n \<equiv> pull_upstream (waiting n) demo_neg [VSig, VNip42Publish, VNip17Published] (\<lambda>_. Inr demo_peer) demo_upstream demo_server"

lemma demo_filters: "parse_upstream_filters (up_filters demo_upstream) = Inr [demo_filter]"
  by code_simp

lemma demo_valid: "db_valid (sv_store demo_server)"
proof -
  have "sv_store demo_server = empty_db" by (simp add: demo_server_def)
  then show ?thesis using represents_empty unfolding db_valid_def by metis
qed

lemma waiting_ops: "re_ops (waiting n) = sql_store plain_env" "effective_upstream_auth_wait (re_cfg (waiting n)) = max 0 n"
  by (simp_all add: waiting_def demo_env_def effective_upstream_auth_wait_def)

theorem imports_are_admissible_witness:
  "demo_import \<in> db_stored plain_env (sv_store (snd (demo_pull 0))) \<and> verify_sig no_crypto demo_import = None \<and>
   \<not> is_gift_wrap_kind (ev_kind demo_import)"
proof -
  have "fst (demo_pull 0) = (1, 1, None) \<and> sql_matching plain_env empty_filter (sv_store (snd (demo_pull 0))) = [demo_import] \<and>
      sql_matching plain_env empty_filter (sv_store demo_server) = []" by code_simp
  then obtain s' where s': "demo_pull 0 = ((1, 1, None), s')" "demo_import \<in> db_stored plain_env (sv_store s')"
    "demo_import \<notin> db_stored plain_env (sv_store demo_server)"
    by (cases "demo_pull 0") (auto simp: db_stored_def)
  have "re_crypto (waiting 0) = no_crypto" by (simp add: waiting_def demo_env_def)
  then show ?thesis using imports_are_admissible [OF waiting_ops(1) demo_valid s'(1)] s' by auto
qed

theorem upstream_learns_no_gift_wraps_witness:
  "uc_sent (fst (snd (sync_filter (waiting 0) demo_neg [] ''wss://up'' 0 demo_filter demo_peer
      (demo_server\<lparr>sv_store := snd (save_event wrap_event empty_db)\<rparr>)))) =
   uc_sent (fst (snd (sync_filter (waiting 0) demo_neg [] ''wss://up'' 0 demo_filter demo_peer demo_server)))"
proof (rule upstream_learns_no_gift_wraps [OF waiting_ops(1) demo_filters])
  have "db_events (snd (save_event wrap_event empty_db)) = [event_to_row wrap_event] \<and>
      db_tags (snd (save_event wrap_event empty_db)) = tag_rows wrap_event" by code_simp
  then show "represents (sv_store (demo_server\<lparr>sv_store := snd (save_event wrap_event empty_db)\<rparr>)) [wrap_event]"
    by (simp add: represents_def)
  show "represents (sv_store demo_server) []" using represents_empty by (simp add: demo_server_def)
  show "set (without_wraps [wrap_event]) = set (without_wraps [])" by code_simp
qed simp

theorem fetch_returns_requested_witness:
  "fst (req_event_by_id demo_id (demo_peer\<lparr>uc_now := 3 * second\<rparr>)) = Inr demo_import"
proof -
  let ?c = "demo_peer\<lparr>uc_now := 3 * second\<rparr>"
  obtain r c' where r: "req_event_by_id demo_id ?c = (r, c')" by force
  have sid: "''fetch-'' @ show_nat (uc_fetch_seq ?c + 1) = ''fetch-1''" by code_simp
  have "passed_over ''fetch-1'' demo_id [JStr ''NEG-MSG'', JStr ''up-0'', JStr ''61'']"
    by (simp add: passed_over_def)
  then have "uc_broken ?c = None \<and> 0 < uc_writes ?c \<and> 4 * second < uc_now ?c + 30 * second \<and>
      uc_inbox ?c = map (\<lambda>(t, raw). (t, PeerText (Inr (JArr raw)))) [(3 * second, [JStr ''NEG-MSG'', JStr ''up-0'', JStr ''61''])] @
        (4 * second, PeerText (Inr (frame_json (FEvent ''fetch-1'' demo_import)))) # [] \<and>
      (\<forall>(t, raw) \<in> set [(3 * second, [JStr ''NEG-MSG'', JStr ''up-0'', JStr ''61''])].
        passed_over ''fetch-1'' demo_id raw \<and> t < uc_now ?c + 30 * second) \<and>
      ev_id demo_import = demo_id \<and> int64_range (ev_created_at demo_import) \<and> int64_range (ev_kind demo_import)"
    by (simp add: demo_peer_def demo_import_def second_def int64_range_def)
  then have "r = Inr demo_import" using fetch_returns_requested [OF r refl, unfolded sid] by blast
  then show ?thesis using r by simp
qed

theorem silent_upstream_never_synced_witness:
  "fst (demo_pull 2) = (0, 0, Some ''negentropy message timeout'') \<and> fst (demo_pull 0) = (1, 1, None)"
proof -
  have "fst (demo_pull 0) = (1, 1, None)" by code_simp
  moreover have "\<forall>(t, m) \<in> set (uc_inbox demo_peer). uc_now demo_peer + effective_upstream_auth_wait (re_cfg (waiting 2)) * second < t"
    by (simp add: demo_peer_def second_def waiting_ops)
  then have "demo_pull 2 = ((0, 0, Some ''negentropy message timeout''), demo_server)"
    by (intro silent_upstream_never_synced [OF waiting_ops(1) demo_filters, where c = demo_peer])
      (simp_all add: waiting_ops demo_peer_def)
  ultimately show ?thesis by simp
qed

definition busy_scheduler :: scheduler where
  "busy_scheduler = the (begin_run (waiting 0) demo_server demo_upstream (snd (start_jobs (re_cfg (waiting 0)) new_scheduler)))"

theorem one_run_per_upstream_witness: "begin_run (waiting 0) demo_server demo_upstream busy_scheduler = None"
proof -
  have "begin_run (waiting 0) demo_server demo_upstream (snd (start_jobs (re_cfg (waiting 0)) new_scheduler)) \<noteq> None"
    by code_simp
  then have "begin_run (waiting 0) demo_server demo_upstream (snd (start_jobs (re_cfg (waiting 0)) new_scheduler)) = Some busy_scheduler"
    by (auto simp: busy_scheduler_def)
  then have "sched_reach (waiting 0) (busy_scheduler, [demo_upstream])"
    by (blast intro: sched_reach.intros sched_step.claim)
  from one_run_per_upstream [OF this] show ?thesis by simp
qed

end
