(* ===== verification/Relay_Server.thy ===== *)
theory Relay_Server
  imports Relay_Dispatch Relay_Http Upstream_Sync
begin

text \<open>
  The life of connections in \<open>internal/relay/relay.go\<close>: admission, registration, teardown and
  shutdown, and the idle sweep of \<open>conn_idle.go\<close>; then the server as a step relation over all its
  operations, and what holds in every state it reaches.

  \<open>acceptWebSocket\<close> is cut where other goroutines can run: taking a global slot
  (\<open>reserve_connection\<close>), the per-IP checks (\<open>admit_client\<close>) and the end of the upgrade
  (\<open>finish_upgrade\<close>); \<open>accept_websocket\<close> is their composition. \<open>serveWS\<close> is \<open>start_conn\<close>
  up to its read loop and \<open>end_conn\<close> after it, deferred calls included. The random connection ids
  are a list of candidates. Sockets, deadlines, logging, metrics and the stored session audit are
  left out; a message is handled in one step here, the interleavings of its pieces with other
  goroutines are those of \<open>Snapshot\<close>.
\<close>

section \<open>Admission\<close>

definition reserve_connection :: "config \<Rightarrow> 'st server \<Rightarrow> bool \<times> 'st server" where
  "reserve_connection cfg s =
     (if sv_open s \<ge> max_open (connection_limits cfg) then (False, s)
      else (True, s\<lparr>sv_open := sv_open s + 1\<rparr>))"

type_synonym http_refusal = "int \<times> string"

definition admit_client :: "'st relay_env \<Rightarrow> string list \<Rightarrow> string \<Rightarrow> int \<times> int \<times> int \<Rightarrow> http_request \<Rightarrow> 'st server \<Rightarrow>
    (http_refusal + string) \<times> 'st server" where
  "admit_client env prefixes header clk r s =
     (let cfg = re_cfg env; (t1, t2, t3) = clk;
          peer = client_ip (re_net env) prefixes header r;
          (ok, h) = allow_new_connection cfg t1 t2 t3 peer (sv_hub s);
          s = s\<lparr>sv_hub := h\<rparr>;
          unreserved = s\<lparr>sv_open := sv_open s - 1\<rparr>
      in if \<not> ok then (Inl (429, ''connection rate limit''), unreserved)
         else let ((_, acquired), t) = try_acquire peer (max_open_per_ip (connection_limits cfg)) (sv_ip_open s)
              in if \<not> acquired then (Inl (429, ''too many connections from this IP''), unreserved)
                 else if sv_shutting_down s
                 then (Inl (503, ''relay shutting down''), unreserved\<lparr>sv_ip_open := release_ip peer t\<rparr>)
                 else (Inr peer, s\<lparr>sv_ip_open := t\<rparr>))"

definition finish_upgrade :: "string \<Rightarrow> bool \<Rightarrow> 'st server \<Rightarrow> 'st server" where
  "finish_upgrade peer ok s =
     (if ok then s else s\<lparr>sv_ip_open := release_ip peer (sv_ip_open s), sv_open := sv_open s - 1\<rparr>)"

definition accept_websocket :: "'st relay_env \<Rightarrow> string list \<Rightarrow> string \<Rightarrow> int \<times> int \<times> int \<Rightarrow> http_request \<Rightarrow> bool \<Rightarrow>
    'st server \<Rightarrow> (http_refusal + string option) \<times> 'st server" where
  "accept_websocket env prefixes header clk r upgraded s =
     (case reserve_connection (re_cfg env) s of
        (False, s) \<Rightarrow> (Inl (503, ''too many connections''), s)
      | (True, s) \<Rightarrow>
          (case admit_client env prefixes header clk r s of
             (Inl refusal, s) \<Rightarrow> (Inl refusal, s)
           | (Inr peer, s) \<Rightarrow> (Inr (if upgraded then Some peer else None), finish_upgrade peer upgraded s)))"

section \<open>Connections\<close>

fun pick_conn_id :: "string list \<Rightarrow> (string, conn) go_map \<Rightarrow> string option" where
  "pick_conn_id [] conns = None"
| "pick_conn_id (cid # cids) conns = (if map_of conns cid = None then Some cid else pick_conn_id cids conns)"

definition register_connection :: "string list \<Rightarrow> conn \<Rightarrow> 'st server \<Rightarrow> (string \<times> 'st server) option" where
  "register_connection cids c s =
     (case pick_conn_id cids (w_conns s) of
        None \<Rightarrow> None
      | Some cid \<Rightarrow>
          (let c = c\<lparr>cn_id := cid\<rparr>;
               c = (if sv_shutting_down s then initiate_shutdown c else c)
           in Some (cid, s\<lparr>w_conns := AList.update cid c (w_conns s)\<rparr>)))"

definition start_conn :: "'st relay_env \<Rightarrow> string list \<Rightarrow> string \<Rightarrow> int \<Rightarrow> string \<Rightarrow> 'st server \<Rightarrow> (string \<times> 'st server) option" where
  "start_conn env cids fresh now peer s =
     (case register_connection cids (new_conn (re_cfg env) [] peer now) s of
        None \<Rightarrow> None
      | Some (cid, s) \<Rightarrow>
          (let s = update_conn cid init_idle_clock s;
               s = register_sender cid s
           in Some (cid, if nip11_auth_required (re_cfg env) then challenge_client env fresh cid s else s)))"

definition end_conn :: "string \<Rightarrow> 'st server \<Rightarrow> 'st server" where
  "end_conn cid s =
     (case load_conn cid s of None \<Rightarrow> s | Some c \<Rightarrow>
      let s = neg_close_all cid s;
          (sids, s) = unregister_sender cid s;
          s = fold (\<lambda>sid s. snd (on_conn cid (send_closed sid ''connection closed'') s)) sids s;
          s = update_conn cid initiate_shutdown s;
          s = s\<lparr>w_conns := AList.delete cid (w_conns s)\<rparr>;
          s = s\<lparr>sv_ip_open := release_ip (cn_peer_ip c) (sv_ip_open s)\<rparr>
      in s\<lparr>sv_open := sv_open s - 1\<rparr>)"

definition map_conns :: "(string \<Rightarrow> conn \<Rightarrow> conn) \<Rightarrow> 'st server \<Rightarrow> 'st server" where
  "map_conns f s = s\<lparr>w_conns := map (\<lambda>(cid, c). (cid, f cid c)) (w_conns s)\<rparr>"

definition shutdown_server :: "'st server \<Rightarrow> 'st server" where
  "shutdown_server s = map_conns (\<lambda>_ c. initiate_shutdown c) (s\<lparr>sv_shutting_down := True\<rparr>)"

definition sweep_idle_connections :: "int \<Rightarrow> int \<Rightarrow> 'st server \<Rightarrow> 'st server" where
  "sweep_idle_connections limit now s =
     map_conns (\<lambda>cid c.
       if \<not> idle_eligible (sub_count cid s) c then c
       else if idle_seconds now c < limit then c else initiate_shutdown c) s"

text \<open>One tick of \<open>idleConnSweeper\<close>.\<close>

definition idle_tick :: "config \<Rightarrow> int \<Rightarrow> 'st server \<Rightarrow> 'st server" where
  "idle_tick cfg now s =
     (let limit = idle_no_event_no_sub_seconds (connection_limits cfg)
      in if limit \<le> 0 then s else sweep_idle_connections limit now s)"

section \<open>The running server\<close>

text \<open>A server with the requests being accepted: how many hold only a global slot, and the addresses
  of those that hold both slots and are being upgraded.\<close>

record 'st relay_sys =
  ys_server :: "'st server"
  ys_reserved :: nat
  ys_upgrading :: "string list"

record 'st site =
  rs_env :: "'st relay_env"
  rs_reconcile :: reconciler
  rs_pipeline :: pipeline
  rs_prefixes :: "string list"
  rs_header :: string

inductive server_step :: "'st site \<Rightarrow> 'st relay_sys \<Rightarrow> 'st relay_sys \<Rightarrow> bool" for p where
  reserve: "reserve_connection (re_cfg (rs_env p)) (ys_server y) = (True, s) \<Longrightarrow>
    server_step p y (y\<lparr>ys_server := s, ys_reserved := ys_reserved y + 1\<rparr>)"
| busy: "reserve_connection (re_cfg (rs_env p)) (ys_server y) = (False, s) \<Longrightarrow>
    server_step p y (y\<lparr>ys_server := s\<rparr>)"
| admit: "ys_reserved y = Suc n \<Longrightarrow>
    admit_client (rs_env p) (rs_prefixes p) (rs_header p) clk r (ys_server y) = (Inr peer, s) \<Longrightarrow>
    server_step p y (y\<lparr>ys_server := s, ys_reserved := n, ys_upgrading := peer # ys_upgrading y\<rparr>)"
| refuse: "ys_reserved y = Suc n \<Longrightarrow>
    admit_client (rs_env p) (rs_prefixes p) (rs_header p) clk r (ys_server y) = (Inl refusal, s) \<Longrightarrow>
    server_step p y (y\<lparr>ys_server := s, ys_reserved := n\<rparr>)"
| upgrade_failed: "peer \<in> set (ys_upgrading y) \<Longrightarrow>
    server_step p y (y\<lparr>ys_server := finish_upgrade peer False (ys_server y), ys_upgrading := remove1 peer (ys_upgrading y)\<rparr>)"
| connected: "peer \<in> set (ys_upgrading y) \<Longrightarrow>
    start_conn (rs_env p) cids fresh now peer (finish_upgrade peer True (ys_server y)) = Some (cid, s) \<Longrightarrow>
    server_step p y (y\<lparr>ys_server := s, ys_upgrading := remove1 peer (ys_upgrading y)\<rparr>)"
| payload: "dispatch_payload (rs_reconcile p) (rs_env p) (rs_pipeline p) rd cid len data (ys_server y) = Some s \<Longrightarrow>
    server_step p y (y\<lparr>ys_server := s\<rparr>)"
| written: "server_step p y (y\<lparr>ys_server := update_conn cid (write_loop_step e) (ys_server y)\<rparr>)"
| page: "sv_jobs (ys_server y) = job # rest \<Longrightarrow>
    run_job fuel (re_ops (rs_env p)) (sv_store (ys_server y)) ctx_err (sees (rs_env p)) job rest (ys_server y) =
      Some (jobs, s) \<Longrightarrow>
    server_step p y (y\<lparr>ys_server := s\<lparr>sv_jobs := jobs\<rparr>\<rparr>)"
| neg_load: "sv_neg_jobs (ys_server y) = job # rest \<Longrightarrow>
    server_step p y (y\<lparr>ys_server :=
      run_neg_open_job (rs_reconcile p) (rs_env p) now job ((ys_server y)\<lparr>sv_neg_jobs := rest\<rparr>)\<rparr>)"
| neg_idle: "server_step p y (y\<lparr>ys_server := neg_idle_fires cid sid key (ys_server y)\<rparr>)"
| fanout: "server_step p y (y\<lparr>ys_server := imported_event_fanout (rs_env p) i (ys_server y)\<rparr>)"
| imported: "verify_sig (re_crypto (rs_env p)) ev = None \<Longrightarrow> filter_matches f ev \<Longrightarrow>
    persist_imported_event (rs_env p) now (pl_validators (rs_pipeline p)) ev (ys_server y) = (r, s) \<Longrightarrow>
    server_step p y (y\<lparr>ys_server := s\<rparr>)"
| idle: "server_step p y (y\<lparr>ys_server := idle_tick (re_cfg (rs_env p)) now (ys_server y)\<rparr>)"
| disconnect: "server_step p y (y\<lparr>ys_server := end_conn cid (ys_server y)\<rparr>)"
| shutdown: "server_step p y (y\<lparr>ys_server := shutdown_server (ys_server y)\<rparr>)"

definition new_server :: "'st site \<Rightarrow> 'st \<Rightarrow> 'st server" where
  "new_server p st = \<lparr>w_subs = new_subscription_manager (re_cfg (rs_env p)), w_conns = [], sv_store = st,
     sv_hub = new_hub, sv_ip_open = [], sv_open = 0, sv_shutting_down = False, sv_jobs = [],
     sv_plugin_events = [], sv_observed = [], sv_neg_jobs = [], sv_neg_active = 0,
     sv_neg_slots = pl_neg_loads (rs_pipeline p), sv_neg_next = 0\<rparr>"

inductive server_reach :: "'st site \<Rightarrow> 'st \<Rightarrow> 'st relay_sys \<Rightarrow> bool" for p st where
  start: "server_reach p st \<lparr>ys_server = new_server p st, ys_reserved = 0, ys_upgrading = []\<rparr>"
| step: "server_reach p st y \<Longrightarrow> server_step p y y' \<Longrightarrow> server_reach p st y'"

section \<open>What every message keeps\<close>

text \<open>A relation between server states that holds across the elementary changes holds across every
  message, page and import. \<open>ok\<close> says which events may be stored.\<close>

lemma quiet_sub_add: "quiet w (snd (sub_add now cid sid fs w))"
  by (simp add: sub_add_def quiet_def conn_view_def put_entry_def set_subs_def Let_def)

lemma quiet_senders: "quiet w (register_sender cid w)" "quiet w (snd (unregister_sender cid w))"
  by (simp_all add: register_sender_def unregister_sender_def quiet_def conn_view_def set_subs_def Let_def)

locale server_relation = wire: wire_relation F
  for F :: "'st server \<Rightarrow> 'st server \<Rightarrow> bool" +
  fixes env :: "'st relay_env" and ok :: "event \<Rightarrow> bool"
  assumes F_sub_add: "load_conn cid s = Some c \<Longrightarrow> F s (snd (sub_add now cid sid fs s))"
    and F_fields: "F s (s\<lparr>sv_jobs := jobs\<rparr>)" "F s (s\<lparr>sv_hub := h\<rparr>)" "F s (s\<lparr>sv_plugin_events := pe\<rparr>)"
      "F s (s\<lparr>sv_observed := ob\<rparr>)" "F s (s\<lparr>sv_neg_jobs := njobs\<rparr>)"
    and F_save: "ok ev \<Longrightarrow> F s (snd (save_in env ev s))"
    and F_signed: "sign_event env e = Inr ev \<Longrightarrow> ok ev"
    and F_neg_open: "F s (snd (handle_neg_open env fresh cid sid f hex s))"
    and F_neg_msg: "F s (snd (handle_neg_msg reconcile env now cid sid hex s))"
    and F_neg_close: "F s (handle_neg_close cid sid s)"
    and F_neg_load: "F s (run_neg_open_job reconcile env now job s)"
    and F_neg_idle: "F s (neg_idle_fires cid sid key s)"
begin

lemmas F_refl = wire.R_refl and F_trans = wire.R_trans

lemma update_op: "(\<And>c. tame c (f c)) \<Longrightarrow> F s (update_conn cid f s)"
  unfolding update_conn_def by (rule wire.R_conn_op) simp

lemma challenge: "F s (challenge_client env fresh cid s)"
  unfolding challenge_client_def by (rule wire.R_conn_op) simp

lemma send: "F s s' \<Longrightarrow> F s (snd (on_conn cid (send_ok i b m) s'))" "F s s' \<Longrightarrow> F s (snd (on_conn cid (send_closed sid m) s'))"
  "F s s' \<Longrightarrow> F s (notice cid m s')"
  unfolding notice_def by (rule F_trans, assumption, rule wire.R_conn_op, simp)+

lemma publish: "F s (snd (publish_signed env ev s))"
proof (cases "sign_event env ev")
  case (Inr e)
  obtain err s1 where r: "save_in env e s = (err, s1)" by force
  have "F s s1" using F_save [OF F_signed [OF Inr], of s] r by simp
  moreover have "F s1 (broadcast_event env e s1)" unfolding broadcast_event_def by (rule wire.broadcast)
  ultimately show ?thesis using Inr r F_trans by (cases err) (auto simp: publish_signed_def)
qed (simp add: publish_signed_def F_refl)

lemma ensure: "F s (snd (nip29_ensure_group_metadata env now rpk gid s))"
proof (cases "so_metadata (re_ops env) rpk gid (sv_store s)")
  case (Inr md)
  let ?create = "relay_event now NIP29KindCreateGroup [[''h'', gid]]"
  obtain err s1 where r: "publish_signed env ?create s = (err, s1)" by force
  have "F s s1" using publish [of s ?create] r by simp
  then show ?thesis
    using Inr r F_refl F_trans [OF _ publish] by (cases md; cases err) (auto simp: nip29_ensure_group_metadata_def)
qed (simp add: nip29_ensure_group_metadata_def F_refl)

lemma members: "F s (snd (nip29_relay_put_user env now ev s))" "F s (snd (nip29_relay_remove_user env now ev s))"
  by (simp_all add: nip29_relay_put_user_def nip29_relay_remove_user_def Let_def F_refl publish)

lemma notify: "F s (notify_plugin_stored_event env ev stored obs s)"
proof -
  let ?s1 = "s\<lparr>sv_plugin_events := sv_plugin_events s @ [(ev, stored)]\<rparr>"
  have "F s (?s1\<lparr>sv_observed := sv_observed ?s1 @ [EventMessage ev]\<rparr>)"
    by (rule F_trans [OF F_fields(3) F_fields(4)])
  then show ?thesis by (simp add: notify_plugin_stored_event_def F_refl F_fields Let_def)
qed

lemma nip29_hook: "F s (nip29_post_store_hook env now now2 stored ev s)"
proof (cases "\<not> nip29_enabled (re_cfg env) \<or> \<not> stored \<or> re_relay_id env = None")
  case False
  then obtain rpk where rpk: "re_relay_id env = Some rpk" "nip29_enabled (re_cfg env)" stored by auto
  let ?gid = "nip29_group_h_tag ev"
  let ?s1 = "if ?gid \<noteq> [] then snd (nip29_ensure_group_metadata env now rpk ?gid s) else s"
  let ?s2 = "if ev_kind ev = NIP29KindJoinRequest then snd (nip29_relay_put_user env now2 ev ?s1) else ?s1"
  let ?s3 = "if ev_kind ev = NIP29KindLeaveReq then snd (nip29_relay_remove_user env now2 ev ?s2) else ?s2"
  have "F s ?s1" using ensure F_refl by simp
  moreover have "F ?s1 ?s2" using members F_refl by simp
  moreover have "F ?s2 ?s3" using members F_refl by simp
  ultimately have "F s ?s3" using F_trans by blast
  then show ?thesis using rpk by (simp add: nip29_post_store_hook_def Let_def)
qed (auto simp: nip29_post_store_hook_def F_refl split: option.split)

lemma hook: "F s (run_hook env now now2 h stored ev s)"
  by (cases h) (simp_all add: nip29_hook notify F_refl broadcast_event_def wire.broadcast)

lemma hooks: "F s (run_hooks env now now2 hs stored ev s)"
proof (induction hs arbitrary: s)
  case (Cons h hs)
  then show ?case by (simp add: F_trans [OF hook Cons.IH])
qed (simp add: F_refl)

lemma event_handler:
  assumes valid: "\<And>c. validate_chain env now vs c ev (sv_store s) = None \<Longrightarrow> ok ev"
  shows "F s (snd (handle_event env vs hs now now1 now2 fresh cid ev s))"
proof (cases "load_conn cid s")
  case (Some c)
  show ?thesis
  proof (cases "validate_chain env now vs c ev (sv_store s)")
    case r: (Some reason)
    have "F s (if has_prefix reason ''auth-required:'' then challenge_client env fresh cid s else s)"
      using challenge F_refl by simp
    from send(1) [OF this] show ?thesis using Some r by (simp add: handle_event_def)
  next
    case None
    note ok = valid [OF None]
    obtain e1 s1 where eph: "on_conn cid (send_ok (ev_id ev) True []) s = (e1, s1)" by force
    have f1: "F s s1" using send(1) [OF F_refl, of s cid "ev_id ev" True "[]"] eph by simp
    obtain serr s2 where sv: "save_in env ev s = (serr, s2)" by force
    have f2: "F s s2" using F_save [OF ok, of s] sv by simp
    note run = handle_event_def Some None
    show ?thesis
    proof (cases "is_ephemeral (ev_kind ev)")
      case True
      then show ?thesis using eph f1 F_trans [OF f1 hooks] by (cases e1) (simp_all add: run)
    next
      case False
      then show ?thesis
        using sv send(1) [OF F_refl] send(1) [OF f2] send(1) [OF F_trans [OF f2 hooks]]
        by (cases serr) (auto simp: run split: sum.split)
    qed
  qed
qed (simp add: handle_event_def F_refl)

lemma req_gate: "req_gate env fresh first cid sid fs s = Some r \<Longrightarrow> F s (snd r)"
proof -
  assume r: "req_gate env fresh first cid sid fs s = Some r"
  have "F s (challenge_client env fresh cid s)" by (rule challenge)
  then show ?thesis
    using r F_refl send(2) [OF F_refl] send(2) [OF challenge]
    by (auto simp: req_gate_def split: option.splits if_splits)
qed

lemma req_handler:
  assumes "handle_req env fuel fresh now search cid sid filters s = Some (err, s')"
  shows "F s s'"
proof -
  have rel: "wire_relation F" by (rule wire.wire_relation_axioms)
  obtain fs first where path: "req_gate env fresh first cid sid fs s = Some (err, s') \<or>
      (req_gate env fresh first cid sid fs s = None \<and> req_path F now cid sid fs s s')"
    using handle_req_path [OF rel F_fields(1) assms] by blast
  have "F s s'" if p: "req_path F now cid sid fs s s'" and gate: "req_gate env fresh first cid sid fs s = None"
  proof -
    obtain c where "load_conn cid s = Some c" using gate by (auto simp: req_gate_def split: option.splits)
    note add = F_sub_add [OF this, of now sid fs]
    consider m s0 where "s0 = s \<or> (\<exists>e. sub_add now cid sid fs s = (Some e, s0))"
        "s' = snd (on_conn cid (send_closed sid m) s0)"
      | s1 where "sub_add now cid sid fs s = (None, s1)" "F s1 s'"
      using p unfolding req_path_def by blast
    then show ?thesis
    proof cases
      case 1
      have "F s s0" using 1(1) add F_refl by auto
      then show ?thesis unfolding 1(2) by (rule send(2))
    next
      case 2
      then show ?thesis using add F_trans by (metis snd_conv)
    qed
  qed
  then show ?thesis using path req_gate by fastforce
qed

lemma count_note: "F s (note_sub_count now cid s)"
  unfolding note_sub_count_def by (rule wire.R_conn_op) simp

lemma close_handler: "F s (handle_close now cid sid s)"
  unfolding handle_close_def sub_remove_def
  by (rule F_trans [OF F_trans [OF send(2) [OF F_refl] wire.R_remove] count_note])

lemma auth_handler: "F s (snd (handle_nip42_auth env now cid ev s))"
proof -
  have "F s (snd (on_conn cid (\<lambda>c. send_ok (ev_id ev) True [] (nip42_add_pubkey (ev_pubkey ev) c)) s))"
    by (rule wire.R_conn_op) (simp add: tame_def)
  moreover have "F s (snd (on_conn cid (send_notice m) s))" for m by (rule wire.R_conn_op) simp
  ultimately show ?thesis
    using send(1) [OF F_refl] F_refl by (simp add: handle_nip42_auth_def Let_def split: option.split)
qed

lemma run_handler:
  assumes "run_handler reconcile env p rd cid h msg s = Some (err, s')"
    and "\<And>c ev. validate_chain env (rd_now rd) (pl_validators p) c ev (sv_store s) = None \<Longrightarrow> ok ev"
  shows "F s s'"
  using assms(1)
    event_handler [OF assms(2), where hs = "pl_hooks p" and fresh = "rd_fresh rd" and cid = cid]
    req_handler close_handler auth_handler F_neg_open F_neg_msg F_neg_close
  by (cases h; cases msg) (auto dest: sym [of "(_, _)"] simp: prod_eq_iff)


lemma dispatch_step:
  assumes "dispatch reconcile env p rd cid msg s = Some (err, s')"
    and "\<And>c ev. validate_chain env (rd_now rd) (pl_validators p) c ev (sv_store s) = None \<Longrightarrow> ok ev"
  shows "F s s'"
  using assms run_handler [of reconcile p rd cid _ msg s err s'] F_refl
  by (auto simp: dispatch_def split: option.splits)

lemma reject: "F s (reject_until_connect_auth env fresh cid msg s)"
proof -
  have "F t (snd (on_conn cid (connect_refusal msg) t))" for t by (rule wire.R_conn_op) (cases msg, simp_all)
  then show ?thesis unfolding reject_until_connect_auth_def by (rule F_trans [OF challenge])
qed

lemma message_step:
  assumes "dispatch_message reconcile env p rd cid c msg s = Some s'"
    and ok: "\<And>c ev st. validate_chain env (rd_now rd) (pl_validators p) c ev st = None \<Longrightarrow> ok ev"
  shows "F s s'"
proof (cases "nip42_connect_gate (re_cfg env) c \<and> \<not> is_auth_message msg")
  case True
  then show ?thesis using assms(1) reject by (auto simp: dispatch_message_def)
next
  case False
  obtain refusal cl where l: "allow_by_type (rd_limit_time rd) msg (cn_limiter c) = (refusal, cl)" by force
  let ?s1 = "update_conn cid (note_inbound_after_parse msg) s"
  let ?s2 = "update_conn cid (\<lambda>c. c\<lparr>cn_limiter := cl\<rparr>) ?s1"
  have f2: "F s ?s2" by (rule F_trans [OF update_op update_op]) simp_all
  have obs: "F ?s2 (observe env msg ?s2)" by (simp add: observe_def F_refl F_fields)
  note run = assms(1) [unfolded dispatch_message_def if_not_P [OF False] Let_def l, simplified]
  show ?thesis
  proof (cases refusal)
    case (Some reason)
    then show ?thesis using run send(3) [OF f2] by auto
  next
    case None
    then obtain err s3 where d: "dispatch reconcile env p rd cid msg (observe env msg ?s2) = Some (err, s3)"
      using run by (auto split: option.splits)
    have f3: "F s s3" by (rule F_trans [OF F_trans [OF f2 obs] dispatch_step [OF d ok]])
    then show ?thesis using run None d send(3) [OF f3] by (cases err) auto
  qed
qed

lemma payload_step:
  assumes "dispatch_payload reconcile env p rd cid len data s = Some s'"
    and ok: "\<And>c ev st. validate_chain env (rd_now rd) (pl_validators p) c ev st = None \<Longrightarrow> ok ev"
  shows "F s s'"
proof (cases "load_conn cid s")
  case (Some c)
  obtain t1 t2 t3 where t: "rd_ip_times rd = (t1, t2, t3)" by (cases "rd_ip_times rd") auto
  obtain ok1 h where m: "allow_message (re_cfg env) t1 t2 t3 (cn_peer_ip c) (sv_hub s) = (ok1, h)" by force
  obtain ok2 cl where b: "allow_inbound_bytes (rd_bytes_time rd) len (cn_limiter c) = (ok2, cl)" by force
  let ?s1 = "s\<lparr>sv_hub := h\<rparr>" and ?c = "c\<lparr>cn_limiter := cl\<rparr>"
  let ?s2 = "update_conn cid (\<lambda>_. ?c) ?s1"
  have f1: "F s ?s1" by (rule F_fields)
  have "?s2 = update_conn cid (\<lambda>c. c\<lparr>cn_limiter := cl\<rparr>) ?s1"
    using Some by (simp add: update_conn_def conn_op_def load_conn_def)
  moreover have "F ?s1 (update_conn cid (\<lambda>c. c\<lparr>cn_limiter := cl\<rparr>) ?s1)" by (rule update_op) simp
  ultimately have f2: "F s ?s2" using F_trans [OF f1] by simp
  note run = dispatch_payload_def Some t m b
  show ?thesis
  proof (cases "ok1 \<and> ok2 \<and> (\<exists>j msg. data = Some j \<and> parse_message j = Inr msg)")
    case True
    then obtain msg where "dispatch_message reconcile env p rd cid ?c msg ?s2 = Some s'"
      using assms(1) by (auto simp: run Let_def)
    then have "F ?s2 s'" by (rule message_step) (rule ok)
    then show ?thesis by (rule F_trans [OF f2])
  next
    case False
    then have "(\<exists>r. s' = notice cid r ?s1) \<or> (\<exists>r. s' = notice cid r ?s2)"
      using assms(1) by (auto simp: run Let_def split: if_splits option.splits sum.splits)
    then show ?thesis using send(3) [OF f1] send(3) [OF f2] by auto
  qed
qed (use assms(1) in \<open>simp add: dispatch_payload_def F_refl\<close>)

lemma page_step:
  assumes "run_job fuel (re_ops env) st ctx_err vis job rest s = Some (jobs, s')"
  shows "F s (s'\<lparr>sv_jobs := jobs\<rparr>)"
  by (rule F_trans [OF wire.run_job [OF assms] F_fields(1)])

lemma deliver_step: "F s (deliver_imported_event env ev s)"
  unfolding deliver_imported_event_def broadcast_event_def by (rule F_trans [OF notify wire.broadcast])

lemma fanout_step: "F s (imported_event_fanout env i s)"
  using deliver_step by (simp add: imported_event_fanout_def F_refl split: sum.split)

lemma import_step:
  assumes "\<And>c. validate_chain env now vs c ev (sv_store s) = None \<Longrightarrow> ok ev"
  shows "F s (snd (persist_imported_event env now vs ev s))"
proof (cases "validate_imported_event env now vs (blank_conn (re_cfg env)) ev (sv_store s)")
  case None
  then have "ok ev" using assms by (auto simp: validate_imported_event_def split: if_splits)
  obtain err s1 where save: "save_in env ev s = (err, s1)" by force
  have "F s s1" using F_save [OF \<open>ok ev\<close>, of s] save by simp
  then show ?thesis
    using None save F_trans [OF _ deliver_step] F_refl
    by (cases err) (auto simp: persist_imported_event_def split: sum.split bool.split)
qed (simp add: persist_imported_event_def F_refl split: sum.split bool.split)

lemma neg_load_step: "F s (run_neg_open_job reconcile env now job (s\<lparr>sv_neg_jobs := rest\<rparr>))"
  by (rule F_trans [OF F_fields(5) F_neg_load])

lemma write_step: "F s (update_conn cid (write_loop_step e) s)"
  by (rule update_op) simp

end

section \<open>Stored events are authentic\<close>

text \<open>An event is authentic if its id and signature verify, or the relay signed it itself.\<close>

definition authentic :: "'st relay_env \<Rightarrow> event \<Rightarrow> bool" where
  "authentic env ev \<longleftrightarrow> verify_sig (re_crypto env) ev = None \<or> (\<exists>e. sign_event env e = Inr ev)"

text \<open>\<open>I\<close> is kept from a state to the next whatever happens to the rest of the server.\<close>

definition keeps_store :: "('st \<Rightarrow> bool) \<Rightarrow> 'st server \<Rightarrow> 'st server \<Rightarrow> bool" where
  "keeps_store I s s' \<longleftrightarrow> (I (sv_store s) \<longrightarrow> I (sv_store s'))"

lemma update_conn_server [simp]:
  "sv_store (update_conn cid f s) = sv_store s" "sv_ip_open (update_conn cid f s) = sv_ip_open s"
  "sv_open (update_conn cid f s) = sv_open s" "sv_shutting_down (update_conn cid f s) = sv_shutting_down s"
  by (simp_all add: update_conn_def conn_op_def split: option.split prod.split)

lemma conn_op_admission [simp]:
  "sv_ip_open (snd (conn_op cid f s)) = sv_ip_open s" "sv_open (snd (conn_op cid f s)) = sv_open s"
  "sv_shutting_down (snd (conn_op cid f s)) = sv_shutting_down s"
  by (simp_all add: conn_op_def split: option.split prod.split)

section \<open>What synchronisation leaves alone\<close>

definition conn_ids :: "'a wire_scheme \<Rightarrow> (string \<times> string \<times> string) list" where
  "conn_ids w = map (\<lambda>(cid, c). (cid, cn_id c, cn_peer_ip c)) (w_conns w)"

text \<open>Who is connected, the admission counters, the shutdown flag and the store; then also the
  subscriptions and which connections are shut.\<close>

definition accounts :: "'st server \<Rightarrow> (string \<times> string \<times> string) list \<times> ip_counts \<times> int \<times> bool \<times> 'st" where
  "accounts s = (conn_ids s, sv_ip_open s, sv_open s, sv_shutting_down s, sv_store s)"

definition fixed :: "'st server \<Rightarrow> _" where
  "fixed s = (accounts s, w_subs s, map (\<lambda>(cid, c). (cid, shut c)) (w_conns s))"

lemma fixed_accounts: "fixed s' = fixed s \<Longrightarrow> accounts s' = accounts s"
  by (simp add: fixed_def)

lemma conn_ids_view: "conn_ids w = map (\<lambda>(cid, i, peer, _). (cid, i, peer)) (conn_view w)"
  by (simp add: conn_ids_def conn_view_def settled_def case_prod_unfold)

lemma neg_view_conn_view: "neg_view w = map (\<lambda>(cid, _, _, m, b). (cid, m, b)) (conn_view w)"
  by (simp add: neg_view_def conn_view_def settled_def case_prod_unfold)

lemma accounts_quiet: "quiet s s' \<Longrightarrow> accounts s' = accounts s"
  using quiet_server [of s s'] by (simp add: accounts_def conn_ids_view)

lemma fixed_update [simp]:
  "fixed (s\<lparr>sv_jobs := jobs\<rparr>) = fixed s" "fixed (s\<lparr>sv_hub := h\<rparr>) = fixed s" "fixed (s\<lparr>sv_plugin_events := pe\<rparr>) = fixed s"
  "fixed (s\<lparr>sv_observed := ob\<rparr>) = fixed s" "fixed (s\<lparr>sv_neg_jobs := nj\<rparr>) = fixed s"
  "fixed (s\<lparr>sv_neg_active := a\<rparr>) = fixed s" "fixed (s\<lparr>sv_neg_next := k\<rparr>) = fixed s"
  by (simp_all add: fixed_def accounts_def conn_ids_def)

lemma fixed_conn_op:
  assumes "\<And>c. cn_id (snd (f c)) = cn_id c \<and> cn_peer_ip (snd (f c)) = cn_peer_ip c \<and> shut (snd (f c)) = shut c"
  shows "fixed (snd (conn_op cid f s)) = fixed s"
proof -
  have keys: "map_of m cid = Some c \<Longrightarrow> g (snd (f c)) = g c \<Longrightarrow>
      map (\<lambda>(cid, c). (cid, g c)) (AList.update cid (snd (f c)) m) = map (\<lambda>(cid, c). (cid, g c)) m"
    for m :: "(string, conn) go_map" and c and g :: "conn \<Rightarrow> 'z"
    by (induction m) (auto split: if_splits)
  show ?thesis
  proof (cases "map_of (w_conns s) cid")
    case (Some c)
    have "conn_ids (snd (conn_op cid f s)) = conn_ids s"
      using keys [OF Some, of "\<lambda>c. (cn_id c, cn_peer_ip c)"] assms Some
      by (simp add: conn_ids_def conn_op_def case_prod_unfold Let_def)
    moreover have "map (\<lambda>(cid, c). (cid, shut c)) (w_conns (snd (conn_op cid f s))) = map (\<lambda>(cid, c). (cid, shut c)) (w_conns s)"
      using keys [OF Some, of shut] assms Some by (simp add: conn_op_def case_prod_unfold Let_def)
    ultimately show ?thesis by (simp add: fixed_def accounts_def)
  qed (simp add: conn_op_def)
qed

lemma fixed_update_conn:
  "(\<And>c. cn_id (f c) = cn_id c \<and> cn_peer_ip (f c) = cn_peer_ip c \<and> shut (f c) = shut c) \<Longrightarrow> fixed (update_conn cid f s) = fixed s"
  unfolding update_conn_def by (rule fixed_conn_op) simp

lemma shut_fields [simp]:
  "shut (c\<lparr>cn_neg_sessions := m\<rparr>) = shut c" "shut (c\<lparr>cn_neg_closed := b\<rparr>) = shut c"
  "shut (snd (nip42_enqueue_auth_challenge cfg fresh c)) = shut c"
  by (simp_all add: shut_def nip42_enqueue_auth_challenge_def nip42_ensure_challenge_def marshal_relay_auth_def Let_def)

lemma same_conn_sends [simp]:
  "cn_id (snd (nip42_enqueue_auth_challenge cfg fresh c)) = cn_id c"
  "cn_peer_ip (snd (nip42_enqueue_auth_challenge cfg fresh c)) = cn_peer_ip c"
  by (simp_all add: nip42_enqueue_auth_challenge_def nip42_ensure_challenge_def marshal_relay_auth_def Let_def)

lemma fixed_send [simp]:
  "fixed (snd (send_neg_err cid sid m s)) = fixed s" "fixed (snd (on_conn cid (enqueue b) s)) = fixed s"
  "fixed (snd (on_conn cid (nip42_enqueue_auth_challenge cfg fresh) s)) = fixed s"
  unfolding send_neg_err_def by (rule fixed_conn_op, simp)+

lemma fixed_neg [simp]:
  "fixed (neg_put cid sid ses s) = fixed s" "fixed (snd (neg_remove cid sid s)) = fixed s"
  "fixed (snd (neg_remove_if cid sid key s)) = fixed s" "fixed (snd (neg_reserve cid sid mx s)) = fixed s"
  by (simp_all add: neg_put_def neg_remove_def neg_remove_if_def neg_reserve_def fixed_update_conn Let_def split: option.split)

lemma fixed_neg_fail [simp]: "fixed (neg_fail job reason s) = fixed s"
  using fixed_neg(3) [of "nj_conn_id job" "nj_sub_id job" "nj_key job" s] by (simp add: neg_fail_def case_prod_unfold Let_def)

lemma fixed_neg_idle [simp]: "fixed (neg_idle_fires cid sid key s) = fixed s"
  using fixed_neg(3) [of cid sid key s] by (simp add: neg_idle_fires_def case_prod_unfold Let_def)

lemma fixed_neg_start [simp]: "fixed (neg_start_session reconcile env now job items s) = fixed s"
  by (simp add: neg_start_session_def case_prod_unfold Let_def split: sum.split option.split)

lemma fixed_neg_job [simp]: "fixed (run_neg_open_job reconcile env now job s) = fixed s"
  by (simp add: run_neg_open_job_def Let_def split: sum.split option.split)

lemma fixed_neg_msg [simp]: "fixed (snd (handle_neg_msg reconcile env now cid sid hex s)) = fixed s"
  by (simp add: handle_neg_msg_def neg_get_ready_def Let_def split: sum.split option.split prod.split)

lemma fixed_neg_close [simp]: "fixed (handle_neg_close cid sid s) = fixed s"
  by (simp add: handle_neg_close_def)

lemma fixed_neg_open [simp]: "fixed (snd (handle_neg_open env fresh cid sid f hex s)) = fixed s"
proof -
  let ?cfg = "re_cfg env"
  obtain key s1 where r: "neg_reserve cid sid (effective_max_concurrent_sessions ?cfg) s = (key, s1)" by force
  obtain e s2 where ch: "conn_op cid (nip42_enqueue_auth_challenge ?cfg fresh) s = (e, s2)" by force
  have "fixed s1 = fixed s" "fixed s2 = fixed s"
    using fixed_neg(4) [of cid sid "effective_max_concurrent_sessions ?cfg" s] fixed_send(3) [of cid ?cfg fresh s] r ch by simp_all
  then show ?thesis
    using r ch by (cases key; cases e) (simp_all add: handle_neg_open_def neg_enqueue_def Let_def split: option.split)
qed

lemma save_in_server:
  "sv_ip_open (snd (save_in env ev s)) = sv_ip_open s" "sv_open (snd (save_in env ev s)) = sv_open s"
  "sv_shutting_down (snd (save_in env ev s)) = sv_shutting_down s" "w_conns (snd (save_in env ev s)) = w_conns s"
  "sv_store (snd (save_in env ev s)) = snd (so_save (re_ops env) ev (sv_store s))"
  "sv_neg_active (snd (save_in env ev s)) = sv_neg_active s"
  by (simp_all add: save_in_def case_prod_unfold Let_def)

lemma fixed_store: "fixed s' = fixed s \<Longrightarrow> sv_store s' = sv_store s"
  by (simp add: fixed_def accounts_def)

lemmas store_neg = fixed_neg_open [THEN fixed_store] fixed_neg_msg [THEN fixed_store] fixed_neg_close [THEN fixed_store]
  fixed_neg_job [THEN fixed_store] fixed_neg_idle [THEN fixed_store]

section \<open>Relations every message keeps\<close>

text \<open>A relation that ignores what operations on the wire touch.\<close>

lemma wire_of_quiet:
  assumes "\<And>s. F s s" "\<And>s s' s''. F s s' \<Longrightarrow> F s' s'' \<Longrightarrow> F s s''" "\<And>s s'. quiet s s' \<Longrightarrow> F s s'"
  shows "wire_relation F"
  by unfold_locales (blast intro: assms quiet.R_conn_op quiet.R_send_to quiet.R_put quiet.R_remove)+

text \<open>The store stays authentic.\<close>

interpretation authentic_store: server_relation "keeps_store (sql_saves.all_stored se (authentic env))"
  "env\<lparr>re_ops := sql_store se\<rparr>" "authentic env"
  for env :: "event_db relay_env" and se
proof (intro server_relation.intro wire_of_quiet server_relation_axioms.intro)
  fix ev s
  assume "authentic env ev"
  then show "keeps_store (sql_saves.all_stored se (authentic env)) s (snd (save_in (env\<lparr>re_ops := sql_store se\<rparr>) ev s))"
    using sql_saves.save_all by (simp add: keeps_store_def save_in_server sql_store_def)
next
  fix e ev
  assume "sign_event (env\<lparr>re_ops := sql_store se\<rparr>) e = Inr ev"
  moreover have "sign_event (env\<lparr>re_ops := sql_store se\<rparr>) e = sign_event env e"
    by (simp add: sign_event_def case_prod_unfold Let_def cong: option.case_cong)
  ultimately have "sign_event env e = Inr ev" by simp
  then show "authentic env ev" by (auto simp: authentic_def)
qed (simp_all add: keeps_store_def quiet_server quiet_server(1) [OF quiet_sub_add] store_neg)

text \<open>The accounts of connections stay, those of sessions stay balanced.\<close>

definition fair :: "int \<Rightarrow> 'st server \<Rightarrow> 'st server \<Rightarrow> bool" where
  "fair mx s s' \<longleftrightarrow> conn_ids s' = conn_ids s \<and> sv_ip_open s' = sv_ip_open s \<and> sv_open s' = sv_open s \<and>
     sv_shutting_down s' = sv_shutting_down s \<and> (neg_inv mx s \<longrightarrow> neg_inv mx s')"

lemma accounts_fair: "accounts s' = accounts s \<Longrightarrow> (neg_inv mx s \<Longrightarrow> neg_inv mx s') \<Longrightarrow> fair mx s s'"
  by (simp add: accounts_def fair_def)

lemma neg_inv_same:
  assumes "conn_view s' = conn_view s" "sv_neg_active s' = sv_neg_active s"
  shows "neg_inv mx s' = neg_inv mx s"
proof (rule neg_inv_cong)
  show "neg_view s' = neg_view s" unfolding neg_view_conn_view assms(1) ..
qed (rule assms(2))

lemma quiet_fair:
  assumes "quiet s s'"
  shows "fair mx s s'"
proof -
  have "neg_inv mx s' = neg_inv mx s" using quiet_server [OF assms] by (intro neg_inv_same)
  then show ?thesis using accounts_quiet [OF assms] by (intro accounts_fair) simp_all
qed

lemma neg_inv_fields [simp]:
  "neg_inv mx (s\<lparr>sv_jobs := jobs\<rparr>) = neg_inv mx s" "neg_inv mx (s\<lparr>sv_hub := h\<rparr>) = neg_inv mx s"
  "neg_inv mx (s\<lparr>sv_plugin_events := pe\<rparr>) = neg_inv mx s" "neg_inv mx (s\<lparr>sv_observed := ob\<rparr>) = neg_inv mx s"
  "neg_inv mx (s\<lparr>sv_neg_jobs := nj\<rparr>) = neg_inv mx s"
  by (rule neg_inv_same, simp_all only: conn_view_def, simp_all)+

lemma save_in_fair: "fair mx s (snd (save_in env ev s))"
proof -
  have "neg_inv mx (snd (save_in env ev s)) = neg_inv mx s"
    by (rule neg_inv_same) (simp_all only: conn_view_def save_in_server)
  then show ?thesis by (simp add: fair_def save_in_server conn_ids_def)
qed

interpretation fair_server: server_relation "fair (effective_max_concurrent_sessions (re_cfg env))" env "\<lambda>_. True"
  for env :: "'st relay_env"
proof (intro server_relation.intro wire_of_quiet server_relation_axioms.intro)
  let ?mx = "effective_max_concurrent_sessions (re_cfg env)"
  note fixed_fair = accounts_fair [OF fixed_accounts]
  fix s s' s'' :: "'st server"
  show "fair ?mx s s" by (simp add: fair_def)
  show "fair ?mx s s' \<Longrightarrow> fair ?mx s' s'' \<Longrightarrow> fair ?mx s s''" by (simp add: fair_def)
  show "quiet s s' \<Longrightarrow> fair ?mx s s'" by (rule quiet_fair)
  show "fair ?mx s (snd (sub_add now cid sid fs s))" for now cid sid fs by (rule quiet_fair [OF quiet_sub_add])
  show "fair ?mx s (snd (handle_neg_open env fresh cid sid f hex s))" for fresh cid sid f hex
    by (rule fixed_fair) (simp_all add: handle_neg_open_inv)
  show "fair ?mx s (snd (handle_neg_msg reconcile env now cid sid hex s))" for reconcile now cid sid hex
    by (rule fixed_fair) (simp_all add: handle_neg_msg_inv)
  show "fair ?mx s (handle_neg_close cid sid s)" for cid sid
    by (rule fixed_fair) (simp_all add: handle_neg_close_inv)
  show "fair ?mx s (neg_idle_fires cid sid key s)" for cid sid key
    by (rule fixed_fair) (simp_all add: neg_idle_fires_inv)
  show "fair ?mx s (run_neg_open_job reconcile env now job s)" for reconcile now job
    by (rule fixed_fair) (simp_all add: run_neg_open_job_inv)
  show "fair ?mx s (snd (save_in env ev s))" for ev by (rule save_in_fair)
  show "fair ?mx s (s\<lparr>sv_jobs := jobs\<rparr>)" "fair ?mx s (s\<lparr>sv_hub := h\<rparr>)" "fair ?mx s (s\<lparr>sv_plugin_events := pe\<rparr>)"
    "fair ?mx s (s\<lparr>sv_observed := ob\<rparr>)" "fair ?mx s (s\<lparr>sv_neg_jobs := njobs\<rparr>)" for jobs h pe ob njobs
    by (rule fixed_fair; simp)+
qed simp

end
