(* ===== verification/Relay_Accounts.thy ===== *)
theory Relay_Accounts
  imports Relay_Server
begin

text \<open>
  The accounts of the running server (\<open>relay.go\<close>, \<open>ip_conn_tracker.go\<close>, \<open>neg_sessions.go\<close>): the
  global count of open connections, the count of each address, the registry of connections and the
  slots of synchronisation sessions agree in every state that \<open>server_step\<close> reaches. Messages,
  pages and imports keep the accounts by the interpretation \<open>fair_server\<close>; the lemmas here are about
  the steps that change them.
\<close>

section \<open>The invariant\<close>

text \<open>The addresses that hold a slot: requests being upgraded and open connections.\<close>

definition holders :: "'st relay_sys \<Rightarrow> string list" where
  "holders y = ys_upgrading y @ map (\<lambda>(_, _, peer). peer) (conn_ids (ys_server y))"

definition per_ip_ok :: "int \<Rightarrow> ip_counts \<Rightarrow> string list \<Rightarrow> bool" where
  "per_ip_ok mx t hs \<longleftrightarrow> (\<forall>ip. open_count ip t = int (count_list hs ip) \<and> (0 < mx \<longrightarrow> int (count_list hs ip) \<le> mx))"

definition server_inv :: "config \<Rightarrow> 'st relay_sys \<Rightarrow> bool" where
  "server_inv cfg y \<longleftrightarrow>
     (let s = ys_server y; l = connection_limits cfg in
      sv_open s = int (ys_reserved y + length (holders y)) \<and> sv_open s \<le> max_open l \<and>
      per_ip_ok (max_open_per_ip l) (sv_ip_open s) (holders y) \<and>
      distinct (map fst (conn_ids s)) \<and> list_all (\<lambda>(cid, i, _). i = cid) (conn_ids s) \<and>
      neg_inv (effective_max_concurrent_sessions cfg) s)"

lemma max_sessions_pos: "0 < effective_max_concurrent_sessions cfg"
  by (simp add: effective_max_concurrent_sessions_def effective_nip77_int_def)

lemma server_inv_fair:
  assumes "server_inv cfg y" "fair (effective_max_concurrent_sessions cfg) (ys_server y) s'"
  shows "server_inv cfg (y\<lparr>ys_server := s'\<rparr>)"
  using assms by (simp add: server_inv_def fair_def holders_def Let_def)

section \<open>Counting holders\<close>

lemma count_remove1: "x \<in> set xs \<Longrightarrow> count_list xs y = count_list (remove1 x xs) y + (if x = y then 1 else 0)"
  by (induction xs) auto

lemma holds_some: "x \<in> set xs \<Longrightarrow> Suc (count_list xs x - Suc 0) = count_list xs x"
  using count_list_0_iff [of xs x] by simp

lemma per_ip_acquire:
  assumes "per_ip_ok mx t hs" "try_acquire ip mx t = ((n, True), t')"
  shows "per_ip_ok mx t' (ip # hs)"
  using assms by (auto simp: per_ip_ok_def try_acquire_def open_count_def Let_def split: if_splits)

lemma per_ip_release:
  assumes "per_ip_ok mx t hs" "\<And>y. count_list hs y = count_list hs' y + (if ip = y then 1 else 0)"
  shows "per_ip_ok mx (release_ip ip t) hs'"
proof -
  have n: "open_count y t = int (count_list hs y)" "0 < mx \<Longrightarrow> int (count_list hs y) \<le> mx" for y
    using assms(1) by (auto simp: per_ip_ok_def)
  show ?thesis
    unfolding per_ip_ok_def
  proof (intro allI conjI impI)
    fix y
    show "open_count y (release_ip ip t) = int (count_list hs' y)"
      using n(1) [of ip] n(1) [of y] assms(2) [of y] by (simp add: open_count_release split: if_splits)
    show "int (count_list hs' y) \<le> mx" if "0 < mx" using n(2) [OF that, of y] assms(2) [of y] by (simp split: if_splits)
  qed
qed

lemma per_ip_perm: "per_ip_ok mx t hs \<Longrightarrow> (\<And>y. count_list hs' y = count_list hs y) \<Longrightarrow> per_ip_ok mx t hs'"
  by (simp add: per_ip_ok_def)

section \<open>Entries of the registry\<close>

lemma conn_ids_keys: "map fst (conn_ids w) = map fst (w_conns w)"
  by (simp add: conn_ids_def case_prod_unfold)

lemma conn_ids_delete: "conn_ids (w\<lparr>w_conns := AList.delete cid (w_conns w)\<rparr>) = AList.delete cid (conn_ids w)"
proof -
  have "map (\<lambda>(cid, c). (cid, cn_id c, cn_peer_ip c)) (AList.delete cid m) =
      AList.delete cid (map (\<lambda>(cid, c). (cid, cn_id c, cn_peer_ip c)) m)" for m
    by (induction m) (auto simp: AList.delete_eq)
  then show ?thesis by (simp add: conn_ids_def)
qed

lemma conn_ids_of: "map_of (conn_ids w) cid = map_option (\<lambda>c. (cn_id c, cn_peer_ip c)) (map_of (w_conns w) cid)"
proof -
  have "map_of (map (\<lambda>(cid, c). (cid, cn_id c, cn_peer_ip c)) m) cid = map_option (\<lambda>c. (cn_id c, cn_peer_ip c)) (map_of m cid)" for m
    by (induction m) auto
  then show ?thesis by (simp add: conn_ids_def)
qed

lemma conn_view_of: "map_of (conn_view w) cid = map_option settled (map_of (w_conns w) cid)"
proof -
  have "map_of (map (\<lambda>(cid, c). (cid, settled c)) m) cid = map_option settled (map_of m cid)" for m
    by (induction m) auto
  then show ?thesis by (simp add: conn_view_def)
qed

lemma update_new: "map_of m k = None \<Longrightarrow> AList.update k v m = m @ [(k, v)]"
  by (induction m) (auto split: if_splits)

lemma delete_absent: "k \<notin> set (map fst m) \<Longrightarrow> AList.delete k m = m"
  by (induction m) (auto simp: AList.delete_eq)

lemma delete_entry:
  assumes "map_of m cid = Some v" "distinct (map fst m)"
  shows "\<exists>xs ys. m = xs @ (cid, v) # ys \<and> AList.delete cid m = xs @ ys"
  using assms
proof (induction m)
  case (Cons p m)
  obtain k u where p: "p = (k, u)" by force
  show ?case
  proof (cases "k = cid")
    case True
    then have "AList.delete cid m = m" using Cons.prems(2) p by (intro delete_absent) auto
    moreover have "u = v" using True Cons.prems(1) p by simp
    ultimately show ?thesis using True p by (intro exI [of _ "[]"] exI [of _ m]) (simp add: AList.delete_eq)
  next
    case False
    then obtain xs ys where "m = xs @ (cid, v) # ys" "AList.delete cid m = xs @ ys" using Cons p by auto
    then show ?thesis using False p by (intro exI [of _ "p # xs"] exI [of _ ys]) (simp add: AList.delete_eq)
  qed
qed simp

section \<open>Session slots when a connection comes and goes\<close>

lemma neg_view_register: "map_of (w_conns s) cid = None \<Longrightarrow>
  neg_view (s\<lparr>w_conns := AList.update cid c (w_conns s)\<rparr>) = neg_view s @ [(cid, cn_neg_sessions c, cn_neg_closed c)]"
  by (simp add: neg_view_def update_new)

lemma neg_inv_register:
  assumes "neg_inv mx s" "map_of (w_conns s) cid = None" "cn_neg_sessions c = []"
  shows "neg_inv mx (s\<lparr>w_conns := AList.update cid c (w_conns s)\<rparr>)"
proof -
  have "cid \<notin> fst ` set (neg_view s)"
    using assms(2) by (force simp: map_of_eq_None_iff neg_view_def)
  then show ?thesis using assms by (auto simp: neg_inv_def neg_view_register neg_total_def)
qed

lemma neg_inv_unregister:
  assumes inv: "neg_inv mx s" and c: "map_of (w_conns s) cid = Some c" "cn_neg_sessions c = []"
  shows "neg_inv mx (s\<lparr>w_conns := AList.delete cid (w_conns s)\<rparr>)"
proof -
  have "neg_view (s\<lparr>w_conns := AList.delete cid (w_conns s)\<rparr>) = AList.delete cid (neg_view s)"
  proof -
    have "map (\<lambda>(cid, c). (cid, (cn_neg_sessions c, cn_neg_closed c))) (AList.delete cid m) =
        AList.delete cid (map (\<lambda>(cid, c). (cid, (cn_neg_sessions c, cn_neg_closed c))) m)" for m
      by (induction m) (auto simp: AList.delete_eq)
    then show ?thesis by (simp add: neg_view_def)
  qed
  moreover obtain xs ys where "neg_view s = xs @ (cid, [], cn_neg_closed c) # ys" "AList.delete cid (neg_view s) = xs @ ys"
    using delete_entry [of "neg_view s" cid "([], cn_neg_closed c)"] inv c
    by (auto simp: neg_view_of load_conn_def neg_inv_def)
  ultimately show ?thesis using inv by (auto simp: neg_inv_def neg_total_def)
qed

section \<open>Steps that change the accounts\<close>

lemma start_conn_accounts:
  assumes st: "start_conn env cids fresh now peer s = Some (cid, s')"
    and inv: "neg_inv (effective_max_concurrent_sessions (re_cfg env)) s"
  shows "conn_ids s' = conn_ids s @ [(cid, cid, peer)] \<and> cid \<notin> set (map fst (conn_ids s)) \<and>
    sv_ip_open s' = sv_ip_open s \<and> sv_open s' = sv_open s \<and>
    neg_inv (effective_max_concurrent_sessions (re_cfg env)) s'"
proof -
  let ?mx = "effective_max_concurrent_sessions (re_cfg env)"
  let ?new = "(new_conn (re_cfg env) [] peer now)\<lparr>cn_id := cid\<rparr>"
  let ?c = "if sv_shutting_down s then initiate_shutdown ?new else ?new"
  let ?s1 = "s\<lparr>w_conns := AList.update cid ?c (w_conns s)\<rparr>"
  let ?s2 = "register_sender cid (update_conn cid init_idle_clock ?s1)"
  have "pick_conn_id cs m = Some cid \<Longrightarrow> map_of m cid = None" for cs and m :: "(string, conn) go_map"
    by (induction cs) (auto split: if_splits)
  then have fresh_id: "map_of (w_conns s) cid = None"
    and s': "s' = (if nip11_auth_required (re_cfg env) then challenge_client env fresh cid ?s2 else ?s2)"
    using st by (auto simp: start_conn_def register_connection_def Let_def split: option.splits)
  have c: "settled ?c = (cid, peer, [], False)" by (simp add: settled_def new_conn_def initiate_shutdown_def)
  have "fair ?mx ?s1 (update_conn cid init_idle_clock ?s1)"
    by (rule fair_server.update_op) (simp add: tame_def settled_def shut_def init_idle_clock_def)
  moreover have "fair ?mx (update_conn cid init_idle_clock ?s1) ?s2" by (rule quiet_fair [OF quiet_senders(1)])
  moreover have "fair ?mx ?s2 s'" unfolding s' using fair_server.challenge [of env ?s2 fresh cid] by (simp add: fair_def)
  ultimately have f: "fair ?mx ?s1 s'" by (simp add: fair_def)
  have "neg_inv ?mx ?s1" by (rule neg_inv_register [OF inv fresh_id]) (use c in \<open>simp add: settled_def\<close>)
  moreover have "conn_ids ?s1 = conn_ids s @ [(cid, cid, peer)]"
    using c by (simp add: conn_ids_def update_new [OF fresh_id] settled_def)
  moreover have "cid \<notin> set (map fst (conn_ids s))"
    using fresh_id by (simp add: conn_ids_keys map_of_eq_None_iff)
  ultimately show ?thesis using f by (simp add: fair_def)
qed

lemma quiet_closed: "quiet s (fold (\<lambda>sid s. snd (on_conn cid (send_closed sid m) s)) sids s)"
proof (induction sids arbitrary: s)
  case (Cons sid sids)
  have "quiet s (snd (on_conn cid (send_closed sid m) s))" by (rule quiet_conn_op) simp
  then show ?case using quiet.R_trans [OF _ Cons.IH] by simp
qed (simp add: quiet.R_refl)

lemma end_conn_accounts:
  assumes c: "load_conn cid s = Some c" and inv: "neg_inv mx s" "0 \<le> mx"
  shows "conn_ids (end_conn cid s) = AList.delete cid (conn_ids s) \<and>
    sv_ip_open (end_conn cid s) = release_ip (cn_peer_ip c) (sv_ip_open s) \<and> sv_open (end_conn cid s) = sv_open s - 1 \<and>
    neg_inv mx (end_conn cid s)"
proof -
  let ?s1 = "neg_close_all cid s"
  let ?u = "unregister_sender cid ?s1"
  let ?s2 = "fold (\<lambda>sid s. snd (on_conn cid (send_closed sid ''connection closed'') s)) (fst ?u) (snd ?u)"
  let ?s3 = "update_conn cid initiate_shutdown ?s2"
  let ?s4 = "?s3\<lparr>w_conns := AList.delete cid (w_conns ?s3)\<rparr>"
  have q3: "quiet ?s2 ?s3" unfolding update_conn_def by (rule quiet_conn_op) simp
  have q: "quiet ?s1 ?s3" by (rule quiet.R_trans [OF quiet.R_trans [OF quiet_senders(2) quiet_closed] q3])
  have "fixed ?s1 = fixed s" using c by (simp add: neg_close_all_def fixed_update_conn)
  then have s3: "accounts ?s3 = accounts s" using accounts_quiet [OF q] fixed_accounts by metis
  have "map_of (w_conns ?s1) cid = Some (c\<lparr>cn_neg_closed := True, cn_neg_sessions := []\<rparr>)"
    using c by (simp add: neg_close_all_def update_conn_def conn_op_def load_conn_def update_conv')
  then have "map_of (conn_view ?s1) cid = Some (cn_id c, cn_peer_ip c, [], True)"
    by (simp add: conn_view_of settled_def)
  then have "map_of (conn_view ?s3) cid = Some (cn_id c, cn_peer_ip c, [], True)"
    using q by (simp add: quiet_def)
  then obtain c3 where c3: "map_of (w_conns ?s3) cid = Some c3" "cn_neg_sessions c3 = []"
    by (auto simp: conn_view_of settled_def)
  have "neg_inv mx ?s1" by (rule neg_close_all_inv [OF inv])
  moreover have "neg_inv mx ?s3 = neg_inv mx ?s1" by (rule neg_inv_same) (simp_all only: quiet_server(5,6) [OF q])
  ultimately have n4: "neg_inv mx ?s4" using neg_inv_unregister [OF _ c3] by simp
  have e: "end_conn cid s = (?s4\<lparr>sv_ip_open := release_ip (cn_peer_ip c) (sv_ip_open ?s3)\<rparr>)\<lparr>sv_open := sv_open ?s3 - 1\<rparr>"
    using c by (simp add: end_conn_def case_prod_unfold Let_def)
  have "neg_inv mx (end_conn cid s) = neg_inv mx ?s4" unfolding e by (rule neg_inv_same) (simp_all add: conn_view_def)
  moreover have "conn_ids (end_conn cid s) = conn_ids ?s4" unfolding e by (simp add: conn_ids_def)
  moreover have "sv_ip_open (end_conn cid s) = release_ip (cn_peer_ip c) (sv_ip_open ?s3)"
    "sv_open (end_conn cid s) = sv_open ?s3 - 1" by (simp_all add: e)
  ultimately show ?thesis using n4 s3 by (simp add: conn_ids_delete accounts_def)
qed

lemma map_conns_fair:
  assumes "\<And>cid c. settled (f cid c) = settled c"
  shows "fair mx s (map_conns f s)"
proof -
  have v: "conn_view (map_conns f s) = conn_view s"
    using assms by (simp add: map_conns_def conn_view_def case_prod_unfold)
  have "neg_inv mx (map_conns f s) = neg_inv mx s" by (rule neg_inv_same [OF v]) (simp add: map_conns_def)
  then show ?thesis using v by (simp add: fair_def conn_ids_view map_conns_def)
qed

lemma admit_accounts:
  assumes "admit_client env prefixes header clk r s = (a, s')"
  shows "conn_ids s' = conn_ids s \<and> (neg_inv mx s \<longrightarrow> neg_inv mx s') \<and>
    (case a of Inl _ \<Rightarrow> sv_open s' = sv_open s - 1 \<and>
        (per_ip_ok (max_open_per_ip (connection_limits (re_cfg env))) (sv_ip_open s) hs \<longrightarrow>
         per_ip_ok (max_open_per_ip (connection_limits (re_cfg env))) (sv_ip_open s') hs)
     | Inr peer \<Rightarrow> sv_open s' = sv_open s \<and> \<not> sv_shutting_down s \<and>
        (per_ip_ok (max_open_per_ip (connection_limits (re_cfg env))) (sv_ip_open s) hs \<longrightarrow>
         per_ip_ok (max_open_per_ip (connection_limits (re_cfg env))) (sv_ip_open s') (peer # hs)))"
proof -
  let ?mpi = "max_open_per_ip (connection_limits (re_cfg env))"
  obtain t1 t2 t3 where clk: "clk = (t1, t2, t3)" by (cases clk) auto
  let ?peer = "client_ip (re_net env) prefixes header r"
  obtain ok h where h: "allow_new_connection (re_cfg env) t1 t2 t3 ?peer (sv_hub s) = (ok, h)" by force
  obtain n acquired t where t: "try_acquire ?peer ?mpi (sv_ip_open s) = ((n, acquired), t)" by (metis prod.exhaust)
  note run = assms [unfolded admit_client_def clk Let_def prod.case h]
  have view: "conn_view s' = conn_view s \<and> sv_neg_active s' = sv_neg_active s"
    using run by (auto simp: t conn_view_def split: if_splits)
  have inv: "neg_inv mx s' = neg_inv mx s" using view by (intro neg_inv_same) simp_all
  have ids: "conn_ids s' = conn_ids s" using view by (simp add: conn_ids_view)
  have undone: "per_ip_ok ?mpi (sv_ip_open s) hs \<Longrightarrow> acquired \<Longrightarrow> per_ip_ok ?mpi (release_ip ?peer t) hs"
    using t per_ip_release [OF per_ip_acquire] by fastforce
  have held: "per_ip_ok ?mpi (sv_ip_open s) hs \<Longrightarrow> acquired \<Longrightarrow> per_ip_ok ?mpi t (?peer # hs)"
    using t per_ip_acquire by fastforce
  show ?thesis
    using run inv ids undone held by (auto simp: t split: if_splits)
qed

lemma server_step_inv:
  assumes st: "server_step p y y'" and inv: "server_inv (re_cfg (rs_env p)) y"
  shows "server_inv (re_cfg (rs_env p)) y'"
  using st
proof cases
  case (reserve s)
  then show ?thesis
    using inv neg_inv_same [of s "ys_server y"]
    by (auto simp: reserve_connection_def server_inv_def holders_def conn_ids_def conn_view_def Let_def split: if_splits)
next
  case (busy s)
  then show ?thesis using inv by (auto simp: reserve_connection_def split: if_splits)
next
  case (admit n clk r peer s)
  note a = admit_accounts [OF admit(3), of "effective_max_concurrent_sessions (re_cfg (rs_env p))" "holders y"]
  then show ?thesis using inv admit(1,2) by (simp add: server_inv_def holders_def Let_def)
next
  case (refuse n clk r refusal s)
  note a = admit_accounts [OF refuse(3), of "effective_max_concurrent_sessions (re_cfg (rs_env p))" "holders y"]
  then show ?thesis using inv refuse(1,2) by (simp add: server_inv_def holders_def Let_def)
next
  case (upgrade_failed peer)
  let ?s' = "finish_upgrade peer False (ys_server y)"
  have ids: "conn_ids ?s' = conn_ids (ys_server y)" by (simp add: finish_upgrade_def conn_ids_def)
  have "per_ip_ok mx t (holders y) \<Longrightarrow> per_ip_ok mx (release_ip peer t) (holders y')" for mx t
    by (erule per_ip_release) (use count_remove1 [OF upgrade_failed(2)] in \<open>simp add: holders_def upgrade_failed(1) ids\<close>)
  moreover have "neg_inv mx ?s' = neg_inv mx (ys_server y)" for mx
    by (rule neg_inv_same) (simp_all add: finish_upgrade_def conn_view_def)
  moreover have "length (holders y) = length (holders y') + 1"
    using upgrade_failed by (simp add: holders_def ids length_remove1) (metis Suc_pred length_pos_if_in_set)
  ultimately show ?thesis
    using inv ids upgrade_failed(1) by (simp add: server_inv_def Let_def finish_upgrade_def)
next
  case (connected peer cids fresh now cid s)
  have inv_s: "neg_inv (effective_max_concurrent_sessions (re_cfg (rs_env p))) (ys_server y)"
    using inv by (simp add: server_inv_def Let_def)
  note a = start_conn_accounts [OF connected(3) [unfolded finish_upgrade_def, simplified] inv_s]
  have "per_ip_ok mx t (holders y) \<Longrightarrow> per_ip_ok mx t (holders y')" for mx t
    by (erule per_ip_perm) (use a count_remove1 [OF connected(2)] holds_some [OF connected(2)] in \<open>auto simp: holders_def connected(1)\<close>)
  moreover have "length (holders y') = length (holders y)"
    using a connected(1,2) by (simp add: holders_def length_remove1) (metis Suc_pred length_pos_if_in_set)
  ultimately show ?thesis using inv a connected(1) by (auto simp: server_inv_def Let_def)
next
  case (payload rd cid len data s)
  show ?thesis unfolding payload(1)
    by (rule server_inv_fair [OF inv]) (rule fair_server.payload_step [OF payload(2)], simp)
next
  case (written cid e)
  show ?thesis unfolding written by (rule server_inv_fair [OF inv fair_server.write_step])
next
  case (page job rest fuel ctx_err jobs s)
  show ?thesis unfolding page(1) by (rule server_inv_fair [OF inv fair_server.page_step [OF page(3)]])
next
  case (neg_load job rest now)
  show ?thesis unfolding neg_load(1) by (rule server_inv_fair [OF inv fair_server.neg_load_step])
next
  case (neg_idle cid sid key)
  show ?thesis unfolding neg_idle by (rule server_inv_fair [OF inv fair_server.F_neg_idle])
next
  case (fanout i)
  show ?thesis unfolding fanout by (rule server_inv_fair [OF inv fair_server.fanout_step])
next
  case (imported ev f now r s)
  have "fair (effective_max_concurrent_sessions (re_cfg (rs_env p))) (ys_server y) s"
    using fair_server.import_step [OF TrueI, of "rs_env p" "ys_server y" now _ ev] imported(4) by (metis snd_conv)
  then show ?thesis unfolding imported(1) by (rule server_inv_fair [OF inv])
next
  case (idle now)
  have "fair mx s (sweep_idle_connections l now s)" for mx l and s :: "'a server"
    unfolding sweep_idle_connections_def by (rule map_conns_fair) simp
  moreover have "fair mx s s" for mx and s :: "'a server" by (simp add: fair_def)
  ultimately have "fair mx (ys_server y) (idle_tick (re_cfg (rs_env p)) now (ys_server y))" for mx
    by (simp add: idle_tick_def Let_def)
  then show ?thesis unfolding idle by (rule server_inv_fair [OF inv])
next
  case (disconnect cid)
  show ?thesis
  proof (cases "load_conn cid (ys_server y)")
    case None
    then show ?thesis using inv disconnect by (simp add: end_conn_def)
  next
    case (Some c)
    let ?cfg = "re_cfg (rs_env p)" let ?s = "ys_server y"
    have "0 \<le> effective_max_concurrent_sessions ?cfg" using max_sessions_pos [of ?cfg] by simp
    with inv end_conn_accounts [OF Some]
    have e: "conn_ids (end_conn cid ?s) = AList.delete cid (conn_ids ?s)"
      "sv_ip_open (end_conn cid ?s) = release_ip (cn_peer_ip c) (sv_ip_open ?s)"
      "sv_open (end_conn cid ?s) = sv_open ?s - 1" "neg_inv (effective_max_concurrent_sessions ?cfg) (end_conn cid ?s)"
      by (auto simp: server_inv_def Let_def)
    obtain xs ys where ids: "conn_ids ?s = xs @ (cid, cn_id c, cn_peer_ip c) # ys" "AList.delete cid (conn_ids ?s) = xs @ ys"
      using delete_entry [of "conn_ids ?s" cid "(cn_id c, cn_peer_ip c)"] Some inv
      by (auto simp: conn_ids_of load_conn_def server_inv_def Let_def)
    have "per_ip_ok mx t (holders y) \<Longrightarrow> per_ip_ok mx (release_ip (cn_peer_ip c) t) (holders y')" for mx t
      by (erule per_ip_release) (simp add: holders_def disconnect e(1) [unfolded ids(2)] ids(1))
    moreover have "length (holders y) = length (holders y') + 1" by (simp add: holders_def disconnect e(1) [unfolded ids(2)] ids(1))
    ultimately show ?thesis using inv e(2-4) e(1) [unfolded ids(2)] ids(1) disconnect by (auto simp: server_inv_def Let_def)
  qed
next
  case shutdown
  have "fair mx (ys_server y) (map_conns (\<lambda>_ c. initiate_shutdown c) (ys_server y))" for mx by (rule map_conns_fair) simp
  then have "server_inv (re_cfg (rs_env p)) (y\<lparr>ys_server := map_conns (\<lambda>_ c. initiate_shutdown c) (ys_server y)\<rparr>)"
    by (rule server_inv_fair [OF inv])
  moreover have "neg_inv mx (shutdown_server (ys_server y)) = neg_inv mx (map_conns (\<lambda>_ c. initiate_shutdown c) (ys_server y))" for mx
    by (rule neg_inv_same) (simp_all add: shutdown_server_def map_conns_def conn_view_def)
  ultimately show ?thesis
    unfolding shutdown by (simp add: server_inv_def holders_def conn_ids_def shutdown_server_def map_conns_def Let_def)
qed

lemma new_server_inv:
  assumes "0 \<le> max_open (connection_limits (re_cfg (rs_env p)))"
  shows "server_inv (re_cfg (rs_env p)) \<lparr>ys_server = new_server p st, ys_reserved = 0, ys_upgrading = []\<rparr>"
  using assms max_sessions_pos [of "re_cfg (rs_env p)"]
  by (simp add: server_inv_def holders_def new_server_def conn_ids_def per_ip_ok_def open_count_def neg_inv_def neg_view_def
      neg_total_def Let_def)

lemma server_reach_inv:
  assumes "server_reach p st y" "0 \<le> max_open (connection_limits (re_cfg (rs_env p)))"
  shows "server_inv (re_cfg (rs_env p)) y"
  using assms by (induction) (simp_all add: new_server_inv server_step_inv)

end
