(* ===== verification/Relay_Lifetimes.thy ===== *)
theory Relay_Lifetimes
  imports Relay_Accounts
begin

text \<open>
  Further invariants of the running server. Each is a relation every message keeps, given as an
  interpretation of \<open>server_relation\<close>, and the steps that register, tear down or shut down
  connections by hand: which subscriptions there can be (\<open>subscription.go\<close>), that shutdown is final
  (\<open>relay.go\<close>, \<open>conn_shutdown.go\<close>), and what may be stored. The properties over whole runs end the
  theory.
\<close>

section \<open>The kinds of steps\<close>

definition admission :: "'st server \<Rightarrow> 'st server \<Rightarrow> bool" where
  "admission s s' \<longleftrightarrow> (\<exists>h t n. s' = s\<lparr>sv_hub := h, sv_ip_open := t, sv_open := n\<rparr>)"

lemma admissionI: "admission s s" "admission s (s\<lparr>sv_open := n\<rparr>)" "admission s (s\<lparr>sv_hub := h, sv_open := n\<rparr>)"
  "admission s (s\<lparr>sv_hub := h, sv_ip_open := t\<rparr>)" "admission s (s\<lparr>sv_hub := h, sv_open := n, sv_ip_open := t\<rparr>)"
  "admission s (s\<lparr>sv_ip_open := t, sv_open := n\<rparr>)"
  unfolding admission_def by (cases s, simp)+

context server_relation
begin

lemma server_step_cases:
  assumes st: "server_step p y y'" and env: "rs_env p = env"
    and ok: "\<And>now c ev st. validate_chain env now (pl_validators (rs_pipeline p)) c ev st = None \<Longrightarrow> ok ev"
  obtains "F (ys_server y) (ys_server y')" | "admission (ys_server y) (ys_server y')"
  | cids fresh now peer cid where "start_conn env cids fresh now peer (ys_server y) = Some (cid, ys_server y')"
  | cid where "ys_server y' = end_conn cid (ys_server y)"
  | f where "ys_server y' = map_conns f (ys_server y)" "\<And>cid c. tame c (f cid c)"
  | "ys_server y' = shutdown_server (ys_server y)"
  using st
proof cases
  case (reserve s)
  then show ?thesis by (intro that(2)) (auto simp: reserve_connection_def admissionI split: if_splits)
next
  case (busy s)
  then show ?thesis by (intro that(2)) (auto simp: reserve_connection_def admissionI split: if_splits)
next
  case (admit n clk r peer s)
  then show ?thesis
    by (intro that(2)) (auto simp: admit_client_def admissionI Let_def case_prod_unfold split: if_splits)
next
  case (refuse n clk r refusal s)
  then show ?thesis
    by (intro that(2)) (auto simp: admit_client_def admissionI Let_def case_prod_unfold split: if_splits)
next
  case (upgrade_failed peer)
  then show ?thesis by (intro that(2)) (simp add: finish_upgrade_def admissionI)
next
  case (connected peer cids fresh now cid s)
  then show ?thesis by (intro that(3)) (simp add: finish_upgrade_def env)
next
  case (payload rd cid len data s)
  then show ?thesis using payload_step ok by (intro that(1)) (simp add: env)
next
  case (written cid e)
  then show ?thesis by (intro that(1)) (simp add: write_step)
next
  case (page job rest fuel ctx_err jobs s)
  then show ?thesis using page_step by (intro that(1)) (simp add: env)
next
  case (neg_load job rest now)
  then show ?thesis by (intro that(1)) (simp add: env neg_load_step)
next
  case (neg_idle cid sid key)
  then show ?thesis by (intro that(1)) (simp add: F_neg_idle)
next
  case (fanout i)
  then show ?thesis by (intro that(1)) (simp add: env fanout_step)
next
  case (imported ev f now r s)
  have "F (ys_server y) (snd (persist_imported_event env now (pl_validators (rs_pipeline p)) ev (ys_server y)))"
    by (rule import_step) (rule ok)
  then show ?thesis using imported(4) env by (intro that(1)) (simp add: imported(1))
next
  case (idle now)
  show ?thesis
  proof (cases "idle_no_event_no_sub_seconds (connection_limits (re_cfg (rs_env p))) \<le> 0")
    case True
    then show ?thesis using idle by (intro that(1)) (simp add: idle_tick_def F_refl Let_def)
  next
    case False
    then show ?thesis
      using idle by (intro that(5)) (simp add: idle_tick_def sweep_idle_connections_def Let_def, simp)
  qed
next
  case (disconnect cid)
  then show ?thesis by (intro that(4)) simp
next
  case shutdown
  then show ?thesis by (intro that(6)) simp
qed

end

section \<open>Subscriptions\<close>

text \<open>Every subscription belongs to a connection with a sender, under a distinct id of admissible
  length, with an admissible number of filters, and a connection has no more than it may.\<close>

definition conn_subs_ok :: "sub_manager \<Rightarrow> string \<times> (string, sub_entry) go_map \<Rightarrow> bool" where
  "conn_subs_ok m = (\<lambda>(cid, cmap). cid \<in> set (sm_senders m) \<and> distinct (map fst cmap) \<and>
     int (length cmap) \<le> max 0 (sm_max_subs_per_conn m) \<and>
     list_all (\<lambda>(sid, e). int (length sid) \<le> sm_max_sub_id_len m \<and> int (length (se_filters e)) \<le> sm_max_filters m) cmap)"

definition subs_ok :: "sub_manager \<Rightarrow> bool" where
  "subs_ok m \<longleftrightarrow> distinct (map fst (sm_subs m)) \<and> list_all (conn_subs_ok m) (sm_subs m)"

lemma conn_subs_ok_subs [simp]: "conn_subs_ok (m\<lparr>sm_subs := x\<rparr>) = conn_subs_ok m" "conn_subs_ok (m\<lparr>sm_next_generation := g\<rparr>) = conn_subs_ok m"
  by (simp_all add: conn_subs_ok_def)

definition sub_limits :: "sub_manager \<Rightarrow> int \<times> int \<times> int" where
  "sub_limits m = (sm_max_subs_per_conn m, sm_max_sub_id_len m, sm_max_filters m)"

definition registry :: "'a wire_scheme \<Rightarrow> string list \<times> string list \<times> (int \<times> int \<times> int)" where
  "registry w = (map fst (w_conns w), sm_senders (w_subs w), sub_limits (w_subs w))"

definition subs_kept :: "'a wire_scheme \<Rightarrow> 'a wire_scheme \<Rightarrow> bool" where
  "subs_kept w w' \<longleftrightarrow> registry w' = registry w \<and>
     (subs_ok (w_subs w) \<and> set (map fst (w_conns w)) = set (sm_senders (w_subs w)) \<longrightarrow> subs_ok (w_subs w'))"

lemma subs_kept_trans: "subs_kept w w' \<Longrightarrow> subs_kept w' w'' \<Longrightarrow> subs_kept w w''"
  by (auto simp: subs_kept_def registry_def)

lemma update_keys: "map_of m k = Some v \<Longrightarrow> map fst (AList.update k v' m) = map fst m"
  by (induction m) (auto split: if_splits)

lemma update_set: "x \<in> set (AList.update k v m) \<Longrightarrow> x = (k, v) \<or> x \<in> set m"
  by (induction m) (auto split: if_splits)

lemma delete_set: "x \<in> set (AList.delete k m) \<Longrightarrow> x \<in> set m"
  by (simp add: AList.delete_eq)

lemma delete_distinct: "distinct (map fst m) \<Longrightarrow> distinct (map fst (AList.delete k m))"
  by (simp add: AList.distinct_delete)

lemma update_length: "length (AList.update k v m) = (if map_of m k = None then Suc (length m) else length m)"
  by (induction m) auto

lemma conn_op_keys: "map fst (w_conns (snd (conn_op cid f w))) = map fst (w_conns w)"
  by (auto simp: conn_op_def case_prod_unfold Let_def update_keys split: option.split)

lemma subs_kept_same: "w_subs w' = w_subs w \<Longrightarrow> map fst (w_conns w') = map fst (w_conns w) \<Longrightarrow> subs_kept w w'"
  by (simp add: subs_kept_def registry_def)

lemma subs_kept_conn_op [simp]: "subs_kept w (snd (conn_op cid f w))"
  by (rule subs_kept_same) (simp_all add: conn_op_keys)

lemma send_to_keys: "map fst (w_conns (snd (send_to cid b w))) = map fst (w_conns w)"
  by (auto simp: send_to_def case_prod_unfold Let_def update_keys split: option.split)

lemma subs_ok_entry: "subs_ok m \<Longrightarrow> map_of (sm_subs m) cid = Some cmap \<Longrightarrow> conn_subs_ok m (cid, cmap)"
  by (auto simp: subs_ok_def list_all_iff dest!: map_of_SomeD)

text \<open>Replacing or dropping the map of one connection.\<close>

lemma subs_ok_update: "subs_ok m \<Longrightarrow> conn_subs_ok m (cid, cmap) \<Longrightarrow> subs_ok (m\<lparr>sm_subs := AList.update cid cmap (sm_subs m)\<rparr>)"
  by (auto simp: subs_ok_def list_all_iff AList.distinct_update dest!: update_set)

lemma subs_ok_delete: "subs_ok m \<Longrightarrow> subs_ok (m\<lparr>sm_subs := AList.delete cid (sm_subs m)\<rparr>)"
  by (auto simp: subs_ok_def list_all_iff delete_distinct dest: delete_set)

lemma subs_ok_unregister:
  assumes "subs_ok m"
  shows "subs_ok (m\<lparr>sm_senders := removeAll cid (sm_senders m), sm_subs := AList.delete cid (sm_subs m)\<rparr>)" (is "subs_ok ?m'")
proof -
  have "conn_subs_ok ?m' x" if "x \<in> set (AList.delete cid (sm_subs m))" for x
  proof -
    obtain k cmap where x: "x = (k, cmap)" by force
    have "x \<in> set (sm_subs m)" "fst x \<noteq> cid" using that by (auto simp: AList.delete_eq)
    moreover from this(1) have "conn_subs_ok m x" using assms by (simp add: subs_ok_def list_all_iff)
    ultimately show ?thesis by (simp add: x conn_subs_ok_def)
  qed
  then show ?thesis using assms by (simp add: subs_ok_def list_all_iff delete_distinct)
qed

lemma subs_ok_register:
  assumes "subs_ok m"
  shows "subs_ok (m\<lparr>sm_senders := List.insert cid (sm_senders m)\<rparr>)" (is "subs_ok ?m'")
proof -
  have "conn_subs_ok m x \<Longrightarrow> conn_subs_ok ?m' x" for x by (cases x) (simp add: conn_subs_ok_def)
  then show ?thesis using assms by (simp add: subs_ok_def list_all_iff)
qed

lemma conn_subs_ok_put:
  assumes "conn_subs_ok m (cid, cmap)" "int (length sid) \<le> sm_max_sub_id_len m" "int (length (se_filters e)) \<le> sm_max_filters m"
    "map_of cmap sid = None \<Longrightarrow> int (length cmap) < sm_max_subs_per_conn m"
  shows "conn_subs_ok m (cid, AList.update sid e cmap)"
  using assms by (auto simp: conn_subs_ok_def list_all_iff AList.distinct_update update_length dest!: update_set)

lemma conn_subs_ok_delete: "conn_subs_ok m (cid, cmap) \<Longrightarrow> conn_subs_ok m (cid, AList.delete sid cmap)"
  using AList.length_delete_le [of sid cmap]
  by (auto simp: conn_subs_ok_def list_all_iff delete_distinct dest!: delete_set)

lemma subs_kept_put:
  assumes "sub_lookup cid sid w = Some e" "se_filters e' = se_filters e"
  shows "subs_kept w (put_entry cid sid e' w)"
proof -
  let ?m = "w_subs w"
  obtain cmap where cmap: "map_of (sm_subs ?m) cid = Some cmap" "conn_subs cid w = cmap" "map_of cmap sid = Some e"
    using assms(1) by (auto simp: sub_lookup_def conn_subs_def split: option.splits)
  have "subs_ok (?m\<lparr>sm_subs := AList.update cid (AList.update sid e' cmap) (sm_subs ?m)\<rparr>)" if ok: "subs_ok ?m"
  proof (rule subs_ok_update [OF ok])
    note c = subs_ok_entry [OF ok cmap(1)]
    have "int (length sid) \<le> sm_max_sub_id_len ?m \<and> int (length (se_filters e)) \<le> sm_max_filters ?m"
      using c map_of_SomeD [OF cmap(3)] by (auto simp: conn_subs_ok_def list_all_iff)
    then show "conn_subs_ok ?m (cid, AList.update sid e' cmap)" by (intro conn_subs_ok_put [OF c]) (simp_all add: assms(2) cmap(3))
  qed
  then show ?thesis by (simp add: subs_kept_def registry_def sub_limits_def put_entry_def set_subs_def cmap(2))
qed

lemma subs_kept_remove: "subs_kept w (remove_locked cid sid w)"
proof (cases "map_of (sm_subs (w_subs w)) cid")
  case (Some cmap)
  let ?m = "w_subs w"
  have "subs_ok (?m\<lparr>sm_subs := AList.update cid (AList.delete sid cmap) (sm_subs ?m)\<rparr>)" if ok: "subs_ok ?m"
    by (rule subs_ok_update [OF ok conn_subs_ok_delete [OF subs_ok_entry [OF ok Some]]])
  then show ?thesis
    using Some subs_ok_delete [of ?m cid]
    by (simp add: subs_kept_def registry_def sub_limits_def remove_locked_def set_subs_def Let_def)
qed (simp add: remove_locked_def subs_kept_same)

lemma subs_kept_add:
  assumes "map_of (w_conns w) cid \<noteq> None"
  shows "subs_kept w (snd (sub_add now cid sid fs w))"
proof -
  let ?m = "w_subs w" and ?r = "snd (sub_add now cid sid fs w)"
  let ?m1 = "?m\<lparr>sm_subs := if map_of (sm_subs ?m) cid = None then AList.update cid [] (sm_subs ?m) else sm_subs ?m\<rparr>"
  let ?cmap = "conn_subs cid w"
  let ?e = "new_sub_entry (sm_next_generation ?m + 1) fs now"
  have reg: "registry ?r = registry w"
    by (simp add: sub_add_def registry_def sub_limits_def put_entry_def set_subs_def Let_def)
  have "subs_ok (w_subs ?r)" if ok: "subs_ok ?m" and conns: "set (map fst (w_conns w)) = set (sm_senders ?m)"
  proof -
    have sender: "cid \<in> set (sm_senders ?m)" using assms conns by (auto simp: map_of_eq_None_iff)
    have empty: "conn_subs_ok ?m (cid, [])" using sender by (simp add: conn_subs_ok_def)
    have ok1: "subs_ok ?m1" using subs_ok_update [OF ok empty] ok by simp
    have cm: "conn_subs_ok ?m (cid, ?cmap)" using subs_ok_entry [OF ok] empty by (auto simp: conn_subs_def split: option.splits)
    have "w_subs ?r = ?m \<or> w_subs ?r = ?m1 \<or>
        (w_subs ?r = ?m1\<lparr>sm_next_generation := sm_next_generation ?m + 1, sm_subs := AList.update cid (AList.update sid ?e ?cmap) (sm_subs ?m1)\<rparr> \<and>
         int (length sid) \<le> sm_max_sub_id_len ?m \<and> int (length fs) \<le> sm_max_filters ?m \<and>
         (map_of ?cmap sid = None \<longrightarrow> int (length ?cmap) < sm_max_subs_per_conn ?m))"
      by (cases "map_of (sm_subs ?m) cid")
        (auto simp: sub_add_def put_entry_def set_subs_def conn_subs_def update_conv' Let_def split: if_splits)
    moreover have "subs_ok (?m1\<lparr>sm_subs := AList.update cid (AList.update sid ?e ?cmap) (sm_subs ?m1)\<rparr>)"
      if "int (length sid) \<le> sm_max_sub_id_len ?m" "int (length fs) \<le> sm_max_filters ?m"
        "map_of ?cmap sid = None \<longrightarrow> int (length ?cmap) < sm_max_subs_per_conn ?m"
      using that by (intro subs_ok_update [OF ok1]) (simp only: conn_subs_ok_subs, intro conn_subs_ok_put [OF cm], simp_all add: new_sub_entry_def)
    ultimately show ?thesis using ok ok1 by (auto simp: subs_ok_def)
  qed
  then show ?thesis using reg by (simp add: subs_kept_def)
qed

section \<open>Life of a connection\<close>

definition all_shut :: "'a wire_scheme \<Rightarrow> bool" where
  "all_shut w \<longleftrightarrow> list_all (\<lambda>(_, c). shut c) (w_conns w)"

text \<open>Subscriptions stay well-formed and no closed connection opens again.\<close>

definition life_kept :: "'st server \<Rightarrow> 'st server \<Rightarrow> bool" where
  "life_kept s s' \<longleftrightarrow> subs_kept s s' \<and> sv_shutting_down s' = sv_shutting_down s \<and> (all_shut s \<longrightarrow> all_shut s')"

lemma all_shut_update: "list_all (\<lambda>(_, c). shut c) m \<Longrightarrow> shut c \<Longrightarrow> list_all (\<lambda>(_, c). shut c) (AList.update cid c m)"
  by (auto simp: list_all_iff dest!: update_set)

lemma all_shut_of: "list_all (\<lambda>(_, c). shut c) m \<Longrightarrow> map_of m cid = Some c \<Longrightarrow> shut c"
  by (auto simp: list_all_iff dest!: map_of_SomeD)

lemma all_shut_put:
  assumes "all_shut w" "map_of (w_conns w) cid = Some c" "tame c c'"
  shows "list_all (\<lambda>(_, c). shut c) (AList.update cid c' (w_conns w))"
proof (rule all_shut_update)
  show ok: "list_all (\<lambda>(_, c). shut c) (w_conns w)" using assms(1) by (simp only: all_shut_def)
  show "shut c'" using all_shut_of [OF ok assms(2)] assms(3) by (simp only: tame_def)
qed

lemma life_conn_op:
  assumes "\<And>c. tame c (snd (f c))"
  shows "life_kept s (snd (conn_op cid f s))"
proof -
  have "all_shut (snd (conn_op cid f s))" if "all_shut s"
  proof (cases "map_of (w_conns s) cid")
    case (Some c)
    from all_shut_put [OF that this assms] Some show ?thesis
      by (simp add: conn_op_def all_shut_def case_prod_unfold Let_def)
  qed (use that in \<open>simp add: conn_op_def\<close>)
  then show ?thesis by (simp add: life_kept_def)
qed

lemma life_send_to: "life_kept s (snd (send_to cid b s))"
proof -
  have "all_shut (snd (send_to cid b s))" if "all_shut s"
  proof (cases "map_of (w_conns s) cid")
    case (Some c)
    from all_shut_put [OF that this tame_subscription_frame] Some show ?thesis
      by (simp add: send_to_def all_shut_def case_prod_unfold Let_def)
  qed (use that in \<open>simp add: send_to_def\<close>)
  moreover have "subs_kept s (snd (send_to cid b s))"
    by (rule subs_kept_same) (simp_all add: send_to_keys)
  moreover have "sv_shutting_down (snd (send_to cid b s)) = sv_shutting_down s"
    using quiet_send_to [of s cid b] by (rule quiet_server)
  ultimately show ?thesis by (simp add: life_kept_def)
qed

lemma life_subs:
  assumes "subs_kept s s'" "w_conns s' = w_conns s" "sv_shutting_down s' = sv_shutting_down s"
  shows "life_kept s s'"
  using assms by (simp add: life_kept_def all_shut_def)

lemma life_fixed:
  assumes "fixed s' = fixed s"
  shows "life_kept s s'"
proof -
  have m: "w_subs s' = w_subs s" "sv_shutting_down s' = sv_shutting_down s"
    and f: "map (\<lambda>(cid, c). (cid, shut c)) (w_conns s') = map (\<lambda>(cid, c). (cid, shut c)) (w_conns s)"
    using assms by (simp_all add: fixed_def accounts_def)
  have "map fst (w_conns s') = map fst (w_conns s)" "map (shut \<circ> snd) (w_conns s') = map (shut \<circ> snd) (w_conns s)"
    using arg_cong [OF f, of "map fst"] arg_cong [OF f, of "map snd"] by (simp_all add: case_prod_unfold comp_def)
  moreover have "all_shut w \<longleftrightarrow> list_all (\<lambda>b. b) (map (shut \<circ> snd) (w_conns w))" for w :: "'a server"
    by (simp add: all_shut_def list.pred_map comp_def case_prod_unfold)
  ultimately show ?thesis using m by (simp add: life_kept_def subs_kept_same)
qed

interpretation life_server: server_relation life_kept env "\<lambda>_. True" for env :: "'st relay_env"
proof (intro server_relation.intro server_relation_axioms.intro)
  show "wire_relation (life_kept :: 'st server \<Rightarrow> _)"
  proof unfold_locales
    fix s s' s'' :: "'st server"
    show "life_kept s s" by (rule life_fixed) simp
    show "life_kept s s' \<Longrightarrow> life_kept s' s'' \<Longrightarrow> life_kept s s''" by (auto simp: life_kept_def intro: subs_kept_trans)
    show "life_kept s (snd (send_to cid b s))" for cid b by (rule life_send_to)
    show "life_kept s (snd (conn_op cid f s))" if "\<And>c. tame c (snd (f c))" for cid f by (rule life_conn_op [OF that])
    show "life_kept s (put_entry cid sid e' s)" if "sub_lookup cid sid s = Some e" "se_filters e' = se_filters e" for cid sid e e'
      by (rule life_subs [OF subs_kept_put [OF that]]) (simp_all add: put_entry_def set_subs_def)
    show "life_kept s (remove_locked cid sid s)" for cid sid
      by (rule life_subs [OF subs_kept_remove]) (simp_all add: remove_locked_def set_subs_def Let_def split: option.split)
  qed
  fix s :: "'st server"
  show "life_kept s (snd (sub_add now cid sid fs s))" if "load_conn cid s = Some c" for now cid sid fs c
    by (rule life_subs [OF subs_kept_add]) (use that in \<open>simp_all add: load_conn_def sub_add_def put_entry_def set_subs_def Let_def\<close>)
  show "life_kept s (snd (save_in env ev s))" for ev
    by (rule life_subs [OF subs_kept_same]) (simp_all add: save_in_def case_prod_unfold Let_def)
qed (simp_all add: life_fixed)

text \<open>The invariant: the senders are the connections, the limits those of the configuration.\<close>

definition life_inv :: "config \<Rightarrow> 'st server \<Rightarrow> bool" where
  "life_inv cfg s \<longleftrightarrow> subs_ok (w_subs s) \<and> set (map fst (w_conns s)) = set (sm_senders (w_subs s)) \<and>
     sub_limits (w_subs s) = sub_limits (new_subscription_manager cfg) \<and> (sv_shutting_down s \<longrightarrow> all_shut s)"

lemma life_inv_kept: "life_inv cfg s \<Longrightarrow> life_kept s s' \<Longrightarrow> life_inv cfg s'"
  by (auto simp: life_inv_def life_kept_def subs_kept_def registry_def)

lemma life_inv_start:
  assumes st: "start_conn env cids fresh now peer s = Some (cid, s')" and inv: "life_inv cfg s"
  shows "life_inv cfg s' \<and> sv_shutting_down s' = sv_shutting_down s"
proof -
  let ?new = "(new_conn (re_cfg env) [] peer now)\<lparr>cn_id := cid\<rparr>"
  let ?c = "if sv_shutting_down s then initiate_shutdown ?new else ?new"
  let ?s1 = "s\<lparr>w_conns := AList.update cid ?c (w_conns s)\<rparr>"
  let ?s2 = "update_conn cid init_idle_clock ?s1"
  let ?s3 = "register_sender cid ?s2"
  have s': "s' = (if nip11_auth_required (re_cfg env) then challenge_client env fresh cid ?s3 else ?s3)"
    using st by (auto simp: start_conn_def register_connection_def Let_def split: option.splits)
  have keys: "set (map fst (w_conns ?s2)) = insert cid (set (map fst (w_conns s)))"
    by (simp add: update_conn_def conn_op_keys AList.dom_update)
  have "all_shut ?s1" if "sv_shutting_down s"
  proof -
    have "shut ?c" using that by (simp add: shut_def initiate_shutdown_def)
    moreover have "list_all (\<lambda>(_, c). shut c) (w_conns s)" using inv that by (simp add: life_inv_def all_shut_def)
    ultimately show ?thesis using all_shut_update [of "w_conns s" ?c cid] by (simp add: all_shut_def)
  qed
  moreover have "life_kept ?s1 ?s2" by (rule life_server.update_op) (simp add: tame_def settled_def shut_def init_idle_clock_def)
  ultimately have sh: "all_shut ?s2" if "sv_shutting_down s" using that by (simp add: life_kept_def)
  have "subs_ok (w_subs ?s3)"
    using inv by (simp add: life_inv_def subs_ok_register register_sender_def update_conn_def)
  then have "life_inv cfg ?s3"
    using inv keys sh by (simp add: life_inv_def register_sender_def sub_limits_def all_shut_def update_conn_def)
  moreover have "life_kept ?s3 s'"
    using life_server.challenge [of ?s3 env fresh cid] life_fixed [of ?s3 ?s3] by (simp add: s')
  ultimately have i: "life_inv cfg s'" and k: "life_kept ?s3 s'" by (blast intro: life_inv_kept)+
  from k have "sv_shutting_down s' = sv_shutting_down ?s3" by (simp only: life_kept_def)
  with i have "life_inv cfg s'" "sv_shutting_down s' = sv_shutting_down ?s3" by blast+
  then show ?thesis by (simp add: register_sender_def)
qed

lemma life_inv_end:
  assumes inv: "life_inv cfg s"
  shows "life_inv cfg (end_conn cid s) \<and> sv_shutting_down (end_conn cid s) = sv_shutting_down s"
proof (cases "load_conn cid s")
  case (Some c)
  let ?s1 = "neg_close_all cid s"
  let ?u = "unregister_sender cid ?s1"
  let ?s2 = "fold (\<lambda>sid s. snd (on_conn cid (send_closed sid ''connection closed'') s)) (fst ?u) (snd ?u)"
  let ?s3 = "update_conn cid initiate_shutdown ?s2"
  have "life_kept t (fold (\<lambda>sid s. snd (on_conn cid (send_closed sid m) s)) sids t)" for m sids and t :: "'a server"
  proof (induction sids arbitrary: t)
    case (Cons sid sids)
    have "life_kept t (snd (on_conn cid (send_closed sid m) t))" by (rule life_conn_op) simp
    then show ?case using life_server.F_trans [OF _ Cons.IH] by simp
  qed (simp add: life_server.F_refl)
  moreover have "life_kept ?s2 ?s3" by (rule life_server.update_op) simp
  ultimately have k: "life_kept (snd ?u) ?s3" using life_server.F_trans by blast
  have "fixed ?s1 = fixed s" using Some by (simp add: neg_close_all_def fixed_update_conn)
  then have k1: "life_kept s ?s1" by (rule life_fixed)
  have i1: "life_inv cfg ?s1" by (rule life_inv_kept [OF inv k1])
  have u: "w_subs (snd ?u) = (w_subs ?s1)\<lparr>sm_senders := removeAll cid (sm_senders (w_subs ?s1)),
      sm_subs := AList.delete cid (sm_subs (w_subs ?s1))\<rparr>" "w_conns (snd ?u) = w_conns ?s1"
      "sv_shutting_down (snd ?u) = sv_shutting_down ?s1"
    by (simp_all add: unregister_sender_def set_subs_def Let_def)
  have ok: "subs_ok (w_subs (snd ?u))"
    using i1 by (simp add: u life_inv_def subs_ok_unregister)
  have w: "w_subs ?s3 = w_subs (snd ?u)"
  proof -
    have "w_subs (fold (\<lambda>sid s. snd (on_conn cid (send_closed sid m) s)) sids t) = w_subs t" for m sids and t :: "'a server"
      by (induction sids arbitrary: t) simp_all
    then show ?thesis by (simp add: update_conn_def)
  qed
  have e: "w_subs (end_conn cid s) = w_subs ?s3" "w_conns (end_conn cid s) = AList.delete cid (w_conns ?s3)"
    "sv_shutting_down (end_conn cid s) = sv_shutting_down ?s3"
    using Some by (simp_all add: end_conn_def case_prod_unfold Let_def)
  have "all_shut ?s3 \<Longrightarrow> all_shut (end_conn cid s)"
    by (auto simp: all_shut_def e list_all_iff dest: delete_set)
  moreover have "map fst (w_conns ?s3) = map fst (w_conns ?s1)"
    using k by (simp add: life_kept_def subs_kept_def registry_def u)
  moreover have "all_shut (snd ?u) = all_shut ?s1" by (simp add: all_shut_def u)
  ultimately show ?thesis
    using i1 k ok k1
    by (auto simp: life_inv_def e w u life_kept_def sub_limits_def AList.delete_keys set_removeAll)
qed (use inv in \<open>simp add: end_conn_def\<close>)

section \<open>Invariants of every run\<close>

lemma life_inv_step:
  assumes st: "server_step p y y'" and inv: "life_inv cfg (ys_server y)"
  shows "life_inv cfg (ys_server y') \<and> (sv_shutting_down (ys_server y) \<longrightarrow> sv_shutting_down (ys_server y'))"
proof (cases rule: life_server.server_step_cases [OF st refl TrueI])
  case 1
  then show ?thesis using life_inv_kept [OF inv] by (simp add: life_kept_def)
next
  case 2
  then obtain h t n where "ys_server y' = ys_server y\<lparr>sv_hub := h, sv_ip_open := t, sv_open := n\<rparr>" by (auto simp: admission_def)
  then show ?thesis using inv by (simp add: life_inv_def all_shut_def)
next
  case (3 cids fresh now peer cid)
  then show ?thesis using life_inv_start [OF _ inv] by blast
next
  case (4 cid)
  then show ?thesis using life_inv_end [OF inv] by simp
next
  case (5 f)
  have "all_shut (map_conns f s)" if ok: "all_shut s" for s :: "'a server"
    using ok 5(2) by (auto simp: all_shut_def map_conns_def list_all_iff tame_def)
  then show ?thesis using inv by (auto simp: 5(1) life_inv_def map_conns_def comp_def case_prod_unfold)
next
  case 6
  have "list_all (\<lambda>(_, c). shut c) (map (\<lambda>p. (fst p, initiate_shutdown (snd p))) m)" for m :: "(string, conn) go_map"
    by (simp add: list_all_iff shut_def initiate_shutdown_def)
  then show ?thesis
    using inv by (simp add: 6 life_inv_def shutdown_server_def map_conns_def all_shut_def comp_def case_prod_unfold)
qed

lemma reach_life_inv: "server_reach p st y \<Longrightarrow> life_inv (re_cfg (rs_env p)) (ys_server y)"
proof (induction rule: server_reach.induct)
  case start
  then show ?case
    by (simp add: life_inv_def new_server_def new_subscription_manager_def subs_ok_def all_shut_def)
next
  case (step y y')
  then show ?case using life_inv_step by blast
qed

lemma start_conn_store: "start_conn env cids fresh now peer s = Some (cid, s') \<Longrightarrow> sv_store s' = sv_store s"
  by (auto simp: start_conn_def register_connection_def register_sender_def challenge_client_def Let_def
      split: option.splits if_splits)

lemma end_conn_store: "sv_store (end_conn cid s) = sv_store s"
proof (cases "load_conn cid s")
  case (Some c)
  let ?u = "unregister_sender cid (neg_close_all cid s)"
  have "quiet (neg_close_all cid s) (fold (\<lambda>sid s. snd (on_conn cid (send_closed sid ''connection closed'') s)) (fst ?u) (snd ?u))"
    by (rule quiet.R_trans [OF quiet_senders(2) quiet_closed])
  from quiet_server(1) [OF this] Some show ?thesis
    by (simp add: end_conn_def neg_close_all_def case_prod_unfold Let_def)
qed (simp add: end_conn_def)

lemma stored_step:
  assumes st: "server_step p y y'" and p: "load_enabled (re_cfg (rs_env p)) new_pipeline = Inr (rs_pipeline p)"
    and ops: "re_ops (rs_env p) = sql_store se"
    and inv: "sql_saves.all_stored se (authentic (rs_env p)) (sv_store (ys_server y))"
  shows "sql_saves.all_stored se (authentic (rs_env p)) (sv_store (ys_server y'))"
proof -
  let ?env = "rs_env p"
  obtain vs where vs: "pl_validators (rs_pipeline p) = VSig # vs" using loaded_pipeline(2) [OF p] by blast
  have env: "rs_env p = ?env\<lparr>re_ops := sql_store se\<rparr>" using ops by simp
  have ok: "authentic ?env ev"
    if "validate_chain (?env\<lparr>re_ops := sql_store se\<rparr>) now (pl_validators (rs_pipeline p)) c ev s = None" for now c ev s
    using that by (auto simp: vs authentic_def split: option.splits)
  show ?thesis
  proof (cases rule: authentic_store.server_step_cases [OF st env ok])
    case 2
    then show ?thesis using inv by (simp add: keeps_store_def)
  next
    case 3
    then show ?thesis using inv by (auto simp: admission_def)
  next
    case (4 cids fresh now peer cid)
    then show ?thesis using inv by (simp add: start_conn_store)
  next
    case (5 cid)
    then show ?thesis using inv by (simp add: end_conn_store)
  next
    case (6 f)
    then show ?thesis using inv by (simp add: map_conns_def)
  next
    case 7
    then show ?thesis using inv by (simp add: map_conns_def shutdown_server_def)
  qed
qed

lemma reach_stored:
  assumes "server_reach p st y" "load_enabled (re_cfg (rs_env p)) new_pipeline = Inr (rs_pipeline p)"
    "re_ops (rs_env p) = sql_store se" "sql_saves.all_stored se (authentic (rs_env p)) st"
  shows "sql_saves.all_stored se (authentic (rs_env p)) (sv_store (ys_server y))"
  using assms
proof (induction rule: server_reach.induct)
  case (step y y')
  then show ?case using stored_step by blast
qed (simp add: new_server_def)

section \<open>A concrete run\<close>

definition demo_site :: "event_db site" where
  "demo_site = \<lparr>rs_env = demo_env, rs_reconcile = (\<lambda>_ _ _ _. Inl []),
     rs_pipeline = (case load_enabled wrap_config new_pipeline of Inl _ \<Rightarrow> new_pipeline | Inr p \<Rightarrow> p),
     rs_prefixes = [], rs_header = []\<rparr>"

definition demo_request :: http_request where
  "demo_request = \<lparr>hr_method = ''GET'', hr_path = ''/'', hr_remote_addr = ''10.0.0.1'', hr_headers = []\<rparr>"

definition demo_reserved :: "event_db server" where
  "demo_reserved = snd (reserve_connection wrap_config (new_server demo_site empty_db))"

definition demo_admitted :: "event_db server" where
  "demo_admitted = snd (admit_client demo_env [] [] (5, 5, 5) demo_request demo_reserved)"

definition demo_up :: "event_db server" where
  "demo_up = snd (the (start_conn demo_env [''c1''] ''x'' 5 ''10.0.0.1'' demo_admitted))"

definition demo_sys :: "event_db relay_sys" where
  "demo_sys = \<lparr>ys_server = demo_up, ys_reserved = 0, ys_upgrading = []\<rparr>"

lemma demo_pipeline: "load_enabled (re_cfg (rs_env demo_site)) new_pipeline = Inr (rs_pipeline demo_site)"
proof -
  have "list_all is_implemented (nips_enabled wrap_config)" by code_simp
  then obtain q where "load_enabled wrap_config new_pipeline = Inr q" using load_enabled_iff by blast
  then show ?thesis by (simp add: demo_site_def demo_env_def)
qed

lemma demo_reach: "server_reach demo_site empty_db demo_sys"
proof -
  let ?s0 = "new_server demo_site empty_db"
  let ?y0 = "\<lparr>ys_server = ?s0, ys_reserved = 0, ys_upgrading = []\<rparr>"
  let ?y1 = "\<lparr>ys_server = demo_reserved, ys_reserved = 1, ys_upgrading = []\<rparr>"
  let ?y2 = "\<lparr>ys_server = demo_admitted, ys_reserved = 0, ys_upgrading = [''10.0.0.1'']\<rparr>"
  have env: "rs_env demo_site = demo_env" "rs_prefixes demo_site = []" "rs_header demo_site = []" "re_cfg demo_env = wrap_config"
    by (simp_all add: demo_site_def demo_env_def)
  have "fst (reserve_connection wrap_config ?s0) = True" by code_simp
  then have "reserve_connection wrap_config ?s0 = (True, demo_reserved)" by (simp add: demo_reserved_def prod_eq_iff)
  then have 1: "server_step demo_site ?y0 ?y1" using server_step.reserve [of demo_site ?y0 demo_reserved] by (simp add: env)
  have "fst (admit_client demo_env [] [] (5, 5, 5) demo_request demo_reserved) = Inr ''10.0.0.1''" by code_simp
  then have "admit_client demo_env [] [] (5, 5, 5) demo_request demo_reserved = (Inr ''10.0.0.1'', demo_admitted)"
    by (simp add: demo_admitted_def prod_eq_iff)
  then have 2: "server_step demo_site ?y1 ?y2"
    using server_step.admit [of ?y1 0 demo_site "(5, 5, 5)" demo_request "''10.0.0.1''" demo_admitted] by (simp add: env)
  have "map_option fst (start_conn demo_env [''c1''] ''x'' 5 ''10.0.0.1'' demo_admitted) = Some ''c1''" by code_simp
  then have "start_conn demo_env [''c1''] ''x'' 5 ''10.0.0.1'' demo_admitted = Some (''c1'', demo_up)"
    by (auto simp: demo_up_def)
  then have 3: "server_step demo_site ?y2 demo_sys"
    using server_step.connected [of "''10.0.0.1''" ?y2 demo_site "[''c1'']" "''x''" 5 "''c1''" demo_up]
    by (simp add: env finish_upgrade_def demo_sys_def)
  show ?thesis by (rule server_reach.step [OF server_reach.step [OF server_reach.step [OF server_reach.start 1] 2] 3])
qed

section \<open>Properties\<close>

text \<open>C1: In every state the running server reaches, the books balance: the global counter is the number
  of requests being accepted plus open connections and within \<open>max_open\<close>; each address is charged
  exactly for its upgrades and connections, within \<open>max_open_per_ip\<close>; connections are registered
  under their own distinct ids; and the slots taken for synchronisation are the sessions the open
  connections hold, within the configured number. So nothing leaks when everyone has left.\<close>

theorem connection_accounts_agree:
  assumes "server_reach p st y" and "s = ys_server y" and "cfg = re_cfg (rs_env p)"
    and "0 < max_open (connection_limits cfg)"
  shows "sv_open s = int (ys_reserved y + length (ys_upgrading y) + length (w_conns s)) \<and>
    sv_open s \<le> max_open (connection_limits cfg) \<and>
    (\<forall>ip. open_count ip (sv_ip_open s) =
        int (count_list (ys_upgrading y) ip + count_list (map (\<lambda>(_, c). cn_peer_ip c) (w_conns s)) ip) \<and>
      (0 < max_open_per_ip (connection_limits cfg) \<longrightarrow>
        open_count ip (sv_ip_open s) \<le> max_open_per_ip (connection_limits cfg))) \<and>
    distinct (map fst (w_conns s)) \<and> (\<forall>(cid, c) \<in> set (w_conns s). cn_id c = cid) \<and>
    sv_neg_active s = sum_list (map (\<lambda>(_, c). int (length (cn_neg_sessions c))) (w_conns s)) \<and>
    sv_neg_active s \<le> effective_max_concurrent_sessions cfg"
proof -
  have inv: "server_inv cfg y" using server_reach_inv [OF assms(1)] assms(3,4) by simp
  have peers: "map (\<lambda>(_, _, peer). peer) (conn_ids s) = map (\<lambda>(_, c). cn_peer_ip c) (w_conns s)"
    by (simp add: conn_ids_def case_prod_unfold)
  have ids: "list_all (\<lambda>(cid, i, _). i = cid) (conn_ids s) \<longleftrightarrow> (\<forall>(cid, c) \<in> set (w_conns s). cn_id c = cid)"
    by (simp add: conn_ids_def list_all_iff case_prod_unfold)
  have slots: "neg_total (neg_view s) = sum_list (map (\<lambda>(_, c). int (length (cn_neg_sessions c))) (w_conns s))"
    by (simp add: neg_total_def neg_view_def case_prod_unfold comp_def)
  show ?thesis
    using inv unfolding server_inv_def Let_def assms(2) [symmetric] ids conn_ids_keys holders_def peers per_ip_ok_def
      neg_inv_def slots
    by (simp add: conn_ids_def)
qed

theorem connection_accounts_agree_witness:
  "sv_open (ys_server demo_sys) = 1 \<and> open_count ''10.0.0.1'' (sv_ip_open (ys_server demo_sys)) = 1"
proof -
  have "0 < max_open (connection_limits (re_cfg (rs_env demo_site)))" by code_simp
  note acc = connection_accounts_agree [OF demo_reach refl refl this]
  have "length (w_conns (ys_server demo_sys)) = 1" "ys_upgrading demo_sys = []" "ys_reserved demo_sys = 0"
    "map (\<lambda>(_, c). cn_peer_ip c) (w_conns (ys_server demo_sys)) = [''10.0.0.1'']" by code_simp+
  with acc show ?thesis by simp
qed

text \<open>C5: Whatever is sent to it, a relay that starts with authentic events keeps only authentic events:
  every stored event's id and signature verify, or the relay signed it itself.\<close>

theorem stored_events_are_authentic:
  assumes "server_reach p st y" and "load_enabled (re_cfg (rs_env p)) new_pipeline = Inr (rs_pipeline p)"
    and "re_ops (rs_env p) = sql_store se" and "db_valid st"
    and "\<forall>ev \<in> db_stored se st. verify_sig (re_crypto (rs_env p)) ev = None"
  shows "\<forall>ev \<in> db_stored se (sv_store (ys_server y)).
    verify_sig (re_crypto (rs_env p)) ev = None \<or> (\<exists>e. sign_event (rs_env p) e = Inr ev)"
  using reach_stored [OF assms(1-3)] assms(4,5) by (simp add: sql_saves.all_stored_def authentic_def)

definition demo_event_frame :: json where
  "demo_event_frame = JArr [JStr ''EVENT'', JObj [(''id'', JStr (replicate 64 CHR ''0'')), (''pubkey'', JStr (replicate 64 CHR ''0'')),
     (''created_at'', JInt 5), (''kind'', JInt 1), (''tags'', JArr []), (''content'', JStr ''hello''),
     (''sig'', JStr (replicate 128 CHR ''0''))]]"

definition demo_stored :: "event_db server" where
  "demo_stored = the (dispatch_payload (\<lambda>_ _ _ _. Inl []) demo_env (rs_pipeline demo_site) demo_reading ''c1'' 400
     (Some demo_event_frame) demo_up)"

theorem stored_events_are_authentic_witness:
  "\<exists>ev. ev \<in> db_stored plain_env (sv_store demo_stored) \<and>
     (verify_sig no_crypto ev = None \<or> (\<exists>e. sign_event demo_env e = Inr ev))"
proof -
  let ?y = "demo_sys\<lparr>ys_server := demo_stored\<rparr>"
  have env: "rs_env demo_site = demo_env" "rs_reconcile demo_site = (\<lambda>_ _ _ _. Inl [])" "re_crypto demo_env = no_crypto"
    by (simp_all add: demo_site_def demo_env_def)
  have "map_option (\<lambda>s. sql_matching plain_env empty_filter (sv_store s) \<noteq> [])
     (dispatch_payload (\<lambda>_ _ _ _. Inl []) demo_env (rs_pipeline demo_site) demo_reading ''c1'' 400 (Some demo_event_frame) demo_up) =
     Some True" by code_simp
  then have r: "dispatch_payload (\<lambda>_ _ _ _. Inl []) demo_env (rs_pipeline demo_site) demo_reading ''c1'' 400
     (Some demo_event_frame) demo_up = Some demo_stored" and ne: "sql_matching plain_env empty_filter (sv_store demo_stored) \<noteq> []"
    by (auto simp: demo_stored_def)
  from r have "dispatch_payload (rs_reconcile demo_site) (rs_env demo_site) (rs_pipeline demo_site) demo_reading ''c1'' 400
     (Some demo_event_frame) (ys_server demo_sys) = Some demo_stored"
    by (simp add: demo_sys_def env)
  then have "server_step demo_site demo_sys ?y" by (rule server_step.payload)
  then have reach: "server_reach demo_site empty_db ?y" by (rule server_reach.step [OF demo_reach])
  have "re_ops (rs_env demo_site) = sql_store plain_env" by (simp add: demo_site_def demo_env_def)
  moreover have "db_valid empty_db" using represents_empty unfolding db_valid_def by blast
  ultimately have "\<forall>ev \<in> db_stored plain_env (sv_store demo_stored).
      verify_sig no_crypto ev = None \<or> (\<exists>e. sign_event demo_env e = Inr ev)"
    using stored_events_are_authentic [OF reach demo_pipeline, of plain_env]
    by (simp add: env db_stored_eq [OF represents_empty])
  moreover have "db_stored plain_env (sv_store demo_stored) \<noteq> {}" using ne by (simp add: db_stored_def)
  ultimately show ?thesis by blast
qed

text \<open>C23: In every state the server reaches, a subscription belongs to a registered connection, under an
  id and with filters within the configured bounds, and a connection's subscriptions have distinct
  ids and are no more than configured: none outlives its connection.\<close>

theorem subscriptions_well_formed:
  assumes "server_reach p st y" and "s = ys_server y" and "cfg = re_cfg (rs_env p)"
  shows "(\<forall>cid sid e. sub_lookup cid sid s = Some e \<longrightarrow> load_conn cid s \<noteq> None \<and> has_sender cid s \<and>
      int (length sid) \<le> max_subscription_id_length cfg \<and>
      int (length (se_filters e)) \<le> max_filters_per_req (connection_limits cfg)) \<and>
    (\<forall>cid. distinct (map fst (conn_subs cid s)) \<and>
      sub_count cid s \<le> max 0 (max_subscriptions_per_connection (connection_limits cfg)) \<and>
      (load_conn cid s = None \<longrightarrow> conn_subs cid s = []))"
proof -
  have inv: "life_inv cfg s" using reach_life_inv [OF assms(1)] assms(2,3) by simp
  have lim: "sm_max_sub_id_len (w_subs s) = max_subscription_id_length cfg"
    "sm_max_filters (w_subs s) = max_filters_per_req (connection_limits cfg)"
    "sm_max_subs_per_conn (w_subs s) = max_subscriptions_per_connection (connection_limits cfg)"
    using inv by (simp_all add: life_inv_def sub_limits_def new_subscription_manager_def)
  have conn: "cid \<in> set (sm_senders (w_subs s)) \<longleftrightarrow> load_conn cid s \<noteq> None" for cid
  proof -
    have "set (map fst (w_conns s)) = set (sm_senders (w_subs s))" using inv by (simp only: life_inv_def)
    then show ?thesis by (simp add: load_conn_def map_of_eq_None_iff)
  qed
  have entry: "conn_subs_ok (w_subs s) (cid, conn_subs cid s)" if "map_of (sm_subs (w_subs s)) cid \<noteq> None" for cid
    using that inv subs_ok_entry by (auto simp: conn_subs_def life_inv_def)
  have none: "conn_subs cid s = []" if "map_of (sm_subs (w_subs s)) cid = None" for cid
    using that by (simp add: conn_subs_def)
  have "conn_subs cid s = [] \<or> conn_subs_ok (w_subs s) (cid, conn_subs cid s)" for cid using entry none by blast
  then have facts: "conn_subs cid s = [] \<or> (load_conn cid s \<noteq> None \<and> has_sender cid s \<and> distinct (map fst (conn_subs cid s)) \<and>
      sub_count cid s \<le> max 0 (max_subscriptions_per_connection (connection_limits cfg)) \<and>
      (\<forall>(sid, e) \<in> set (conn_subs cid s). int (length sid) \<le> max_subscription_id_length cfg \<and>
        int (length (se_filters e)) \<le> max_filters_per_req (connection_limits cfg)))" for cid
    using conn by (simp add: conn_subs_ok_def lim sub_count_def has_sender_def list_all_iff)
  show ?thesis
  proof (intro conjI allI impI)
    fix cid sid e
    assume "sub_lookup cid sid s = Some e"
    then have "(sid, e) \<in> set (conn_subs cid s)" by (simp add: sub_lookup_def map_of_SomeD)
    with facts [of cid] show "load_conn cid s \<noteq> None" "has_sender cid s" "int (length sid) \<le> max_subscription_id_length cfg"
      "int (length (se_filters e)) \<le> max_filters_per_req (connection_limits cfg)" by auto
  next
    fix cid
    show "distinct (map fst (conn_subs cid s))"
      "sub_count cid s \<le> max 0 (max_subscriptions_per_connection (connection_limits cfg))"
      using facts [of cid] by (auto simp: sub_count_def)
    show "conn_subs cid s = []" if "load_conn cid s = None" using facts [of cid] that by blast
  qed
qed

theorem subscriptions_well_formed_witness: "conn_subs ''c2'' (ys_server demo_sys) = []"
proof -
  have "load_conn ''c2'' (ys_server demo_sys) = None" by code_simp
  then show ?thesis using subscriptions_well_formed [OF demo_reach refl refl] by blast
qed

text \<open>C24: Shutdown is final: once the flag is set it stays, every registered connection is shut down - its
  context is done and its queue takes no further frame - and no request is admitted any more.\<close>

theorem shutdown_is_final:
  assumes "server_reach p st y" and "s = ys_server y" and "sv_shutting_down s"
  shows "(\<forall>cid c. load_conn cid s = Some c \<longrightarrow> cn_ctx_done c \<and> (\<forall>b. enqueue b c = (Some err_slow_consumer, c))) \<and>
    (\<forall>clk r. \<exists>refusal. fst (admit_client (rs_env p) (rs_prefixes p) (rs_header p) clk r s) = Inl refusal) \<and>
    (\<forall>y'. server_step p y y' \<longrightarrow> sv_shutting_down (ys_server y'))"
proof (intro conjI allI impI)
  note inv = reach_life_inv [OF assms(1)]
  fix cid c
  assume "load_conn cid s = Some c"
  then have "shut c" using inv assms(2,3) all_shut_of by (auto simp: life_inv_def all_shut_def load_conn_def)
  then show "cn_ctx_done c" "enqueue b c = (Some err_slow_consumer, c)" for b by (simp_all add: shut_def enqueue_def)
next
  fix clk :: "int \<times> int \<times> int" and r
  show "\<exists>refusal. fst (admit_client (rs_env p) (rs_prefixes p) (rs_header p) clk r s) = Inl refusal"
    using assms(3) by (simp add: admit_client_def Let_def case_prod_unfold)
next
  fix y'
  assume "server_step p y y'"
  then show "sv_shutting_down (ys_server y')" using life_inv_step reach_life_inv [OF assms(1)] assms(2,3) by blast
qed

theorem shutdown_is_final_witness:
  "\<exists>c. load_conn ''c1'' (shutdown_server demo_up) = Some c \<and> cn_ctx_done c"
proof -
  let ?y = "demo_sys\<lparr>ys_server := shutdown_server (ys_server demo_sys)\<rparr>"
  have "server_reach demo_site empty_db ?y" by (rule server_reach.step [OF demo_reach server_step.shutdown])
  moreover have "sv_shutting_down (ys_server ?y)" by (simp add: shutdown_server_def map_conns_def)
  moreover have "load_conn ''c1'' (ys_server ?y) \<noteq> None" by code_simp
  ultimately show ?thesis using shutdown_is_final [OF _ refl, of demo_site empty_db ?y] by (auto simp: demo_sys_def)
qed

lemma map_of_map_conns: "load_conn cid (map_conns f s) = map_option (f cid) (load_conn cid s)"
proof -
  have "map_of (map (\<lambda>(cid, c). (cid, f cid c)) m) cid = map_option (f cid) (map_of m cid)" for m
    by (induction m) auto
  then show ?thesis by (simp add: map_conns_def load_conn_def)
qed

lemma idle_tick_conn:
  "load_conn cid (idle_tick cfg now s) = map_option (\<lambda>c.
     if 0 < idle_no_event_no_sub_seconds (connection_limits cfg) \<and> idle_eligible (sub_count cid s) c \<and>
       idle_no_event_no_sub_seconds (connection_limits cfg) \<le> idle_seconds now c
     then initiate_shutdown c else c) (load_conn cid s)"
  by (cases "load_conn cid s") (auto simp: idle_tick_def sweep_idle_connections_def map_of_map_conns Let_def)

lemma remove_only:
  assumes "conn_subs cid w = [(sid, e)]"
  shows "conn_subs cid (remove_locked cid sid w) = []"
proof -
  have "AList.delete sid [(sid, e)] = []" by (simp add: AList.delete_eq)
  moreover have "map_of (sm_subs (w_subs w)) cid = Some [(sid, e)]"
    using assms by (auto simp: conn_subs_def split: option.splits)
  ultimately show ?thesis by (simp add: conn_subs_def remove_locked_def set_subs_def AList.delete_conv' Let_def)
qed

text \<open>C35: The sweep misses a client whose only query failed. CLOSE restarts the idle clock of a client without
  subscriptions or events, so that the sweep shuts it down after the limit; when the relay itself
  ends the subscription because its query failed, the clock keeps the mark of a client with
  subscriptions, and no tick ever shuts the connection down.\<close>

theorem failed_query_is_never_idle:
  assumes "load_conn cid s = Some c" and "cn_idle_since_unix c = idle_active_subs" and "cn_client_event_total c = 0"
    and "conn_subs cid s = [(sid, e)]" and "has_sender cid s" and "\<not> se_closed e"
    and "0 < idle_no_event_no_sub_seconds (connection_limits cfg)" and "0 < now"
    and "sub64 now' now \<ge> idle_no_event_no_sub_seconds (connection_limits cfg)"
    and "s1 = snd (close_snapshot_on_query_error cid sid (se_generation e) s)" and "s2 = handle_close now cid sid s"
  shows "sub_count cid s1 = 0 \<and> sub_count cid s2 = 0 \<and>
    (\<exists>c1. load_conn cid s1 = Some c1 \<and> (\<forall>t. load_conn cid (idle_tick cfg t s1) = Some c1)) \<and>
    (\<exists>c2. load_conn cid s2 = Some c2 \<and> load_conn cid (idle_tick cfg now' s2) = Some (initiate_shutdown c2))"
proof -
  let ?r = "conn_op cid (send_closed sid ''internal error'') s"
  have "sub_lookup cid sid s = Some e" by (simp add: sub_lookup_def assms(4))
  then have s1: "s1 = remove_locked cid sid (snd ?r)"
    using assms(5,6) by (simp add: assms(10) close_snapshot_on_query_error_def with_snapshot_def close_error_fn_def
        case_prod_unfold Let_def)
  have lc: "load_conn cid (remove_locked cid sid w) = load_conn cid w" for w :: "'a server"
    by (simp add: load_conn_def remove_locked_def set_subs_def Let_def split: option.split)
  have op: "load_conn cid (snd (conn_op cid f s)) = Some (snd (f c))" for f
    using assms(1) by (simp add: load_conn_def conn_op_def case_prod_unfold Let_def update_conv')
  have subs: "conn_subs cid (snd (conn_op cid f s)) = [(sid, e)]" for f
    using assms(4) by (simp add: conn_subs_def)
  have c1: "load_conn cid s1 = Some (snd (send_closed sid ''internal error'' c))" by (simp add: s1 lc op)
  moreover have "cn_idle_since_unix (snd (send_closed sid m c)) = idle_active_subs"
    "cn_client_event_total (snd (send_closed sid m c)) = 0" for m
    using assms(2,3) by (simp_all add: send_closed_def)
  moreover from this have "\<not> idle_eligible n (snd (send_closed sid m c))" for n m
    by (simp add: idle_eligible_def idle_active_subs_def idle_exempt_event_def)
  ultimately have t1: "load_conn cid (idle_tick cfg t s1) = load_conn cid s1" for t by (simp add: idle_tick_conn)
  let ?c2 = "note_subscription_count now 0 (snd (send_closed sid [] c))"
  have n1: "sub_count cid s1 = 0" using remove_only [OF subs] by (simp add: sub_count_def s1)
  have m: "sub_count cid (remove_locked cid sid (snd (conn_op cid f s))) = 0" for f
    using remove_only [OF subs] by (simp add: sub_count_def)
  have c2: "load_conn cid s2 = Some ?c2" "sub_count cid s2 = 0"
    using op [of "send_closed sid []"] m [of "send_closed sid []"]
    by (simp_all add: assms(11) handle_close_def note_sub_count_def sub_remove_def load_conn_def lc [unfolded load_conn_def]
        conn_op_def [of cid "\<lambda>c. (None, _ c)"] update_conv' sub_count_def conn_subs_def split: option.splits)
  have "idle_eligible 0 ?c2" "idle_seconds now' ?c2 = sub64 now' now"
    using assms(2,3,8) by (simp_all add: idle_eligible_def idle_seconds_def note_subscription_count_def send_closed_def
        idle_exempt_event_def Let_def)
  then have "load_conn cid (idle_tick cfg now' s2) = Some (initiate_shutdown ?c2)"
    using assms(7,9) by (simp add: idle_tick_conn c2)
  with t1 c1 n1 c2 show ?thesis by auto
qed

definition demo_subscribed :: "event_db server" where
  "demo_subscribed = note_sub_count 5 ''c1'' (snd (sub_add 5 ''c1'' ''q'' [empty_filter] demo_up))"

theorem failed_query_is_never_idle_witness:
  "\<exists>c1. \<forall>t. load_conn ''c1'' (idle_tick wrap_config t (snd (close_snapshot_on_query_error ''c1'' ''q'' 1 demo_subscribed))) = Some c1"
proof -
  let ?e = "new_sub_entry 1 [empty_filter] 5"
  have "load_conn ''c1'' demo_subscribed \<noteq> None" by code_simp
  then obtain c where c: "load_conn ''c1'' demo_subscribed = Some c" by blast
  have "map_option (\<lambda>c. (cn_idle_since_unix c, cn_client_event_total c)) (load_conn ''c1'' demo_subscribed) = Some (idle_active_subs, 0)"
    by code_simp
  then have i: "cn_idle_since_unix c = idle_active_subs" "cn_client_event_total c = 0" by (simp_all add: c)
  have s: "conn_subs ''c1'' demo_subscribed = [(''q'', ?e)]" "has_sender ''c1'' demo_subscribed" "\<not> se_closed ?e"
    "se_generation ?e = 1" by code_simp+
  have l: "0 < idle_no_event_no_sub_seconds (connection_limits wrap_config)"
    "idle_no_event_no_sub_seconds (connection_limits wrap_config) \<le> sub64 1000000 5" by code_simp+
  have "(0::int) < 5" by simp
  from failed_query_is_never_idle [OF c i s(1-3) l(1) this l(2) refl refl, unfolded s(4)] show ?thesis by blast
qed

end
