(* ===== verification/Plugin_Match.thy ===== *)
theory Plugin_Match
  imports Relay_Handlers
begin

text \<open>
  Which messages a plugin is given and in which form: \<open>match.go\<close>, \<open>convert.go\<close> and the conversions at the
  end of \<open>instance.go\<close> in \<open>internal/plugin\<close>, with the types of \<open>sdk/plugin/api.go\<close>.

  A filter goes from the relay's type to the SDK's (tag names without \<open>#\<close>, the search text as a plain
  string) and from there to the protocol's, whose kinds and limits are 32-bit integers; those are
  words here. The map of tags is iterated in Go, so its order is lost: the conversions keep the order of
  the association list, and the properties compare maps as functions.
\<close>

section \<open>Traffic subscriptions\<close>

record traffic_subscription =
  ts_message_types :: "string list"
  ts_kinds :: "int list"
  ts_req_has_search :: bool
  ts_req_tag_names :: "string list"
  ts_intercept_req :: bool
  ts_observe :: bool
  ts_on_stored_event :: bool

fun kind_in :: "int list \<Rightarrow> int \<Rightarrow> bool" where
  "kind_in [] kind = False"
| "kind_in (k # ks) kind = (if k = kind then True else kind_in ks kind)"

definition kinds_intersect :: "int list \<Rightarrow> int list \<Rightarrow> bool" where
  "kinds_intersect a b =
     (if length a = 0 \<or> length b = 0 then False else list_ex (\<lambda>x. list_ex (\<lambda>y. x = y) b) a)"

definition has_msg_type :: "traffic_subscription \<Rightarrow> string \<Rightarrow> bool" where
  "has_msg_type s t = list_ex (\<lambda>m. equal_fold m t) (ts_message_types s)"

definition tag_present :: "string \<Rightarrow> filter \<Rightarrow> bool" where
  "tag_present key f = (case map_of (f_tag f) key of None \<Rightarrow> False | Some vals \<Rightarrow> length vals > 0)"

definition filter_hit :: "traffic_subscription \<Rightarrow> filter \<Rightarrow> bool" where
  "filter_hit s f =
     (if kinds_intersect (ts_kinds s) (f_kinds f) then True
      else if ts_req_has_search s \<and> has_search f then True
      else list_ex (\<lambda>name.
        let key = (if \<not> has_prefix name ''#'' then ''#'' @ name else name);
            letter = trim_prefix key ''#''
        in tag_present key f \<or> tag_present letter f) (ts_req_tag_names s))"

definition req_hits :: "traffic_subscription \<Rightarrow> filter list \<Rightarrow> bool" where
  "req_hits s filters = list_ex (filter_hit s) filters"

fun match_observe :: "traffic_subscription list \<Rightarrow> client_msg \<Rightarrow> bool" where
  "match_observe subs (EventMessage ev) =
     list_ex (\<lambda>s. ts_observe s \<and> has_msg_type s ''EVENT'' \<and> kind_in (ts_kinds s) (ev_kind ev)) subs"
| "match_observe subs (ReqMessage sid filters) =
     list_ex (\<lambda>s. ts_observe s \<and> has_msg_type s ''REQ'' \<and> req_hits s filters) subs"
| "match_observe subs (CloseMessage sid) = list_ex (\<lambda>s. ts_observe s \<and> has_msg_type s ''CLOSE'') subs"
| "match_observe subs (AuthMessage ev) = list_ex (\<lambda>s. ts_observe s \<and> has_msg_type s ''AUTH'') subs"
| "match_observe subs _ = False"

definition match_intercept_req :: "traffic_subscription list \<Rightarrow> filter list \<Rightarrow> bool" where
  "match_intercept_req subs filters =
     list_ex (\<lambda>s. ts_intercept_req s \<and> has_msg_type s ''REQ'' \<and> req_hits s filters) subs"

definition match_on_stored_event :: "traffic_subscription list \<Rightarrow> int \<Rightarrow> bool" where
  "match_on_stored_event subs kind = list_ex (\<lambda>s. ts_on_stored_event s \<and> kind_in (ts_kinds s) kind) subs"

section \<open>Conversions\<close>

record sdk_filter =
  sf_ids :: "string list"
  sf_authors :: "string list"
  sf_kinds :: "int list"
  sf_since :: "int option"
  sf_until :: "int option"
  sf_limit :: "int option"
  sf_search :: string
  sf_tags :: "(string, string list) go_map"

record v1_filter =
  v1_ids :: "string list"
  v1_authors :: "string list"
  v1_kinds :: "32 word list"
  v1_since :: "int option"
  v1_until :: "int option"
  v1_limit :: "32 word option"
  v1_search :: string
  v1_tag_filters :: "(string \<times> string list) list"

record v1_event =
  v1e_id :: string
  v1e_pubkey :: string
  v1e_created_at :: int
  v1e_kind :: "32 word"
  v1e_tags :: "string list list"
  v1e_content :: string
  v1e_sig :: string

record v1_subscription =
  v1s_message_types :: "string list"
  v1s_kinds :: "32 word list"
  v1s_req_has_search :: bool
  v1s_req_tag_names :: "string list"
  v1s_intercept_req :: bool
  v1s_observe :: bool
  v1s_on_stored_event :: bool

definition strings_trim_hash :: "string \<Rightarrow> string" where
  "strings_trim_hash k = (if length k = 2 \<and> k ! 0 = CHR ''#'' then drop 1 k else k)"

text \<open>Writing the pairs of a map one by one, under changed keys.\<close>

definition rekey :: "(string \<Rightarrow> string) \<Rightarrow> (string, string list) go_map \<Rightarrow> (string, string list) go_map" where
  "rekey g m = fold (\<lambda>(k, v) acc. AList.update (g k) v acc) m []"

definition nostr_filter_to_sdk :: "filter \<Rightarrow> sdk_filter" where
  "nostr_filter_to_sdk f = \<lparr>sf_ids = f_ids f, sf_authors = f_authors f, sf_kinds = f_kinds f, sf_since = f_since f,
     sf_until = f_until f, sf_limit = f_limit f, sf_search = search_text f,
     sf_tags = rekey strings_trim_hash (f_tag f)\<rparr>"

definition sdk_filter_to_nostr :: "sdk_filter \<Rightarrow> filter" where
  "sdk_filter_to_nostr f = \<lparr>f_cursor = None, f_ids = sf_ids f, f_authors = sf_authors f, f_kinds = sf_kinds f,
     f_since = sf_since f, f_until = sf_until f, f_limit = sf_limit f,
     f_search = (if sf_search f \<noteq> [] then Some (sf_search f) else None),
     f_tag = rekey (\<lambda>k. if length k = 1 then ''#'' @ k else k) (sf_tags f)\<rparr>"

definition nostr_filters_to_sdk :: "filter list \<Rightarrow> sdk_filter list" where
  "nostr_filters_to_sdk fs = map nostr_filter_to_sdk fs"

definition sdk_filters_to_nostr :: "sdk_filter list \<Rightarrow> filter list" where
  "sdk_filters_to_nostr fs = map sdk_filter_to_nostr fs"

definition clone_filters :: "filter list \<Rightarrow> filter list" where
  "clone_filters fs = map (\<lambda>f. sdk_filter_to_nostr (nostr_filter_to_sdk f)) fs"

definition filter_to_v1 :: "sdk_filter \<Rightarrow> v1_filter" where
  "filter_to_v1 f = \<lparr>v1_ids = sf_ids f, v1_authors = sf_authors f, v1_kinds = map word_of_int (sf_kinds f),
     v1_since = sf_since f, v1_until = sf_until f, v1_limit = map_option word_of_int (sf_limit f),
     v1_search = sf_search f, v1_tag_filters = sf_tags f\<rparr>"

definition filters_to_v1 :: "sdk_filter list \<Rightarrow> v1_filter list" where
  "filters_to_v1 fs = map filter_to_v1 fs"

definition filter_from_v1 :: "v1_filter \<Rightarrow> sdk_filter" where
  "filter_from_v1 p = \<lparr>sf_ids = v1_ids p, sf_authors = v1_authors p, sf_kinds = map sint (v1_kinds p),
     sf_since = v1_since p, sf_until = v1_until p, sf_limit = map_option sint (v1_limit p),
     sf_search = v1_search p, sf_tags = rekey id (v1_tag_filters p)\<rparr>"

text \<open>Null elements of a repeated field are skipped.\<close>

definition filters_from_v1 :: "v1_filter option list \<Rightarrow> sdk_filter list" where
  "filters_from_v1 ps = map filter_from_v1 (List.map_filter id ps)"

definition subs_from_v1 :: "v1_subscription option list \<Rightarrow> traffic_subscription list" where
  "subs_from_v1 ps = map (\<lambda>p. \<lparr>ts_message_types = v1s_message_types p, ts_kinds = map sint (v1s_kinds p),
     ts_req_has_search = v1s_req_has_search p, ts_req_tag_names = v1s_req_tag_names p,
     ts_intercept_req = v1s_intercept_req p, ts_observe = v1s_observe p,
     ts_on_stored_event = v1s_on_stored_event p\<rparr>) (List.map_filter id ps)"

definition event_to_v1 :: "event \<Rightarrow> v1_event" where
  "event_to_v1 e = \<lparr>v1e_id = ev_id e, v1e_pubkey = ev_pubkey e, v1e_created_at = ev_created_at e,
     v1e_kind = word_of_int (ev_kind e), v1e_tags = ev_tags e, v1e_content = ev_content e, v1e_sig = ev_sig e\<rparr>"

text \<open>What a plugin answers the host's queries with, and the filters of a request as a plugin that sends
  them back would return them.\<close>

definition host_query_events :: "'st store_ops \<Rightarrow> v1_filter option list \<Rightarrow> 'st \<Rightarrow> v1_event list result" where
  "host_query_events ops ps st =
     (case so_query ops (sdk_filters_to_nostr (filters_from_v1 ps)) st of
        Inl e \<Rightarrow> Inl e
      | Inr evs \<Rightarrow> Inr (map event_to_v1 evs))"

definition host_get_events_by_ids :: "'st store_ops \<Rightarrow> string list \<Rightarrow> 'st \<Rightarrow> v1_event list result" where
  "host_get_events_by_ids ops ids st =
     (case get_events_by_ids ops ids st of Inl e \<Rightarrow> Inl e | Inr evs \<Rightarrow> Inr (map event_to_v1 evs))"

definition echoed :: "filter list \<Rightarrow> filter list" where
  "echoed fs = sdk_filters_to_nostr (filters_from_v1 (map Some (filters_to_v1 (nostr_filters_to_sdk fs))))"

section \<open>What survives the way to a plugin\<close>

lemma rekey_map:
  assumes "distinct (map (g \<circ> fst) m)"
  shows "rekey g m = map (\<lambda>(k, v). (g k, v)) m"
proof -
  have "fold (\<lambda>(k, v) acc. AList.update (g k) v acc) m acc = acc @ map (\<lambda>(k, v). (g k, v)) m"
    if "distinct (map (g \<circ> fst) m)" "set (map (g \<circ> fst) m) \<inter> fst ` set acc = {}"
    for acc :: "(string, string list) go_map"
    using that
  proof (induction m arbitrary: acc)
    case (Cons p m)
    obtain k v where p: "p = (k, v)" by force
    have new: "k' \<notin> fst ` set a \<Longrightarrow> AList.update k' w a = a @ [(k', w)]" for k' w and a :: "(string, string list) go_map"
      by (induction a) auto
    have "AList.update (g k) v acc = acc @ [(g k, v)]" by (rule new) (use Cons.prems(2) p in auto)
    moreover have "set (map (g \<circ> fst) m) \<inter> fst ` set (acc @ [(g k, v)]) = {}" using Cons.prems p by auto
    ultimately show ?case using Cons.IH [of "acc @ [(g k, v)]"] Cons.prems(1) p by simp
  qed simp
  from this [OF assms, of "[]"] show ?thesis by (simp add: rekey_def)
qed

text \<open>The filters a client can send, with a search text that is absent or neither blank nor padded.\<close>

definition client_filter :: "filter \<Rightarrow> bool" where
  "client_filter f \<longleftrightarrow> wire_filter f \<and> (\<forall>s. f_search f = Some s \<longrightarrow> s \<noteq> [] \<and> trim_space s = s)"

definition fits32 :: "int \<Rightarrow> bool" where
  "fits32 i \<longleftrightarrow> - (2 ^ 31) \<le> i \<and> i < 2 ^ 31"

lemma tag_keys_letters:
  assumes "\<forall>k \<in> fst ` set m. is_tag_key k"
  obtains ms where "m = map (\<lambda>(c, v). ([CHR ''#'', c], v)) ms"
proof -
  have "k = [CHR ''#'', k ! 1]" if "is_tag_key k" for k
    using that by (cases k; cases "tl k") (auto simp: is_tag_key_def)
  then have "map (\<lambda>(c, v). ([CHR ''#'', c], v)) (map (\<lambda>(k, v). (k ! 1, v)) m) = m"
    using assms by (induction m) auto
  then show thesis using that by metis
qed

lemma tags_there_and_back:
  assumes "distinct (map fst m)" "\<forall>k \<in> fst ` set m. is_tag_key k"
  shows "rekey (\<lambda>k. if length k = 1 then ''#'' @ k else k) (rekey id (rekey strings_trim_hash m)) = m"
proof -
  obtain ms where m: "m = map (\<lambda>(c, v). ([CHR ''#'', c], v)) ms" by (rule tag_keys_letters [OF assms(2)])
  let ?short = "map (\<lambda>(c, v). ([c], v)) ms"
  have "map fst m = map (\<lambda>c. [CHR ''#'', c]) (map fst ms)" by (simp add: m case_prod_unfold)
  then have d: "distinct (map fst ms)" using assms(1) by (simp only: distinct_map)
  have key: "distinct (map (\<lambda>p. [fst p]) ms)" "distinct (map (\<lambda>p. CHR ''#'' # [fst p]) ms)"
    using d by (simp_all add: distinct_map inj_on_def)
  have "rekey strings_trim_hash m = map (\<lambda>(k, v). (strings_trim_hash k, v)) m"
    by (rule rekey_map) (use key in \<open>simp add: m comp_def case_prod_unfold strings_trim_hash_def\<close>)
  then have a: "rekey strings_trim_hash m = ?short" by (simp add: m comp_def case_prod_unfold strings_trim_hash_def)
  have "rekey id ?short = map (\<lambda>(k, v). (id k, v)) ?short"
    by (rule rekey_map) (use key in \<open>simp add: comp_def case_prod_unfold\<close>)
  then have b: "rekey id ?short = ?short" by (simp add: case_prod_unfold)
  have "rekey (\<lambda>k. if length k = 1 then ''#'' @ k else k) ?short =
      map (\<lambda>(k, v). (if length k = 1 then ''#'' @ k else k, v)) ?short"
    by (rule rekey_map) (use key in \<open>simp add: comp_def case_prod_unfold\<close>)
  then have c: "rekey (\<lambda>k. if length k = 1 then ''#'' @ k else k) ?short = m"
    by (simp add: m comp_def case_prod_unfold)
  show ?thesis unfolding a b by (rule c)
qed

lemma sint_word_of_int32: "sint (word_of_int i :: 32 word) = i \<longleftrightarrow> fits32 i"
proof -
  have "sint (word_of_int i :: 32 word) = signed_take_bit 31 i" by (simp add: sint_sbintrunc')
  then show ?thesis by (auto simp: fits32_def signed_take_bit_int_eq_self_iff)
qed

lemma echoed_one:
  assumes "client_filter f"
  shows "sdk_filter_to_nostr (filter_from_v1 (filter_to_v1 (nostr_filter_to_sdk f))) =
    f\<lparr>f_kinds := map (\<lambda>k. sint (word_of_int k :: 32 word)) (f_kinds f),
      f_limit := map_option (\<lambda>k. sint (word_of_int k :: 32 word)) (f_limit f)\<rparr>"
proof -
  have "rekey (\<lambda>k. if length k = 1 then ''#'' @ k else k) (rekey id (rekey strings_trim_hash (f_tag f))) = f_tag f"
    using tags_there_and_back assms by (simp add: client_filter_def wire_filter_def)
  moreover have "f_search f = (if search_text f \<noteq> [] then Some (search_text f) else None)" "f_cursor f = None"
    using assms by (cases "f_search f"; simp add: client_filter_def wire_filter_def search_text_def ptr_str_def)+
  ultimately show ?thesis
    by (intro filter.equality)
      (simp_all add: sdk_filter_to_nostr_def filter_from_v1_def filter_to_v1_def nostr_filter_to_sdk_def
        comp_def option.map_comp)
qed

section \<open>Properties\<close>

text \<open>C34: A plugin that sends the filters of a request back gives the relay the very same filters exactly when
  every kind and limit in them fits into 32 bits; a larger number reaches the plugin as another one.\<close>

theorem filters_survive_plugin:
  assumes "\<forall>f \<in> set fs. client_filter f"
  shows "echoed fs = fs \<longleftrightarrow> (\<forall>f \<in> set fs. \<forall>i \<in> set (f_kinds f) \<union> set_option (f_limit f). fits32 i)"
proof -
  let ?g = "\<lambda>k. sint (word_of_int k :: 32 word)"
  have "echoed fs = map (\<lambda>f. f\<lparr>f_kinds := map ?g (f_kinds f), f_limit := map_option ?g (f_limit f)\<rparr>) fs"
    using echoed_one assms
    by (simp add: echoed_def sdk_filters_to_nostr_def filters_from_v1_def filters_to_v1_def nostr_filters_to_sdk_def
        map_filter_def comp_def)
  moreover have one: "f\<lparr>f_kinds := map ?g (f_kinds f), f_limit := map_option ?g (f_limit f)\<rparr> = f \<longleftrightarrow>
      (\<forall>i \<in> set (f_kinds f) \<union> set_option (f_limit f). fits32 i)" for f
  proof -
    have "map ?g ks = ks \<longleftrightarrow> (\<forall>k \<in> set ks. fits32 k)" for ks
      by (induction ks) (simp_all add: sint_word_of_int32)
    moreover have "map_option ?g l = l \<longleftrightarrow> (\<forall>k \<in> set_option l. fits32 k)" for l
      by (cases l) (simp_all add: sint_word_of_int32)
    ultimately show ?thesis by (cases f) (simp add: ball_Un)
  qed
  moreover have "map h xs = xs \<longleftrightarrow> (\<forall>x \<in> set xs. h x = x)" for h and xs :: "filter list"
    by (induction xs) auto
  ultimately show ?thesis by (simp only: one)
qed

theorem filters_survive_plugin_witness:
  "echoed [empty_filter\<lparr>f_kinds := [30402], f_tag := [(''#g'', [''u0''])]\<rparr>] =
     [empty_filter\<lparr>f_kinds := [30402], f_tag := [(''#g'', [''u0''])]\<rparr>] \<and>
   echoed [empty_filter\<lparr>f_kinds := [4294967297]\<rparr>] \<noteq> [empty_filter\<lparr>f_kinds := [4294967297]\<rparr>]"
proof -
  let ?f = "empty_filter\<lparr>f_kinds := [30402], f_tag := [(''#g'', [''u0''])]\<rparr>" and ?g = "empty_filter\<lparr>f_kinds := [4294967297]\<rparr>"
  have "client_filter ?f" "client_filter ?g"
    by (simp_all add: client_filter_def wire_filter_def empty_filter_def int64_range_def is_tag_key_def is_letter_def byte_def)
  then have "echoed [?f] = [?f] \<longleftrightarrow> (\<forall>f \<in> set [?f]. \<forall>i \<in> set (f_kinds f) \<union> set_option (f_limit f). fits32 i)"
    "echoed [?g] = [?g] \<longleftrightarrow> (\<forall>f \<in> set [?g]. \<forall>i \<in> set (f_kinds f) \<union> set_option (f_limit f). fits32 i)"
    by (intro filters_survive_plugin; simp)+
  then show ?thesis by (simp add: empty_filter_def fits32_def)
qed

end
