(* ===== verification/Plugin_Host.thy ===== *)
theory Plugin_Host
  imports Plugin_Match
begin

text \<open>
  The host side of plugins: \<open>manager.go\<close>, \<open>instance.go\<close> and \<open>intercept_log.go\<close> in \<open>internal/plugin\<close>.

  A plugin is a process reached by gRPC. What it answers is a parameter (\<open>rpc\<close>, with the time the
  call took); whether its process could be started and what it said in the handshake are arguments of
  the steps. An instance is modelled with its listen queue, its state and the loop that starts and
  watches the process; the manager with its configuration items, its registered instances, its
  counters and the intercept log. Packages on disk, hooks, sockets and logging are left out.
\<close>

section \<open>The intercept log\<close>

definition intercept_log_queue_size :: nat where "intercept_log_queue_size = 256"

record intercept_log_entry =
  il_unix_milli :: int
  il_duration_ms :: int
  il_sub_id :: string
  il_filters :: "filter list"
  il_action :: string
  il_event_ids :: "string list"
  il_reshape_filters :: "filter list"
  il_subscription_filters :: "filter list"
  il_error :: string

record intercept_log =
  lg_started :: bool
  lg_queue :: "(string \<times> intercept_log_entry) list"
  lg_logs :: "(string, intercept_log_entry list) go_map"
  lg_dropped :: int
  lg_limit_n :: int

fun intercept_action_name :: "intercept_action \<Rightarrow> string" where
  "intercept_action_name InterceptReshapeREQ = ''reshape_req''"
| "intercept_action_name InterceptRespond = ''respond''"
| "intercept_action_name InterceptPassthrough = ''passthrough''"

definition clamp_log_limit :: "int \<Rightarrow> int" where
  "clamp_log_limit n =
     (if n < 0 then 0 else if n > max_plugin_intercept_log_size then max_plugin_intercept_log_size else n)"

definition intercept_log_limit :: "intercept_log \<Rightarrow> int" where
  "intercept_log_limit lg = clamp_log_limit (lg_limit_n lg)"

definition log_rows :: "string \<Rightarrow> intercept_log \<Rightarrow> intercept_log_entry list" where
  "log_rows i lg = (case map_of (lg_logs lg) i of None \<Rightarrow> [] | Some rows \<Rightarrow> rows)"

definition enqueue_intercept_log :: "int \<Rightarrow> string \<Rightarrow> string \<Rightarrow> filter list \<Rightarrow> intercept_result \<Rightarrow> int \<Rightarrow> string \<Rightarrow>
    intercept_log \<Rightarrow> intercept_log" where
  "enqueue_intercept_log now i sid filters res d fail lg =
     (if i = [] then lg
      else if intercept_log_limit lg \<le> 0 then lg
      else let entry = \<lparr>il_unix_milli = now, il_duration_ms = d, il_sub_id = sid, il_filters = clone_filters filters,
             il_action = intercept_action_name (ir_action res), il_event_ids = ir_event_ids res,
             il_reshape_filters = (if ir_action res = InterceptReshapeREQ then clone_filters (ir_filters res) else []),
             il_subscription_filters = clone_filters (ir_subscription_filters res), il_error = fail\<rparr>
           in if \<not> lg_started lg then lg
              else if length (lg_queue lg) < intercept_log_queue_size then lg\<lparr>lg_queue := lg_queue lg @ [(i, entry)]\<rparr>
              else lg\<lparr>lg_dropped := lg_dropped lg + 1\<rparr>)"

definition newest_rows :: "int \<Rightarrow> 'a list \<Rightarrow> 'a list" where
  "newest_rows limit buf = (if int (length buf) > limit then drop (length buf - nat limit) buf else buf)"

definition append_intercept_log :: "string \<Rightarrow> intercept_log_entry \<Rightarrow> intercept_log \<Rightarrow> intercept_log" where
  "append_intercept_log i entry lg =
     (let limit = intercept_log_limit lg in
      if limit \<le> 0 then lg\<lparr>lg_logs := AList.delete i (lg_logs lg)\<rparr>
      else lg\<lparr>lg_logs := AList.update i (newest_rows limit (log_rows i lg @ [entry])) (lg_logs lg)\<rparr>)"

text \<open>One turn of \<open>runInterceptLogWorker\<close>.\<close>

definition intercept_log_worker :: "intercept_log \<Rightarrow> intercept_log" where
  "intercept_log_worker lg =
     (case lg_queue lg of
        [] \<Rightarrow> lg
      | (i, entry) # rest \<Rightarrow> append_intercept_log i entry (lg\<lparr>lg_queue := rest\<rparr>))"

definition intercept_log_snapshot :: "string \<Rightarrow> intercept_log \<Rightarrow> int \<times> int \<times> intercept_log_entry list" where
  "intercept_log_snapshot i lg = (intercept_log_limit lg, lg_dropped lg, rev (log_rows i lg))"

definition trim_intercept_logs :: "int \<Rightarrow> intercept_log \<Rightarrow> intercept_log" where
  "trim_intercept_logs limit lg =
     (if limit \<le> 0 then lg\<lparr>lg_logs := []\<rparr>
      else lg\<lparr>lg_logs := map (\<lambda>(i, buf). (i, newest_rows limit buf)) (lg_logs lg)\<rparr>)"

definition set_intercept_log_limit :: "int \<Rightarrow> intercept_log \<Rightarrow> intercept_log" where
  "set_intercept_log_limit n lg =
     (let n = clamp_log_limit n in trim_intercept_logs n (lg\<lparr>lg_limit_n := n\<rparr>))"

section \<open>Instances\<close>

datatype plugin_state = StateStarting | StateReady | StateDegraded | StateStopped

definition listen_queue_size :: nat where "listen_queue_size = 256"

datatype listen_job =
    ObserveJob string "event option" string "filter list"
  | StoredJob event bool

record plugin_instance =
  in_id :: string
  in_item :: plugin_item
  in_name :: string
  in_version :: string
  in_state :: plugin_state
  in_last_err :: string
  in_subs :: "traffic_subscription list"
  in_caps :: "string list"
  in_deadline :: int
  in_client :: bool
  in_queue :: "listen_job list"
  in_stopped :: bool
  in_listen_enqueued :: int
  in_listen_dropped :: int
  in_intercept_n :: int
  in_passthrough_n :: int

definition is_ready :: "plugin_instance \<Rightarrow> bool" where
  "is_ready i \<longleftrightarrow> in_state i = StateReady \<and> in_client i"

fun observe_job :: "client_msg \<Rightarrow> listen_job option" where
  "observe_job (EventMessage ev) = Some (ObserveJob ''EVENT'' (Some ev) [] [])"
| "observe_job (ReqMessage sid filters) = Some (ObserveJob ''REQ'' None sid (clone_filters filters))"
| "observe_job (CloseMessage sid) = Some (ObserveJob ''CLOSE'' None sid [])"
| "observe_job (AuthMessage ev) = Some (ObserveJob ''AUTH'' (Some ev) [] [])"
| "observe_job _ = None"

fun state_name :: "plugin_state \<Rightarrow> string" where
  "state_name StateReady = ''ready''"
| "state_name StateDegraded = ''degraded''"
| "state_name StateStopped = ''stopped''"
| "state_name StateStarting = ''starting''"

record instance_snapshot =
  sn_id :: string
  sn_name :: string
  sn_version :: string
  sn_enabled :: bool
  sn_state :: string
  sn_ready :: bool
  sn_last_error :: string
  sn_capabilities :: "string list"
  sn_source_url :: string
  sn_sha256 :: string

definition snapshot_instance :: "plugin_instance \<Rightarrow> instance_snapshot" where
  "snapshot_instance i = \<lparr>sn_id = in_id i, sn_name = in_name i, sn_version = in_version i,
     sn_enabled = pi_enabled (in_item i), sn_state = state_name (in_state i), sn_ready = (in_state i = StateReady),
     sn_last_error = in_last_err i, sn_capabilities = in_caps i, sn_source_url = pi_source_url (in_item i),
     sn_sha256 = pi_sha256 (in_item i)\<rparr>"

section \<open>The manager\<close>

record plugin_manager =
  pm_items :: "plugin_item list"
  pm_inst :: "(string, plugin_instance) go_map"
  pm_listen_enqueued :: int
  pm_listen_dropped :: int
  pm_intercept_n :: int
  pm_intercept_ms :: int
  pm_not_ready :: int
  pm_timeout :: int
  pm_error :: int
  pm_log :: intercept_log

definition update_instance :: "string \<Rightarrow> (plugin_instance \<Rightarrow> plugin_instance) \<Rightarrow> plugin_manager \<Rightarrow> plugin_manager" where
  "update_instance i g m =
     (case map_of (pm_inst m) i of
        None \<Rightarrow> m
      | Some x \<Rightarrow> m\<lparr>pm_inst := AList.update i (g x) (pm_inst m)\<rparr>)"

definition enqueue_listen :: "listen_job \<Rightarrow> string \<Rightarrow> plugin_manager \<Rightarrow> plugin_manager" where
  "enqueue_listen job i m =
     (case map_of (pm_inst m) i of None \<Rightarrow> m | Some x \<Rightarrow>
      let x = x\<lparr>in_listen_enqueued := in_listen_enqueued x + 1\<rparr> in
      if length (in_queue x) < listen_queue_size
      then m\<lparr>pm_inst := AList.update i (x\<lparr>in_queue := in_queue x @ [job]\<rparr>) (pm_inst m),
             pm_listen_enqueued := pm_listen_enqueued m + 1\<rparr>
      else m\<lparr>pm_inst := AList.update i (x\<lparr>in_listen_dropped := in_listen_dropped x + 1\<rparr>) (pm_inst m),
             pm_listen_dropped := pm_listen_dropped m + 1\<rparr>)"

definition observe_msg :: "client_msg \<Rightarrow> plugin_manager \<Rightarrow> plugin_manager" where
  "observe_msg msg m =
     fold (\<lambda>(i, x) m. if pi_enabled (in_item x) \<and> match_observe (in_subs x) msg
       then (case observe_job msg of None \<Rightarrow> m | Some job \<Rightarrow> enqueue_listen job i m) else m) (pm_inst m) m"

definition enqueue_stored_event :: "event \<Rightarrow> bool \<Rightarrow> plugin_manager \<Rightarrow> plugin_manager" where
  "enqueue_stored_event ev stored m =
     fold (\<lambda>(i, x) m. if pi_enabled (in_item x) \<and> match_on_stored_event (in_subs x) (ev_kind ev)
       then enqueue_listen (StoredJob ev stored) i m else m) (pm_inst m) m"

text \<open>What the listen worker of an instance calls for a job, with the time limit in seconds, and one turn of it.\<close>

record observe_request =
  oq_type :: string
  oq_sub_id :: string
  oq_event :: "v1_event option"
  oq_filters :: "v1_filter list"

datatype listen_call = CallObserve int observe_request | CallOnStored int v1_event bool

fun dispatch_listen :: "plugin_instance \<Rightarrow> listen_job \<Rightarrow> listen_call option" where
  "dispatch_listen x (ObserveJob t ev sid filters) =
     (if \<not> is_ready x then None
      else Some (CallObserve 5 \<lparr>oq_type = t, oq_sub_id = sid, oq_event = map_option event_to_v1 ev,
        oq_filters = filters_to_v1 (nostr_filters_to_sdk filters)\<rparr>))"
| "dispatch_listen x (StoredJob ev stored) =
     (if \<not> is_ready x then None else Some (CallOnStored 30 (event_to_v1 ev) stored))"

definition run_listen_worker :: "plugin_instance \<Rightarrow> listen_call option \<times> plugin_instance" where
  "run_listen_worker x =
     (case in_queue x of
        [] \<Rightarrow> (None, x)
      | job # rest \<Rightarrow> (dispatch_listen x job, x\<lparr>in_queue := rest\<rparr>))"

definition snapshot_plugins :: "plugin_manager \<Rightarrow> instance_snapshot list" where
  "snapshot_plugins m = map (\<lambda>item.
     case map_of (pm_inst m) (pi_id item) of
       Some x \<Rightarrow> snapshot_instance x
     | None \<Rightarrow> \<lparr>sn_id = pi_id item, sn_name = [], sn_version = pi_version item, sn_enabled = pi_enabled item,
         sn_state = ''stopped'', sn_ready = False, sn_last_error = [], sn_capabilities = [],
         sn_source_url = pi_source_url item, sn_sha256 = pi_sha256 item\<rparr>) (pm_items m)"

section \<open>Intercepting a REQ\<close>

record v1_intercept =
  vi_action :: int
  vi_reshape_filters :: "v1_filter option list"
  vi_event_ids :: "string list"
  vi_subscription_filters :: "v1_filter option list"

text \<open>The result of a call and its milliseconds: an answer (gRPC gives no null answer without an error), or an
  error and whether the deadline had passed.\<close>

datatype rpc_result = RpcAnswer int v1_intercept | RpcError int bool string

type_synonym plugin_rpc = "string \<Rightarrow> int \<Rightarrow> string \<Rightarrow> v1_filter list \<Rightarrow> rpc_result"

definition passthrough :: intercept_result where
  "passthrough = \<lparr>ir_action = InterceptPassthrough, ir_filters = [], ir_event_ids = [], ir_subscription_filters = []\<rparr>"

definition read_answer :: "v1_intercept \<Rightarrow> intercept_result" where
  "read_answer r =
     (if vi_action r = 1
      then passthrough\<lparr>ir_action := InterceptReshapeREQ,
             ir_filters := sdk_filters_to_nostr (filters_from_v1 (vi_reshape_filters r))\<rparr>
      else if vi_action r = 2
      then passthrough\<lparr>ir_action := InterceptRespond, ir_event_ids := vi_event_ids r,
             ir_subscription_filters := sdk_filters_to_nostr (filters_from_v1 (vi_subscription_filters r))\<rparr>
      else passthrough)"

definition call_deadline :: "plugin_instance \<Rightarrow> int" where
  "call_deadline x = (if in_deadline x \<le> 0 then 80 * 10 ^ 6 else in_deadline x)"

definition count_passthrough :: "string \<Rightarrow> plugin_manager \<Rightarrow> plugin_manager" where
  "count_passthrough i = update_instance i (\<lambda>x. x\<lparr>in_passthrough_n := in_passthrough_n x + 1\<rparr>)"

definition do_intercept :: "plugin_rpc \<Rightarrow> string \<Rightarrow> plugin_instance \<Rightarrow> string \<Rightarrow> filter list \<Rightarrow> plugin_manager \<Rightarrow>
    (intercept_result \<times> string) \<times> plugin_manager" where
  "do_intercept rpc i x sid filters m =
     (if \<not> is_ready x
      then ((passthrough, ''not_ready''), (count_passthrough i m)\<lparr>pm_not_ready := pm_not_ready m + 1\<rparr>)
      else let m = update_instance i (\<lambda>x. x\<lparr>in_intercept_n := in_intercept_n x + 1\<rparr>) m;
               call = rpc i (call_deadline x) sid (filters_to_v1 (nostr_filters_to_sdk filters));
               d = (case call of RpcAnswer d _ \<Rightarrow> d | RpcError d _ _ \<Rightarrow> d);
               m = m\<lparr>pm_intercept_n := pm_intercept_n m + 1, pm_intercept_ms := pm_intercept_ms m + d\<rparr>
           in case call of
                RpcError _ True _ \<Rightarrow>
                  ((passthrough, ''timeout''), (count_passthrough i m)\<lparr>pm_timeout := pm_timeout m + 1\<rparr>)
              | RpcError _ False e \<Rightarrow>
                  ((passthrough, take 200 (''rpc: '' @ e)), (count_passthrough i m)\<lparr>pm_error := pm_error m + 1\<rparr>)
              | RpcAnswer _ r \<Rightarrow>
                  (if vi_action r = 1 \<or> vi_action r = 2 then ((read_answer r, []), m)
                   else ((passthrough, []), count_passthrough i m)))"

definition intercept_one :: "plugin_rpc \<Rightarrow> int \<times> int \<Rightarrow> string \<Rightarrow> plugin_instance \<Rightarrow> string \<Rightarrow> filter list \<Rightarrow> plugin_manager \<Rightarrow>
    intercept_result \<times> plugin_manager" where
  "intercept_one rpc clk i x sid filters m =
     (let ((res, fail), m) = do_intercept rpc i x sid filters m
      in (res, m\<lparr>pm_log := enqueue_intercept_log (fst clk) i sid filters res (snd clk) fail (pm_log m)\<rparr>))"

fun intercept_loop :: "plugin_rpc \<Rightarrow> int \<times> int \<Rightarrow> (string \<times> plugin_instance) list \<Rightarrow> string \<Rightarrow> filter list \<Rightarrow>
    plugin_manager \<Rightarrow> intercept_result \<times> plugin_manager" where
  "intercept_loop rpc clk [] sid filters m = (passthrough, m)"
| "intercept_loop rpc clk ((i, x) # order) sid filters m =
     (if \<not> pi_enabled (in_item x) \<or> \<not> match_intercept_req (in_subs x) filters
      then intercept_loop rpc clk order sid filters m
      else let (res, m) = intercept_one rpc clk i x sid filters m in
        if ir_action res \<noteq> InterceptPassthrough then (res, m)
        else intercept_loop rpc clk order sid filters m)"

definition intercept_order :: "plugin_manager \<Rightarrow> (string \<times> plugin_instance) list" where
  "intercept_order m =
     List.map_filter (\<lambda>item. map_option (\<lambda>x. (pi_id item, x)) (map_of (pm_inst m) (pi_id item))) (pm_items m)"

definition intercept_req :: "plugin_rpc \<Rightarrow> int \<times> int \<Rightarrow> string \<Rightarrow> filter list \<Rightarrow> plugin_manager \<Rightarrow>
    intercept_result \<times> plugin_manager" where
  "intercept_req rpc clk sid filters m = intercept_loop rpc clk (intercept_order m) sid filters m"

text \<open>The relay with these plugins.\<close>

definition with_plugins :: "plugin_rpc \<Rightarrow> int \<times> int \<Rightarrow> plugin_manager \<Rightarrow> 'st relay_env \<Rightarrow> 'st relay_env" where
  "with_plugins rpc clk m env = env\<lparr>re_intercept := Some (\<lambda>sid filters. fst (intercept_req rpc clk sid filters m))\<rparr>"

section \<open>Configuration and registration\<close>

definition effective_plugin_intercept_timeout :: "plugins_section \<Rightarrow> int" where
  "effective_plugin_intercept_timeout p =
     (if intercept_timeout_ms p > 0 then intercept_timeout_ms p else 250) * 10 ^ 6"

definition plugin_item_by_id :: "string \<Rightarrow> plugin_item list \<Rightarrow> plugin_item option" where
  "plugin_item_by_id i items = find (\<lambda>it. pi_id it = i) items"

fun update_item :: "string \<Rightarrow> (plugin_item \<Rightarrow> plugin_item) \<Rightarrow> plugin_item list \<Rightarrow> plugin_item list" where
  "update_item i g [] = []"
| "update_item i g (it # its) = (if pi_id it = i then g it # its else it # update_item i g its)"

record plugin_manifest =
  mf_id :: string
  mf_name :: string
  mf_version :: string

text \<open>\<open>startLocked\<close>; the manifest is what \<open>loadManifest\<close> read from the package.\<close>

definition start_plugin :: "plugin_item \<Rightarrow> plugin_manifest result \<Rightarrow> plugin_manager \<Rightarrow> string option \<times> plugin_manager" where
  "start_plugin item man m =
     (case man of
        Inl e \<Rightarrow> (Some e, m)
      | Inr man \<Rightarrow> (None, m\<lparr>pm_inst := AList.update (pi_id item)
          \<lparr>in_id = pi_id item, in_item = item, in_name = mf_name man, in_version = mf_version man,
           in_state = StateStarting, in_last_err = [], in_subs = [], in_caps = [], in_deadline = 0, in_client = False,
           in_queue = [], in_stopped = False, in_listen_enqueued = 0, in_listen_dropped = 0, in_intercept_n = 0,
           in_passthrough_n = 0\<rparr> (pm_inst m)\<rparr>))"

definition start_manager :: "(string \<Rightarrow> plugin_manifest result) \<Rightarrow> plugin_manager \<Rightarrow> plugin_manager" where
  "start_manager mans m =
     fold (\<lambda>item m. if \<not> pi_enabled item then m else snd (start_plugin item (mans (pi_id item)) m)) (pm_items m)
       (m\<lparr>pm_log := (pm_log m)\<lparr>lg_started := True\<rparr>\<rparr>)"

definition enable_plugin :: "string \<Rightarrow> plugin_manifest result \<Rightarrow> plugin_manager \<Rightarrow> string option \<times> plugin_manager" where
  "enable_plugin i man m =
     (let (item, items) = (case plugin_item_by_id i (pm_items m) of
        None \<Rightarrow> (let it = \<lparr>pi_id = i, pi_enabled = True, pi_source_url = [], pi_sha256 = [], pi_version = [],
                 pi_settings = []\<rparr> in (it, pm_items m @ [it]))
      | Some it \<Rightarrow> (it\<lparr>pi_enabled := True\<rparr>, update_item i (\<lambda>it. it\<lparr>pi_enabled := True\<rparr>) (pm_items m)));
          m = m\<lparr>pm_items := items\<rparr>
      in if map_of (pm_inst m) i \<noteq> None then (None, m) else start_plugin item man m)"

definition disable_plugin :: "string \<Rightarrow> plugin_manager \<Rightarrow> plugin_manager" where
  "disable_plugin i m = m\<lparr>pm_items := update_item i (\<lambda>it. it\<lparr>pi_enabled := False\<rparr>) (pm_items m),
     pm_inst := AList.delete i (pm_inst m)\<rparr>"

definition upsert_config_item :: "plugin_manifest \<Rightarrow> string \<Rightarrow> string \<Rightarrow> bool \<Rightarrow> plugin_manager \<Rightarrow> plugin_manager" where
  "upsert_config_item man source sha enabled m =
     (let it = \<lparr>pi_id = mf_id man, pi_enabled = enabled, pi_source_url = source, pi_sha256 = sha,
            pi_version = mf_version man, pi_settings = []\<rparr>
      in m\<lparr>pm_items := (case plugin_item_by_id (mf_id man) (pm_items m) of
           Some old \<Rightarrow> update_item (mf_id man) (\<lambda>_. it\<lparr>pi_settings := pi_settings old\<rparr>) (pm_items m)
         | None \<Rightarrow> pm_items m @ [it])\<rparr>)"

text \<open>\<open>Stop\<close>: every instance is stopped and forgotten, and the intercept log takes no more entries.\<close>

definition stop_manager :: "plugin_manager \<Rightarrow> plugin_manager" where
  "stop_manager m = m\<lparr>pm_inst := [], pm_log := (pm_log m)\<lparr>lg_started := False, lg_queue := []\<rparr>\<rparr>"

record plugin_metrics =
  pt_listen_enqueued :: int
  pt_listen_dropped :: int
  pt_intercept_n :: int
  pt_not_ready :: int
  pt_timeout :: int
  pt_error :: int

definition metrics_snapshot :: "plugin_manager \<Rightarrow> plugin_metrics" where
  "metrics_snapshot m = \<lparr>pt_listen_enqueued = pm_listen_enqueued m, pt_listen_dropped = pm_listen_dropped m,
     pt_intercept_n = pm_intercept_n m, pt_not_ready = pm_not_ready m, pt_timeout = pm_timeout m, pt_error = pm_error m\<rparr>"

text \<open>An action of the administrator; \<open>call\<close> is the plugin's reply.\<close>

definition admin_action :: "string \<Rightarrow> string result \<Rightarrow> plugin_manager \<Rightarrow> string result" where
  "admin_action i call m =
     (case map_of (pm_inst m) i of
        None \<Rightarrow> Inl (''plugin '' @ i @ '' not ready'')
      | Some x \<Rightarrow> if \<not> is_ready x then Inl (''plugin '' @ i @ '' not ready'') else call)"

definition status_json :: "string \<Rightarrow> (string \<times> bool) result \<Rightarrow> plugin_manager \<Rightarrow> (string \<times> bool) result" where
  "status_json i call m =
     (case map_of (pm_inst m) i of
        None \<Rightarrow> Inr (''{}'', False)
      | Some x \<Rightarrow> if \<not> is_ready x then Inr (''{}'', False) else call)"

text \<open>Installing a package that was unpacked; \<open>existed\<close> says whether its directory was there before.\<close>

definition install_plugin :: "plugin_manifest \<Rightarrow> string \<Rightarrow> string \<Rightarrow> bool \<Rightarrow> bool \<Rightarrow> plugin_manager \<Rightarrow> string option \<times> plugin_manager" where
  "install_plugin man source sha existed enable m =
     (let m = (if existed then disable_plugin (mf_id man) m else m);
          m = upsert_config_item man source sha enable m
      in if enable then enable_plugin (mf_id man) (Inr man) m else (None, m))"

definition drop_config_item :: "string \<Rightarrow> plugin_manager \<Rightarrow> plugin_manager" where
  "drop_config_item i m = m\<lparr>pm_items := List.filter (\<lambda>it. pi_id it \<noteq> i) (pm_items m)\<rparr>"

text \<open>\<open>failure\<close> is the error of removing the package, if it cannot be removed.\<close>

definition uninstall_plugin :: "string \<Rightarrow> string option \<Rightarrow> plugin_manager \<Rightarrow> string option \<times> plugin_manager" where
  "uninstall_plugin i failure m =
     (let m = disable_plugin i m in
      case failure of Some e \<Rightarrow> (Some e, m) | None \<Rightarrow> (None, drop_config_item i m))"

text \<open>The answer of a ready plugin to new settings is an error or its subscriptions from now on.\<close>

definition apply_settings :: "string \<Rightarrow> string \<Rightarrow> v1_subscription option list result \<Rightarrow> plugin_manager \<Rightarrow>
    string option \<times> plugin_manager" where
  "apply_settings i settings answer m =
     (let called = (case map_of (pm_inst m) i of None \<Rightarrow> False | Some x \<Rightarrow> is_ready x);
          commit = (\<lambda>subs. update_instance i (\<lambda>x. (x\<lparr>in_item := (in_item x)\<lparr>pi_settings := settings\<rparr>\<rparr>)
              \<lparr>in_subs := (case subs of None \<Rightarrow> in_subs x | Some s \<Rightarrow> s)\<rparr>)
            (m\<lparr>pm_items := update_item i (\<lambda>it. it\<lparr>pi_settings := settings\<rparr>) (pm_items m)\<rparr>))
      in if called then (case answer of Inl e \<Rightarrow> (Some e, m) | Inr ps \<Rightarrow> (None, commit (Some (subs_from_v1 ps))))
         else (None, commit None))"

section \<open>The life of an instance\<close>

text \<open>Where the loop of an instance is, whether a process of it runs, and its backoff in milliseconds. The
  process can be ended from outside only once the handshake has registered it: \<open>in_client\<close> stands for
  the registered client, connection and process, which are set and cleared together.\<close>

datatype loop_pc = LoopTop | Spawning | Waiting | Backoff | LoopDone

record plugin_proc =
  pp_inst :: plugin_instance
  pp_pc :: loop_pc
  pp_running :: bool
  pp_backoff :: int

record v1_handshake =
  vh_api_version :: int
  vh_name :: string
  vh_version :: string
  vh_capabilities :: "string list"
  vh_subscriptions :: "v1_subscription option list"
  vh_intercept_deadline_ms :: int

definition intercept_deadline :: "int \<Rightarrow> int \<Rightarrow> int" where
  "intercept_deadline ceiling hint_ms =
     (let hint = hint_ms * 10 ^ 6 in if hint > 0 \<and> hint < ceiling then hint else ceiling)"

definition finish_handshake :: "int \<Rightarrow> v1_handshake \<Rightarrow> plugin_instance \<Rightarrow> plugin_instance result" where
  "finish_handshake ceiling hs x =
     (if vh_api_version hs \<noteq> 1 then Inl (''api_version '' @ show_int (vh_api_version hs) @ '' rejected'')
      else Inr (x\<lparr>in_client := True, in_subs := subs_from_v1 (vh_subscriptions hs), in_caps := vh_capabilities hs,
        in_name := vh_name hs, in_version := vh_version hs,
        in_deadline := intercept_deadline ceiling (vh_intercept_deadline_ms hs),
        in_state := StateReady, in_last_err := []\<rparr>))"

definition set_degraded :: "string \<Rightarrow> plugin_instance \<Rightarrow> plugin_instance" where
  "set_degraded msg x = x\<lparr>in_state := StateDegraded, in_last_err := msg\<rparr>"

definition begin_spawn :: "plugin_proc \<Rightarrow> plugin_proc" where
  "begin_spawn p = p\<lparr>pp_inst := (pp_inst p)\<lparr>in_state := StateStarting\<rparr>, pp_running := True, pp_pc := Spawning\<rparr>"

definition teardown_proc :: "plugin_proc \<Rightarrow> plugin_proc" where
  "teardown_proc p = (let x = pp_inst p in
     p\<lparr>pp_inst := (x\<lparr>in_state := (if in_state x = StateReady then StateDegraded else in_state x)\<rparr>)\<lparr>in_client := False\<rparr>,
       pp_running := (if in_client x then False else pp_running p)\<rparr>)"

definition stop_instance :: "plugin_proc \<Rightarrow> plugin_proc" where
  "stop_instance p = teardown_proc (p\<lparr>pp_inst := (pp_inst p)\<lparr>in_stopped := True, in_state := StateStopped\<rparr>\<rparr>)"

definition after_death :: "plugin_proc \<Rightarrow> plugin_proc" where
  "after_death p = (let p = teardown_proc p in
     if in_stopped (pp_inst p) then p\<lparr>pp_pc := LoopDone\<rparr>
     else p\<lparr>pp_inst := set_degraded ''socket closed'' (pp_inst p), pp_pc := LoopTop\<rparr>)"

text \<open>The steps of the instance's own loop; \<open>stop_instance\<close> runs on another goroutine, at any time.\<close>

inductive loop_step :: "int \<Rightarrow> plugin_proc \<Rightarrow> plugin_proc \<Rightarrow> bool" for ceiling where
  leave: "pp_pc p = LoopTop \<Longrightarrow> in_stopped (pp_inst p) \<Longrightarrow> loop_step ceiling p (p\<lparr>pp_pc := LoopDone\<rparr>)"
| spawn: "pp_pc p = LoopTop \<Longrightarrow> \<not> in_stopped (pp_inst p) \<Longrightarrow> loop_step ceiling p (begin_spawn p)"
| spawn_failed: "pp_pc p = Spawning \<Longrightarrow>
    loop_step ceiling p (p\<lparr>pp_inst := set_degraded msg (pp_inst p), pp_running := False, pp_pc := Backoff\<rparr>)"
| handshake: "pp_pc p = Spawning \<Longrightarrow> finish_handshake ceiling hs (pp_inst p) = Inr x \<Longrightarrow>
    loop_step ceiling p (p\<lparr>pp_inst := x, pp_pc := Waiting, pp_backoff := 200\<rparr>)"
| retry: "pp_pc p = Backoff \<Longrightarrow>
    loop_step ceiling p (p\<lparr>pp_pc := LoopTop, pp_backoff := (if pp_backoff p < 5000 then pp_backoff p * 2 else pp_backoff p)\<rparr>)"
| died: "pp_pc p = Waiting \<Longrightarrow> loop_step ceiling p (after_death p)"

inductive_cases waiting_steps: "loop_step ceiling p q"

section \<open>The log keeps the newest rows\<close>

datatype log_op = LogAppend string intercept_log_entry | LogLimit int

fun run_log :: "log_op list \<Rightarrow> intercept_log \<Rightarrow> intercept_log" where
  "run_log [] lg = lg"
| "run_log (LogAppend i e # ops) lg = run_log ops (append_intercept_log i e lg)"
| "run_log (LogLimit n # ops) lg = run_log ops (set_intercept_log_limit n lg)"

fun appended :: "string \<Rightarrow> log_op list \<Rightarrow> intercept_log_entry list" where
  "appended i [] = []"
| "appended i (LogAppend j e # ops) = (if j = i then e # appended i ops else appended i ops)"
| "appended i (LogLimit n # ops) = appended i ops"

definition is_tail :: "'a list \<Rightarrow> 'a list \<Rightarrow> bool" where
  "is_tail xs ys \<longleftrightarrow> (\<exists>zs. ys = zs @ xs)"

lemma newest_rows_drop: "newest_rows limit xs = drop (length xs - nat limit) xs"
  by (auto simp: newest_rows_def)

lemma is_tail_drop: "is_tail xs ys \<Longrightarrow> is_tail (drop n xs) ys"
proof -
  assume "is_tail xs ys"
  then obtain zs where "ys = zs @ xs" by (auto simp: is_tail_def)
  then have "ys = (zs @ take n xs) @ drop n xs" by simp
  then show ?thesis unfolding is_tail_def by blast
qed

lemma is_tail_newest: "is_tail xs ys \<Longrightarrow> is_tail (newest_rows limit xs) ys"
  by (simp add: newest_rows_drop is_tail_drop)

lemma is_tail_nil [simp]: "is_tail [] xs"
  by (simp add: is_tail_def)

lemma is_tail_snoc: "is_tail xs ys \<Longrightarrow> is_tail (xs @ [e]) (ys @ [e])"
  by (auto simp: is_tail_def)

lemma length_newest_rows: "0 \<le> limit \<Longrightarrow> int (length (newest_rows limit xs)) \<le> limit"
  by (simp add: newest_rows_def)

lemma clamp_limit [simp]: "0 \<le> clamp_log_limit n" "clamp_log_limit (clamp_log_limit n) = clamp_log_limit n"
  by (simp_all add: clamp_log_limit_def max_plugin_intercept_log_size_def)

lemma limit_nonneg [simp]: "0 \<le> intercept_log_limit lg"
  by (simp add: intercept_log_limit_def)

lemma limit_append [simp]: "intercept_log_limit (append_intercept_log i e lg) = intercept_log_limit lg"
  by (simp add: append_intercept_log_def intercept_log_limit_def Let_def)

lemma limit_set [simp]: "intercept_log_limit (set_intercept_log_limit n lg) = clamp_log_limit n"
  by (simp add: set_intercept_log_limit_def trim_intercept_logs_def intercept_log_limit_def Let_def)

lemma rows_append: "log_rows j (append_intercept_log i e lg) =
    (if j \<noteq> i then log_rows j lg
     else if intercept_log_limit lg \<le> 0 then [] else newest_rows (intercept_log_limit lg) (log_rows i lg @ [e]))"
  by (simp add: append_intercept_log_def log_rows_def AList.delete_conv' update_conv' Let_def)

lemma map_of_map_snd: "map_of (map (\<lambda>(i, buf). (i, h buf)) m) j = map_option h (map_of m j)"
  by (induction m) auto

lemma rows_limit: "log_rows j (set_intercept_log_limit n lg) =
    (if clamp_log_limit n \<le> 0 then [] else newest_rows (clamp_log_limit n) (log_rows j lg))"
  by (simp add: set_intercept_log_limit_def trim_intercept_logs_def log_rows_def map_of_map_snd newest_rows_def Let_def
      split: option.split)

definition log_ok :: "(string \<Rightarrow> intercept_log_entry list) \<Rightarrow> intercept_log \<Rightarrow> bool" where
  "log_ok hist lg \<longleftrightarrow> (\<forall>i. is_tail (log_rows i lg) (hist i) \<and> int (length (log_rows i lg)) \<le> intercept_log_limit lg)"

lemma log_ok_append:
  assumes "log_ok hist lg"
  shows "log_ok (hist(i := hist i @ [e])) (append_intercept_log i e lg)"
proof -
  have "is_tail (newest_rows n (log_rows i lg @ [e])) (hist i @ [e])" for n
    using assms by (simp add: log_ok_def is_tail_newest is_tail_snoc)
  then show ?thesis using assms by (simp add: log_ok_def rows_append length_newest_rows)
qed

lemma log_ok_limit:
  assumes "log_ok hist lg"
  shows "log_ok hist (set_intercept_log_limit n lg)"
  using assms by (simp add: log_ok_def rows_limit length_newest_rows is_tail_newest)

lemma log_ok_run: "log_ok hist lg \<Longrightarrow> log_ok (\<lambda>i. hist i @ appended i ops) (run_log ops lg)"
proof (induction ops arbitrary: hist lg)
  case (Cons a ops)
  show ?case
  proof (cases a)
    case (LogAppend i e)
    have eq: "(\<lambda>j. (hist(i := hist i @ [e])) j @ appended j ops) = (\<lambda>j. hist j @ appended j (a # ops))"
      by (auto simp: LogAppend fun_eq_iff)
    show ?thesis using Cons.IH [OF log_ok_append [OF Cons.prems], of i e] unfolding eq by (simp add: LogAppend)
  next
    case (LogLimit n)
    then show ?thesis using Cons.IH [OF log_ok_limit [OF Cons.prems]] by simp
  qed
qed simp

lemma newest_rows_twice: "newest_rows l (newest_rows l h @ [e]) = newest_rows l (h @ [e])"
proof -
  consider "length h \<le> nat l" | "nat l < length h" by linarith
  then show ?thesis
  proof cases
    case 2
    then have "length h - (length h - nat l) = nat l" by simp
    moreover have "Suc (length h) - nat l = Suc (length h - nat l)" using 2 by simp
    ultimately show ?thesis using 2
      by (cases "nat l = 0") (simp_all add: newest_rows_drop Suc_diff_Suc drop_append)
  qed (simp add: newest_rows_drop)
qed

lemma log_exact:
  assumes "\<forall>n. LogLimit n \<notin> set ops" "0 < intercept_log_limit lg"
    and "log_rows i lg = newest_rows (intercept_log_limit lg) h"
  shows "log_rows i (run_log ops lg) = newest_rows (intercept_log_limit lg) (h @ appended i ops)"
  using assms
proof (induction ops arbitrary: lg h)
  case (Cons a ops)
  then obtain j e where a: "a = LogAppend j e" by (cases a) auto
  let ?lg = "append_intercept_log j e lg"
  have "log_rows i ?lg = newest_rows (intercept_log_limit ?lg) (h @ (if j = i then [e] else []))"
  proof (cases "j = i")
    case True
    then show ?thesis
      using Cons.prems(2) newest_rows_twice [of _ h e] by (simp add: rows_append Cons.prems(3))
  qed (use Cons.prems in \<open>simp add: rows_append\<close>)
  from Cons.IH [OF _ _ this] Cons.prems(1,2) show ?case by (simp add: a)
qed simp


text \<open>The intercept log the administrator reads is a window on what a plugin was asked and answered:
  whatever was appended for whatever plugins and however often the size was changed in between, the rows
  kept for a plugin are the last ones appended for it, in their order, and never more than the current
  size. As long as the size is not changed they are exactly the newest ones, as many as the size allows,
  and what one plugin does never costs another one rows. The snapshot shows them newest first. Appends and
  changes of the size follow one another here; the code reads the size before it takes the lock, so one
  that overlaps a change may still use the size before it.
\<close>

theorem intercept_log_window:
  assumes "lg_logs lg = []"
  shows "is_tail (log_rows i (run_log ops lg)) (appended i ops) \<and>
    int (length (log_rows i (run_log ops lg))) \<le> intercept_log_limit (run_log ops lg) \<and>
    ((\<forall>n. LogLimit n \<notin> set ops) \<and> 0 < intercept_log_limit lg \<longrightarrow>
      snd (snd (intercept_log_snapshot i (run_log ops lg))) =
        rev (newest_rows (intercept_log_limit lg) (appended i ops)))"
proof -
  have empty: "log_rows j lg = []" for j using assms by (simp add: log_rows_def)
  have "log_ok (\<lambda>_. []) lg" by (simp add: log_ok_def empty)
  from log_ok_run [OF this, of ops]
  have "is_tail (log_rows i (run_log ops lg)) (appended i ops) \<and>
    int (length (log_rows i (run_log ops lg))) \<le> intercept_log_limit (run_log ops lg)" by (simp add: log_ok_def)
  moreover have "log_rows i lg = newest_rows (intercept_log_limit lg) []" by (simp add: empty newest_rows_def)
  ultimately show ?thesis using log_exact [of ops lg i "[]"] by (simp add: intercept_log_snapshot_def)
qed

definition demo_log :: intercept_log where
  "demo_log = \<lparr>lg_started = True, lg_queue = [], lg_logs = [], lg_dropped = 0, lg_limit_n = 2\<rparr>"

definition demo_log_entry :: "int \<Rightarrow> intercept_log_entry" where
  "demo_log_entry t = \<lparr>il_unix_milli = t, il_duration_ms = 0, il_sub_id = ''s'', il_filters = [], il_action = ''respond'',
     il_event_ids = [], il_reshape_filters = [], il_subscription_filters = [], il_error = []\<rparr>"

theorem intercept_log_window_witness:
  "snd (snd (intercept_log_snapshot ''p'' (run_log [LogAppend ''p'' (demo_log_entry 1), LogAppend ''q'' (demo_log_entry 2),
      LogAppend ''p'' (demo_log_entry 3), LogAppend ''p'' (demo_log_entry 4)] demo_log)))
    = [demo_log_entry 4, demo_log_entry 3]"
proof -
  let ?ops = "[LogAppend ''p'' (demo_log_entry 1), LogAppend ''q'' (demo_log_entry 2),
      LogAppend ''p'' (demo_log_entry 3), LogAppend ''p'' (demo_log_entry 4)]"
  have lim: "intercept_log_limit demo_log = 2"
    by (simp add: intercept_log_limit_def demo_log_def clamp_log_limit_def max_plugin_intercept_log_size_def)
  have "lg_logs demo_log = []" by (simp add: demo_log_def)
  from intercept_log_window [OF this, of "''p''" ?ops] show ?thesis by (simp add: lim newest_rows_def)
qed

section \<open>Which plugin answers\<close>

definition plugin_verdict :: "plugin_rpc \<Rightarrow> string \<Rightarrow> filter list \<Rightarrow> string \<times> plugin_instance \<Rightarrow> intercept_result" where
  "plugin_verdict rpc sid filters = (\<lambda>(i, x).
     if pi_enabled (in_item x) \<and> match_intercept_req (in_subs x) filters \<and> is_ready x
     then (case rpc i (call_deadline x) sid (filters_to_v1 (nostr_filters_to_sdk filters)) of
             RpcAnswer d r \<Rightarrow> read_answer r | RpcError d timed_out e \<Rightarrow> passthrough)
     else passthrough)"

definition first_verdict :: "intercept_result list \<Rightarrow> intercept_result" where
  "first_verdict rs = (case find (\<lambda>r. ir_action r \<noteq> InterceptPassthrough) rs of None \<Rightarrow> passthrough | Some r \<Rightarrow> r)"

text \<open>What intercepting never changes: the configuration, and every instance up to its two counters.\<close>

definition plugin_core :: "plugin_manager \<Rightarrow> plugin_item list \<times> (string \<rightharpoonup> plugin_instance)" where
  "plugin_core m = (pm_items m,
     \<lambda>i. map_option (\<lambda>x. x\<lparr>in_intercept_n := 0, in_passthrough_n := 0\<rparr>) (map_of (pm_inst m) i))"

lemma read_answer_action: "vi_action r = 1 \<or> vi_action r = 2 \<longleftrightarrow> ir_action (read_answer r) \<noteq> InterceptPassthrough"
  by (simp add: read_answer_def passthrough_def)

lemma read_answer_passthrough: "ir_action (read_answer r) = InterceptPassthrough \<Longrightarrow> read_answer r = passthrough"
  by (simp add: read_answer_def passthrough_def split: if_splits)

lemma verdict_passthrough: "ir_action (plugin_verdict rpc sid filters ix) = InterceptPassthrough \<Longrightarrow>
    plugin_verdict rpc sid filters ix = passthrough"
  by (auto simp: plugin_verdict_def read_answer_passthrough split: prod.splits if_splits rpc_result.splits)

lemma intercept_one_verdict:
  assumes "pi_enabled (in_item x)" "match_intercept_req (in_subs x) filters"
  shows "fst (intercept_one rpc clk i x sid filters m) = plugin_verdict rpc sid filters (i, x)"
  using assms
  by (auto intro: read_answer_passthrough [symmetric] simp: intercept_one_def do_intercept_def plugin_verdict_def read_answer_action Let_def
      split: rpc_result.splits bool.splits)

lemma update_instance_core:
  assumes "\<And>x. (g x)\<lparr>in_intercept_n := 0, in_passthrough_n := 0\<rparr> = x\<lparr>in_intercept_n := 0, in_passthrough_n := 0\<rparr>"
  shows "plugin_core (update_instance i g m) = plugin_core m"
  by (auto simp: update_instance_def plugin_core_def update_conv' fun_eq_iff assms split: option.splits)

lemma plugin_core_cong: "pm_items m = pm_items m' \<Longrightarrow> pm_inst m = pm_inst m' \<Longrightarrow> plugin_core m = plugin_core m'"
  by (simp add: plugin_core_def)

lemma plugin_core_counters [simp]:
  "plugin_core (m\<lparr>pm_not_ready := a\<rparr>) = plugin_core m" "plugin_core (m\<lparr>pm_timeout := a\<rparr>) = plugin_core m"
  "plugin_core (m\<lparr>pm_error := a\<rparr>) = plugin_core m" "plugin_core (m\<lparr>pm_log := l\<rparr>) = plugin_core m"
  "plugin_core (m\<lparr>pm_intercept_n := a\<rparr>) = plugin_core m" "plugin_core (m\<lparr>pm_intercept_ms := b\<rparr>) = plugin_core m"
  by (simp_all add: plugin_core_def)

lemma intercept_one_core: "plugin_core (snd (intercept_one rpc clk i x sid filters m)) = plugin_core m"
proof -
  have pass: "plugin_core (count_passthrough i m) = plugin_core m" for m
    unfolding count_passthrough_def by (rule update_instance_core) simp
  have asked: "plugin_core (update_instance i (\<lambda>x. x\<lparr>in_intercept_n := in_intercept_n x + 1\<rparr>) m) = plugin_core m" for m
    by (rule update_instance_core) simp
  show ?thesis
    by (simp add: intercept_one_def do_intercept_def Let_def pass asked split: rpc_result.split bool.split prod.split)
qed

lemma intercept_loop_verdict:
  "fst (intercept_loop rpc clk order sid filters m) = first_verdict (map (plugin_verdict rpc sid filters) order)"
proof (induction order arbitrary: m)
  case (Cons ix order)
  obtain i x where ix: "ix = (i, x)" by (cases ix)
  show ?case
  proof (cases "pi_enabled (in_item x) \<and> match_intercept_req (in_subs x) filters")
    case True
    obtain res m' where one: "intercept_one rpc clk i x sid filters m = (res, m')" by (cases "intercept_one rpc clk i x sid filters m")
    have "res = plugin_verdict rpc sid filters (i, x)" using True intercept_one_verdict [of x filters rpc clk i sid m] one by simp
    then show ?thesis using True Cons by (simp add: ix one first_verdict_def)
  next
    case False
    then have "plugin_verdict rpc sid filters (i, x) = passthrough" by (auto simp: plugin_verdict_def)
    then show ?thesis using False Cons by (auto simp: ix first_verdict_def passthrough_def)
  qed
qed (simp add: first_verdict_def)

lemma intercept_loop_core: "plugin_core (snd (intercept_loop rpc clk order sid filters m)) = plugin_core m"
proof (induction order arbitrary: m)
  case (Cons ix order)
  obtain i x where ix: "ix = (i, x)" by (cases ix)
  obtain res m' where one: "intercept_one rpc clk i x sid filters m = (res, m')" by (cases "intercept_one rpc clk i x sid filters m")
  have "plugin_core m' = plugin_core m" using intercept_one_core [of rpc clk i x sid filters m] one by simp
  then show ?case using Cons by (simp add: ix one)
qed simp

lemma intercept_loop_stops:
  assumes "ir_action (plugin_verdict rpc sid filters (i, x)) \<noteq> InterceptPassthrough"
  shows "intercept_loop rpc clk (pre @ (i, x) # post) sid filters m = intercept_loop rpc clk (pre @ [(i, x)]) sid filters m"
proof (induction pre arbitrary: m)
  case Nil
  have on: "pi_enabled (in_item x)" "match_intercept_req (in_subs x) filters"
    using assms by (auto simp: plugin_verdict_def passthrough_def split: if_splits)
  obtain res m' where one: "intercept_one rpc clk i x sid filters m = (res, m')" by (cases "intercept_one rpc clk i x sid filters m")
  have "res = plugin_verdict rpc sid filters (i, x)" using on intercept_one_verdict [of x filters rpc clk i sid m] one by simp
  then show ?case using assms on by (simp add: one)
next
  case (Cons jy pre)
  then show ?case by (cases jy) (simp split: prod.split)
qed

lemma passthrough_req:
  assumes "ir_action (fst (intercept_req rpc clk sid filters m)) = InterceptPassthrough"
  shows "handle_req (with_plugins rpc clk m env) fuel fresh now search cid sid filters s =
    handle_req (env\<lparr>re_intercept := None\<rparr>) fuel fresh now search cid sid filters s"
proof -
  let ?e = "with_plugins rpc clk m env" and ?n = "env\<lparr>re_intercept := None\<rparr>"
  have proj: "re_cfg ?e = re_cfg ?n" "re_ops ?e = re_ops ?n" "re_relay_id ?e = re_relay_id ?n"
    by (simp_all add: with_plugins_def)
  have "sees ?e = sees ?n"
    by (intro ext) (simp only: event_visible_to_subscription_def event_visible_def proj)
  then have query: "handle_req_query ?e fuel now search cid sid filters s = handle_req_query ?n fuel now search cid sid filters s"
    by (simp only: handle_req_query_def proj)
  have "challenge_client ?e fresh cid = challenge_client ?n fresh cid"
    by (intro ext) (simp only: challenge_client_def proj)
  then have gate: "req_gate ?e fresh first cid sid filters s = req_gate ?n fresh first cid sid filters s" for first
    by (simp only: req_gate_def proj)
  have "re_intercept ?e = Some (\<lambda>sid filters. fst (intercept_req rpc clk sid filters m))" by (simp add: with_plugins_def)
  then show ?thesis using assms by (simp add: handle_req_def query gate split: option.split)
qed


text \<open>C32: The first plugin with an answer of its own decides a REQ, in the order of the configuration: the
  result is the first verdict that is not to pass it on, where a plugin that is disabled, whose
  subscriptions do not match the filters, that is not ready, whose call fails or times out, or that
  answers with an unknown action, passes. Plugins after the deciding one are not asked. Asking changes
  neither the configuration nor, apart from its two counters, any instance. And when every plugin passes,
  the relay handles the REQ, with all its gates and effects, as it does without plugins.
\<close>

theorem first_plugin_answer_wins:
  "fst (intercept_req rpc clk sid filters m) = first_verdict (map (plugin_verdict rpc sid filters) (intercept_order m)) \<and>
   plugin_core (snd (intercept_req rpc clk sid filters m)) = plugin_core m \<and>
   (intercept_order m = pre @ (i, x) # post \<and> ir_action (plugin_verdict rpc sid filters (i, x)) \<noteq> InterceptPassthrough \<longrightarrow>
     intercept_req rpc clk sid filters m = intercept_loop rpc clk (pre @ [(i, x)]) sid filters m) \<and>
   (ir_action (first_verdict (map (plugin_verdict rpc sid filters) (intercept_order m))) = InterceptPassthrough \<longrightarrow>
     handle_req (with_plugins rpc clk m env) fuel fresh now search cid sid filters s =
     handle_req (env\<lparr>re_intercept := None\<rparr>) fuel fresh now search cid sid filters s)"
proof -
  have verdict: "fst (intercept_req rpc clk sid filters m) =
      first_verdict (map (plugin_verdict rpc sid filters) (intercept_order m))"
    by (simp add: intercept_req_def intercept_loop_verdict)
  moreover have "plugin_core (snd (intercept_req rpc clk sid filters m)) = plugin_core m"
    by (simp add: intercept_req_def intercept_loop_core)
  moreover have "intercept_req rpc clk sid filters m = intercept_loop rpc clk (pre @ [(i, x)]) sid filters m"
    if "intercept_order m = pre @ (i, x) # post \<and> ir_action (plugin_verdict rpc sid filters (i, x)) \<noteq> InterceptPassthrough"
    unfolding intercept_req_def conjunct1 [OF that] by (rule intercept_loop_stops [OF conjunct2 [OF that]])
  moreover note passthrough_req [of rpc clk sid filters m env fuel fresh now search cid s, unfolded verdict]
  ultimately show ?thesis by (intro conjI impI)
qed

definition demo_plugin :: "string \<Rightarrow> bool \<Rightarrow> plugin_instance" where
  "demo_plugin i ready = \<lparr>in_id = i, in_item = \<lparr>pi_id = i, pi_enabled = True, pi_source_url = [], pi_sha256 = [],
     pi_version = [], pi_settings = []\<rparr>, in_name = i, in_version = [],
     in_state = (if ready then StateReady else StateStarting), in_last_err = [],
     in_subs = [\<lparr>ts_message_types = [''REQ''], ts_kinds = [1], ts_req_has_search = False, ts_req_tag_names = [],
       ts_intercept_req = True, ts_observe = False, ts_on_stored_event = False\<rparr>],
     in_caps = [], in_deadline = 0, in_client = ready, in_queue = [], in_stopped = False, in_listen_enqueued = 0,
     in_listen_dropped = 0, in_intercept_n = 0, in_passthrough_n = 0\<rparr>"

definition demo_manager :: plugin_manager where
  "demo_manager = \<lparr>pm_items = map (\<lambda>i. in_item (demo_plugin i True)) [''a'', ''b'', ''c''],
     pm_inst = [(''c'', demo_plugin ''c'' True), (''a'', demo_plugin ''a'' False), (''b'', demo_plugin ''b'' True)],
     pm_listen_enqueued = 0, pm_listen_dropped = 0, pm_intercept_n = 0, pm_intercept_ms = 0, pm_not_ready = 0,
     pm_timeout = 0, pm_error = 0, pm_log = demo_log\<rparr>"

definition demo_rpc :: plugin_rpc where
  "demo_rpc i d sid fs = RpcAnswer 3 \<lparr>vi_action = 2, vi_reshape_filters = [], vi_event_ids = [i], vi_subscription_filters = []\<rparr>"


definition demo_filters :: "filter list" where
  "demo_filters = [empty_filter\<lparr>f_kinds := [1]\<rparr>]"

theorem first_plugin_answer_wins_witness:
  "ir_event_ids (fst (intercept_req demo_rpc (0, 0) ''s'' demo_filters demo_manager)) = [''b''] \<and>
   intercept_req demo_rpc (0, 0) ''s'' demo_filters demo_manager =
     intercept_loop demo_rpc (0, 0) [(''a'', demo_plugin ''a'' False), (''b'', demo_plugin ''b'' True)] ''s'' demo_filters demo_manager \<and>
   handle_req (with_plugins (\<lambda>_ _ _ _. RpcError 80 True []) (0, 0) demo_manager demo_env) 5 ''x'' 0 False ''c1'' ''s'' demo_filters demo_server =
     handle_req (demo_env\<lparr>re_intercept := None\<rparr>) 5 ''x'' 0 False ''c1'' ''s'' demo_filters demo_server"
proof -
  let ?v = "\<lambda>rpc. first_verdict (map (plugin_verdict rpc ''s'' demo_filters) (intercept_order demo_manager))"
  have order: "intercept_order demo_manager = [(''a'', demo_plugin ''a'' False)] @ (''b'', demo_plugin ''b'' True) # [(''c'', demo_plugin ''c'' True)]"
    by code_simp
  have b: "ir_action (plugin_verdict demo_rpc ''s'' demo_filters (''b'', demo_plugin ''b'' True)) \<noteq> InterceptPassthrough" by code_simp
  have ids: "ir_event_ids (?v demo_rpc) = [''b'']" by code_simp
  have silent: "ir_action (?v (\<lambda>_ _ _ _. RpcError 80 True [])) = InterceptPassthrough" by code_simp
  note claim = first_plugin_answer_wins [where filters = demo_filters and m = demo_manager and sid = "''s''" and clk = "(0, 0)"]
  note asked = claim [where rpc = demo_rpc and pre = "[(''a'', demo_plugin ''a'' False)]" and i = "''b''"
    and x = "demo_plugin ''b'' True" and post = "[(''c'', demo_plugin ''c'' True)]"]
  note unasked = claim [where rpc = "\<lambda>_ _ _ _. RpcError 80 True []" and env = demo_env and fuel = 5
    and fresh = "''x''" and now = 0 and search = False and cid = "''c1''" and s = demo_server]
  have "ir_event_ids (fst (intercept_req demo_rpc (0, 0) ''s'' demo_filters demo_manager)) = [''b'']"
    unfolding conjunct1 [OF asked] by (rule ids)
  moreover note mp [OF conjunct1 [OF conjunct2 [OF conjunct2 [OF asked]]] conjI [OF order b], unfolded append_Cons append_Nil]
  moreover note mp [OF conjunct2 [OF conjunct2 [OF conjunct2 [OF unasked]]] silent]
  ultimately show ?thesis by (intro conjI)
qed

section \<open>The life of a process\<close>

inductive lives :: "int \<Rightarrow> plugin_proc \<Rightarrow> bool" for ceiling where
  born: "pp_pc p = LoopTop \<Longrightarrow> \<not> pp_running p \<Longrightarrow> pp_backoff p = 200 \<Longrightarrow> in_state (pp_inst p) = StateStarting \<Longrightarrow>
    \<not> in_client (pp_inst p) \<Longrightarrow> lives ceiling p"
| runs: "lives ceiling p \<Longrightarrow> loop_step ceiling p q \<Longrightarrow> lives ceiling q"
| stops: "lives ceiling p \<Longrightarrow> lives ceiling (stop_instance p)"

definition proc_ok :: "plugin_proc \<Rightarrow> bool" where
  "proc_ok p \<longleftrightarrow> (in_state (pp_inst p) = StateReady \<longleftrightarrow> in_client (pp_inst p)) \<and>
     (in_client (pp_inst p) \<longrightarrow> pp_running p \<and> pp_pc p = Waiting) \<and>
     (pp_pc p = Spawning \<longrightarrow> pp_running p) \<and>
     (pp_running p \<longrightarrow> pp_pc p = Spawning \<or> pp_pc p = Waiting \<and> in_client (pp_inst p)) \<and>
     pp_backoff p \<in> {200, 400, 800, 1600, 3200, 6400} \<and>
     (pp_pc p = Waiting \<longrightarrow> pp_backoff p = 200)"

lemma finish_handshake_ok: "finish_handshake ceiling hs x = Inr y \<Longrightarrow> in_state y = StateReady \<and> in_client y"
  by (auto simp: finish_handshake_def split: if_splits)

lemma teardown_simps [simp]:
  "in_client (pp_inst (teardown_proc p)) = False" "pp_pc (teardown_proc p) = pp_pc p"
  "in_stopped (pp_inst (teardown_proc p)) = in_stopped (pp_inst p)" "pp_backoff (teardown_proc p) = pp_backoff p"
  "pp_running (teardown_proc p) = (\<not> in_client (pp_inst p) \<and> pp_running p)"
  "in_state (pp_inst (teardown_proc p)) = (if in_state (pp_inst p) = StateReady then StateDegraded else in_state (pp_inst p))"
  by (simp_all add: teardown_proc_def Let_def)

lemma stop_simps [simp]:
  "in_client (pp_inst (stop_instance p)) = False" "pp_pc (stop_instance p) = pp_pc p"
  "in_stopped (pp_inst (stop_instance p))" "pp_backoff (stop_instance p) = pp_backoff p"
  "pp_running (stop_instance p) = (\<not> in_client (pp_inst p) \<and> pp_running p)"
  "in_state (pp_inst (stop_instance p)) = StateStopped"
  by (simp_all add: stop_instance_def)

lemma death_simps [simp]:
  "in_client (pp_inst (after_death p)) = False" "pp_backoff (after_death p) = pp_backoff p"
  "pp_pc (after_death p) = (if in_stopped (pp_inst p) then LoopDone else LoopTop)"
  "pp_running (after_death p) = (\<not> in_client (pp_inst p) \<and> pp_running p)"
  "in_state (pp_inst (after_death p)) \<noteq> StateReady"
  by (simp_all add: after_death_def set_degraded_def Let_def)

lemma stop_ok: "proc_ok p \<Longrightarrow> proc_ok (stop_instance p)"
  unfolding proc_ok_def by (auto simp del: insert_iff)

lemma death_ok: "proc_ok p \<Longrightarrow> pp_pc p = Waiting \<Longrightarrow> proc_ok (after_death p)"
  unfolding proc_ok_def by (auto simp del: insert_iff)

lemma loop_ok:
  assumes "loop_step ceiling p q" "proc_ok p"
  shows "proc_ok q"
  using assms
proof cases
  case (handshake hs x)
  from finish_handshake_ok [OF this(3)] show ?thesis using handshake assms(2) by (simp add: proc_ok_def)
next
  case died
  then show ?thesis using assms(2) death_ok by simp
next
  case retry
  then show ?thesis using assms(2) by (auto simp: proc_ok_def)
qed (use assms(2) in \<open>simp_all add: proc_ok_def begin_spawn_def set_degraded_def\<close>)

lemma lives_ok: "lives ceiling p \<Longrightarrow> proc_ok p"
proof (induction rule: lives.induct)
  case (runs p q)
  then show ?case using loop_ok by blast
next
  case (stops p)
  then show ?case by (rule_tac stop_ok)
qed (simp add: proc_ok_def)


text \<open>Through every spawn, handshake, death, retry and stop: an instance is ready exactly while the loop
  waits on a running process whose client is registered; a process exists only while the loop is starting
  it or waiting for it, so a loop that has ended, or that sleeps before a retry, leaves none behind; and
  the pause before the next start is between 200 and 6400 milliseconds, 200 again after a success. Stopping
  a plugin while its loop waits ends the process and the only thing the loop can still do is to end.
\<close>

theorem plugin_process_lifecycle:
  assumes "lives ceiling p"
  shows "(in_state (pp_inst p) = StateReady \<longleftrightarrow> pp_pc p = Waiting \<and> pp_running p) \<and>
    (in_state (pp_inst p) = StateReady \<longleftrightarrow> is_ready (pp_inst p)) \<and>
    (pp_running p \<longrightarrow> pp_pc p = Spawning \<or> pp_pc p = Waiting) \<and>
    200 \<le> pp_backoff p \<and> pp_backoff p \<le> 6400 \<and> (pp_pc p = Waiting \<longrightarrow> pp_backoff p = 200) \<and>
    (pp_pc p = Waiting \<longrightarrow> \<not> pp_running (stop_instance p) \<and>
      (\<forall>r. loop_step ceiling (stop_instance p) r \<longrightarrow> pp_pc r = LoopDone \<and> \<not> pp_running r))"
proof -
  note ok = lives_ok [OF assms]
  have stop: "pp_pc r = LoopDone \<and> \<not> pp_running r" if "pp_pc p = Waiting" "loop_step ceiling (stop_instance p) r" for r
    using that(2)
  proof cases
    case died
    then show ?thesis using ok that(1) by (auto simp: proc_ok_def)
  qed (use that(1) in simp_all)
  have "\<not> pp_running (stop_instance p)" if "pp_pc p = Waiting" using ok that by (auto simp: proc_ok_def)
  moreover have "200 \<le> pp_backoff p \<and> pp_backoff p \<le> 6400" using ok by (auto simp: proc_ok_def)
  ultimately show ?thesis using ok stop by (auto simp: proc_ok_def is_ready_def)
qed

definition demo_handshake :: v1_handshake where
  "demo_handshake = \<lparr>vh_api_version = 1, vh_name = ''demo'', vh_version = ''1'', vh_capabilities = [],
     vh_subscriptions = [], vh_intercept_deadline_ms = 40\<rparr>"

definition demo_proc :: plugin_proc where
  "demo_proc = \<lparr>pp_inst = demo_plugin ''a'' False, pp_pc = LoopTop, pp_running = False, pp_backoff = 200\<rparr>"

lemma demo_spawning: "lives ceiling (begin_spawn demo_proc)"
proof -
  have "lives ceiling demo_proc" by (rule lives.born) (simp_all add: demo_proc_def demo_plugin_def)
  moreover have "loop_step ceiling demo_proc (begin_spawn demo_proc)"
    by (rule loop_step.spawn) (simp_all add: demo_proc_def demo_plugin_def)
  ultimately show ?thesis by (rule lives.runs)
qed

theorem plugin_process_lifecycle_witness:
  "200 \<le> pp_backoff (begin_spawn demo_proc) \<and> pp_running (begin_spawn demo_proc)"
  using plugin_process_lifecycle [OF demo_spawning] by (simp add: begin_spawn_def)

text \<open>C33: A plugin that is disabled while it starts is not stopped. Stopping ends only a process whose client
  is registered, and nothing looks at the stop again before the handshake does register it: the instance
  becomes ready and its process runs on, and its loop does nothing more until that process dies by itself.
  The manager has forgotten the instance, so neither disabling the plugin again nor uninstalling it can
  reach the process.
\<close>

theorem stopped_plugin_keeps_running:
  fixes hs :: v1_handshake
  assumes "lives ceiling p" "pp_pc p = Spawning" "vh_api_version hs = 1"
  shows "map_of (pm_inst (disable_plugin i m)) i = None \<and>
    (\<exists>q. loop_step ceiling (stop_instance p) q \<and> lives ceiling q \<and> in_stopped (pp_inst q) \<and> pp_running q \<and>
      is_ready (pp_inst q) \<and> (\<forall>r. loop_step ceiling q r \<longrightarrow> r = after_death q))"
proof -
  obtain x where x: "finish_handshake ceiling hs (pp_inst (stop_instance p)) = Inr x" "in_stopped x"
    using assms(3) by (simp add: finish_handshake_def)
  let ?q = "(stop_instance p)\<lparr>pp_inst := x, pp_pc := Waiting, pp_backoff := 200\<rparr>"
  have step: "loop_step ceiling (stop_instance p) ?q" using assms(2) x(1) by (simp add: loop_step.handshake)
  moreover have live: "lives ceiling ?q" using assms(1) step by (blast intro: lives.intros)
  moreover have "r = after_death ?q" if "loop_step ceiling ?q r" for r
    using that by (cases rule: waiting_steps) simp_all
  moreover have "is_ready x" using finish_handshake_ok [OF x(1)] by (simp add: is_ready_def)
  moreover have "pp_running ?q" using lives_ok [OF live] finish_handshake_ok [OF x(1)] by (simp add: proc_ok_def)
  ultimately show ?thesis using x(2) by (auto simp: disable_plugin_def AList.delete_conv')
qed

theorem stopped_plugin_keeps_running_witness:
  "map_of (pm_inst (disable_plugin ''a'' demo_manager)) ''a'' = None \<and>
   (\<exists>q. loop_step 80 (stop_instance (begin_spawn demo_proc)) q \<and> in_stopped (pp_inst q) \<and> pp_running q)"
proof -
  have "pp_pc (begin_spawn demo_proc) = Spawning" by (simp add: begin_spawn_def)
  moreover have "vh_api_version demo_handshake = 1" by (simp add: demo_handshake_def)
  ultimately show ?thesis using stopped_plugin_keeps_running [OF demo_spawning] by blast
qed

end
