(* ===== verification/Legacy_Giftwrap.thy ===== *)
theory Legacy_Giftwrap
  imports Nostr_Event
begin

text \<open>
  The earlier relay in the root package, on a vendored khatru: its protection of gift wraps,
  \<open>giftwrap.go\<close>, and the options it shares with \<open>scope2.go\<close>.

  The hooks of khatru are the functions it calls: whether an event, a REQ or a COUNT is rejected, what a
  stored query yields and whether a broadcast to a listener is prevented. A hook that was set before is an
  argument. The types of \<open>fiatjaf.com/nostr\<close> are not in the repository: keys and ids are their canonical
  hexadecimal text, and parsing and matching are the fields of \<open>legacy_lib\<close>.
\<close>

section \<open>Filters and the library\<close>

record legacy_filter =
  lf_ids :: "string list"
  lf_kinds :: "int list"
  lf_authors :: "string list"
  lf_tags :: "(string, string list) go_map"
  lf_since :: int
  lf_until :: int
  lf_limit :: int
  lf_limit_zero :: bool
  lf_search :: string

text \<open>The canonical text of a key or an id given as hexadecimal text, if it is one, and \<open>Filter.Matches\<close>.\<close>

record legacy_lib =
  ll_pubkey :: "string \<Rightarrow> string option"
  ll_id :: "string \<Rightarrow> string option"
  ll_matches :: "legacy_filter \<Rightarrow> event \<Rightarrow> bool"

type_synonym hook_verdict = "string option"

section \<open>Modes\<close>

text \<open>A mode is a \<open>uint8\<close>: the three named ones, or any other value.\<close>

datatype gift_wrap_mode =
    GiftWrapProtectionEnforce
  | GiftWrapProtectionDisabled
  | GiftWrapProtectionChallengeOnly
  | GiftWrapProtectionOther nat

definition parse_gift_wrap_protection_mode :: "string \<Rightarrow> gift_wrap_mode \<times> bool" where
  "parse_gift_wrap_protection_mode raw =
     (let t = to_lower (trim_space raw) in
      if t = [] then (GiftWrapProtectionEnforce, True)
      else if t = ''disabled'' then (GiftWrapProtectionDisabled, True)
      else if t = ''challenge-only'' then (GiftWrapProtectionChallengeOnly, True)
      else if t = ''enforce'' then (GiftWrapProtectionEnforce, True)
      else (GiftWrapProtectionEnforce, False))"

fun gift_wrap_mode_string :: "gift_wrap_mode \<Rightarrow> string" where
  "gift_wrap_mode_string GiftWrapProtectionDisabled = ''disabled''"
| "gift_wrap_mode_string GiftWrapProtectionChallengeOnly = ''challenge-only''"
| "gift_wrap_mode_string GiftWrapProtectionEnforce = ''enforce''"
| "gift_wrap_mode_string (GiftWrapProtectionOther n) = ''invalid''"

fun default_gift_wrap_mode :: "gift_wrap_mode \<Rightarrow> gift_wrap_mode" where
  "default_gift_wrap_mode (GiftWrapProtectionOther n) = GiftWrapProtectionEnforce"
| "default_gift_wrap_mode mode = mode"

section \<open>Who is authenticated\<close>

record gift_wrap_identity =
  gi_pubkey :: string
  gi_authenticated :: bool

type_synonym gift_wrap_registry = "(nat, gift_wrap_identity) go_map"

definition registry_connect :: "nat \<Rightarrow> gift_wrap_registry \<Rightarrow> gift_wrap_registry" where
  "registry_connect ws reg = AList.update ws \<lparr>gi_pubkey = [], gi_authenticated = False\<rparr> reg"

definition registry_record :: "nat \<Rightarrow> string \<Rightarrow> gift_wrap_registry \<Rightarrow> gift_wrap_registry" where
  "registry_record ws pk reg =
     (if map_of reg ws = None then reg else AList.update ws \<lparr>gi_pubkey = pk, gi_authenticated = True\<rparr> reg)"

definition registry_remove :: "nat \<Rightarrow> gift_wrap_registry \<Rightarrow> gift_wrap_registry" where
  "registry_remove ws reg = AList.delete ws reg"

text \<open>The connection is \<open>None\<close> outside a client's request; the answer is the key if one is authenticated.\<close>

definition registry_current :: "nat option \<Rightarrow> gift_wrap_registry \<Rightarrow> string option" where
  "registry_current ws reg =
     (case ws of None \<Rightarrow> None | Some w \<Rightarrow>
     (case map_of reg w of
        None \<Rightarrow> None
      | Some i \<Rightarrow> if \<not> gi_authenticated i then None else Some (gi_pubkey i)))"

section \<open>Recipients\<close>

definition parse_canonical_pubkey :: "legacy_lib \<Rightarrow> string \<Rightarrow> string option" where
  "parse_canonical_pubkey lib raw =
     (case ll_pubkey lib raw of None \<Rightarrow> None | Some pk \<Rightarrow> if raw \<noteq> pk then None else Some pk)"

fun recipient_scan :: "string list list \<Rightarrow> string \<Rightarrow> nat \<Rightarrow> (string \<times> nat) option" where
  "recipient_scan [] raw count = Some (raw, count)"
| "recipient_scan (tag # tags) raw count =
     (if length tag = 0 \<or> tag ! 0 \<noteq> ''p'' then recipient_scan tags raw count
      else if length tag < 2 then None
      else recipient_scan tags (tag ! 1) (count + 1))"

definition sole_gift_wrap_recipient :: "legacy_lib \<Rightarrow> event \<Rightarrow> string option" where
  "sole_gift_wrap_recipient lib ev =
     (case recipient_scan (ev_tags ev) [] 0 of
        None \<Rightarrow> None
      | Some (raw, count) \<Rightarrow> if count \<noteq> 1 then None else parse_canonical_pubkey lib raw)"

definition requests_protected_gift_wraps :: "legacy_filter \<Rightarrow> bool" where
  "requests_protected_gift_wraps f = list_ex (\<lambda>k. k = 1059) (lf_kinds f)"

definition authorize_filter_for_identity :: "legacy_lib \<Rightarrow> legacy_filter \<Rightarrow> string option \<Rightarrow> string result" where
  "authorize_filter_for_identity lib f identity =
     (case identity of
        None \<Rightarrow> Inl ''auth-required: kind 1059 requests require NIP-42 authentication''
      | Some me \<Rightarrow>
          if length (lf_kinds f) \<noteq> 1 \<or> lf_kinds f ! 0 \<noteq> 1059
          then Inl ''restricted: kind 1059 cannot be mixed with other kinds''
          else let recipients = (case map_of (lf_tags f) ''p'' of None \<Rightarrow> [] | Some rs \<Rightarrow> rs) in
            if length recipients \<noteq> 1
            then Inl ''restricted: kind 1059 requests require exactly one valid recipient''
            else case parse_canonical_pubkey lib (recipients ! 0) of
                   None \<Rightarrow> Inl ''restricted: kind 1059 requests require exactly one valid recipient''
                 | Some r \<Rightarrow>
                     if r \<noteq> me then Inl ''restricted: kind 1059 recipient does not match authenticated identity''
                     else Inr r)"

definition may_deliver_gift_wrap :: "legacy_lib \<Rightarrow> legacy_filter \<Rightarrow> string option \<Rightarrow> event \<Rightarrow> bool" where
  "may_deliver_gift_wrap lib f identity ev =
     (case authorize_filter_for_identity lib f identity of
        Inl _ \<Rightarrow> False
      | Inr recipient \<Rightarrow>
          if \<not> ll_matches lib f ev then False
          else sole_gift_wrap_recipient lib ev = Some recipient)"

section \<open>Hooks\<close>

definition gift_wrap_on_event :: "legacy_lib \<Rightarrow> (event \<Rightarrow> hook_verdict) option \<Rightarrow> event \<Rightarrow> hook_verdict" where
  "gift_wrap_on_event lib prev ev =
     (if ev_kind ev = 1059 \<and> sole_gift_wrap_recipient lib ev = None
      then Some ''blocked: kind 1059 events require exactly one valid recipient''
      else case prev of Some h \<Rightarrow> h ev | None \<Rightarrow> None)"

text \<open>The challenge-only hooks for REQ and COUNT: the second component says whether AUTH is requested.\<close>

definition offer_gift_wrap_auth :: "nat option \<Rightarrow> bool \<Rightarrow> bool" where
  "offer_gift_wrap_auth ws authed = (if ws = None then False else if authed then False else True)"

definition challenge_on_request :: "(legacy_filter \<Rightarrow> hook_verdict) option \<Rightarrow> nat option \<Rightarrow> bool \<Rightarrow> legacy_filter \<Rightarrow>
    hook_verdict \<times> bool" where
  "challenge_on_request prev ws authed f =
     (case (case prev of Some h \<Rightarrow> h f | None \<Rightarrow> None) of
        Some reason \<Rightarrow> (Some reason, False)
      | None \<Rightarrow> (None, requests_protected_gift_wraps f \<and> offer_gift_wrap_auth ws authed))"

definition enforce_on_request :: "legacy_lib \<Rightarrow> (legacy_filter \<Rightarrow> hook_verdict) option \<Rightarrow> gift_wrap_registry \<Rightarrow>
    nat option \<Rightarrow> bool \<Rightarrow> legacy_filter \<Rightarrow> hook_verdict" where
  "enforce_on_request lib prev reg ws negentropy f =
     (case (case prev of Some h \<Rightarrow> h f | None \<Rightarrow> None) of
        Some reason \<Rightarrow> Some reason
      | None \<Rightarrow>
          if length (lf_kinds f) = 0 then Some ''restricted: wildcard subscriptions are not supported''
          else if requests_protected_gift_wraps f
          then (if negentropy then Some ''restricted: protected event negentropy is not supported''
                else case authorize_filter_for_identity lib f (registry_current ws reg) of
                       Inl reason \<Rightarrow> Some reason
                     | Inr _ \<Rightarrow> None)
          else None)"

text \<open>What a stored query yields, from what the query set before does.\<close>

definition enforce_query_stored :: "legacy_lib \<Rightarrow> gift_wrap_registry \<Rightarrow> nat option \<Rightarrow> bool \<Rightarrow> legacy_filter \<Rightarrow>
    event list \<Rightarrow> event list" where
  "enforce_query_stored lib reg ws internal f results =
     (if internal then results
      else List.filter (\<lambda>ev. ll_matches lib f ev \<and>
        \<not> (ev_kind ev = 1059 \<and> \<not> may_deliver_gift_wrap lib f (registry_current ws reg) ev)) results)"

definition enforce_on_count :: "legacy_lib \<Rightarrow> (legacy_filter \<Rightarrow> hook_verdict) option \<Rightarrow> gift_wrap_registry \<Rightarrow>
    nat option \<Rightarrow> bool \<Rightarrow> legacy_filter \<Rightarrow> hook_verdict" where
  "enforce_on_count lib prev reg ws internal f =
     (if \<not> internal \<and> length (lf_kinds f) = 0 then Some ''restricted: wildcard counts are not supported''
      else if \<not> internal \<and> requests_protected_gift_wraps f
      then (case authorize_filter_for_identity lib f (registry_current ws reg) of
              Inl reason \<Rightarrow> Some reason
            | Inr _ \<Rightarrow> Some ''restricted: protected event counts are not supported'')
      else case prev of Some h \<Rightarrow> h f | None \<Rightarrow> None)"

definition enforce_prevent_broadcast :: "legacy_lib \<Rightarrow> (nat \<Rightarrow> legacy_filter \<Rightarrow> event \<Rightarrow> bool) option \<Rightarrow>
    gift_wrap_registry \<Rightarrow> nat \<Rightarrow> legacy_filter \<Rightarrow> event \<Rightarrow> bool" where
  "enforce_prevent_broadcast lib prev reg ws f ev =
     (if (case prev of None \<Rightarrow> False | Some h \<Rightarrow> h ws f ev) then True
      else if ev_kind ev \<noteq> 1059 then False
      else \<not> may_deliver_gift_wrap lib f (registry_current (Some ws) reg) ev)"

section \<open>The registry over the life of connections\<close>

datatype gift_wrap_op = WsConnect nat | WsAuth nat string | WsDisconnect nat

fun registry_op :: "gift_wrap_op \<Rightarrow> gift_wrap_registry \<Rightarrow> gift_wrap_registry" where
  "registry_op (WsConnect ws) reg = registry_connect ws reg"
| "registry_op (WsAuth ws pk) reg = registry_record ws pk reg"
| "registry_op (WsDisconnect ws) reg = registry_remove ws reg"

definition run_registry :: "gift_wrap_op list \<Rightarrow> gift_wrap_registry" where
  "run_registry ops = fold registry_op ops []"

text \<open>The reference: the newest operation first, the last key a connection authenticated as since it connected.\<close>

fun open_ws :: "nat \<Rightarrow> gift_wrap_op list \<Rightarrow> bool" where
  "open_ws ws [] = False"
| "open_ws ws (WsConnect w # older) = (w = ws \<or> open_ws ws older)"
| "open_ws ws (WsAuth w pk # older) = open_ws ws older"
| "open_ws ws (WsDisconnect w # older) = (w \<noteq> ws \<and> open_ws ws older)"

fun last_auth :: "nat \<Rightarrow> gift_wrap_op list \<Rightarrow> string option" where
  "last_auth ws [] = None"
| "last_auth ws (WsConnect w # older) = (if w = ws then None else last_auth ws older)"
| "last_auth ws (WsAuth w pk # older) = (if w = ws \<and> open_ws ws older then Some pk else last_auth ws older)"
| "last_auth ws (WsDisconnect w # older) = (if w = ws then None else last_auth ws older)"

lemma registry_tracks:
  "(map_of (fold registry_op (rev ops) []) ws \<noteq> None \<longleftrightarrow> open_ws ws ops) \<and>
   registry_current (Some ws) (fold registry_op (rev ops) []) = last_auth ws ops"
proof (induction ops)
  case (Cons a ops)
  then show ?case
    by (cases a) (auto simp: registry_connect_def registry_record_def registry_remove_def registry_current_def
        split: option.splits if_splits)
qed (simp add: registry_current_def)

lemma current_is_last_auth: "registry_current (Some ws) (run_registry ops) = last_auth ws (rev ops)"
  using registry_tracks [of "rev ops" ws] by (simp add: run_registry_def)

section \<open>Only the recipient\<close>

text \<open>The values of the \<open>p\<close> tags of an event, and the events that reach a client.\<close>

definition p_values :: "event \<Rightarrow> string list" where
  "p_values ev = map (\<lambda>tag. tag ! 1) (List.filter (\<lambda>tag. length tag \<ge> 1 \<and> tag ! 0 = ''p'') (ev_tags ev))"

lemma recipient_scan_count: "recipient_scan tags raw n = Some (r, m) \<Longrightarrow>
    m = n + length (List.filter (\<lambda>tag. length tag \<ge> 1 \<and> tag ! 0 = ''p'') tags) \<and>
    (m = n \<longrightarrow> r = raw) \<and>
    (m = n + 1 \<longrightarrow> map (\<lambda>tag. tag ! 1) (List.filter (\<lambda>tag. length tag \<ge> 1 \<and> tag ! 0 = ''p'') tags) = [r])"
proof (induction tags arbitrary: raw n)
  case (Cons tag tags)
  show ?case
  proof (cases "length tag = 0 \<or> tag ! 0 \<noteq> ''p''")
    case True
    then show ?thesis using Cons by auto
  next
    case False
    then have "recipient_scan tags (tag ! 1) (n + 1) = Some (r, m)" using Cons.prems by (auto split: if_splits)
    from Cons.IH [OF this] False show ?thesis by (auto simp: Suc_le_eq)
  qed
qed simp

lemma sole_recipient_values: "sole_gift_wrap_recipient lib ev = Some pk \<Longrightarrow> p_values ev = [pk]"
proof -
  assume sole: "sole_gift_wrap_recipient lib ev = Some pk"
  then obtain raw where "recipient_scan (ev_tags ev) [] 0 = Some (raw, 1)" "parse_canonical_pubkey lib raw = Some pk"
    by (auto simp: sole_gift_wrap_recipient_def split: option.splits prod.splits if_splits)
  then show ?thesis using recipient_scan_count [of "ev_tags ev" "[]" 0 raw 1]
    by (auto simp: p_values_def parse_canonical_pubkey_def split: option.splits if_splits)
qed

lemma authorized_filter: "authorize_filter_for_identity lib f identity = Inr r \<Longrightarrow>
    identity = Some r \<and> lf_kinds f = [1059] \<and> map_of (lf_tags f) ''p'' = Some [r]"
  by (auto simp: authorize_filter_for_identity_def parse_canonical_pubkey_def Let_def length_Suc_conv
      split: option.splits if_splits)

lemma may_deliver_cases:
  assumes "may_deliver_gift_wrap lib f identity ev"
  obtains r where "identity = Some r" "lf_kinds f = [1059]" "map_of (lf_tags f) ''p'' = Some [r]"
    "p_values ev = [r]" "ll_matches lib f ev"
  using assms authorized_filter [of lib f identity] sole_recipient_values
  by (auto simp: may_deliver_gift_wrap_def split: sum.splits if_splits)

text \<open>A client's request is any of the ways it can get at stored or live events.\<close>

definition reaches_client :: "legacy_lib \<Rightarrow> gift_wrap_registry \<Rightarrow> nat \<Rightarrow> legacy_filter \<Rightarrow> event list \<Rightarrow> event \<Rightarrow> bool" where
  "reaches_client lib reg ws f stored ev \<longleftrightarrow>
     (enforce_on_request lib None reg (Some ws) False f = None \<and>
        ev \<in> set (enforce_query_stored lib reg (Some ws) False f stored)) \<or>
     \<not> enforce_prevent_broadcast lib None reg ws f ev"

text \<open>C13: With protection enforced, a gift wrap reaches a client by a
  stored query or a broadcast only if the last key its connection authenticated as since it connected is the
  one value of the only \<open>p\<close> tag of the event, and then only through a filter for kind 1059 alone with that
  recipient alone. A closed connection has no key, whatever arrives late. A COUNT, a negentropy session and a
  filter without kinds never get at one, and no gift wrap without exactly one recipient is accepted.
\<close>

theorem gift_wrap_only_to_recipient:
  fixes ops :: "gift_wrap_op list"
  defines "reg \<equiv> run_registry ops"
  shows "(reaches_client lib reg ws f stored ev \<and> ev_kind ev = 1059 \<longrightarrow>
      (\<exists>pk. last_auth ws (rev ops) = Some pk \<and> p_values ev = [pk] \<and> lf_kinds f = [1059] \<and>
        map_of (lf_tags f) ''p'' = Some [pk])) \<and>
    (1059 \<in> set (lf_kinds f) \<or> lf_kinds f = [] \<longrightarrow> enforce_on_count lib prev reg (Some ws) False f \<noteq> None) \<and>
    (1059 \<in> set (lf_kinds f) \<or> lf_kinds f = [] \<longrightarrow> enforce_on_request lib prev' reg (Some ws) True f \<noteq> None) \<and>
    (ev_kind ev = 1059 \<and> gift_wrap_on_event lib prev'' ev = None \<longrightarrow> (\<exists>pk. p_values ev = [pk]))"
proof (intro conjI impI)
  assume reach: "reaches_client lib reg ws f stored ev \<and> ev_kind ev = 1059"
  then have "may_deliver_gift_wrap lib f (registry_current (Some ws) reg) ev"
    by (auto simp: reaches_client_def enforce_query_stored_def enforce_prevent_broadcast_def)
  then show "\<exists>pk. last_auth ws (rev ops) = Some pk \<and> p_values ev = [pk] \<and> lf_kinds f = [1059] \<and>
        map_of (lf_tags f) ''p'' = Some [pk]"
    by (rule may_deliver_cases) (use current_is_last_auth in \<open>auto simp: reg_def\<close>)
next
  assume "1059 \<in> set (lf_kinds f) \<or> lf_kinds f = []"
  then show "enforce_on_count lib prev reg (Some ws) False f \<noteq> None"
    by (auto simp: enforce_on_count_def requests_protected_gift_wraps_def list_ex_iff split: sum.split)
next
  assume "1059 \<in> set (lf_kinds f) \<or> lf_kinds f = []"
  then show "enforce_on_request lib prev' reg (Some ws) True f \<noteq> None"
    by (auto simp: enforce_on_request_def requests_protected_gift_wraps_def list_ex_iff split: option.split)
next
  assume "ev_kind ev = 1059 \<and> gift_wrap_on_event lib prev'' ev = None"
  then obtain pk where "sole_gift_wrap_recipient lib ev = Some pk"
    by (auto simp: gift_wrap_on_event_def split: if_splits)
  then show "\<exists>pk. p_values ev = [pk]" using sole_recipient_values by blast
qed

definition demo_lib :: legacy_lib where
  "demo_lib = \<lparr>ll_pubkey = (\<lambda>s. if length s = 2 then Some (to_lower s) else None),
     ll_id = (\<lambda>s. if length s = 2 then Some (to_lower s) else None),
     ll_matches = (\<lambda>f ev. ev_kind ev \<in> set (lf_kinds f))\<rparr>"

definition demo_wrap :: event where
  "demo_wrap = \<lparr>ev_id = ''e1'', ev_pubkey = ''99'', ev_created_at = 5, ev_kind = 1059, ev_tags = [[''p'', ''aa'']],
     ev_content = [], ev_sig = []\<rparr>"

definition demo_wrap_filter :: legacy_filter where
  "demo_wrap_filter = \<lparr>lf_ids = [], lf_kinds = [1059], lf_authors = [], lf_tags = [(''p'', [''aa''])], lf_since = 0,
     lf_until = 0, lf_limit = 0, lf_limit_zero = False, lf_search = []\<rparr>"

theorem gift_wrap_only_to_recipient_witness:
  "reaches_client demo_lib (run_registry [WsConnect 1, WsAuth 1 ''bb'', WsAuth 1 ''aa'']) 1 demo_wrap_filter [demo_wrap] demo_wrap \<and>
   last_auth 1 (rev [WsConnect 1, WsAuth 1 ''bb'', WsAuth 1 ''aa'']) = Some ''aa'' \<and>
   \<not> reaches_client demo_lib (run_registry [WsConnect 1, WsAuth 1 ''aa'', WsAuth 1 ''bb'']) 1 demo_wrap_filter [demo_wrap] demo_wrap \<and>
   enforce_on_count demo_lib None [] (Some 1) False demo_wrap_filter \<noteq> None"
proof -
  have reach: "reaches_client demo_lib (run_registry [WsConnect 1, WsAuth 1 ''bb'', WsAuth 1 ''aa'']) 1 demo_wrap_filter [demo_wrap] demo_wrap"
    by code_simp
  have kind: "ev_kind demo_wrap = 1059" "p_values demo_wrap = [''aa'']" by code_simp+
  have "1059 \<in> set (lf_kinds demo_wrap_filter)" by code_simp
  then show ?thesis
    using gift_wrap_only_to_recipient [of demo_lib "[WsConnect 1, WsAuth 1 ''bb'', WsAuth 1 ''aa'']" 1 demo_wrap_filter "[demo_wrap]" demo_wrap]
      gift_wrap_only_to_recipient [of demo_lib "[WsConnect 1, WsAuth 1 ''aa'', WsAuth 1 ''bb'']" 1 demo_wrap_filter "[demo_wrap]" demo_wrap]
      gift_wrap_only_to_recipient [of demo_lib "[]" 1 demo_wrap_filter "[demo_wrap]" demo_wrap None] reach kind
    by (simp add: run_registry_def)
qed

end
