(* ===== verification/Legacy_Products.thy ===== *)
theory Legacy_Products
  imports Legacy_Giftwrap Nostr_Message "HOL-Library.Product_Lexorder" "HOL-Library.Multiset"
begin

text \<open>
  The product projection of the earlier relay, \<open>scope2.go\<close>: product events (kind 30402) and deletions
  (kind 5) are folded into one entry per address, and product queries are answered from it, filtered,
  sorted and cut into pages.

  A Go map is an association list; where the code ranges over one, the order is an argument. Of a float64
  only its place in the order matters, so a number is an integer rank or NaN; parsing numbers and JSON,
  Unicode case mapping and the text of a cursor are fields of \<open>product_lib\<close>.
\<close>

section \<open>Numbers and text\<close>

datatype go_float = FNaN | FNum int

fun fl_less :: "go_float \<Rightarrow> go_float \<Rightarrow> bool" where
  "fl_less (FNum a) (FNum b) = (a < b)"
| "fl_less _ _ = False"

fun fl_differ :: "go_float \<Rightarrow> go_float \<Rightarrow> bool" where
  "fl_differ (FNum a) (FNum b) = (a \<noteq> b)"
| "fl_differ _ _ = True"

record product_lib = legacy_lib +
  pl_parse_float :: "string \<Rightarrow> go_float option"
  pl_json_float :: "json \<Rightarrow> go_float"
  pl_float_int :: "go_float \<Rightarrow> int"
  pl_parse_int :: "string \<Rightarrow> int option"
  pl_json_object :: "string \<Rightarrow> (string, json) go_map option"
  pl_d_tag :: "string list list \<Rightarrow> string"
  pl_lower :: "string \<Rightarrow> string"
  pl_upper :: "string \<Rightarrow> string"
  pl_encode_cursor :: "string \<Rightarrow> string"
  pl_decode_cursor :: "string \<Rightarrow> string option"

definition cut_at :: "char \<Rightarrow> string \<Rightarrow> (string \<times> string) option" where
  "cut_at c s = (if c \<in> set s then Some (takeWhile (\<lambda>d. d \<noteq> c) s, drop 1 (dropWhile (\<lambda>d. d \<noteq> c) s)) else None)"

fun split_at :: "char \<Rightarrow> string \<Rightarrow> string \<Rightarrow> string list" where
  "split_at c [] part = [rev part]"
| "split_at c (d # s) part = (if d = c then rev part # split_at c s [] else split_at c s (d # part))"

fun contains_text :: "string \<Rightarrow> string \<Rightarrow> bool" where
  "contains_text [] sub = (sub = [])"
| "contains_text (c # s) sub = (has_prefix (c # s) sub \<or> contains_text s sub)"

definition go_atoi :: "string \<Rightarrow> int option" where
  "go_atoi s =
     (let signed = s \<noteq> [] \<and> (hd s = CHR ''-'' \<or> hd s = CHR ''+'');
          ds = (if signed then tl s else s);
          v = fold (\<lambda>c n. n * 10 + (int (byte c) - 48)) ds 0;
          v = (if signed \<and> hd s = CHR ''-'' then - v else v)
      in if ds = [] \<or> \<not> list_all (\<lambda>c. 48 \<le> byte c \<and> byte c \<le> 57) ds then None
         else if int64_range v then Some v else None)"

section \<open>Options and plans\<close>

datatype product_sort = SortNewest | SortPriceAsc | SortPriceDesc | SortUpdatedAtDesc

record scope2_options =
  so_max_query_limit :: int
  so_default_query_limit :: int
  so_max_projection_scan :: int
  so_allow_mixed_currency_sort :: bool
  so_enable_nip50 :: bool
  so_gift_wrap_protection :: gift_wrap_mode

definition with_scope2_defaults :: "scope2_options \<Rightarrow> scope2_options" where
  "with_scope2_defaults opts =
     opts\<lparr>so_gift_wrap_protection := default_gift_wrap_mode (so_gift_wrap_protection opts),
       so_max_query_limit := (if so_max_query_limit opts \<le> 0 then 100 else so_max_query_limit opts),
       so_default_query_limit := (if so_default_query_limit opts \<le> 0 then 50 else so_default_query_limit opts),
       so_max_projection_scan := (if so_max_projection_scan opts \<le> 0 then 2000 else so_max_projection_scan opts)\<rparr>"

record search_plan =
  sp_sort :: product_sort
  sp_text :: string
  sp_cursor :: string
  sp_partial :: bool

fun sort_of_name :: "string \<Rightarrow> product_sort option" where
  "sort_of_name v = (if v = ''newest'' then Some SortNewest else if v = ''price_asc'' then Some SortPriceAsc
     else if v = ''price_desc'' then Some SortPriceDesc else if v = ''updated_at_desc'' then Some SortUpdatedAtDesc
     else None)"

definition plan_token :: "string \<Rightarrow> search_plan \<Rightarrow> search_plan" where
  "plan_token token plan =
     (case cut_at (CHR ''='') token of None \<Rightarrow> plan | Some (k, v) \<Rightarrow>
     (let k = trim_space k; v = trim_space v in
      if k = ''q'' then plan\<lparr>sp_text := v\<rparr>
      else if k = ''sort'' then (case sort_of_name v of None \<Rightarrow> plan | Some m \<Rightarrow> plan\<lparr>sp_sort := m\<rparr>)
      else if k = ''cursor'' then plan\<lparr>sp_cursor := v\<rparr>
      else if k = ''partial'' then plan\<lparr>sp_partial := (v = ''1'' \<or> equal_fold v ''true'')\<rparr>
      else plan))"

definition parse_search_plan :: "string \<Rightarrow> search_plan option" where
  "parse_search_plan raw =
     (let plan = \<lparr>sp_sort = SortNewest, sp_text = [], sp_cursor = [], sp_partial = False\<rparr> in
      if raw = [] \<or> \<not> has_prefix raw ''conduit-l2:'' then None
      else Some (fold plan_token (split_at (CHR '';'') (trim_prefix raw ''conduit-l2:'') []) plan))"

definition is_product_query :: "legacy_filter \<Rightarrow> bool" where
  "is_product_query f = list_ex (\<lambda>k. k = 30402) (lf_kinds f)"

definition requests_out_of_scope_search :: "legacy_filter \<Rightarrow> bool" where
  "requests_out_of_scope_search f = (if lf_search f = [] then False else parse_search_plan (lf_search f) = None)"

definition apply_request_bounds :: "scope2_options \<Rightarrow> legacy_filter \<Rightarrow> legacy_filter" where
  "apply_request_bounds opts f =
     (if lf_limit_zero f then f
      else let l = (if lf_limit f \<le> 0 then so_default_query_limit opts else lf_limit f)
           in f\<lparr>lf_limit := (if l > so_max_query_limit opts then so_max_query_limit opts else l)\<rparr>)"

definition resolved_limit :: "scope2_options \<Rightarrow> legacy_filter \<Rightarrow> int" where
  "resolved_limit opts f =
     (if lf_limit f \<le> 0 then so_default_query_limit opts
      else if lf_limit f > so_max_query_limit opts then so_max_query_limit opts
      else lf_limit f)"

section \<open>What an event says of a product\<close>

record product_envelope =
  pe_address :: string
  pe_event :: event
  pe_updated_at :: int
  pe_price :: go_float
  pe_currency :: string
  pe_has_price :: bool
  pe_search_text :: string
  pe_tombstoned :: bool

fun first_tag_value :: "string list list \<Rightarrow> string \<Rightarrow> string" where
  "first_tag_value [] name = []"
| "first_tag_value (tag # tags) name =
     (if length tag < 2 then first_tag_value tags name
      else if tag ! 0 = name then trim_space (tag ! 1)
      else first_tag_value tags name)"

definition json_field :: "(string, json) go_map \<Rightarrow> string \<Rightarrow> json" where
  "json_field payload key = (case map_of payload key of None \<Rightarrow> JNull | Some v \<Rightarrow> v)"

fun json_text :: "json \<Rightarrow> string" where
  "json_text (JStr s) = s"
| "json_text _ = []"

fun to_float :: "product_lib \<Rightarrow> json \<Rightarrow> go_float option" where
  "to_float lib (JInt n) = Some (pl_json_float lib (JInt n))"
| "to_float lib (JReal r) = Some (pl_json_float lib (JReal r))"
| "to_float lib (JStr s) = pl_parse_float lib (trim_space s)"
| "to_float lib _ = None"

definition timestamp_from_value :: "product_lib \<Rightarrow> json \<Rightarrow> int option" where
  "timestamp_from_value lib raw =
     (case to_float lib raw of
        Some x \<Rightarrow> Some (pl_float_int lib x)
      | None \<Rightarrow> (case raw of JStr s \<Rightarrow> pl_parse_int lib (trim_space s) | _ \<Rightarrow> None))"

fun first_timestamp :: "product_lib \<Rightarrow> json list \<Rightarrow> int option" where
  "first_timestamp lib [] = None"
| "first_timestamp lib (v # vs) = (case timestamp_from_value lib v of Some t \<Rightarrow> Some t | None \<Rightarrow> first_timestamp lib vs)"

definition extract_timestamp_from_tags :: "product_lib \<Rightarrow> string list list \<Rightarrow> string list \<Rightarrow> int option" where
  "extract_timestamp_from_tags lib tags names = first_timestamp lib (map (\<lambda>n. JStr (first_tag_value tags n)) names)"

definition extract_updated_at_from_content :: "product_lib \<Rightarrow> string \<Rightarrow> int option" where
  "extract_updated_at_from_content lib content =
     (case pl_json_object lib content of None \<Rightarrow> None
      | Some payload \<Rightarrow> first_timestamp lib
          (map (json_field payload) [''updatedAt'', ''updated_at'', ''publishedAt'', ''published_at'']))"

definition extract_updated_at :: "product_lib \<Rightarrow> event \<Rightarrow> int" where
  "extract_updated_at lib ev =
     (case extract_timestamp_from_tags lib (ev_tags ev) [''updated_at'', ''updatedAt'', ''published_at'', ''publishedAt''] of
        Some t \<Rightarrow> t
      | None \<Rightarrow> (case extract_updated_at_from_content lib (ev_content ev) of Some t \<Rightarrow> t | None \<Rightarrow> ev_created_at ev))"

definition extract_product_text_from_content :: "product_lib \<Rightarrow> string \<Rightarrow> string \<times> string" where
  "extract_product_text_from_content lib content =
     (case pl_json_object lib content of None \<Rightarrow> ([], [])
      | Some payload \<Rightarrow> (json_text (json_field payload ''title''), json_text (json_field payload ''summary'')))"

definition extract_product_text :: "product_lib \<Rightarrow> event \<Rightarrow> string \<times> string" where
  "extract_product_text lib ev =
     (let title = first_tag_value (ev_tags ev) ''title''; summary = first_tag_value (ev_tags ev) ''summary'' in
      if title \<noteq> [] \<or> summary \<noteq> []
      then let (ft, fs) = extract_product_text_from_content lib (ev_content ev)
           in (if title = [] then ft else title, if summary = [] then fs else summary)
      else extract_product_text_from_content lib (ev_content ev))"

fun price_from_tags :: "product_lib \<Rightarrow> string list list \<Rightarrow> string list list \<Rightarrow> (go_float \<times> string) option" where
  "price_from_tags lib all [] = None"
| "price_from_tags lib all (tag # tags) =
     (if length tag < 2 \<or> tag ! 0 \<noteq> ''price'' then price_from_tags lib all tags
      else case to_float lib (JStr (tag ! 1)) of
             None \<Rightarrow> price_from_tags lib all tags
           | Some price \<Rightarrow>
               (let currency = (if length tag \<ge> 3 then tag ! 2 else first_tag_value all ''currency'')
                in Some (price, pl_upper lib (trim_space currency))))"

definition extract_price_from_tags :: "product_lib \<Rightarrow> string list list \<Rightarrow> (go_float \<times> string) option" where
  "extract_price_from_tags lib tags = price_from_tags lib tags tags"

definition extract_price_from_content :: "product_lib \<Rightarrow> string \<Rightarrow> (go_float \<times> string) option" where
  "extract_price_from_content lib content =
     (case pl_json_object lib content of None \<Rightarrow> None
      | Some payload \<Rightarrow>
          (case map_of payload ''price'' of None \<Rightarrow> None
           | Some raw \<Rightarrow>
               (case to_float lib raw of None \<Rightarrow> None
                | Some price \<Rightarrow> Some (price, pl_upper lib (trim_space (json_text (json_field payload ''currency'')))))))"

definition extract_price :: "product_lib \<Rightarrow> event \<Rightarrow> (go_float \<times> string) option" where
  "extract_price lib ev =
     (case extract_price_from_tags lib (ev_tags ev) of
        Some r \<Rightarrow> Some r
      | None \<Rightarrow> extract_price_from_content lib (ev_content ev))"

definition address_text :: "int \<Rightarrow> string \<Rightarrow> string \<Rightarrow> string" where
  "address_text kind pk d = show_int kind @ '':'' @ pk @ '':'' @ d"

definition product_address :: "product_lib \<Rightarrow> event \<Rightarrow> string" where
  "product_address lib ev =
     (let d = pl_d_tag lib (ev_tags ev) in
      if d \<noteq> [] then address_text (ev_kind ev) (ev_pubkey ev) d else ev_id ev)"

definition canonical_address :: "product_lib \<Rightarrow> string \<Rightarrow> string option" where
  "canonical_address lib raw =
     (case cut_at (CHR '':'') raw of None \<Rightarrow> None | Some (k, rest) \<Rightarrow>
     (case cut_at (CHR '':'') rest of None \<Rightarrow> None | Some (p, d) \<Rightarrow>
     (case go_atoi k of None \<Rightarrow> None | Some kind \<Rightarrow>
     (case ll_pubkey lib p of None \<Rightarrow> None | Some pk \<Rightarrow> Some (address_text kind pk d)))))"

definition build_product_envelope :: "product_lib \<Rightarrow> event \<Rightarrow> product_envelope" where
  "build_product_envelope lib ev =
     (let (title, summary) = extract_product_text lib ev;
          (price, currency, has_price) = (case extract_price lib ev of None \<Rightarrow> (FNum 0, [], False) | Some (p, c) \<Rightarrow> (p, c, True))
      in \<lparr>pe_address = product_address lib ev, pe_event = ev, pe_updated_at = extract_updated_at lib ev, pe_price = price,
          pe_currency = currency, pe_has_price = has_price,
          pe_search_text = pl_lower lib (trim_space (title @ [CHR 0x0A] @ summary)), pe_tombstoned = False\<rparr>)"

section \<open>The projection\<close>

type_synonym projection = "(string, product_envelope) go_map"

definition event_beats_current :: "event \<Rightarrow> event \<Rightarrow> bool" where
  "event_beats_current new cur =
     (if ev_created_at new > ev_created_at cur then True
      else if ev_created_at new < ev_created_at cur then False
      else ev_id new < ev_id cur)"

definition upsert_product :: "product_lib \<Rightarrow> event \<Rightarrow> projection \<Rightarrow> projection" where
  "upsert_product lib ev ps =
     (let pe = build_product_envelope lib ev in
      case map_of ps (pe_address pe) of
        Some cur \<Rightarrow> if \<not> event_beats_current (pe_event pe) (pe_event cur) then ps
          else AList.update (pe_address pe) (pe\<lparr>pe_tombstoned := False\<rparr>) ps
      | None \<Rightarrow> AList.update (pe_address pe) (pe\<lparr>pe_tombstoned := False\<rparr>) ps)"

definition tombstone_ids :: "string \<Rightarrow> projection \<Rightarrow> projection" where
  "tombstone_ids i ps = map (\<lambda>(a, p). (a, if ev_id (pe_event p) = i then p\<lparr>pe_tombstoned := True\<rparr> else p)) ps"

definition tombstone_address :: "string \<Rightarrow> int \<Rightarrow> projection \<Rightarrow> projection" where
  "tombstone_address a t ps =
     (case map_of ps a of None \<Rightarrow> ps
      | Some cur \<Rightarrow> if ev_created_at (pe_event cur) \<le> t then AList.update a (cur\<lparr>pe_tombstoned := True\<rparr>) ps else ps)"

definition apply_delete_tag :: "product_lib \<Rightarrow> int \<Rightarrow> string list \<Rightarrow> projection \<Rightarrow> projection" where
  "apply_delete_tag lib t tag ps =
     (if length tag < 2 then ps
      else if tag ! 0 = ''e'' then (case ll_id lib (tag ! 1) of None \<Rightarrow> ps | Some i \<Rightarrow> tombstone_ids i ps)
      else if tag ! 0 = ''a''
      then (case canonical_address lib (tag ! 1) of None \<Rightarrow> ps | Some a \<Rightarrow> tombstone_address a t ps)
      else ps)"

definition apply_delete_event :: "product_lib \<Rightarrow> event \<Rightarrow> projection \<Rightarrow> projection" where
  "apply_delete_event lib ev ps = fold (apply_delete_tag lib (ev_created_at ev)) (ev_tags ev) ps"

definition apply_event :: "product_lib \<Rightarrow> event \<Rightarrow> projection \<Rightarrow> projection" where
  "apply_event lib ev ps =
     (if ev_kind ev = 30402 then upsert_product lib ev ps
      else if ev_kind ev = 5 then apply_delete_event lib ev ps
      else ps)"

definition apply_deleted_event :: "product_lib \<Rightarrow> event \<Rightarrow> projection \<Rightarrow> projection" where
  "apply_deleted_event lib ev ps =
     (if ev_kind ev \<noteq> 30402 then ps
      else let a = product_address lib ev in
        case map_of ps a of None \<Rightarrow> ps
        | Some cur \<Rightarrow> if ev_id (pe_event cur) \<noteq> ev_id ev then ps else AList.update a (cur\<lparr>pe_tombstoned := True\<rparr>) ps)"

text \<open>\<open>slices.SortFunc\<close>: the places of elements that compare as different are the only ones possible, so any
  sorting gives the same list where no two compare as equal.\<close>

fun insert_by :: "('a \<Rightarrow> 'a \<Rightarrow> int) \<Rightarrow> 'a \<Rightarrow> 'a list \<Rightarrow> 'a list" where
  "insert_by cmp x [] = [x]"
| "insert_by cmp x (y # ys) = (if cmp x y \<le> 0 then x # y # ys else y # insert_by cmp x ys)"

definition sort_by_cmp :: "('a \<Rightarrow> 'a \<Rightarrow> int) \<Rightarrow> 'a list \<Rightarrow> 'a list" where
  "sort_by_cmp cmp xs = foldr (insert_by cmp) xs []"

definition compare_text :: "string \<Rightarrow> string \<Rightarrow> int" where
  "compare_text a b = (if a < b then -1 else if a > b then 1 else 0)"

definition compare_seed_events :: "event \<Rightarrow> event \<Rightarrow> int" where
  "compare_seed_events a b =
     (if ev_created_at a < ev_created_at b then -1
      else if ev_created_at a > ev_created_at b then 1
      else if ev_kind a \<noteq> ev_kind b \<and> ev_kind a = 30402 then -1
      else if ev_kind a \<noteq> ev_kind b \<and> ev_kind b = 30402 then 1
      else compare_text (ev_id a) (ev_id b))"

text \<open>\<open>results\<close> is what the store yields for kinds 30402 and 5.\<close>

definition seed_projection :: "product_lib \<Rightarrow> event list \<Rightarrow> projection" where
  "seed_projection lib results =
     fold (apply_event lib)
       (sort_by_cmp compare_seed_events (List.filter (\<lambda>ev. ev_kind ev = 30402 \<or> ev_kind ev = 5) results)) []"


section \<open>Answering a product query\<close>

text \<open>\<open>order\<close> is the order in which the map is ranged over.\<close>

type_synonym map_order = "(string \<times> product_envelope) list \<Rightarrow> (string \<times> product_envelope) list"

definition product_matches :: "product_lib \<Rightarrow> legacy_filter \<Rightarrow> string \<Rightarrow> product_envelope \<Rightarrow> bool" where
  "product_matches lib f text p =
     (let base = f\<lparr>lf_search := []\<rparr>; needle = pl_lower lib (trim_space text) in
      if pe_tombstoned p then False
      else if \<not> ll_matches lib base (pe_event p) then False
      else if needle \<noteq> [] \<and> \<not> contains_text (pe_search_text p) needle then False
      else True)"

definition match_products :: "product_lib \<Rightarrow> map_order \<Rightarrow> legacy_filter \<Rightarrow> string \<Rightarrow> projection \<Rightarrow> product_envelope list" where
  "match_products lib order f text ps = List.filter (product_matches lib f text) (map snd (order ps))"

datatype price_policy = PriceAllowed string | PriceRefused string

fun count_currencies :: "product_envelope list \<Rightarrow> (string, nat) go_map" where
  "count_currencies [] = []"
| "count_currencies (p # ps) =
     (let counts = count_currencies ps in
      if pe_has_price p
      then AList.update (pe_currency p) (case map_of counts (pe_currency p) of None \<Rightarrow> 1 | Some n \<Rightarrow> n + 1) counts
      else counts)"

definition better_currency :: "string \<times> nat \<Rightarrow> (string \<times> int) \<Rightarrow> (string \<times> int)" where
  "better_currency = (\<lambda>(cur, n) (best, count).
     if int n > count \<or> int n = count \<and> compare_text cur best < 0 then (cur, int n) else (best, count))"

definition evaluate_price_policy :: "scope2_options \<Rightarrow> search_plan \<Rightarrow> product_envelope list \<Rightarrow> price_policy" where
  "evaluate_price_policy opts plan products =
     (if sp_sort plan \<noteq> SortPriceAsc \<and> sp_sort plan \<noteq> SortPriceDesc then PriceAllowed []
      else if so_allow_mixed_currency_sort opts then PriceAllowed []
      else let counts = count_currencies products in
        if length counts \<le> 1 then PriceAllowed []
        else if \<not> sp_partial plan
        then PriceRefused ''blocked: mixed-currency price sort requires partial=1 or trusted normalization''
        else PriceAllowed (fst (fold better_currency counts ([], -1))))"

definition keep_currency_cohort :: "string \<Rightarrow> product_envelope list \<Rightarrow> product_envelope list" where
  "keep_currency_cohort cur products = List.filter (\<lambda>p. pe_has_price p \<and> pe_currency p = cur) products"

definition compare_numbers :: "int \<Rightarrow> int \<Rightarrow> int" where
  "compare_numbers a b = (if a > b then -1 else if a < b then 1 else 0)"

definition compare_tail :: "product_envelope \<Rightarrow> product_envelope \<Rightarrow> int" where
  "compare_tail a b =
     (if pe_updated_at a > pe_updated_at b then -1
      else if pe_updated_at a < pe_updated_at b then 1
      else if ev_created_at (pe_event a) > ev_created_at (pe_event b) then -1
      else if ev_created_at (pe_event a) < ev_created_at (pe_event b) then 1
      else compare_text (ev_id (pe_event a)) (ev_id (pe_event b)))"

definition compare_prices :: "bool \<Rightarrow> product_envelope \<Rightarrow> product_envelope \<Rightarrow> int option" where
  "compare_prices asc a b =
     (if pe_has_price a \<noteq> pe_has_price b then (if pe_has_price a then Some (-1) else Some 1)
      else if pe_has_price a \<and> pe_has_price b \<and> fl_differ (pe_price a) (pe_price b)
      then (if fl_less (pe_price a) (pe_price b) then (if asc then Some (-1) else Some 1)
            else (if asc then Some 1 else Some (-1)))
      else None)"

definition compare_products :: "product_sort \<Rightarrow> product_envelope \<Rightarrow> product_envelope \<Rightarrow> int" where
  "compare_products mode a b =
     (case mode of
        SortPriceAsc \<Rightarrow> (case compare_prices True a b of Some r \<Rightarrow> r | None \<Rightarrow> compare_tail a b)
      | SortPriceDesc \<Rightarrow> (case compare_prices False a b of Some r \<Rightarrow> r | None \<Rightarrow> compare_tail a b)
      | SortUpdatedAtDesc \<Rightarrow>
          (if compare_numbers (pe_updated_at a) (pe_updated_at b) \<noteq> 0
           then compare_numbers (pe_updated_at a) (pe_updated_at b) else compare_tail a b)
      | SortNewest \<Rightarrow>
          (let r = compare_numbers (ev_created_at (pe_event a)) (ev_created_at (pe_event b))
           in if r \<noteq> 0 then r else compare_tail a b))"

fun cursor_index :: "string \<Rightarrow> product_envelope list \<Rightarrow> nat \<Rightarrow> nat" where
  "cursor_index i [] n = 0"
| "cursor_index i (p # ps) n = (if ev_id (pe_event p) = i then n + 1 else cursor_index i ps (n + 1))"

definition find_cursor_start :: "product_lib \<Rightarrow> product_envelope list \<Rightarrow> string \<Rightarrow> nat" where
  "find_cursor_start lib products raw =
     (case pl_decode_cursor lib raw of None \<Rightarrow> 0 | Some i \<Rightarrow> cursor_index i products 0)"

definition build_next_cursor :: "product_lib \<Rightarrow> event \<Rightarrow> string" where
  "build_next_cursor lib ev = pl_encode_cursor lib (ev_id ev)"

definition evaluate :: "product_lib \<Rightarrow> scope2_options \<Rightarrow> map_order \<Rightarrow> legacy_filter \<Rightarrow> search_plan \<Rightarrow> projection \<Rightarrow>
    product_envelope list result" where
  "evaluate lib opts order f plan ps =
     (let products = match_products lib order f (sp_text plan) ps in
      case evaluate_price_policy opts plan products of
        PriceRefused reason \<Rightarrow> Inl reason
      | PriceAllowed currency \<Rightarrow>
          (let products = (if currency \<noteq> [] then keep_currency_cohort currency products else products);
               products = sort_by_cmp (compare_products (sp_sort plan)) products;
               start = (if sp_cursor plan \<noteq> [] then find_cursor_start lib products (sp_cursor plan) else 0)
           in if start \<ge> length products then Inr []
              else Inr (take (nat (resolved_limit opts f)) (drop start products))))"

section \<open>Hooks\<close>

text \<open>What the relay answers: the events of a product query, or what the store's query yields.\<close>

definition wrap_product_queries :: "product_lib \<Rightarrow> scope2_options \<Rightarrow> map_order \<Rightarrow> (legacy_filter \<Rightarrow> event list) \<Rightarrow>
    projection \<Rightarrow> legacy_filter \<Rightarrow> event list" where
  "wrap_product_queries lib opts order base ps f =
     (let opts = with_scope2_defaults opts in
      case parse_search_plan (lf_search f) of
        None \<Rightarrow> base f
      | Some plan \<Rightarrow>
          if \<not> is_product_query f then base f
          else (case evaluate lib opts order (apply_request_bounds opts f) plan ps of
                  Inl reason \<Rightarrow> []
                | Inr products \<Rightarrow> map pe_event products))"

text \<open>The hooks of \<open>ConfigureRelay\<close>, before those of gift-wrap protection are put around them.\<close>

definition scope2_query_stored :: "scope2_options \<Rightarrow> (legacy_filter \<Rightarrow> event list) \<Rightarrow> legacy_filter \<Rightarrow> event list" where
  "scope2_query_stored opts prev f = prev (apply_request_bounds opts f)"

definition scope2_on_request :: "product_lib \<Rightarrow> scope2_options \<Rightarrow> map_order \<Rightarrow> (legacy_filter \<Rightarrow> hook_verdict) option \<Rightarrow>
    projection \<Rightarrow> legacy_filter \<Rightarrow> hook_verdict" where
  "scope2_on_request lib opts order prev ps f =
     (case (case prev of Some h \<Rightarrow> h f | None \<Rightarrow> None) of
        Some reason \<Rightarrow> Some reason
      | None \<Rightarrow>
          if requests_out_of_scope_search f then Some ''blocked: use conduit-l2 capability search format''
          else case parse_search_plan (lf_search f) of
                 None \<Rightarrow> None
               | Some plan \<Rightarrow>
                   if is_product_query f
                   then (case evaluate lib opts order (apply_request_bounds opts f) plan ps of
                           Inl reason \<Rightarrow> Some reason
                         | Inr products \<Rightarrow> None)
                   else None)"

definition policy_tags :: "scope2_options \<Rightarrow> string list" where
  "policy_tags opts =
     [''conduit_l2'', ''scope2-mvp'', ''marketplace_product_browse'', ''merchant_storefront_browse'', ''sort:newest'',
      ''sort:price_asc'', ''sort:price_desc'', ''sort:updated_at_desc'', ''cursor:conduit-l2-v1'',
      ''search_scope:bounded_commerce_search'',
      ''giftwrap_read_policy:'' @ gift_wrap_mode_string (so_gift_wrap_protection opts)] @
     (if so_gift_wrap_protection opts = GiftWrapProtectionEnforce then [''protected_kind:1059''] else [])"

definition append_unique :: "string list \<Rightarrow> string list \<Rightarrow> string list" where
  "append_unique target vals = fold (\<lambda>v t. if v \<in> set t then t else t @ [v]) vals target"

section \<open>Sorting\<close>

lemma sort_by_cmp_key:
  fixes key :: "'a \<Rightarrow> 'b::linorder"
  assumes "\<And>a b. a \<in> set xs \<Longrightarrow> b \<in> set xs \<Longrightarrow> cmp a b \<le> 0 \<longleftrightarrow> key a \<le> key b"
  shows "sort_by_cmp cmp xs = sort_key key xs"
proof -
  have insert: "insert_by cmp x ys = insort_key key x ys" if "insert x (set ys) \<subseteq> set xs" for x ys
    using that assms by (induction ys) auto
  have "sort_by_cmp cmp ys = sort_key key ys" if "set ys \<subseteq> set xs" for ys
    using that
  proof (induction ys)
    case (Cons y ys)
    have "sort_by_cmp cmp (y # ys) = insert_by cmp y (sort_by_cmp cmp ys)" by (simp add: sort_by_cmp_def)
    also have "\<dots> = insert_by cmp y (sort_key key ys)" using Cons by simp
    also have "\<dots> = insort_key key y (sort_key key ys)" by (rule insert) (use Cons.prems in simp)
    finally show ?case by (simp add: sort_key_def)
  qed (simp add: sort_by_cmp_def sort_key_def)
  then show ?thesis by simp
qed


text \<open>The order of the products as a key: price (priced products first), then the times, then the id.\<close>

fun rank :: "go_float \<Rightarrow> int" where
  "rank (FNum n) = n"
| "rank FNaN = 0"

definition product_key :: "product_sort \<Rightarrow> product_envelope \<Rightarrow> int \<times> int \<times> int \<times> int \<times> string" where
  "product_key mode p =
     (let (first, second) = (case mode of
            SortPriceAsc \<Rightarrow> if pe_has_price p then (0, rank (pe_price p)) else (1, 0)
          | SortPriceDesc \<Rightarrow> if pe_has_price p then (0, - rank (pe_price p)) else (1, 0)
          | SortUpdatedAtDesc \<Rightarrow> (0, 0)
          | SortNewest \<Rightarrow> (0, - ev_created_at (pe_event p)))
      in (first, second, - pe_updated_at p, - ev_created_at (pe_event p), ev_id (pe_event p)))"

lemma compare_tail_key: "compare_tail a b \<le> 0 \<longleftrightarrow>
    (- pe_updated_at a, - ev_created_at (pe_event a), ev_id (pe_event a))
      \<le> (- pe_updated_at b, - ev_created_at (pe_event b), ev_id (pe_event b))"
  by (auto simp: compare_tail_def compare_text_def less_eq_prod_def)

lemma fl_differ_rank: "x \<noteq> FNaN \<Longrightarrow> y \<noteq> FNaN \<Longrightarrow> fl_differ x y \<longleftrightarrow> rank x \<noteq> rank y"
  by (cases x; cases y) simp_all

lemma fl_less_rank: "x \<noteq> FNaN \<Longrightarrow> y \<noteq> FNaN \<Longrightarrow> fl_less x y \<longleftrightarrow> rank x < rank y"
  by (cases x; cases y) simp_all

lemma compare_products_key:
  assumes "pe_price a \<noteq> FNaN" "pe_price b \<noteq> FNaN"
  shows "compare_products mode a b \<le> 0 \<longleftrightarrow> product_key mode a \<le> product_key mode b"
  using compare_tail_key [of a b]
  by (cases mode) (auto simp: compare_products_def product_key_def compare_prices_def compare_numbers_def
      fl_differ_rank [OF assms] fl_less_rank [OF assms] less_eq_prod_def Let_def)

lemma sort_products_key:
  assumes "\<forall>p \<in> set xs. pe_price p \<noteq> FNaN"
  shows "sort_by_cmp (compare_products mode) xs = sort_key (product_key mode) xs"
  by (rule sort_by_cmp_key) (use assms in \<open>simp add: compare_products_key\<close>)

lemma product_key_inj: "product_key mode a = product_key mode b \<Longrightarrow> ev_id (pe_event a) = ev_id (pe_event b)"
  by (auto simp: product_key_def Let_def split: prod.splits)

lemma sort_products_order:
  assumes "mset xs = mset ys" "distinct (map (\<lambda>p. ev_id (pe_event p)) ys)"
  shows "sort_key (product_key mode) xs = sort_key (product_key mode) ys"
proof (rule sort_key_inj_key_eq)
  show "mset xs = mset (sort_key (product_key mode) ys)" using assms(1) by simp
  have "inj_on (\<lambda>p. ev_id (pe_event p)) (set xs)"
    using assms by (simp add: distinct_map flip: set_mset_mset)
  then show "inj_on (product_key mode) (set xs)"
    unfolding inj_on_def using product_key_inj by blast
qed simp

section \<open>The price policy does not depend on the order of a map\<close>

definition priced_in :: "string \<Rightarrow> product_envelope list \<Rightarrow> nat" where
  "priced_in cur ps = length (List.filter (\<lambda>p. pe_has_price p \<and> pe_currency p = cur) ps)"

lemma count_currencies_map: "map_of (count_currencies ps) cur = (if priced_in cur ps = 0 then None else Some (priced_in cur ps))"
  by (induction ps) (auto simp: priced_in_def Let_def split: option.splits)

lemma count_currencies_distinct: "distinct (map fst (count_currencies ps))"
  by (induction ps) (auto simp: Let_def distinct_update)

lemma priced_in_mset: "mset ps = mset qs \<Longrightarrow> priced_in cur ps = priced_in cur qs"
  unfolding priced_in_def by (metis mset_filter size_mset)

definition best_currency :: "(string, nat) go_map \<Rightarrow> string \<times> int \<Rightarrow> bool" where
  "best_currency counts best \<longleftrightarrow> (\<exists>n. best = (fst best, int n) \<and> (fst best, n) \<in> set counts) \<and>
     (\<forall>(cur, n) \<in> set counts. int n < snd best \<or> int n = snd best \<and> fst best \<le> cur)"

lemma better_currency_fold:
  assumes "counts \<noteq> []"
  shows "best_currency counts (fold better_currency counts ([], -1))"
  using assms
proof (induction counts rule: rev_nonempty_induct)
  case (single x)
  then show ?case by (cases x) (simp add: best_currency_def better_currency_def)
next
  case (snoc x xs)
  obtain cur n where x: "x = (cur, n)" by (cases x)
  obtain best count where fold: "fold better_currency xs ([], -1) = (best, count)" by fastforce
  have step: "fold better_currency (xs @ [x]) ([], -1) = better_currency (cur, n) (best, count)" by (simp add: fold x)
  show ?case
  proof (cases "int n > count \<or> int n = count \<and> cur < best")
    case True
    then have "fold better_currency (xs @ [x]) ([], -1) = (cur, int n)"
      unfolding step by (auto simp: better_currency_def compare_text_def)
    then show ?thesis using snoc.IH True by (fastforce simp: best_currency_def fold x)
  next
    case False
    then have "fold better_currency (xs @ [x]) ([], -1) = (best, count)"
      unfolding step by (auto simp: better_currency_def compare_text_def)
    then show ?thesis using snoc.IH False by (fastforce simp: best_currency_def fold x)
  qed
qed

lemma best_currency_unique:
  assumes "best_currency c1 b1" "best_currency c2 b2" "set c1 = set c2"
  shows "b1 = b2"
proof -
  obtain m n where b: "b1 = (fst b1, int m)" "(fst b1, m) \<in> set c1" "b2 = (fst b2, int n)" "(fst b2, n) \<in> set c2"
    using assms(1,2) unfolding best_currency_def by blast
  have "int m < snd b2 \<or> int m = snd b2 \<and> fst b2 \<le> fst b1"
    using assms(2,3) b(2) unfolding best_currency_def by fastforce
  moreover have "int n < snd b1 \<or> int n = snd b1 \<and> fst b1 \<le> fst b2"
    using assms(1,3) b(4) unfolding best_currency_def by fastforce
  ultimately show ?thesis using b(1,3) by (metis order.asym order.antisym prod.collapse snd_conv)
qed

lemma count_currencies_order:
  assumes "mset ps = mset qs"
  shows "set (count_currencies ps) = set (count_currencies qs) \<and> length (count_currencies ps) = length (count_currencies qs)"
proof -
  have "map_of (count_currencies ps) = map_of (count_currencies qs)"
    using priced_in_mset [OF assms] by (simp add: count_currencies_map fun_eq_iff)
  then have "set (count_currencies ps) = set (count_currencies qs)"
    using count_currencies_distinct by (simp add: map_of_inject_set)
  then show ?thesis using count_currencies_distinct by (metis distinct_card distinct_map)
qed

lemma price_policy_order:
  assumes "mset ps = mset qs"
  shows "evaluate_price_policy opts plan ps = evaluate_price_policy opts plan qs"
proof (cases "length (count_currencies ps) \<le> 1")
  case True
  then show ?thesis using count_currencies_order [OF assms] by (simp add: evaluate_price_policy_def)
next
  case False
  then have "count_currencies ps \<noteq> []" "count_currencies qs \<noteq> []" using count_currencies_order [OF assms] by auto
  from best_currency_unique [OF better_currency_fold [OF this(1)] better_currency_fold [OF this(2)]] show ?thesis
    using count_currencies_order [OF assms] by (simp add: evaluate_price_policy_def)
qed


section \<open>Pages\<close>

text \<open>A client that follows the cursors: it sends the cursor of the last event of a page with the next query, until
  a page is empty. The map is ranged over in another order each time.\<close>

fun product_pages :: "product_lib \<Rightarrow> scope2_options \<Rightarrow> (nat \<Rightarrow> map_order) \<Rightarrow> legacy_filter \<Rightarrow> search_plan \<Rightarrow> projection \<Rightarrow>
    nat \<Rightarrow> nat \<Rightarrow> string \<Rightarrow> product_envelope list list" where
  "product_pages lib opts orders f plan ps 0 k cursor = []"
| "product_pages lib opts orders f plan ps (Suc n) k cursor =
     (case evaluate lib opts (orders k) f (plan\<lparr>sp_cursor := cursor\<rparr>) ps of
        Inl reason \<Rightarrow> []
      | Inr page \<Rightarrow>
          if page = [] then []
          else page # product_pages lib opts orders f plan ps n (k + 1) (build_next_cursor lib (pe_event (last page))))"

definition selected_products :: "product_lib \<Rightarrow> scope2_options \<Rightarrow> legacy_filter \<Rightarrow> search_plan \<Rightarrow> projection \<Rightarrow> product_envelope list" where
  "selected_products lib opts f plan ps =
     (let products = List.filter (product_matches lib f (sp_text plan)) (map snd ps) in
      case evaluate_price_policy opts plan products of
        PriceRefused reason \<Rightarrow> []
      | PriceAllowed cur \<Rightarrow> if cur \<noteq> [] then keep_currency_cohort cur products else products)"

definition sorted_products :: "product_lib \<Rightarrow> scope2_options \<Rightarrow> legacy_filter \<Rightarrow> search_plan \<Rightarrow> projection \<Rightarrow> product_envelope list" where
  "sorted_products lib opts f plan ps = sort_key (product_key (sp_sort plan)) (selected_products lib opts f plan ps)"

text \<open>The products of a projection can be told apart, and none is priced at NaN.\<close>

definition orderly :: "projection \<Rightarrow> bool" where
  "orderly ps \<longleftrightarrow> distinct (map (\<lambda>p. ev_id (pe_event (snd p))) ps) \<and> (\<forall>p \<in> set ps. pe_price (snd p) \<noteq> FNaN)"

definition any_order :: "map_order \<Rightarrow> bool" where
  "any_order order \<longleftrightarrow> (\<forall>ps. mset (order ps) = mset ps)"

definition price_refused :: "product_lib \<Rightarrow> scope2_options \<Rightarrow> legacy_filter \<Rightarrow> search_plan \<Rightarrow> projection \<Rightarrow> bool" where
  "price_refused lib opts f plan ps = (case evaluate_price_policy opts plan
     (List.filter (product_matches lib f (sp_text plan)) (map snd ps)) of PriceRefused r \<Rightarrow> True | PriceAllowed c \<Rightarrow> False)"

lemma selected_sub: "selected_products lib opts f plan ps = List.filter (\<lambda>p. \<not> price_refused lib opts f plan ps \<and>
    product_matches lib f (sp_text plan) p \<and> (\<forall>cur. evaluate_price_policy opts plan
      (List.filter (product_matches lib f (sp_text plan)) (map snd ps)) = PriceAllowed cur \<longrightarrow> cur \<noteq> [] \<longrightarrow>
        pe_has_price p \<and> pe_currency p = cur)) (map snd ps)"
  by (auto simp: selected_products_def price_refused_def keep_currency_cohort_def Let_def conj_commute
      split: price_policy.split intro!: filter_cong)

lemma selected_orderly:
  assumes "orderly ps"
  shows "distinct (map (\<lambda>p. ev_id (pe_event p)) (selected_products lib opts f plan ps))"
    and "\<forall>p \<in> set (selected_products lib opts f plan ps). pe_price p \<noteq> FNaN"
proof -
  have "distinct (map (\<lambda>p. ev_id (pe_event p)) (map snd ps))" using assms by (simp add: orderly_def comp_def)
  then show "distinct (map (\<lambda>p. ev_id (pe_event p)) (selected_products lib opts f plan ps))"
    unfolding selected_sub by (rule distinct_map_filter)
  show "\<forall>p \<in> set (selected_products lib opts f plan ps). pe_price p \<noteq> FNaN"
    using assms unfolding selected_sub orderly_def by auto
qed

lemma evaluate_sorted:
  assumes "orderly ps" "any_order order" "\<not> price_refused lib opts f plan ps"
  shows "evaluate lib opts order f (plan\<lparr>sp_cursor := cursor\<rparr>) ps =
    Inr (take (nat (resolved_limit opts f))
      (drop (if cursor \<noteq> [] then find_cursor_start lib (sorted_products lib opts f plan ps) cursor else 0)
        (sorted_products lib opts f plan ps)))"
proof -
  let ?m = "List.filter (product_matches lib f (sp_text plan)) (map snd ps)"
  let ?o = "match_products lib order f (sp_text plan) ps"
  have "mset (map snd (order ps)) = mset (map snd ps)" using assms(2) by (simp add: any_order_def)
  then have perm: "mset ?o = mset ?m" by (simp only: match_products_def mset_filter)
  have "evaluate_price_policy opts (plan\<lparr>sp_cursor := cursor\<rparr>) ?o = evaluate_price_policy opts plan ?o"
    by (simp add: evaluate_price_policy_def Let_def)
  also have "\<dots> = evaluate_price_policy opts plan ?m" by (rule price_policy_order [OF perm])
  finally have policy: "evaluate_price_policy opts (plan\<lparr>sp_cursor := cursor\<rparr>) ?o = evaluate_price_policy opts plan ?m" .
  obtain cur where cur: "evaluate_price_policy opts plan ?m = PriceAllowed cur"
    using assms(3) by (cases "evaluate_price_policy opts plan ?m") (simp_all add: price_refused_def)
  let ?c = "\<lambda>xs. if cur \<noteq> [] then keep_currency_cohort cur xs else xs"
  have sel: "selected_products lib opts f plan ps = ?c ?m" by (simp add: selected_products_def cur Let_def)
  have "mset (List.filter h ?o) = mset (List.filter h ?m)" for h using perm by (simp only: mset_filter)
  then have "mset (?c ?o) = mset (?c ?m)" using perm by (simp only: keep_currency_cohort_def split: if_split) simp
  moreover from this have "set (?c ?o) = set (?c ?m)" by (metis set_mset_mset)
  ultimately have "sort_by_cmp (compare_products (sp_sort plan)) (?c ?o) = sorted_products lib opts f plan ps"
    unfolding sorted_products_def sel
    using sort_products_order [of "?c ?o" "?c ?m"] sort_products_key [of "?c ?o"]
      selected_orderly [OF assms(1), of lib opts f plan, unfolded sel] by metis
  then show ?thesis by (simp add: evaluate_def policy cur Let_def)
qed

lemma cursor_index_split: "i \<notin> (\<lambda>p. ev_id (pe_event p)) ` set xs \<Longrightarrow> ev_id (pe_event p) = i \<Longrightarrow>
    cursor_index i (xs @ p # ys) n = n + length xs + 1"
  by (induction xs arbitrary: n) auto

lemma cursor_index_nth:
  assumes "distinct (map (\<lambda>p. ev_id (pe_event p)) ps)" "j < length ps"
  shows "cursor_index (ev_id (pe_event (ps ! j))) ps 0 = j + 1"
proof -
  have split: "ps = take j ps @ ps ! j # drop (j + 1) ps" using assms(2) by (simp add: id_take_nth_drop)
  then have "distinct (map (\<lambda>p. ev_id (pe_event p)) (take j ps @ ps ! j # drop (j + 1) ps))" using assms(1) by simp
  then have "ev_id (pe_event (ps ! j)) \<notin> (\<lambda>p. ev_id (pe_event p)) ` set (take j ps)" by auto
  from cursor_index_split [OF this refl, of "drop (j + 1) ps" 0] show ?thesis using split assms(2) by simp
qed


lemma sorted_sub: "set (sorted_products lib opts f plan ps) \<subseteq> snd ` set ps"
proof -
  have "set (selected_products lib opts f plan ps) \<subseteq> set (map snd ps)" unfolding selected_sub by (rule filter_is_subset)
  then show ?thesis by (simp add: sorted_products_def)
qed

lemma sorted_distinct: "orderly ps \<Longrightarrow> distinct (map (\<lambda>p. ev_id (pe_event p)) (sorted_products lib opts f plan ps))"
  unfolding sorted_products_def distinct_map distinct_sort set_sort
  by (rule selected_orderly(1) [unfolded distinct_map])

lemma pages_from:
  assumes ok: "orderly ps" "\<And>k. any_order (orders k)" "\<not> price_refused lib opts f plan ps" "0 < resolved_limit opts f"
    and codec: "\<And>p. p \<in> snd ` set ps \<Longrightarrow> pl_encode_cursor lib (ev_id (pe_event p)) \<noteq> [] \<and>
      pl_decode_cursor lib (pl_encode_cursor lib (ev_id (pe_event p))) = Some (ev_id (pe_event p))"
  defines "S \<equiv> sorted_products lib opts f plan ps"
  assumes at: "j \<le> length S" "(if cursor \<noteq> [] then find_cursor_start lib S cursor else 0) = j" and n: "length S - j < n"
  shows "concat (product_pages lib opts orders f plan ps n k cursor) = drop j S \<and>
    (\<forall>page \<in> set (product_pages lib opts orders f plan ps n k cursor). int (length page) \<le> resolved_limit opts f)"
  using at n
proof (induction n arbitrary: k j cursor)
  case (Suc n)
  let ?l = "nat (resolved_limit opts f)"
  let ?page = "take ?l (drop j S)"
  have ev: "evaluate lib opts (orders k) f (plan\<lparr>sp_cursor := cursor\<rparr>) ps = Inr ?page"
    using evaluate_sorted [OF ok(1) ok(2) ok(3), of k cursor] unfolding S_def [symmetric] Suc.prems(2) .
  show ?case
  proof (cases "j = length S")
    case True
    then show ?thesis by (simp add: ev)
  next
    case False
    let ?j = "min (j + ?l) (length S)"
    let ?p = "S ! (?j - 1)"
    have l: "0 < ?l" using ok(4) by simp
    then have some: "?page \<noteq> []" and j: "j < ?j" "?j \<le> length S" using False Suc.prems(1) by auto
    have len: "length ?page = ?j - j" by auto
    have "last ?page = ?page ! (?j - j - 1)" using some len by (metis last_conv_nth)
    also have "\<dots> = S ! (j + (?j - j - 1))"
    proof -
      have "?j - j - 1 < ?l" using l by linarith
      then show ?thesis using Suc.prems(1) by (simp add: nth_drop)
    qed
    also have "j + (?j - j - 1) = ?j - 1" using j by linarith
    finally have lastp: "last ?page = ?p" .
    have pos: "?j - 1 < length S" using j by linarith
    then have "?p \<in> set S" by (rule nth_mem)
    then have p: "?p \<in> snd ` set ps" using sorted_sub unfolding S_def by blast
    have "distinct (map (\<lambda>p. ev_id (pe_event p)) S)" unfolding S_def by (rule sorted_distinct [OF ok(1)])
    from cursor_index_nth [OF this, of "?j - 1"] have "cursor_index (ev_id (pe_event ?p)) S 0 = ?j"
      using j pos by linarith
    then have start: "(if build_next_cursor lib (pe_event ?p) \<noteq> []
        then find_cursor_start lib S (build_next_cursor lib (pe_event ?p)) else 0) = ?j"
      using codec [OF p] by (simp add: build_next_cursor_def find_cursor_start_def)
    have "length S - ?j < n" using j Suc.prems(3) by linarith
    from Suc.IH [OF j(2) start this, of "k + 1"] lastp some ev
    have "concat (product_pages lib opts orders f plan ps (Suc n) k cursor) = ?page @ drop ?j S \<and>
      (\<forall>page \<in> set (product_pages lib opts orders f plan ps (Suc n) k cursor). int (length page) \<le> resolved_limit opts f)"
      using ok(4) by simp
    moreover have "drop ?j S = drop ?l (drop j S)" by (simp add: min_def add.commute)
    then have "?page @ drop ?j S = drop j S" by (metis append_take_drop_id)
    ultimately show ?thesis by metis
  qed
qed simp


text \<open>C14: Following the cursors enumerates a product query. As long as the projection does not change, a client
  that repeats a query with the cursor of the last event it got receives, page by page and then an empty
  page, exactly the matching products that are not deleted, each once, in the order of the sort it asked
  for; no page is longer than the limit in force, which is at most the maximum or the default. The query
  must not be one the price policy refuses, and the cursor codec must give back what it encoded. The order
  in which the map is ranged over, which differs from query to query, makes no difference. Prices must not
  be NaN, which the code lets through: then the comparison is not an order and nothing of this holds.
\<close>

theorem product_pages_enumerate:
  assumes "orderly ps" "\<And>k. any_order (orders k)" "\<not> price_refused lib opts f plan ps"
    and "\<And>p. p \<in> snd ` set ps \<Longrightarrow> pl_encode_cursor lib (ev_id (pe_event p)) \<noteq> [] \<and>
      pl_decode_cursor lib (pl_encode_cursor lib (ev_id (pe_event p))) = Some (ev_id (pe_event p))"
    and "length ps < n"
  shows "concat (product_pages lib (with_scope2_defaults opts) orders f plan ps n 0 []) =
      sort_key (product_key (sp_sort plan)) (selected_products lib (with_scope2_defaults opts) f plan ps) \<and>
    (\<forall>page \<in> set (product_pages lib (with_scope2_defaults opts) orders f plan ps n 0 []).
      int (length page) \<le> resolved_limit (with_scope2_defaults opts) f) \<and>
    (resolved_limit (with_scope2_defaults opts) f \<le> so_max_query_limit (with_scope2_defaults opts) \<or>
     resolved_limit (with_scope2_defaults opts) f \<le> so_default_query_limit (with_scope2_defaults opts))"
proof -
  let ?o = "with_scope2_defaults opts"
  have policy: "evaluate_price_policy ?o plan xs = evaluate_price_policy opts plan xs" for xs
    by (simp add: evaluate_price_policy_def with_scope2_defaults_def Let_def)
  then have ok: "\<not> price_refused lib ?o f plan ps" using assms(3) by (simp add: price_refused_def)
  have "length (sorted_products lib ?o f plan ps) \<le> length (map snd ps)"
    unfolding sorted_products_def length_sort selected_sub by (rule length_filter_le)
  then have "length (sorted_products lib ?o f plan ps) - 0 < n" using assms(5) by simp
  moreover have lim: "0 < resolved_limit ?o f" by (simp add: resolved_limit_def with_scope2_defaults_def)
  ultimately have "concat (product_pages lib ?o orders f plan ps n 0 []) = drop 0 (sorted_products lib ?o f plan ps) \<and>
    (\<forall>page \<in> set (product_pages lib ?o orders f plan ps n 0 []). int (length page) \<le> resolved_limit ?o f)"
    by (intro pages_from [OF assms(1,2) ok _ assms(4)]) auto
  moreover have "resolved_limit ?o f \<le> so_max_query_limit ?o \<or> resolved_limit ?o f \<le> so_default_query_limit ?o"
    by (auto simp: resolved_limit_def)
  ultimately show ?thesis by (fastforce simp: sorted_products_def)
qed

definition demo_product_lib :: product_lib where
  "demo_product_lib = legacy_lib.extend demo_lib \<lparr>pl_parse_float = (\<lambda>s. if s = [] then None else Some (FNum (int (length s)))),
     pl_json_float = (\<lambda>_. FNum 0), pl_float_int = rank, pl_parse_int = (\<lambda>_. None), pl_json_object = (\<lambda>_. None),
     pl_d_tag = (\<lambda>_. []), pl_lower = id, pl_upper = id,
     pl_encode_cursor = (\<lambda>i. CHR ''c'' # i), pl_decode_cursor = (\<lambda>c. Some (drop 1 c))\<rparr>"

definition demo_product :: "string \<Rightarrow> int \<Rightarrow> string \<Rightarrow> string \<Rightarrow> event" where
  "demo_product i t d price = \<lparr>ev_id = i, ev_pubkey = ''aa'', ev_created_at = t, ev_kind = 30402,
     ev_tags = [[''d'', d], [''price'', price, ''SAT'']], ev_content = [], ev_sig = []\<rparr>"

definition demo_projection :: projection where
  "demo_projection = fold (apply_event demo_product_lib)
     [demo_product ''01'' 5 ''x'' ''333'', demo_product ''02'' 6 ''y'' ''1'', demo_product ''03'' 7 ''z'' ''22''] []"

definition demo_options :: scope2_options where
  "demo_options = \<lparr>so_max_query_limit = 2, so_default_query_limit = 1, so_max_projection_scan = 0,
     so_allow_mixed_currency_sort = False, so_enable_nip50 = True, so_gift_wrap_protection = GiftWrapProtectionEnforce\<rparr>"

definition demo_product_filter :: legacy_filter where
  "demo_product_filter = demo_wrap_filter\<lparr>lf_kinds := [30402], lf_limit := 2\<rparr>"

definition demo_plan :: search_plan where
  "demo_plan = \<lparr>sp_sort = SortPriceAsc, sp_text = [], sp_cursor = [], sp_partial = False\<rparr>"

theorem product_pages_enumerate_witness:
  "map (\<lambda>p. ev_id (pe_event p)) (concat (product_pages demo_product_lib (with_scope2_defaults demo_options) (\<lambda>_. rev)
     demo_product_filter demo_plan demo_projection 4 0 [])) = [''02'', ''03'', ''01'']"
proof -
  have orderly: "orderly demo_projection" by code_simp
  have rev: "any_order rev" by (simp add: any_order_def)
  have policy: "\<not> price_refused demo_product_lib demo_options demo_product_filter demo_plan demo_projection" by code_simp
  have codec: "pl_encode_cursor demo_product_lib (ev_id (pe_event p)) \<noteq> [] \<and>
      pl_decode_cursor demo_product_lib (pl_encode_cursor demo_product_lib (ev_id (pe_event p))) = Some (ev_id (pe_event p))" for p
    by (simp add: demo_product_lib_def legacy_lib.extend_def)
  have len: "length demo_projection < 4" by code_simp
  have "map (\<lambda>p. ev_id (pe_event p)) (sort_key (product_key (sp_sort demo_plan))
      (selected_products demo_product_lib (with_scope2_defaults demo_options) demo_product_filter demo_plan demo_projection)) =
      [''02'', ''03'', ''01'']" by code_simp
  then show ?thesis
    using product_pages_enumerate [where orders = "\<lambda>_. rev", OF orderly rev policy codec len] by simp
qed


section \<open>The projection and the order of events\<close>

text \<open>Every entry stands at the address of its event.\<close>

definition projected :: "product_lib \<Rightarrow> projection \<Rightarrow> bool" where
  "projected lib ps \<longleftrightarrow> distinct (map fst ps) \<and> (\<forall>(a, p) \<in> set ps. a = product_address lib (pe_event p))"

lemma pe_build [simp]: "pe_address (build_product_envelope lib ev) = product_address lib ev"
  "pe_event (build_product_envelope lib ev) = ev" "pe_tombstoned (build_product_envelope lib ev) = False"
  "(build_product_envelope lib ev)\<lparr>pe_tombstoned := False\<rparr> = build_product_envelope lib ev"
  by (simp_all add: build_product_envelope_def split: prod.split)

lemma projected_update:
  assumes "projected lib ps" "product_address lib (pe_event p) = a"
  shows "projected lib (AList.update a p ps)"
proof -
  have d: "distinct (map fst (AList.update a p ps))" using assms(1) by (simp add: projected_def distinct_update)
  have "b = product_address lib (pe_event q)" if "(b, q) \<in> set (AList.update a p ps)" for b q
  proof -
    have "map_of (AList.update a p ps) b = Some q" by (rule map_of_is_SomeI [OF d that])
    then show ?thesis using assms map_of_SomeD [of ps b q] by (auto simp: projected_def split: if_splits)
  qed
  then show ?thesis using d by (auto simp: projected_def)
qed

lemma projected_map_of: "projected lib ps \<Longrightarrow> map_of ps a = Some p \<Longrightarrow> a = product_address lib (pe_event p)"
proof -
  assume "projected lib ps" "map_of ps a = Some p"
  then have "case (a, p) of (a, p) \<Rightarrow> a = product_address lib (pe_event p)"
    unfolding projected_def by (blast dest: map_of_SomeD)
  then show ?thesis by simp
qed

lemma upsert_map: "map_of (upsert_product lib ev ps) =
    (case map_of ps (product_address lib ev) of
       Some cur \<Rightarrow> if event_beats_current ev (pe_event cur)
         then (map_of ps)(product_address lib ev \<mapsto> build_product_envelope lib ev) else map_of ps
     | None \<Rightarrow> (map_of ps)(product_address lib ev \<mapsto> build_product_envelope lib ev))"
  by (simp add: upsert_product_def Let_def split: option.split)

lemma upsert_projected: "projected lib ps \<Longrightarrow> projected lib (upsert_product lib ev ps)"
  by (auto simp: upsert_product_def Let_def intro: projected_update split: option.split)

lemma tombstone_address_projected: "projected lib ps \<Longrightarrow> projected lib (tombstone_address a t ps)"
  by (auto simp: tombstone_address_def intro!: projected_update dest: projected_map_of split: option.split)

lemma tombstone_ids_projected: "projected lib ps \<Longrightarrow> projected lib (tombstone_ids i ps)"
proof -
  assume p: "projected lib ps"
  have keys: "map fst (tombstone_ids i ps) = map fst ps" by (induction ps) (auto simp: tombstone_ids_def)
  have "\<forall>(a, p) \<in> set (tombstone_ids i ps). a = product_address lib (pe_event p)"
    using p by (auto simp: projected_def tombstone_ids_def)
  then show ?thesis using p keys by (simp add: projected_def)
qed

lemma delete_tag_projected: "projected lib ps \<Longrightarrow> projected lib (apply_delete_tag lib t tag ps)"
  by (auto simp: apply_delete_tag_def tombstone_ids_projected tombstone_address_projected split: option.split)

lemma delete_projected: "projected lib ps \<Longrightarrow> projected lib (apply_delete_event lib ev ps)"
proof -
  have "projected lib ps \<Longrightarrow> projected lib (fold (apply_delete_tag lib t) tags ps)" for t tags
    by (induction tags arbitrary: ps) (simp_all add: delete_tag_projected)
  then show "projected lib ps \<Longrightarrow> ?thesis" by (simp add: apply_delete_event_def)
qed

lemma apply_event_projected: "projected lib ps \<Longrightarrow> projected lib (apply_event lib ev ps)"
  by (simp add: apply_event_def upsert_projected delete_projected)

lemma fold_projected: "projected lib ps \<Longrightarrow> projected lib (fold (apply_event lib) es ps)"
  by (induction es arbitrary: ps) (simp_all add: apply_event_projected)

text \<open>The winner of an address among events: the newest, and of several of the same second the one with the
  smallest id.\<close>

definition winner :: "product_lib \<Rightarrow> event set \<Rightarrow> string \<Rightarrow> event \<Rightarrow> bool" where
  "winner lib es a e \<longleftrightarrow> e \<in> es \<and> product_address lib e = a \<and>
     (\<forall>e' \<in> es. product_address lib e' = a \<longrightarrow> e' = e \<or> event_beats_current e e')"

definition shows_winners :: "product_lib \<Rightarrow> event set \<Rightarrow> projection \<Rightarrow> bool" where
  "shows_winners lib es ps \<longleftrightarrow>
     (\<forall>a p. map_of ps a = Some p \<longleftrightarrow> (\<exists>e. winner lib es a e \<and> p = build_product_envelope lib e)) \<and>
     (\<forall>a. map_of ps a = None \<longrightarrow> (\<forall>e \<in> es. product_address lib e \<noteq> a))"

lemma beats_total: "ev_id a \<noteq> ev_id b \<Longrightarrow> event_beats_current a b \<or> event_beats_current b a"
  by (auto simp: event_beats_current_def)

lemma beats_asym: "event_beats_current a b \<Longrightarrow> \<not> event_beats_current b a"
  by (auto simp: event_beats_current_def split: if_splits)

lemma beats_trans: "event_beats_current a b \<Longrightarrow> event_beats_current b c \<Longrightarrow> event_beats_current a c"
  by (auto simp: event_beats_current_def split: if_splits)

lemma winning_unique: "winner lib es a e \<Longrightarrow> winner lib es a e' \<Longrightarrow> e = e'"
  using beats_asym by (auto simp: winner_def)

lemma winner_insert_other: "product_address lib ev \<noteq> a \<Longrightarrow> winner lib (insert ev es) a e \<longleftrightarrow> winner lib es a e"
  by (auto simp: winner_def)

lemma shows_winners_step:
  assumes shown: "shows_winners lib es ps" and ids: "\<And>e. e \<in> es \<Longrightarrow> ev_id e = ev_id ev \<Longrightarrow> e = ev"
  shows "shows_winners lib (insert ev es) (upsert_product lib ev ps)"
proof -
  let ?a = "product_address lib ev"
  have win: "(\<exists>e. winner lib (insert ev es) ?a e \<and> p = build_product_envelope lib e) \<longleftrightarrow>
      p = build_product_envelope lib w" if "winner lib (insert ev es) ?a w" for p w
    using that winning_unique by blast
  have "map_of (upsert_product lib ev ps) ?a = Some p \<longleftrightarrow>
      (\<exists>e. winner lib (insert ev es) ?a e \<and> p = build_product_envelope lib e)" for p
  proof (cases "map_of ps ?a")
    case None
    then have "winner lib (insert ev es) ?a ev" using shown by (auto simp: shows_winners_def winner_def)
    then show ?thesis using win [of ev p] None by (auto simp: upsert_map)
  next
    case (Some cur)
    then obtain c where c: "winner lib es ?a c" "cur = build_product_envelope lib c"
      using shown by (auto simp: shows_winners_def)
    show ?thesis
    proof (cases "event_beats_current ev c")
      case True
      then have "winner lib (insert ev es) ?a ev" using c(1) beats_trans by (auto simp: winner_def)
      then show ?thesis using win [of ev p] Some c True by (auto simp: upsert_map)
    next
      case False
      then have "c = ev \<or> event_beats_current c ev" using beats_total [of c ev] ids [of c] c(1) by (auto simp: winner_def)
      then have "winner lib (insert ev es) ?a c" using c(1) by (auto simp: winner_def)
      then show ?thesis using win [of c p] Some c False by (auto simp: upsert_map)
    qed
  qed
  moreover have "map_of (upsert_product lib ev ps) a = map_of ps a" if "a \<noteq> ?a" for a
    using that by (simp add: upsert_map split: option.split)
  moreover have "map_of (upsert_product lib ev ps) ?a \<noteq> None" by (simp add: upsert_map split: option.split)
  ultimately have "map_of (upsert_product lib ev ps) a = Some p \<longleftrightarrow>
      (\<exists>e. winner lib (insert ev es) a e \<and> p = build_product_envelope lib e)" for a p
    using shown winner_insert_other [of lib ev a es] by (cases "a = ?a") (simp_all add: shows_winners_def)
  moreover have "\<forall>e \<in> insert ev es. product_address lib e \<noteq> a" if "map_of (upsert_product lib ev ps) a = None" for a
  proof (cases "a = ?a")
    case True
    then show ?thesis using that by (simp add: upsert_map split: option.splits if_splits)
  next
    case False
    then have "map_of ps a = None" using that by (simp add: upsert_map split: option.splits if_splits)
    then show ?thesis using shown False by (auto simp: shows_winners_def)
  qed
  ultimately show ?thesis unfolding shows_winners_def by blast
qed


lemma shows_winners_fold:
  assumes "inj_on ev_id (set es)" "\<forall>e \<in> set es. ev_kind e = 30402"
  shows "shows_winners lib (set es) (fold (apply_event lib) es [])"
  using assms
proof (induction es rule: rev_induct)
  case Nil
  then show ?case by (simp add: shows_winners_def winner_def)
next
  case (snoc e es)
  then have "shows_winners lib (set es) (fold (apply_event lib) es [])" by (auto simp: inj_on_def)
  moreover have "x = e" if "x \<in> set es" "ev_id x = ev_id e" for x using snoc.prems(1) that by (auto simp: inj_on_def)
  ultimately have "shows_winners lib (insert e (set es)) (upsert_product lib e (fold (apply_event lib) es []))"
    by (rule shows_winners_step)
  moreover have "apply_event lib e ps = upsert_product lib e ps" for ps using snoc.prems(2) by (simp add: apply_event_def)
  ultimately show ?case by simp
qed

text \<open>C18: What the projection shows of product events does not depend on the order they arrive in, nor on how
  often each is applied: at every address stands what its winning revision says, the newest one, and of
  several from the same second the one with the smallest id.
\<close>

theorem projection_order_free:
  assumes "inj_on ev_id (set es)" "\<forall>e \<in> set es. ev_kind e = 30402" "set es' = set es"
  shows "map_of (fold (apply_event lib) es' []) = map_of (fold (apply_event lib) es []) \<and>
    (\<forall>a p. map_of (fold (apply_event lib) es []) a = Some p \<longleftrightarrow>
      (\<exists>e. winner lib (set es) a e \<and> p = build_product_envelope lib e))"
proof -
  have a: "shows_winners lib (set es) (fold (apply_event lib) es [])" using assms by (intro shows_winners_fold)
  have b: "shows_winners lib (set es) (fold (apply_event lib) es' [])"
    using shows_winners_fold [of es' lib] assms by simp
  have "map_of (fold (apply_event lib) es' []) k = map_of (fold (apply_event lib) es []) k" for k
    using a b unfolding shows_winners_def by (metis not_Some_eq)
  then show ?thesis using a by (auto simp: shows_winners_def)
qed

theorem projection_order_free_witness:
  "map_of (fold (apply_event demo_product_lib) [demo_product ''02'' 6 ''y'' ''1'', demo_product ''01'' 5 ''x'' ''333'',
      demo_product ''02'' 6 ''y'' ''1''] []) =
   map_of (fold (apply_event demo_product_lib) [demo_product ''01'' 5 ''x'' ''333'', demo_product ''02'' 6 ''y'' ''1''] [])"
proof -
  let ?es = "[demo_product ''01'' 5 ''x'' ''333'', demo_product ''02'' 6 ''y'' ''1'']"
  have inj: "inj_on ev_id (set ?es)" by (simp add: inj_on_def demo_product_def)
  have kinds: "\<forall>e \<in> set ?es. ev_kind e = 30402" by (simp add: demo_product_def)
  have same: "set [demo_product ''02'' 6 ''y'' ''1'', demo_product ''01'' 5 ''x'' ''333'', demo_product ''02'' 6 ''y'' ''1''] = set ?es"
    by (simp only: list.set) blast
  show ?thesis by (rule conjunct1 [OF projection_order_free [OF inj kinds same]])
qed

section \<open>Deletions\<close>

definition hidden_at :: "string \<Rightarrow> event \<Rightarrow> projection \<Rightarrow> bool" where
  "hidden_at a ev ps \<longleftrightarrow> (\<exists>p. map_of ps a = Some p \<and> pe_tombstoned p \<and> pe_event p = ev)"

lemma tombstone_ids_map: "map_of (tombstone_ids i ps) a =
    map_option (\<lambda>p. if ev_id (pe_event p) = i then p\<lparr>pe_tombstoned := True\<rparr> else p) (map_of ps a)"
  by (simp add: tombstone_ids_def map_of_map)

lemma tombstone_address_map: "map_of (tombstone_address b t ps) a =
    (if a = b then map_option (\<lambda>p. if ev_created_at (pe_event p) \<le> t then p\<lparr>pe_tombstoned := True\<rparr> else p) (map_of ps a)
     else map_of ps a)"
  by (simp add: tombstone_address_def split: option.split)

definition tag_deletes :: "product_lib \<Rightarrow> int \<Rightarrow> string list \<Rightarrow> string \<Rightarrow> event \<Rightarrow> bool" where
  "tag_deletes lib t tag a ev \<longleftrightarrow> 2 \<le> length tag \<and>
     (tag ! 0 = ''e'' \<and> ll_id lib (tag ! 1) = Some (ev_id ev) \<or>
      tag ! 0 = ''a'' \<and> canonical_address lib (tag ! 1) = Some a \<and> ev_created_at ev \<le> t)"

lemma delete_tag_map: "map_of (apply_delete_tag lib t tag ps) a =
    map_option (\<lambda>p. if tag_deletes lib t tag a (pe_event p) then p\<lparr>pe_tombstoned := True\<rparr> else p) (map_of ps a)"
  by (cases "map_of ps a") (auto simp: apply_delete_tag_def tag_deletes_def tombstone_ids_map tombstone_address_map
      split: option.split)

lemma hidden_tag: "hidden_at a ev ps \<Longrightarrow> hidden_at a ev (apply_delete_tag lib t tag ps)"
proof -
  assume "hidden_at a ev ps"
  then obtain p where "map_of ps a = Some p" "pe_tombstoned p" "pe_event p = ev" by (auto simp: hidden_at_def)
  then show ?thesis by (simp add: hidden_at_def delete_tag_map)
qed

lemma hidden_tags: "hidden_at a ev ps \<Longrightarrow> hidden_at a ev (fold (apply_delete_tag lib t) tags ps)"
  by (induction tags arbitrary: ps) (simp_all add: hidden_tag)

text \<open>Only a better product event at the address brings the product back.\<close>

definition revives :: "product_lib \<Rightarrow> string \<Rightarrow> event \<Rightarrow> event \<Rightarrow> bool" where
  "revives lib a ev e \<longleftrightarrow> ev_kind e = 30402 \<and> product_address lib e = a \<and> event_beats_current e ev"

lemma hidden_upsert: "hidden_at a ev ps \<Longrightarrow> \<not> (product_address lib e = a \<and> event_beats_current e ev) \<Longrightarrow>
    hidden_at a ev (upsert_product lib e ps)"
  by (auto simp: hidden_at_def upsert_map split: option.split)

lemma hidden_event: "hidden_at a ev ps \<Longrightarrow> \<not> revives lib a ev e \<Longrightarrow> hidden_at a ev (apply_event lib e ps)"
  using hidden_upsert [of a ev ps lib e] hidden_tags [of a ev ps lib "ev_created_at e" "ev_tags e"]
  by (simp add: apply_event_def revives_def apply_delete_event_def)

lemma hidden_events: "hidden_at a ev ps \<Longrightarrow> \<forall>e \<in> set es. \<not> revives lib a ev e \<Longrightarrow> hidden_at a ev (fold (apply_event lib) es ps)"
  by (induction es arbitrary: ps) (simp_all add: hidden_event)

lemma delete_tags_hide:
  assumes "[''a'', raw] \<in> set tags" "canonical_address lib raw = Some a" "map_of ps a = Some p"
    and "ev_created_at (pe_event p) \<le> t"
  shows "hidden_at a (pe_event p) (fold (apply_delete_tag lib t) tags ps)"
  using assms(1,3,4)
proof (induction tags arbitrary: ps p)
  case (Cons tag tags)
  obtain q where q: "map_of (apply_delete_tag lib t tag ps) a = Some q" "pe_event q = pe_event p"
    using Cons.prems(2) by (simp add: delete_tag_map)
  show ?case
  proof (cases "tag = [''a'', raw]")
    case True
    then have "hidden_at a (pe_event p) (apply_delete_tag lib t tag ps)"
      using Cons.prems(2,3) assms(2) by (simp add: hidden_at_def delete_tag_map tag_deletes_def)
    then show ?thesis by (simp add: hidden_tags)
  next
    case False
    then show ?thesis using Cons.IH [OF _ q(1)] Cons.prems(1,3) q(2) by simp
  qed
qed simp

lemma hidden_not_matched:
  assumes "projected lib ps" "hidden_at a ev ps" "any_order order"
  shows "ev \<notin> pe_event ` set (match_products lib order f text ps)"
proof
  assume "ev \<in> pe_event ` set (match_products lib order f text ps)"
  moreover have "set (order ps) = set ps" using assms(3) by (metis any_order_def set_mset_mset)
  ultimately obtain b q where q: "(b, q) \<in> set ps" "\<not> pe_tombstoned q" "pe_event q = ev"
    by (auto simp: match_products_def product_matches_def Let_def split: if_splits)
  then have at: "map_of ps b = Some q" using assms(1) by (simp add: projected_def)
  from projected_map_of [OF assms(1) at] have b: "b = product_address lib ev" using q(3) by simp
  obtain p where p: "map_of ps a = Some p" "pe_tombstoned p" "pe_event p = ev" using assms(2) by (auto simp: hidden_at_def)
  from projected_map_of [OF assms(1) p(1)] have "a = b" using p(3) b by simp
  then show False using at p q(2) by simp
qed


lemma set_sort_by_cmp: "set (sort_by_cmp cmp xs) = set xs"
proof -
  have "set (insert_by cmp x ys) = insert x (set ys)" for x ys by (induction ys) auto
  then show ?thesis by (induction xs) (simp_all add: sort_by_cmp_def)
qed

lemma evaluate_sub: "evaluate lib opts order f plan ps = Inr page \<Longrightarrow>
    set page \<subseteq> set (match_products lib order f (sp_text plan) ps)"
proof -
  assume ev: "evaluate lib opts order f plan ps = Inr page"
  let ?m = "match_products lib order f (sp_text plan) ps"
  obtain cur where cur: "evaluate_price_policy opts plan ?m = PriceAllowed cur"
    using ev by (cases "evaluate_price_policy opts plan ?m") (simp_all add: evaluate_def Let_def)
  let ?c = "if cur \<noteq> [] then keep_currency_cohort cur ?m else ?m"
  have "set page \<subseteq> set (sort_by_cmp (compare_products (sp_sort plan)) ?c)"
    using ev set_take_subset set_drop_subset by (fastforce simp: evaluate_def cur Let_def split: if_splits)
  also have "\<dots> \<subseteq> set ?m" by (auto simp: set_sort_by_cmp keep_currency_cohort_def)
  finally show ?thesis .
qed

lemma projection_projected: "projected lib (fold (apply_event lib) es [])"
  by (rule fold_projected) (simp add: projected_def)

text \<open>C12: Anyone can take any product out of the product queries. The relay stores a deletion and applies it to
  the projection before it checks who signed it, and the projection does not check it: a deletion signed by
  whatever key that names the address of a product and is not older than it hides the product, and it stays
  hidden from every product query, whatever is stored later, until its author publishes a newer revision.
\<close>

theorem strangers_hide_products:
  assumes "map_of (fold (apply_event lib) es []) a = Some p"
    and "ev_kind del = 5" "ev_pubkey del \<noteq> ev_pubkey (pe_event p)"
    and "[''a'', raw] \<in> set (ev_tags del)" "canonical_address lib raw = Some a" "ev_created_at (pe_event p) \<le> ev_created_at del"
    and "\<forall>e \<in> set later. \<not> revives lib a (pe_event p) e"
    and "is_product_query f" "parse_search_plan (lf_search f) = Some plan" "any_order order"
  shows "pe_event p \<notin> set (wrap_product_queries lib opts order base (fold (apply_event lib) (es @ del # later) []) f)"
proof -
  let ?ps = "fold (apply_event lib) es []" and ?qs = "fold (apply_event lib) (es @ del # later) []"
  have "hidden_at a (pe_event p) (apply_event lib del ?ps)"
    using delete_tags_hide [OF assms(4,5,1,6)] assms(2) by (simp add: apply_event_def apply_delete_event_def)
  from hidden_events [OF this assms(7)] have "hidden_at a (pe_event p) ?qs" by simp
  from hidden_not_matched [OF projection_projected this assms(10)]
  have none: "pe_event p \<notin> pe_event ` set (match_products lib order g needle ?qs)" for g needle .
  have "pe_event p \<notin> pe_event ` set page"
    if "evaluate lib opts' order (apply_request_bounds opts' f) plan ?qs = Inr page" for opts' page
    using none evaluate_sub [OF that] by blast
  then show ?thesis using assms(8,9) by (auto simp: wrap_product_queries_def Let_def split: sum.split)
qed

definition demo_address_lib :: product_lib where
  "demo_address_lib = demo_product_lib\<lparr>pl_d_tag := (\<lambda>_. ''x'')\<rparr>"

definition demo_deletion :: event where
  "demo_deletion = \<lparr>ev_id = ''09'', ev_pubkey = ''bb'', ev_created_at = 9, ev_kind = 5,
     ev_tags = [[''a'', ''30402:aa:x'']], ev_content = [], ev_sig = []\<rparr>"

lemma demo_canonical: "canonical_address demo_address_lib ''30402:aa:x'' = Some (address_text 30402 ''aa'' ''x'')"
  by (simp add: canonical_address_def cut_at_def go_atoi_def byte_def int64_range_def Let_def demo_address_lib_def
      demo_product_lib_def demo_lib_def legacy_lib.extend_def to_lower_def lower_char_def)

lemma demo_address: "product_address demo_address_lib (demo_product ''01'' 5 ''x'' ''333'') = address_text 30402 ''aa'' ''x''"
  by (simp add: product_address_def demo_address_lib_def demo_product_def Let_def)

lemma demo_projected: "map_of (fold (apply_event demo_address_lib) [demo_product ''01'' 5 ''x'' ''333''] [])
    (address_text 30402 ''aa'' ''x'') = Some (build_product_envelope demo_address_lib (demo_product ''01'' 5 ''x'' ''333''))"
  by (simp add: apply_event_def upsert_map demo_address) (simp add: demo_product_def)

theorem strangers_hide_products_witness:
  "demo_product ''01'' 5 ''x'' ''333'' \<notin> set (wrap_product_queries demo_address_lib demo_options id (\<lambda>_. [])
     (fold (apply_event demo_address_lib) [demo_product ''01'' 5 ''x'' ''333'', demo_deletion] [])
     (demo_product_filter\<lparr>lf_search := ''conduit-l2:q=''\<rparr>))"
proof -
  have "\<exists>plan. parse_search_plan (lf_search (demo_product_filter\<lparr>lf_search := ''conduit-l2:q=''\<rparr>)) = Some plan"
    by (simp add: parse_search_plan_def has_prefix_def Let_def)
  then obtain plan where plan: "parse_search_plan (lf_search (demo_product_filter\<lparr>lf_search := ''conduit-l2:q=''\<rparr>)) = Some plan" ..
  have del: "ev_kind demo_deletion = 5" "[''a'', ''30402:aa:x''] \<in> set (ev_tags demo_deletion)"
    by (simp_all add: demo_deletion_def)
  have other: "ev_pubkey demo_deletion \<noteq> ev_pubkey (pe_event (build_product_envelope demo_address_lib (demo_product ''01'' 5 ''x'' ''333'')))"
    "ev_created_at (pe_event (build_product_envelope demo_address_lib (demo_product ''01'' 5 ''x'' ''333''))) \<le> ev_created_at demo_deletion"
    by (simp_all add: demo_deletion_def demo_product_def)
  have query: "is_product_query (demo_product_filter\<lparr>lf_search := ''conduit-l2:q=''\<rparr>)" by code_simp
  have order: "any_order id" by (simp add: any_order_def)
  from strangers_hide_products [OF demo_projected del(1) other(1) del(2) demo_canonical other(2) _ query plan order, of "[]"]
  show ?thesis by simp
qed

text \<open>C19: A restart can hide a product that was visible. A deletion that arrives before the product it names is
  not remembered, so the product is shown when it arrives; but the projection is rebuilt with all events in
  the order of their times, and a deletion from the same second or later then hides the product.
\<close>

theorem restart_hides_product:
  assumes "ev_kind ev = 30402" "ev_kind del = 5"
    and "[''a'', raw] \<in> set (ev_tags del)" "canonical_address lib raw = Some (product_address lib ev)"
    and "ev_created_at ev \<le> ev_created_at del"
  shows "(\<exists>p. map_of (fold (apply_event lib) [del, ev] []) (product_address lib ev) = Some p \<and> \<not> pe_tombstoned p \<and> pe_event p = ev) \<and>
    hidden_at (product_address lib ev) ev (seed_projection lib [del, ev])"
proof
  have "fold (apply_delete_tag lib t) tags [] = []" for t tags
    by (induction tags) (auto simp: apply_delete_tag_def tombstone_ids_def tombstone_address_def split: option.split)
  then have "fold (apply_event lib) [del, ev] [] = upsert_product lib ev []"
    using assms(1,2) by (simp add: apply_event_def apply_delete_event_def)
  then show "\<exists>p. map_of (fold (apply_event lib) [del, ev] []) (product_address lib ev) = Some p \<and> \<not> pe_tombstoned p \<and> pe_event p = ev"
    by (simp add: upsert_map)
  have "sort_by_cmp compare_seed_events [del, ev] = [ev, del]"
    using assms(1,2,5) by (simp add: sort_by_cmp_def compare_seed_events_def)
  then have seed: "seed_projection lib [del, ev] = fold (apply_delete_tag lib (ev_created_at del)) (ev_tags del) (upsert_product lib ev [])"
    using assms(1,2) by (simp add: seed_projection_def apply_event_def apply_delete_event_def)
  have "map_of (upsert_product lib ev []) (product_address lib ev) = Some (build_product_envelope lib ev)" by (simp add: upsert_map)
  from delete_tags_hide [OF assms(3,4) this] show "hidden_at (product_address lib ev) ev (seed_projection lib [del, ev])"
    using assms(5) by (simp add: seed)
qed

theorem restart_hides_product_witness:
  "hidden_at (address_text 30402 ''aa'' ''x'') (demo_product ''01'' 5 ''x'' ''333'')
     (seed_projection demo_address_lib [demo_deletion, demo_product ''01'' 5 ''x'' ''333''])"
proof -
  have "ev_kind (demo_product ''01'' 5 ''x'' ''333'') = 30402" "ev_kind demo_deletion = 5"
    "[''a'', ''30402:aa:x''] \<in> set (ev_tags demo_deletion)"
    "ev_created_at (demo_product ''01'' 5 ''x'' ''333'') \<le> ev_created_at demo_deletion"
    by (simp_all add: demo_deletion_def demo_product_def)
  from conjunct2 [OF restart_hides_product [OF this(1,2,3) _ this(4), of demo_address_lib]] show ?thesis
    by (simp add: demo_canonical demo_address)
qed

end
