(* ===== verification/Legacy_Sync.thy ===== *)
theory Legacy_Sync
  imports Legacy_Products
begin

text \<open>
  The earlier relay's import of products from other relays, \<open>sync.go\<close>: which events are imported, the
  backfill in windows of time and its watermark, and the filter of the live subscription.

  Times are nanoseconds. The backfill runs alone here: in the code the live subscription may import events
  meanwhile, which the counts of a window would then include; its start and its end read the clock
  separately, here once; and a pool whose channel never closes, on which a window would hang, is not
  represented. The relay (its \<open>AddEvent\<close> and \<open>QueryStored\<close>), the pool of connections and writing the
  state file are parameters: the pool answers a fetch with a list of events and has a state of its own.
\<close>

section \<open>Configuration\<close>

record sync_config =
  sc_enabled :: bool
  sc_relays :: "string list option"
  sc_state_path :: string
  sc_backfill_since :: "int option"
  sc_backfill_window :: int
  sc_live_lookback :: int
  sc_fetch_limit :: int
  sc_reconnect_delay :: int
  sc_verify_signatures :: bool

definition second :: int where "second = 10 ^ 9"

definition min_backfill_window :: int where "min_backfill_window = second"
definition default_backfill_window :: int where "default_backfill_window = 7 * 24 * 3600 * second"
definition default_backfill_since :: int where "default_backfill_since = 365 * 24 * 3600 * second"

definition default_sync_relays :: "string list" where
  "default_sync_relays = [''wss://relay.damus.io'', ''wss://nos.lol'', ''wss://relay.primal.net'', ''wss://relay.plebeian.market'']"

definition default_sync_config :: "string \<Rightarrow> int \<Rightarrow> sync_config" where
  "default_sync_config path now = \<lparr>sc_enabled = False, sc_relays = Some default_sync_relays, sc_state_path = path,
     sc_backfill_since = Some (now - default_backfill_since), sc_backfill_window = default_backfill_window,
     sc_live_lookback = 600 * second, sc_fetch_limit = 500, sc_reconnect_delay = 5 * second, sc_verify_signatures = True\<rparr>"

definition with_sync_defaults :: "sync_config \<Rightarrow> sync_config" where
  "with_sync_defaults cfg = cfg\<lparr>sc_fetch_limit := (if sc_fetch_limit cfg \<le> 0 then 500 else sc_fetch_limit cfg),
     sc_backfill_window := (if sc_backfill_window cfg \<le> 0 then default_backfill_window else sc_backfill_window cfg),
     sc_live_lookback := (if sc_live_lookback cfg \<le> 0 then 600 * second else sc_live_lookback cfg),
     sc_reconnect_delay := (if sc_reconnect_delay cfg \<le> 0 then 5 * second else sc_reconnect_delay cfg),
     sc_relays := (if sc_relays cfg = None then Some default_sync_relays else sc_relays cfg)\<rparr>"

section \<open>State\<close>

record sync_stats =
  ss_imported :: int
  ss_rejected :: int
  ss_duplicates :: int
  ss_ignored :: int

text \<open>The line the backfill logs for a window.\<close>

record window_line =
  wl_start :: int
  wl_next :: int
  wl_imported :: int
  wl_duplicates :: int
  wl_rejected :: int
  wl_full :: bool

record ('r, 'p) syncer =
  sy_relay :: 'r
  sy_pool :: 'p
  sy_synced_until :: int
  sy_stats :: sync_stats
  sy_broadcast :: "event list"
  sy_log :: "window_line list"

text \<open>What the syncer calls: the library's checks, the relay, the pool, the context and the state file.\<close>

record ('r, 'p) sync_env =
  sv_check_id :: "event \<Rightarrow> bool"
  sv_verify_sig :: "event \<Rightarrow> bool"
  sv_is_older :: "event \<Rightarrow> event \<Rightarrow> bool"
  sv_d_tag :: "string list list \<Rightarrow> string"
  sv_query :: "(legacy_filter \<Rightarrow> 'r \<Rightarrow> event list) option"
  sv_add :: "event \<Rightarrow> 'r \<Rightarrow> (bool \<times> string option) \<times> 'r"
  sv_fetch :: "string list \<Rightarrow> legacy_filter \<Rightarrow> 'p \<Rightarrow> event list \<times> 'p"
  sv_cancelled :: "'p \<Rightarrow> string option"
  sv_write :: "string \<Rightarrow> int \<Rightarrow> string option"

definition empty_sync_filter :: legacy_filter where
  "empty_sync_filter = \<lparr>lf_ids = [], lf_kinds = [], lf_authors = [], lf_tags = [], lf_since = 0, lf_until = 0,
     lf_limit = 0, lf_limit_zero = False, lf_search = []\<rparr>"

section \<open>One event\<close>

definition targets_product_deletion :: "event \<Rightarrow> bool" where
  "targets_product_deletion ev = list_ex (\<lambda>tag. length tag \<ge> 2 \<and>
     (tag ! 0 = ''a'' \<and> has_prefix (tag ! 1) ''30402:'' \<or> tag ! 0 = ''k'' \<and> tag ! 1 = ''30402'')) (ev_tags ev)"

definition record_imported :: "('r, 'p) syncer \<Rightarrow> ('r, 'p) syncer" where
  "record_imported s = s\<lparr>sy_stats := (sy_stats s)\<lparr>ss_imported := ss_imported (sy_stats s) + 1\<rparr>\<rparr>"

definition record_rejected :: "('r, 'p) syncer \<Rightarrow> ('r, 'p) syncer" where
  "record_rejected s = s\<lparr>sy_stats := (sy_stats s)\<lparr>ss_rejected := ss_rejected (sy_stats s) + 1\<rparr>\<rparr>"

definition record_duplicate :: "('r, 'p) syncer \<Rightarrow> ('r, 'p) syncer" where
  "record_duplicate s = s\<lparr>sy_stats := (sy_stats s)\<lparr>ss_duplicates := ss_duplicates (sy_stats s) + 1\<rparr>\<rparr>"

definition record_ignored :: "('r, 'p) syncer \<Rightarrow> ('r, 'p) syncer" where
  "record_ignored s = s\<lparr>sy_stats := (sy_stats s)\<lparr>ss_ignored := ss_ignored (sy_stats s) + 1\<rparr>\<rparr>"

definition has_stored_id :: "('r, 'p) sync_env \<Rightarrow> string \<Rightarrow> 'r \<Rightarrow> bool" where
  "has_stored_id env i r =
     (case sv_query env of None \<Rightarrow> False
      | Some query \<Rightarrow> query (empty_sync_filter\<lparr>lf_ids := [i], lf_limit := 1\<rparr>) r \<noteq> [])"

fun latest_event :: "(event \<Rightarrow> event \<Rightarrow> bool) \<Rightarrow> event list \<Rightarrow> event option \<Rightarrow> event option" where
  "latest_event older [] best = best"
| "latest_event older (e # es) best =
     (case best of
        None \<Rightarrow> latest_event older es (Some e)
      | Some b \<Rightarrow> latest_event older es (if older b e then Some e else Some b))"

definition lookup_current_replaceable :: "('r, 'p) sync_env \<Rightarrow> event \<Rightarrow> 'r \<Rightarrow> event option" where
  "lookup_current_replaceable env ev r =
     (case sv_query env of None \<Rightarrow> None
      | Some query \<Rightarrow>
          (let f = empty_sync_filter\<lparr>lf_kinds := [ev_kind ev], lf_authors := [ev_pubkey ev], lf_limit := 16\<rparr>;
               f = (if is_addressable (ev_kind ev) then f\<lparr>lf_tags := [(''d'', [sv_d_tag env (ev_tags ev)])]\<rparr> else f)
           in latest_event (sv_is_older env) (query f r) None))"

definition add_incoming :: "('r, 'p) sync_env \<Rightarrow> event \<Rightarrow> ('r, 'p) syncer \<Rightarrow> ('r, 'p) syncer" where
  "add_incoming env ev s =
     (let ((skip, err), r) = sv_add env ev (sy_relay s); s = s\<lparr>sy_relay := r\<rparr> in
      case err of
        Some e \<Rightarrow> if contains_text e ''duplicate'' then record_duplicate s else record_rejected s
      | None \<Rightarrow>
          if skip then record_duplicate s
          else record_imported (s\<lparr>sy_broadcast := sy_broadcast s @ [ev]\<rparr>))"

definition handle_incoming_event :: "('r, 'p) sync_env \<Rightarrow> sync_config \<Rightarrow> event \<Rightarrow> ('r, 'p) syncer \<Rightarrow> ('r, 'p) syncer" where
  "handle_incoming_event env cfg ev s =
     (if ev_kind ev = 5 \<and> \<not> targets_product_deletion ev then record_ignored s
      else if ev_kind ev \<noteq> 30402 \<and> ev_kind ev \<noteq> 5 then s
      else if \<not> sv_check_id env ev then record_rejected s
      else if sc_verify_signatures cfg \<and> \<not> sv_verify_sig env ev then record_rejected s
      else if is_regular (ev_kind ev) \<and> has_stored_id env (ev_id ev) (sy_relay s) then record_duplicate s
      else if (is_replaceable (ev_kind ev) \<or> is_addressable (ev_kind ev)) \<and>
        (case lookup_current_replaceable env ev (sy_relay s) of
           None \<Rightarrow> False | Some cur \<Rightarrow> \<not> sv_is_older env cur ev) then record_duplicate s
      else add_incoming env ev s)"

section \<open>Backfill\<close>

text \<open>\<open>Unix()\<close> of a time.\<close>

definition unix :: "int \<Rightarrow> int" where "unix t = t div second"

definition window_filter :: "sync_config \<Rightarrow> int \<Rightarrow> int \<Rightarrow> legacy_filter" where
  "window_filter cfg start stop = empty_sync_filter\<lparr>lf_kinds := [30402, 5], lf_since := unix start,
     lf_until := unix stop - 1, lf_limit := sc_fetch_limit cfg\<rparr>"

definition sync_urls :: "sync_config \<Rightarrow> string list" where
  "sync_urls cfg = (case sc_relays cfg of None \<Rightarrow> [] | Some us \<Rightarrow> us)"

definition fetch_window :: "('r, 'p) sync_env \<Rightarrow> sync_config \<Rightarrow> int \<Rightarrow> int \<Rightarrow> ('r, 'p) syncer \<Rightarrow> bool \<times> ('r, 'p) syncer" where
  "fetch_window env cfg start stop s =
     (let (evs, p) = sv_fetch env (sync_urls cfg) (window_filter cfg start stop) (sy_pool s)
      in (int (length evs) \<ge> sc_fetch_limit cfg, fold (handle_incoming_event env cfg) evs (s\<lparr>sy_pool := p\<rparr>)))"

definition write_sync_state :: "('r, 'p) sync_env \<Rightarrow> sync_config \<Rightarrow> int \<Rightarrow> string option" where
  "write_sync_state env cfg synced = (if sc_state_path cfg = [] then None else sv_write env (sc_state_path cfg) synced)"

definition advance_state :: "('r, 'p) sync_env \<Rightarrow> sync_config \<Rightarrow> int \<Rightarrow> ('r, 'p) syncer \<Rightarrow> string option \<times> ('r, 'p) syncer" where
  "advance_state env cfg t s =
     (if unix t \<le> sy_synced_until s then (None, s)
      else (write_sync_state env cfg (unix t), s\<lparr>sy_synced_until := unix t\<rparr>))"

definition window_step :: "('r, 'p) sync_env \<Rightarrow> sync_config \<Rightarrow> int \<Rightarrow> int \<Rightarrow> ('r, 'p) syncer \<Rightarrow> bool \<times> ('r, 'p) syncer" where
  "window_step env cfg start next s =
     (let (fetched_all, s') = fetch_window env cfg start next s;
          imported = ss_imported (sy_stats s') - ss_imported (sy_stats s);
          full = imported \<ge> sc_fetch_limit cfg
      in (full, s'\<lparr>sy_log := sy_log s' @ [\<lparr>wl_start = start, wl_next = next, wl_imported = imported,
            wl_duplicates = ss_duplicates (sy_stats s') - ss_duplicates (sy_stats s),
            wl_rejected = ss_rejected (sy_stats s') - ss_rejected (sy_stats s), wl_full = full\<rparr>]\<rparr>))"

partial_function (option) backfill_loop :: "('r, 'p) sync_env \<Rightarrow> sync_config \<Rightarrow> int \<Rightarrow> int \<Rightarrow> int \<Rightarrow> ('r, 'p) syncer \<Rightarrow>
    (string option \<times> ('r, 'p) syncer) option" where
  "backfill_loop env cfg window start stop s =
     (if \<not> start < stop then Some (None, s)
      else if sv_cancelled env (sy_pool s) \<noteq> None then Some (sv_cancelled env (sy_pool s), s)
      else let next = (if start + window > stop then stop else start + window);
               (full, s') = window_step env cfg start next s
        in if full \<and> next - start > min_backfill_window
           then backfill_loop env cfg (if window div 2 < min_backfill_window then min_backfill_window else window div 2) start stop s'
           else let (err, s'') = advance_state env cfg next s'
             in if err \<noteq> None then Some (err, s'') else backfill_loop env cfg window next stop s'')"

definition initial_backfill_start :: "sync_config \<Rightarrow> int \<Rightarrow> int \<Rightarrow> int" where
  "initial_backfill_start cfg now synced =
     (let configured = (case sc_backfill_since cfg of None \<Rightarrow> now - default_backfill_since | Some t \<Rightarrow> t)
      in if synced \<le> 0 then configured
         else if configured > synced * second then configured else synced * second)"

definition backfill :: "('r, 'p) sync_env \<Rightarrow> sync_config \<Rightarrow> int \<Rightarrow> ('r, 'p) syncer \<Rightarrow> (string option \<times> ('r, 'p) syncer) option" where
  "backfill env cfg now s =
     (let cfg = with_sync_defaults cfg; start = initial_backfill_start cfg now (sy_synced_until s) in
      if \<not> start < now then Some (None, s) else backfill_loop env cfg (sc_backfill_window cfg) start now s)"

text \<open>The live subscription: its filter, and the events it delivers.\<close>

definition current_watermark :: "('r, 'p) syncer \<Rightarrow> int option" where
  "current_watermark s = (if sy_synced_until s \<le> 0 then None else Some (sy_synced_until s * second))"

definition live_filter :: "sync_config \<Rightarrow> int \<Rightarrow> ('r, 'p) syncer \<Rightarrow> legacy_filter" where
  "live_filter cfg now s =
     (let cfg = with_sync_defaults cfg; since = now - sc_live_lookback cfg;
          since = (case current_watermark s of None \<Rightarrow> since
            | Some w \<Rightarrow> if w - sc_live_lookback cfg > since then w - sc_live_lookback cfg else since)
      in empty_sync_filter\<lparr>lf_kinds := [30402, 5], lf_since := unix since\<rparr>)"

definition stream_live :: "('r, 'p) sync_env \<Rightarrow> sync_config \<Rightarrow> event list \<Rightarrow> ('r, 'p) syncer \<Rightarrow> ('r, 'p) syncer" where
  "stream_live env cfg evs s = fold (handle_incoming_event env cfg) evs s"

text \<open>\<open>StartRelaySync\<close>: an error, nothing to start, or the configuration it runs with.\<close>

definition start_relay_sync :: "sync_config \<Rightarrow> bool \<Rightarrow> sync_config option result" where
  "start_relay_sync cfg has_relay =
     (let cfg = with_sync_defaults cfg in
      if \<not> sc_enabled cfg then Inr None
      else if \<not> has_relay then Inl ''relay sync requires a relay''
      else if sync_urls cfg = [] then Inl ''relay sync requires at least one source relay''
      else Inr (Some cfg))"


section \<open>What is imported\<close>

definition importable :: "('r, 'p) sync_env \<Rightarrow> sync_config \<Rightarrow> event \<Rightarrow> bool" where
  "importable env cfg ev \<longleftrightarrow> (ev_kind ev = 30402 \<or> ev_kind ev = 5 \<and> targets_product_deletion ev) \<and> sv_check_id env ev \<and>
     (sc_verify_signatures cfg \<longrightarrow> sv_verify_sig env ev)"

lemma record_simps [simp]:
  "sy_relay (record_imported s) = sy_relay s" "sy_relay (record_rejected s) = sy_relay s"
  "sy_relay (record_duplicate s) = sy_relay s" "sy_relay (record_ignored s) = sy_relay s"
  "sy_broadcast (record_imported s) = sy_broadcast s" "sy_broadcast (record_rejected s) = sy_broadcast s"
  "sy_broadcast (record_duplicate s) = sy_broadcast s" "sy_broadcast (record_ignored s) = sy_broadcast s"
  "sy_synced_until (record_imported s) = sy_synced_until s" "sy_synced_until (record_rejected s) = sy_synced_until s"
  "sy_synced_until (record_duplicate s) = sy_synced_until s" "sy_synced_until (record_ignored s) = sy_synced_until s"
  "sy_log (record_imported s) = sy_log s" "sy_log (record_rejected s) = sy_log s"
  "sy_log (record_duplicate s) = sy_log s" "sy_log (record_ignored s) = sy_log s"
  "sy_pool (record_imported s) = sy_pool s" "sy_pool (record_rejected s) = sy_pool s"
  "sy_pool (record_duplicate s) = sy_pool s" "sy_pool (record_ignored s) = sy_pool s"
  by (simp_all add: record_imported_def record_rejected_def record_duplicate_def record_ignored_def)

lemma handle_rest: "sy_synced_until (handle_incoming_event env cfg ev s) = sy_synced_until s \<and>
    sy_log (handle_incoming_event env cfg ev s) = sy_log s \<and> sy_pool (handle_incoming_event env cfg ev s) = sy_pool s"
  by (simp add: handle_incoming_event_def add_incoming_def Let_def split: prod.split option.split)

lemma handle_cases: "handle_incoming_event env cfg ev s \<noteq> add_incoming env ev s \<Longrightarrow>
    sy_relay (handle_incoming_event env cfg ev s) = sy_relay s \<and>
    sy_broadcast (handle_incoming_event env cfg ev s) = sy_broadcast s"
  by (auto simp: handle_incoming_event_def)

lemma not_importable: "\<not> importable env cfg ev \<Longrightarrow>
    sy_relay (handle_incoming_event env cfg ev s) = sy_relay s \<and>
    sy_broadcast (handle_incoming_event env cfg ev s) = sy_broadcast s"
proof -
  assume no: "\<not> importable env cfg ev"
  let ?skip = "ev_kind ev = 5 \<and> \<not> targets_product_deletion ev" and ?other = "ev_kind ev \<noteq> 30402 \<and> ev_kind ev \<noteq> 5"
  let ?unsigned = "sc_verify_signatures cfg \<and> \<not> sv_verify_sig env ev"
  from no consider ?skip | "\<not> ?skip" ?other | "\<not> ?skip" "\<not> ?other" "\<not> sv_check_id env ev"
    | "\<not> ?skip" "\<not> ?other" "sv_check_id env ev" ?unsigned unfolding importable_def by blast
  then show ?thesis by cases (simp_all only: handle_incoming_event_def if_True if_False not_False_eq_True record_simps simp_thms)
qed

lemma fold_rest: "sy_synced_until (fold (handle_incoming_event env cfg) evs s) = sy_synced_until s \<and>
    sy_log (fold (handle_incoming_event env cfg) evs s) = sy_log s \<and>
    sy_pool (fold (handle_incoming_event env cfg) evs s) = sy_pool s"
  by (induction evs arbitrary: s) (simp_all add: handle_rest)

section \<open>The windows\<close>

text \<open>A pool that keeps account of what it is asked: \<open>asked\<close> reads the requests from its state.\<close>

definition accounts :: "('r, 'p) sync_env \<Rightarrow> ('p \<Rightarrow> (string list \<times> legacy_filter) list) \<Rightarrow> bool" where
  "accounts env asked \<longleftrightarrow> (\<forall>urls f p. asked (snd (sv_fetch env urls f p)) = asked p @ [(urls, f)])"

definition request :: "sync_config \<Rightarrow> window_line \<Rightarrow> string list \<times> legacy_filter" where
  "request cfg line = (sync_urls cfg, window_filter cfg (wl_start line) (wl_next line))"

lemma window_step_parts:
  assumes "accounts env asked" and "window_step env cfg a b s = (full, s')"
  shows "sy_synced_until s' = sy_synced_until s \<and>
    (\<exists>line. sy_log s' = sy_log s @ [line] \<and> wl_start line = a \<and> wl_next line = b \<and> wl_full line = full \<and>
      asked (sy_pool s') = asked (sy_pool s) @ [request cfg line])"
proof -
  obtain evs p where f: "sv_fetch env (sync_urls cfg) (window_filter cfg a b) (sy_pool s) = (evs, p)" by fastforce
  then have "asked p = asked (sy_pool s) @ [(sync_urls cfg, window_filter cfg a b)]"
    using assms(1) unfolding accounts_def by (metis snd_conv)
  then show ?thesis using assms(2) f by (auto simp: window_step_def fetch_window_def Let_def fold_rest request_def)
qed

text \<open>A window is given up when it was full and is longer than the smallest one; the others are done with.\<close>

definition finished :: "window_line \<Rightarrow> bool" where
  "finished line \<longleftrightarrow> \<not> (wl_full line \<and> wl_next line - wl_start line > min_backfill_window)"

fun tiles :: "int \<Rightarrow> (int \<times> int) list \<Rightarrow> int \<Rightarrow> bool" where
  "tiles a [] b = (a = b)"
| "tiles a ((x, y) # ws) b = (x = a \<and> x < y \<and> tiles y ws b)"

definition finished_windows :: "window_line list \<Rightarrow> (int \<times> int) list" where
  "finished_windows ls = map (\<lambda>line. (wl_start line, wl_next line)) (List.filter finished ls)"

text \<open>Every whole second of the range is asked for by a window of the tiling, whose bounds are rounded down.\<close>

lemma tiles_cover:
  assumes "tiles a (finished_windows ls) b" "unix a \<le> t" "t < unix b"
  shows "\<exists>line \<in> set ls. finished line \<and>
    lf_since (snd (request cfg line)) \<le> t \<and> t \<le> lf_until (snd (request cfg line))"
proof -
  have "tiles a ws b \<Longrightarrow> unix a \<le> t \<Longrightarrow> \<exists>(x, y) \<in> set ws. unix x \<le> t \<and> t \<le> unix y - 1" for ws
  proof (induction ws arbitrary: a)
    case Nil
    then show ?case using assms(3) by simp
  next
    case (Cons w ws)
    obtain x y where w: "w = (x, y)" by (cases w)
    show ?case using Cons by (cases "t < unix y") (auto simp: w)
  qed
  from this [OF assms(1,2)] show ?thesis
    by (force simp: finished_windows_def request_def window_filter_def empty_sync_filter_def)
qed

text \<open>How a loop ends: which lines it logs, what it asks for and where it leaves the watermark.\<close>

definition backfilled :: "('p \<Rightarrow> (string list \<times> legacy_filter) list) \<Rightarrow> sync_config \<Rightarrow> int \<Rightarrow> int \<Rightarrow> ('r, 'p) syncer \<Rightarrow>
    string option \<Rightarrow> ('r, 'p) syncer \<Rightarrow> window_line list \<Rightarrow> bool" where
  "backfilled asked cfg start stop s err s' ls \<longleftrightarrow>
     sy_log s' = sy_log s @ ls \<and> asked (sy_pool s') = asked (sy_pool s) @ map (request cfg) ls \<and>
     (\<forall>line \<in> set ls. start \<le> wl_start line) \<and> sy_synced_until s \<le> sy_synced_until s' \<and>
     (err = None \<longrightarrow> tiles start (finished_windows ls) stop \<and>
        sy_synced_until s' = (if start < stop then max (sy_synced_until s) (unix stop) else sy_synced_until s))"

lemma backfill_loop_runs:
  assumes asked: "accounts env asked" and "0 < window" "start \<le> stop"
  shows "\<exists>err s' ls. backfill_loop env cfg window start stop s = Some (err, s') \<and>
    backfilled asked cfg start stop s err s' ls"
  using assms(2,3)
proof (induction "(nat (stop - start), nat window)" arbitrary: window start s rule: wf_induct_rule [OF wf_lex_prod [OF wf_less_than wf_less_than]])
  case less: (1 window start s)
  note simps = backfill_loop.simps [of env cfg window start stop s]
  consider "\<not> start < stop" | "start < stop" "sv_cancelled env (sy_pool s) \<noteq> None"
    | "start < stop" "sv_cancelled env (sy_pool s) = None" by blast
  then show ?case
  proof cases
    case 1
    then have "backfill_loop env cfg window start stop s = Some (None, s)" by (simp add: simps)
    then show ?thesis using less.prems 1 by (auto simp: backfilled_def finished_windows_def intro!: exI [of _ "[]"])
  next
    case 2
    then show ?thesis by (auto simp: simps backfilled_def intro!: exI [of _ "[]"])
  next
    case 3
    define next' where "next' = (if start + window > stop then stop else start + window)"
    obtain full s1 where step: "window_step env cfg start next' s = (full, s1)" by fastforce
    obtain line where line: "sy_synced_until s1 = sy_synced_until s" "sy_log s1 = sy_log s @ [line]" "wl_start line = start"
        "wl_next line = next'" "wl_full line = full" "asked (sy_pool s1) = asked (sy_pool s) @ [request cfg line]"
      using window_step_parts [OF asked step] by blast
    have next': "start < next'" "next' \<le> stop" using 3 less.prems by (auto simp: next'_def)
    show ?thesis
    proof (cases "full \<and> next' - start > min_backfill_window")
      case True
      let ?w = "if window div 2 < min_backfill_window then min_backfill_window else window div 2"
      have "min_backfill_window < window" using True by (auto simp: next'_def split: if_splits)
      then have w: "0 < ?w" "?w < window" by (auto simp: min_backfill_window_def second_def)
      have eq: "backfill_loop env cfg window start stop s = backfill_loop env cfg ?w start stop s1"
        using 3 True step by (simp add: simps next'_def [symmetric])
      obtain err s' ls where r: "backfill_loop env cfg ?w start stop s1 = Some (err, s')"
          "backfilled asked cfg start stop s1 err s' ls"
        using less.hyps [of start ?w s1] w less.prems by auto
      have "\<not> finished line" using True line by (simp add: finished_def)
      then have "backfilled asked cfg start stop s err s' (line # ls)"
        using r(2) line by (auto simp: backfilled_def finished_windows_def)
      then show ?thesis using r(1) unfolding eq by blast
    next
      case False
      obtain err s2 where adv: "advance_state env cfg next' s1 = (err, s2)" by fastforce
      have s2: "sy_log s2 = sy_log s1" "sy_pool s2 = sy_pool s1" "sy_synced_until s2 = max (sy_synced_until s) (unix next')"
        using adv line(1) by (auto simp: advance_state_def split: if_splits)
      have again: "(full \<and> next' - start > min_backfill_window) = False" using False by blast
      have fin: "finished line" using False line by (simp add: finished_def)
      show ?thesis
      proof (cases "err = None")
        case failed: False
        have "backfill_loop env cfg window start stop s = Some (err, s2)"
          unfolding simps next'_def [symmetric] Let_def step prod.case again if_False adv using 3 failed by simp
        moreover have "backfilled asked cfg start stop s err s2 [line]"
          using failed line s2 by (auto simp: backfilled_def)
        ultimately show ?thesis by blast
      next
        case True
        have eq: "backfill_loop env cfg window start stop s = backfill_loop env cfg window next' stop s2"
          unfolding simps next'_def [symmetric] Let_def step prod.case again if_False adv using 3 True by simp
        obtain err' s' ls where r: "backfill_loop env cfg window next' stop s2 = Some (err', s')"
            "backfilled asked cfg next' stop s2 err' s' ls"
          using less.hyps [of next' window s2] next' less.prems by auto
        have until: "sy_synced_until s' = max (sy_synced_until s) (unix stop)" if "err' = None"
        proof -
          have "unix next' \<le> unix stop" using next'(2) by (simp add: unix_def second_def zdiv_mono1)
          then have "max (max (sy_synced_until s) (unix next')) (unix stop) = max (sy_synced_until s) (unix stop)" by simp
          then show ?thesis using r(2) that s2(3) next'(2) by (auto simp: backfilled_def)
        qed
        have "\<forall>l \<in> set ls. start \<le> wl_start l" using r(2) next' by (fastforce simp: backfilled_def)
        then have "backfilled asked cfg start stop s err' s' (line # ls)"
          using r(2) until line fin s2 next' 3 by (auto simp: backfilled_def finished_windows_def)
        then show ?thesis using r(1) unfolding eq by blast
      qed
    qed
  qed
qed

text \<open>C17: Whatever another relay sends, the syncer hands to the relay and broadcasts only product events and
  deletions that name a product, whose id is right and, unless that is switched off, whose signature
  verifies; a broadcast event is one the relay took as new. The watermark is left alone.
\<close>

theorem sync_imports_only_products:
  assumes "s' = handle_incoming_event env cfg ev s" "sy_relay s' \<noteq> sy_relay s \<or> sy_broadcast s' \<noteq> sy_broadcast s"
  shows "importable env cfg ev \<and> sy_relay s' = snd (sv_add env ev (sy_relay s)) \<and> sy_synced_until s' = sy_synced_until s \<and>
    (sy_broadcast s' = sy_broadcast s \<or>
      sy_broadcast s' = sy_broadcast s @ [ev] \<and> fst (sv_add env ev (sy_relay s)) = (False, None))"
proof -
  have added: "s' = add_incoming env ev s" using handle_cases [of env cfg ev s] assms by metis
  have "importable env cfg ev" using not_importable [of env cfg ev s] assms by metis
  moreover have "sy_synced_until s' = sy_synced_until s" using handle_rest [of env cfg ev s] assms(1) by simp
  moreover obtain skip err r where "sv_add env ev (sy_relay s) = ((skip, err), r)" by (metis prod.exhaust)
  ultimately show ?thesis unfolding added by (auto simp: add_incoming_def Let_def split: option.splits)
qed

text \<open>The pool of the examples is the other relay's events and the requests made so far.\<close>

type_synonym demo_pool = "event list \<times> (string list \<times> legacy_filter) list"

definition demo_relay_env :: "(event list, demo_pool) sync_env" where
  "demo_relay_env = \<lparr>sv_check_id = (\<lambda>_. True), sv_verify_sig = (\<lambda>_. True), sv_is_older = (\<lambda>a b. ev_created_at a < ev_created_at b),
     sv_d_tag = (\<lambda>tags. first_tag_value tags ''d''),
     sv_query = Some (\<lambda>f r. List.filter (\<lambda>ev. ev_kind ev \<in> set (lf_kinds f) \<and>
       map_of (lf_tags f) ''d'' = Some [first_tag_value (ev_tags ev) ''d'']) r),
     sv_add = (\<lambda>ev r. ((False, None), r @ [ev])),
     sv_fetch = (\<lambda>urls f (remote, reqs). (take (nat (lf_limit f))
       (List.filter (\<lambda>ev. lf_since f \<le> ev_created_at ev \<and> ev_created_at ev \<le> lf_until f) remote),
       (remote, reqs @ [(urls, f)]))),
     sv_cancelled = (\<lambda>_. None), sv_write = (\<lambda>_ _. None)\<rparr>"

text \<open>The other relay stores these, newest first, and answers a fetch with the newest ones within the limit.\<close>

definition demo_remote :: "event list" where
  "demo_remote = [demo_product ''07'' 7 ''g'' ''1'', demo_product ''06'' 6 ''f'' ''1'', demo_product ''05'' 5 ''e'' ''1'',
     demo_product ''01'' 1 ''a'' ''1'']"

definition demo_syncer :: "(event list, demo_pool) syncer" where
  "demo_syncer = \<lparr>sy_relay = [], sy_pool = (demo_remote, []), sy_synced_until = 0,
     sy_stats = \<lparr>ss_imported = 0, ss_rejected = 0, ss_duplicates = 0, ss_ignored = 0\<rparr>, sy_broadcast = [], sy_log = []\<rparr>"

definition demo_sync_config :: sync_config where
  "demo_sync_config = \<lparr>sc_enabled = True, sc_relays = Some [''r''], sc_state_path = [], sc_backfill_since = Some 0,
     sc_backfill_window = 8 * 10 ^ 9, sc_live_lookback = 1, sc_fetch_limit = 2, sc_reconnect_delay = 1,
     sc_verify_signatures = True\<rparr>"

theorem sync_imports_only_products_witness:
  "importable demo_relay_env demo_sync_config (demo_product ''07'' 7 ''g'' ''1'')"
proof -
  have "sy_relay (handle_incoming_event demo_relay_env demo_sync_config (demo_product ''07'' 7 ''g'' ''1'') demo_syncer) \<noteq> sy_relay demo_syncer"
    by code_simp
  then show ?thesis using sync_imports_only_products [OF refl] by blast
qed

lemma demo_accounts: "accounts demo_relay_env snd"
  by (simp add: accounts_def demo_relay_env_def split_def)

text \<open>C15: A backfill ends and asks for the whole range, whatever the other relays answer. It makes one
  request for each window it logs, to all configured relays, and no other. Unless it was cancelled or
  the state could not be written, the windows it is done with lie end to end from its start to its
  end, and every whole second of the range lies within the bounds of the request made for one of
  them, which asks for products and deletions of every author, up to the configured limit; the
  watermark ends at the end of the range. The pool may be any that keeps account of its requests.\<close>

theorem backfill_covers_range:
  assumes "accounts env asked" and "start = initial_backfill_start (with_sync_defaults cfg) now (sy_synced_until s)"
    and "start \<le> now"
  shows "\<exists>err s' ls. backfill env cfg now s = Some (err, s') \<and> sy_log s' = sy_log s @ ls \<and>
    asked (sy_pool s') = asked (sy_pool s) @ map (request (with_sync_defaults cfg)) ls \<and>
    (err = None \<longrightarrow> tiles start (finished_windows ls) now \<and>
      (\<forall>t. unix start \<le> t \<and> t < unix now \<longrightarrow>
        (\<exists>line \<in> set ls. \<exists>f. finished line \<and> request (with_sync_defaults cfg) line = (sync_urls (with_sync_defaults cfg), f) \<and>
           lf_since f \<le> t \<and> t \<le> lf_until f \<and> lf_kinds f = [30402, 5] \<and>
           lf_limit f = sc_fetch_limit (with_sync_defaults cfg) \<and>
           lf_ids f = [] \<and> lf_authors f = [] \<and> lf_tags f = [] \<and> lf_search f = [])) \<and>
      (start < now \<longrightarrow> sy_synced_until s' = max (sy_synced_until s) (unix now)))"
proof -
  let ?cfg = "with_sync_defaults cfg"
  have "0 < sc_backfill_window ?cfg"
    by (simp add: with_sync_defaults_def default_backfill_window_def second_def)
  from backfill_loop_runs [OF assms(1) this assms(3), of ?cfg s]
  obtain err s' ls where run: "backfill_loop env ?cfg (sc_backfill_window ?cfg) start now s = Some (err, s')"
    "backfilled asked ?cfg start now s err s' ls" by blast
  have "backfill env cfg now s = backfill_loop env ?cfg (sc_backfill_window ?cfg) start now s"
    using assms(2) by (simp add: backfill_def Let_def backfill_loop.simps)
  then have result: "backfill env cfg now s = Some (err, s')" using run(1) by simp
  have shape: "\<exists>f. request ?cfg line = (sync_urls ?cfg, f) \<and> lf_kinds f = [30402, 5] \<and> lf_limit f = sc_fetch_limit ?cfg \<and>
      lf_ids f = [] \<and> lf_authors f = [] \<and> lf_tags f = [] \<and> lf_search f = []" for line
    by (simp add: request_def window_filter_def empty_sync_filter_def)
  have cover: "\<exists>line \<in> set ls. \<exists>f. finished line \<and> request ?cfg line = (sync_urls ?cfg, f) \<and>
      lf_since f \<le> t \<and> t \<le> lf_until f \<and> lf_kinds f = [30402, 5] \<and> lf_limit f = sc_fetch_limit ?cfg \<and>
      lf_ids f = [] \<and> lf_authors f = [] \<and> lf_tags f = [] \<and> lf_search f = []"
    if "err = None" "unix start \<le> t" "t < unix now" for t
  proof -
    have "tiles start (finished_windows ls) now" using run(2) that(1) by (simp add: backfilled_def)
    from tiles_cover [OF this that(2,3), of ?cfg] shape show ?thesis by (metis snd_conv)
  qed
  show ?thesis
    by (intro exI [of _ err] exI [of _ s'] exI [of _ ls] conjI impI allI result)
      (use run(2) cover in \<open>auto simp: backfilled_def\<close>)
qed

theorem backfill_covers_range_witness:
  "\<exists>err s' ls. backfill demo_relay_env demo_sync_config (8 * 10 ^ 9) demo_syncer = Some (err, s') \<and>
     snd (sy_pool s') = map (request (with_sync_defaults demo_sync_config)) ls"
proof -
  have "initial_backfill_start (with_sync_defaults demo_sync_config) (8 * 10 ^ 9) (sy_synced_until demo_syncer) \<le> 8 * 10 ^ 9"
    by (simp add: initial_backfill_start_def with_sync_defaults_def demo_sync_config_def demo_syncer_def)
  moreover have "snd (sy_pool demo_syncer) = []" by (simp add: demo_syncer_def)
  ultimately show ?thesis using backfill_covers_range [OF demo_accounts refl] by (metis append_Nil)
qed

declare backfill_loop.simps [code]

text \<open>C16: A backfill can pass over products for good. Whether a window was full is decided by the number of
  events newly imported from it, not by the number received. So when a request is answered with as
  many events as the limit allows, of which some are not new, the window is done with although the
  other relay may have more: what the relay keeps of it comes from the events received, the loop
  goes on at the end of the window, all requests it makes from then on start there or later, the
  watermark ends at that time or later, and a later backfill from a positive watermark does not
  start before it either.\<close>

theorem backfill_loses_products:
  assumes "accounts env asked" and "0 < window" and "start < stop" and "sv_cancelled env (sy_pool s) = None"
    and "next = min stop (start + window)"
    and "sv_fetch env (sync_urls cfg) (window_filter cfg start next) (sy_pool s) = (evs, p)"
    and "sc_fetch_limit cfg \<le> int (length evs)" and "s1 = fold (handle_incoming_event env cfg) evs (s\<lparr>sy_pool := p\<rparr>)"
    and "ss_imported (sy_stats s1) - ss_imported (sy_stats s) < sc_fetch_limit cfg"
    and "write_sync_state env cfg (unix next) = None"
  shows "\<exists>s2 err s'. backfill_loop env cfg window start stop s = backfill_loop env cfg window next stop s2 \<and>
    sy_relay s2 = sy_relay s1 \<and> backfill_loop env cfg window next stop s2 = Some (err, s') \<and>
    (\<exists>reqs. asked (sy_pool s') = asked p @ reqs \<and> (\<forall>(urls, f) \<in> set reqs. unix next \<le> lf_since f)) \<and>
    unix next \<le> sy_synced_until s' \<and>
    (\<forall>cfg' now'. 0 < sy_synced_until s' \<longrightarrow> unix next \<le> unix (initial_backfill_start cfg' now' (sy_synced_until s')))"
proof -
  obtain full t where step: "window_step env cfg start next s = (full, t)" by fastforce
  have t: "\<not> full" "sy_relay t = sy_relay s1" "sy_pool t = p" "sy_synced_until t = sy_synced_until s"
    using step assms(6,8,9) by (auto simp: window_step_def fetch_window_def Let_def fold_rest)
  obtain err2 s2 where adv: "advance_state env cfg next t = (err2, s2)" by fastforce
  then have s2: "err2 = None" "sy_relay s2 = sy_relay s1" "sy_pool s2 = p" "unix next \<le> sy_synced_until s2"
    using assms(10) t by (auto simp: advance_state_def split: if_splits)
  have next': "(if start + window > stop then stop else start + window) = next" using assms(5) by simp
  have eq: "backfill_loop env cfg window start stop s = backfill_loop env cfg window next stop s2"
    unfolding backfill_loop.simps [of env cfg window start stop s] next' Let_def step prod.case adv
    using assms(3,4) t(1) s2(1) by simp
  have "next \<le> stop" using assms(5) by simp
  from backfill_loop_runs [OF assms(1,2) this, of cfg s2] obtain err s' ls where
    run: "backfill_loop env cfg window next stop s2 = Some (err, s')" "backfilled asked cfg next stop s2 err s' ls" by blast
  have mono: "unix next \<le> unix x" if "next \<le> x" for x
    using that by (simp add: unix_def second_def zdiv_mono1)
  have reqs: "asked (sy_pool s') = asked p @ map (request cfg) ls" "unix next \<le> sy_synced_until s'"
    using run(2) s2(3,4) by (auto simp: backfilled_def)
  have later: "\<forall>(urls, f) \<in> set (map (request cfg) ls). unix next \<le> lf_since f"
    using run(2) mono by (auto simp: backfilled_def request_def window_filter_def empty_sync_filter_def)
  have again: "unix next \<le> unix (initial_backfill_start cfg' now' (sy_synced_until s'))" if "0 < sy_synced_until s'" for cfg' now'
  proof -
    have "sy_synced_until s' * second \<le> initial_backfill_start cfg' now' (sy_synced_until s')"
      using that by (simp add: initial_backfill_start_def Let_def)
    then have "sy_synced_until s' \<le> unix (initial_backfill_start cfg' now' (sy_synced_until s'))"
      using zdiv_mono1 [of "sy_synced_until s' * second" _ second] by (simp add: unix_def second_def)
    then show ?thesis using reqs(2) by simp
  qed
  show ?thesis using eq s2(2) run(1) reqs later again by blast
qed

text \<open>The example: the other relay answers each request with the newest two of its events in the window.
  Asked for the seconds 0 to 7 it gives the events of seconds 7 and 6, which is a full window; asked
  for the second half again it gives the same two, and the event of second 5 is never received.\<close>

definition half_done :: "(event list, demo_pool) syncer" where
  "half_done = fold (handle_incoming_event demo_relay_env demo_sync_config) (take 2 demo_remote) demo_syncer"

theorem backfill_loses_products_witness:
  "\<exists>s2 err s'. backfill_loop demo_relay_env demo_sync_config (4 * 10 ^ 9) (4 * 10 ^ 9) (8 * 10 ^ 9) half_done =
       backfill_loop demo_relay_env demo_sync_config (4 * 10 ^ 9) (8 * 10 ^ 9) (8 * 10 ^ 9) s2 \<and>
     backfill_loop demo_relay_env demo_sync_config (4 * 10 ^ 9) (8 * 10 ^ 9) (8 * 10 ^ 9) s2 = Some (err, s') \<and>
     demo_product ''05'' 5 ''e'' ''1'' \<in> set demo_remote \<and> demo_product ''05'' 5 ''e'' ''1'' \<notin> set (sy_relay s2) \<and>
     8 \<le> sy_synced_until s'"
proof -
  let ?env = demo_relay_env and ?cfg = demo_sync_config and ?a = "4 * 10 ^ 9 :: int" and ?b = "8 * 10 ^ 9 :: int"
  let ?evs = "[demo_product ''07'' 7 ''g'' ''1'', demo_product ''06'' 6 ''f'' ''1'']"
  let ?p = "snd (sv_fetch ?env (sync_urls ?cfg) (window_filter ?cfg ?a ?b) (sy_pool half_done))"
  have "fst (sv_fetch ?env (sync_urls ?cfg) (window_filter ?cfg ?a ?b) (sy_pool half_done)) = ?evs" by code_simp
  then have fetch: "sv_fetch ?env (sync_urls ?cfg) (window_filter ?cfg ?a ?b) (sy_pool half_done) = (?evs, ?p)"
    by (metis prod.collapse)
  let ?s1 = "fold (handle_incoming_event ?env ?cfg) ?evs (half_done\<lparr>sy_pool := ?p\<rparr>)"
  have new: "ss_imported (sy_stats ?s1) - ss_imported (sy_stats half_done) < sc_fetch_limit ?cfg" by code_simp
  have lost: "demo_product ''05'' 5 ''e'' ''1'' \<notin> set (sy_relay ?s1)" by code_simp
  have until: "unix ?b = 8" by (simp add: unix_def second_def)
  have cancelled: "sv_cancelled ?env (sy_pool half_done) = None" by (simp add: demo_relay_env_def)
  have written: "write_sync_state ?env ?cfg (unix ?b) = None" by (simp add: write_sync_state_def demo_sync_config_def)
  have limit: "sc_fetch_limit ?cfg \<le> int (length ?evs)" by (simp add: demo_sync_config_def)
  have next': "?b = min ?b (?a + ?a)" by simp
  have remote: "demo_product ''05'' 5 ''e'' ''1'' \<in> set demo_remote" by (simp add: demo_remote_def)
  from backfill_loses_products [OF demo_accounts _ _ cancelled next' fetch limit refl new written]
  obtain s2 err s' where "backfill_loop ?env ?cfg ?a ?a ?b half_done = backfill_loop ?env ?cfg ?a ?b ?b s2"
    "sy_relay s2 = sy_relay ?s1" "backfill_loop ?env ?cfg ?a ?b ?b s2 = Some (err, s')" "unix ?b \<le> sy_synced_until s'"
    by auto
  with lost until remote show ?thesis by (intro exI [of _ s2] exI [of _ err] exI [of _ s']) simp
qed

end
