(* ===== verification/Spec2Isabelle.thy ===== *)
theory Spec2Isabelle
  imports Relay_Lifetimes Plugin_Host Legacy_Sync
begin

text \<open>
  A verification development for the Nostr relay of this repository: \<open>congee/\<close>, the production relay
  (Go, below \<open>congee/internal\<close>), and for the earlier marketplace relay in the root package, which adds
  product queries and gift-wrap protection to a vendored khatru by hooks.

  The program. A client opens a WebSocket and sends EVENT, REQ, CLOSE, AUTH, NEG-OPEN, NEG-MSG and
  NEG-CLOSE messages. The HTTP front end decides whether to accept the connection (global and per-IP
  limits, a rate limit keyed by the resolved client address). The read loop of a connection checks
  byte and message budgets, decodes the message and hands it to the handler that the enabled NIPs
  registered. EVENT runs a chain of validators (signature, NIP-42 policy, NIP-29 groups, NIP-17 gift
  wraps), saves the event and runs a chain of hooks, the last of which broadcasts it to matching
  subscriptions. REQ checks policy, lets plugins answer or reshape the request, registers a
  subscription, sends the first page of stored events and leaves the rest to a queue of page jobs;
  live events that arrive meanwhile are buffered until EOSE. NEG-OPEN starts a negentropy session
  over the items of a filter. A scheduler pulls missing events from other relays by the same
  protocol as their client. Every frame to a client goes through a bounded queue that a write loop
  empties; idle clients are swept; shutdown closes everything.

  Theories, bottom up, with the code they model (\<open>src/congee/internal/...\<close>):

  \<^item> \<open>Relay_Prelude\<close>: Go's int64 arithmetic (\<open>wrap64\<close>, \<open>sub64\<close>, \<open>neg64\<close>), strings as bytes, the functions
    of \<open>strings\<close> and \<open>encoding/hex\<close> that are called, maps as association lists, results as sums.
  \<^item> \<open>Nostr_Event\<close> (\<open>nostr/event.go\<close>, \<open>kinds.go\<close>, \<open>nip29.go\<close>), \<open>Nostr_Filter\<close> (\<open>filter.go\<close>) and
    \<open>Nostr_Message\<close> (\<open>message.go\<close> and the JSON methods): events, kinds, filters and the wire codec on JSON
    values. \<open>filter_spec\<close> states what a filter means; matching is shown equal to it.
  \<^item> \<open>Relay_Config\<close> (\<open>config/\<close>): the sections of the configuration, defaults, effective values, validation.
  \<^item> \<open>Limiter\<close> (\<open>relay/limiter.go\<close>, \<open>ip_conn_tracker.go\<close>): sliding windows, byte windows, the per-IP window
    set with its eviction, and the counts of open connections. The locale \<open>window_limiter\<close> gives the
    bound of both windows; the evicting set refines one window per address.
  \<^item> \<open>Store_Interface\<close> (\<open>storage/store.go\<close>): the operations as a record and their laws as the locales
    \<open>paged_store\<close>, \<open>id_lookup\<close> and \<open>save_store\<close>. \<open>Event_Store\<close> (\<open>storage/sqlevent/store.go\<close>, \<open>tag_json.go\<close>,
    \<open>tag_batch.go\<close>, \<open>filter_sql_limit.go\<close>, \<open>count_filter.go\<close>): the two tables and the statements on them,
    refined to a list of events (\<open>represents\<close>, \<open>save_spec\<close>, \<open>query_spec\<close>), and the interpretations of the
    three locales.
  \<^item> \<open>Req_Query\<close> (\<open>relay/req_query.go\<close>): the cursors of a REQ and the merging of pages, over any store.
  \<^item> \<open>Relay_Conn\<close> (\<open>handler.go\<close>, \<open>conn_idle.go\<close>, \<open>conn_shutdown.go\<close>, \<open>conn_telemetry.go\<close>, the AUTH state of
    \<open>nip42.go\<close>), \<open>Subscriptions\<close> (\<open>subscription.go\<close>), \<open>Snapshot\<close> and \<open>Snapshot_Delivery\<close> (\<open>readqueue.go\<close>): the
    state of a connection, of its subscriptions and of the page jobs. \<open>wire_step\<close> interleaves their
    pieces as the goroutines do and logs the frames each of them queues, with their origin; its
    invariants tie the log to the connections and give the order of frames and what was checked.
  \<^item> \<open>Wire_Frame\<close>: the locale \<open>wire_relation\<close>, an induction principle for relations between states that the
    elementary operations on the wire keep.
  \<^item> \<open>Relay_Policy\<close> (\<open>nip42.go\<close>, \<open>nip17.go\<close>, \<open>nip29.go\<close>, \<open>middleware.go\<close>): the server's state, the validators and
    the visibility of an event to a connection.
  \<^item> \<open>Relay_Handlers\<close> (\<open>nip01.go\<close>, \<open>hooks.go\<close>, \<open>notifier_fanout.go\<close>, \<open>plugin/hydrate.go\<close>): EVENT, REQ, CLOSE, AUTH
    and the hooks. \<open>Neg_Sessions\<close> (\<open>nip77.go\<close>, \<open>neg_sessions.go\<close>, \<open>negqueue.go\<close>): synchronisation sessions.
  \<^item> \<open>Upstream_Sync\<close> (\<open>nip77/upstream/\<close>): the client side of synchronisation and its scheduler.
  \<^item> \<open>Relay_Dispatch\<close> (\<open>nips/loader.go\<close>, \<open>registry.go\<close>, the read path of \<open>handler.go\<close>): which NIPs register
    what, and the path of one message. \<open>Relay_Http\<close> (\<open>relay.go\<close>): client addresses and routing.
  \<^item> \<open>Relay_Server\<close> (\<open>relay.go\<close>, \<open>conn_idle.go\<close>): admission, registration, teardown, shutdown and
    \<open>server_step\<close>, the step relation of the running server over all the operations above. The locale
    \<open>server_relation\<close> extends \<open>wire_relation\<close>: a relation kept by a few elementary changes is kept by every
    message, page, import and idle timer. \<open>Relay_Accounts\<close> and \<open>Relay_Lifetimes\<close> interpret it and prove
    the invariants of every reachable state.
  \<^item> \<open>Plugin_Match\<close> (\<open>plugin/match.go\<close>, \<open>convert.go\<close>, the wire types) and \<open>Plugin_Host\<close> (\<open>manager.go\<close>,
    \<open>instance.go\<close>, \<open>intercept_log.go\<close>): which plugins see what, the conversions to the wire and back, who
    answers a REQ (\<open>with_plugins\<close> ties the manager to the handlers), registration and settings, the log
    of interceptions, and \<open>loop_step\<close>, the life of a plugin's process under stops at any time.
  \<^item> \<open>Legacy_Giftwrap\<close> (\<open>giftwrap.go\<close>), \<open>Legacy_Products\<close> (\<open>scope2.go\<close>) and \<open>Legacy_Sync\<close> (\<open>sync.go\<close>): the earlier
    relay's hooks for gift wraps, its projection of products with queries, sorting and cursors, and its
    import of products from other relays.

  State and operations. A Go struct is a record with the same fields (prefixed, as \<open>cn_\<close> for \<open>Conn\<close>), a
  tagged set of alternatives a datatype, a map an association list, a channel a list with its
  capacity, a nil pointer \<open>None\<close>, an error a string in a sum or an option. A function that changes the
  server takes and returns its state; closures in chains (validators, hooks, handlers) are the
  constructors of datatypes with an interpreter. Readings of the clock and random values are
  arguments. What is not in the repository is a parameter with its laws stated where they are used:
  SHA-256, Schnorr and the JSON text (\<open>crypto\<close>), URL and address parsing (\<open>netlib\<close>), the text search and
  JSON parsing of SQLite (\<open>sql_env\<close>), the negentropy library (\<open>reconciler\<close>, \<open>neg_client\<close>), the answers
  of plugin processes (\<open>re_intercept\<close>, \<open>plugin_rpc\<close>) and the types of \<open>fiatjaf.com/nostr\<close>, number parsing and
  case mapping (\<open>legacy_lib\<close>, \<open>product_lib\<close>, \<open>sync_env\<close>); gorilla/websocket is used as documented. Integers are unbounded
  where no overflow can occur and are wrapped where one can (clock skews and ages).

  Interleaving. Inside \<open>wire_step\<close> a broadcast, a snapshot and the operations of a connection are cut
  into the pieces that take a lock, and the CLOSED answers of the handlers, which take none, may come
  at any point; at the level of \<open>server_step\<close> a message, a page job, one import or
  one timer is a step, and connections, jobs and timers interleave freely.

  Loops and fuel. Loops are structural recursions or recursions with a proved measure (the client's
  loops on the messages still to be read, trimming on the length). Only the loop over the remaining
  pages takes fuel, since a store that changes could feed it for ever; \<open>drain_remaining_pages_ends\<close>
  shows that for a store that does not change any fuel above the number of filters times (stored
  events + 1) is enough, and \<open>None\<close> (fuel used up) is not a result of any property. The backfill of
  \<open>Legacy_Sync\<close> is a \<open>partial_function\<close>; \<open>backfill_covers_range\<close> shows that it always returns.

  Properties. Messages and storage: codecs invert, matching and SQL agree, saving keeps NIP-01
  replacement, queries return exactly what is selected, paging equals the unpaged query and never
  repeats. Delivery: under every interleaving the frames of a subscription on the wire are stored
  events, EOSE, then live events, or end in CLOSED before EOSE; a client that keeps up receives all
  that the relay's own check lets it see; each frame was checked for its receiver. Policy: gift
  wraps and private groups reach only those entitled, AUTH is checked as documented up to the
  overflow found, a refused event leaves nothing behind but its answer and at most a challenge, each EVENT gets one answer, plugins cannot
  bypass policy. Server: counters agree with the connections, limits hold, subscriptions do not
  outlive connections, shutdown is final, stored events are authentic. Upstreams: imports are
  admissible, nothing about gift wraps is disclosed. Plugins: the first answer in configuration order
  decides, and filters come back unchanged exactly when their numbers fit the wire; a plugin stopped
  while it starts is shown to keep running. Earlier relay: gift wraps reach only their authenticated
  recipient, cursors enumerate a product query, the projection of products does not depend on their
  order, a backfill ends and its requests cover its range; and what goes wrong: strangers' deletions
  hide products, a restart can hide one, a window answered up to the limit is passed as done.

  Not modelled: HTTP, WebSocket framing, TLS and files (I/O); the text of JSON; the SQL engine;
  migrations and the other database back ends, whose statements have the semantics of the modelled
  ones; the writer queue; metrics, logging and the audit trail, which do not influence clients; the
  NIP-11 document and its images; the admin API and its web front end; plugin packages, their hooks and
  processes; identity files; the start-up commands; the vendored khatru; and of the earlier relay the
  registry of projections by function pointer and the state file.
\<close>

end
